(* ===== verification/Prelude.thy ===== *)
theory Prelude imports Main "HOL-Library.Char_ord" begin

section \<open>Shared vocabulary of the development\<close>

text \<open>
  The types and generic lemmas every component of the model uses: bytes and byte strings,
  the C character classes of the "C" locale, results that are a value or an error, the
  \<open>std::string\<close> searching and cutting operations, and the lemma collections
  (\<open>ebind_simps\<close>, \<open>charclass\<close>) the component proofs draw on.

  A byte is a HOL \<open>char\<close>; a \<open>std::string\<close>, a \<open>char *\<close> buffer with its length and the
  contents of a \<open>webstrada::string\<close> are \<open>char list\<close>s.
\<close>

named_theorems charclass \<open>definitions of the character classes\<close>
named_theorems ebind_simps \<open>evaluation of sequenced results\<close>

type_synonym bytes = "char list"

subsection \<open>Results\<close>

text \<open>
  \<open>UB\<close> is undefined behaviour of the C++ program (an access outside a block, through a
  dangling pointer); \<open>Throw\<close> carries the message of a thrown exception.
\<close>

datatype err = UB | Throw string

type_synonym 'a res = "err + 'a"

definition ebind :: "'e + 'a \<Rightarrow> ('a \<Rightarrow> 'e + 'b) \<Rightarrow> 'e + 'b" where
  "ebind m f = (case m of Inl e \<Rightarrow> Inl e | Inr x \<Rightarrow> f x)"

lemma ebind_Inl [simp, ebind_simps]: "ebind (Inl e) f = Inl e"
  by (simp add: ebind_def)

lemma ebind_Inr [simp, ebind_simps]: "ebind (Inr x) f = f x"
  by (simp add: ebind_def)

lemma ebind_eq_Inr: "ebind m f = Inr y \<longleftrightarrow> (\<exists>x. m = Inr x \<and> f x = Inr y)"
  by (cases m) auto

lemma ebind_eq_Inl: "ebind m f = Inl e \<longleftrightarrow> m = Inl e \<or> (\<exists>x. m = Inr x \<and> f x = Inl e)"
  by (cases m) auto

lemma ebind_assoc: "ebind (ebind m f) g = ebind m (\<lambda>x. ebind (f x) g)"
  by (cases m) auto

subsection \<open>Arithmetic on signed integers of a given width\<close>

text \<open>The result of an operation of the C++ program on signed integers of \<open>w\<close> bits: outside the range of the type it is
  undefined behaviour.\<close>

definition signed_fits :: "nat \<Rightarrow> int \<Rightarrow> bool" where
  "signed_fits w n \<longleftrightarrow> - (2 ^ (w - 1)) \<le> n \<and> n < 2 ^ (w - 1)"

definition signed_op :: "nat \<Rightarrow> int \<Rightarrow> int res" where
  "signed_op w n = (if signed_fits w n then Inr n else Inl UB)"

lemma signed_op_fits [simp]: "signed_fits w n \<Longrightarrow> signed_op w n = Inr n"
  by (simp add: signed_op_def)

lemma signed_op_eq: "signed_op w n = Inr m \<longleftrightarrow> signed_fits w n \<and> m = n"
  by (auto simp: signed_op_def)

lemma signed_op_UB: "signed_op w n = Inl e \<longleftrightarrow> \<not> signed_fits w n \<and> e = UB"
  by (auto simp: signed_op_def)

subsection \<open>Characters of the "C" locale\<close>

definition nul :: char where "nul = CHR 0x00"

definition is_digit :: "char \<Rightarrow> bool" where
  [charclass]: "is_digit c \<longleftrightarrow> CHR ''0'' \<le> c \<and> c \<le> CHR ''9''"

definition is_upper :: "char \<Rightarrow> bool" where
  [charclass]: "is_upper c \<longleftrightarrow> CHR ''A'' \<le> c \<and> c \<le> CHR ''Z''"

definition is_lower :: "char \<Rightarrow> bool" where
  [charclass]: "is_lower c \<longleftrightarrow> CHR ''a'' \<le> c \<and> c \<le> CHR ''z''"

definition is_alpha :: "char \<Rightarrow> bool" where
  [charclass]: "is_alpha c \<longleftrightarrow> is_upper c \<or> is_lower c"

definition is_alnum :: "char \<Rightarrow> bool" where
  [charclass]: "is_alnum c \<longleftrightarrow> is_alpha c \<or> is_digit c"

definition is_space :: "char \<Rightarrow> bool" where
  [charclass]: "is_space c \<longleftrightarrow> c = CHR '' '' \<or> CHR 0x09 \<le> c \<and> c \<le> CHR 0x0D"

definition to_lower :: "char \<Rightarrow> char" where
  "to_lower c = (if is_upper c then char_of (of_char c + 32 :: nat) else c)"

definition to_upper :: "char \<Rightarrow> char" where
  "to_upper c = (if is_lower c then char_of (of_char c - 32 :: nat) else c)"

lemma char_le_nat: "c \<le> d \<longleftrightarrow> (of_char c :: nat) \<le> of_char d"
  by (simp add: less_eq_char_def)

lemma of_char_bound [simp]: "(of_char (c :: char) :: nat) < 256"
  using nat_of_char_less_256 by blast

lemma to_lower_upper_idem [simp]: "to_lower (to_lower c) = to_lower c"
  by (auto simp: to_lower_def is_upper_def char_le_nat)

lemma to_upper_idem [simp]: "to_upper (to_upper c) = to_upper c"
  by (auto simp: to_upper_def is_lower_def char_le_nat)

end
