(* ===== verification/StringOps.thy ===== *)
theory StringOps imports Prelude "HOL-Library.List_Lexorder" "HOL-Library.Option_ord" begin

section \<open>The const member functions of \<open>webstrada::string\<close>\<close>

text \<open>
  Models the queries and conversions of \<open>src/string.cpp\<close> on the contents of a string, a byte list:
  an object without a block is \<open>[]\<close>. The C library routines they call (\<open>strstr\<close>, \<open>strcasecmp\<close>, ...)
  stop at a NUL (\<open>cstr\<close>). Positions are naturals: a negative one makes the code read before the
  block. Loops over an index are recursions on the index; the lemmas relate them to the list
  functions of the library, on which the other components rest.
\<close>

subsection \<open>C strings\<close>

definition cstr :: "bytes \<Rightarrow> bytes" where
  "cstr xs = takeWhile (\<lambda>c. c \<noteq> nul) xs"

fun strcasecmp :: "bytes \<Rightarrow> bytes \<Rightarrow> int" where
  "strcasecmp [] [] = 0"
| "strcasecmp [] (y # ys) = -1"
| "strcasecmp (x # xs) [] = 1"
| "strcasecmp (x # xs) (y # ys) =
     (if to_lower x = to_lower y then strcasecmp xs ys
      else if to_lower x < to_lower y then -1 else 1)"

definition prefix_at :: "bytes \<Rightarrow> bytes \<Rightarrow> nat \<Rightarrow> bool" where
  "prefix_at pat xs c \<longleftrightarrow> take (length pat) (drop c xs) = pat"

text \<open>\<open>strstr\<close>: the first occurrence at or after \<open>pos\<close>, as an offset from the start.\<close>

definition strstr :: "bytes \<Rightarrow> bytes \<Rightarrow> nat \<Rightarrow> int" where
  "strstr xs pat pos = (case List.find (\<lambda>c. prefix_at pat xs c) [pos..<Suc (length xs)] of
     None \<Rightarrow> -1 | Some c \<Rightarrow> int c)"

subsection \<open>Comparison\<close>

datatype ordering = Less | Equal | Greater

definition of_sign :: "int \<Rightarrow> ordering" where
  "of_sign r = (if r < 0 then Less else if 0 < r then Greater else Equal)"

text \<open>\<open>operator<=>\<close>: two null pointers are equal, a null pointer is less than any text.\<close>

definition spaceship :: "bytes \<Rightarrow> bytes \<Rightarrow> ordering" where
  "spaceship xs ys = (if xs = [] \<and> ys = [] then Equal else if xs = [] then Less
     else if ys = [] then Greater else of_sign (strcasecmp (cstr xs) (cstr ys)))"

definition compareCaseInsensitive :: "bytes \<Rightarrow> bytes \<Rightarrow> int" where
  "compareCaseInsensitive xs ys = (if xs = [] then (if ys = [] then 0 else -1)
     else if ys = [] then 1 else strcasecmp (cstr xs) (cstr ys))"

definition str_equals :: "bytes \<Rightarrow> bytes \<Rightarrow> bool" where
  "str_equals xs ys \<longleftrightarrow> (if xs = [] \<and> ys = [] then True
     else if length xs \<noteq> length ys then False else xs = ys)"

definition str_at :: "bytes \<Rightarrow> int \<Rightarrow> char res" where
  "str_at xs pos = (if pos < 0 then Inl (Throw ''Invalid position.'')
     else if int (length xs) \<le> pos then Inl (Throw ''Invalid position.'')
     else Inr (xs ! nat pos))"

subsection \<open>Searching\<close>

text \<open>\<open>contains\<close> hands the null data pointer of an empty argument to \<open>strstr\<close>.\<close>

definition str_contains :: "bytes \<Rightarrow> bytes \<Rightarrow> bool res" where
  "str_contains xs pat = (if xs = [] then Inr False else if pat = [] then Inl UB
     else Inr (strstr (cstr xs) (cstr pat) 0 \<noteq> -1))"

definition str_containsCaseInsensitive :: "bytes \<Rightarrow> bytes \<Rightarrow> bool res" where
  "str_containsCaseInsensitive xs pat = (if xs = [] then Inr False else if pat = [] then Inl UB
     else Inr (strstr (map to_lower (cstr xs)) (map to_lower (cstr pat)) 0 \<noteq> -1))"

definition str_endsWith :: "bytes \<Rightarrow> bytes \<Rightarrow> bool" where
  "str_endsWith xs pat \<longleftrightarrow> (if xs = [] then False else if length xs < length pat then False
     else strcasecmp (cstr (drop (length xs - length pat) xs)) (cstr pat) = 0)"

definition str_startWith :: "bytes \<Rightarrow> bytes \<Rightarrow> bool" where
  "str_startWith xs pat \<longleftrightarrow> (if pat = [] then True else if length xs < length pat then False
     else take (length pat) xs = pat)"

function index_loop :: "(nat \<Rightarrow> bool) \<Rightarrow> nat \<Rightarrow> nat \<Rightarrow> int" where
  "index_loop p c n = (if c < n then if p c then int c else index_loop p (c + 1) n else -1)"
  by pat_completeness auto
termination by (relation "measure (\<lambda>(p, c, n). n - c)") auto

fun rindex_loop :: "(nat \<Rightarrow> bool) \<Rightarrow> nat \<Rightarrow> int" where
  "rindex_loop p 0 = (if p 0 then 0 else -1)"
| "rindex_loop p (Suc c) = (if p (Suc c) then int (Suc c) else rindex_loop p c)"

definition str_indexOf_char :: "bytes \<Rightarrow> char \<Rightarrow> nat \<Rightarrow> int" where
  "str_indexOf_char xs ch pos = index_loop (\<lambda>c. xs ! c = ch) pos (length xs)"

definition str_indexOf :: "bytes \<Rightarrow> bytes \<Rightarrow> nat \<Rightarrow> int" where
  "str_indexOf xs pat pos = (if pat = [] then int pos
     else if int (length xs) - int pos < int (length pat) then -1
     else index_loop (prefix_at pat xs) pos (length xs - length pat + 1))"

definition str_lastIndexOf_char :: "bytes \<Rightarrow> char \<Rightarrow> int \<Rightarrow> int" where
  "str_lastIndexOf_char xs ch pos = (if xs = [] then -1 else
     rindex_loop (\<lambda>c. xs ! c = ch)
       (nat (if pos < 0 \<or> int (length xs) \<le> pos then int (length xs) - 1 else pos)))"

definition str_lastIndexOf :: "bytes \<Rightarrow> bytes \<Rightarrow> int \<Rightarrow> int" where
  "str_lastIndexOf xs pat pos = (if pat = [] then (if 0 \<le> pos then pos else int (length xs))
     else if length xs < length pat then -1
     else rindex_loop (\<lambda>c. \<not> length xs < c + length pat \<and> prefix_at pat xs c)
       (nat (if pos < 0 \<or> int (length xs) - int (length pat) < pos
             then int (length xs) - int (length pat) else pos)))"

subsection \<open>Cutting\<close>

definition str_left :: "bytes \<Rightarrow> int \<Rightarrow> bytes" where
  "str_left xs sz = (if 0 < sz then take (if length xs < nat sz then length xs else nat sz) xs
     else [])"

definition str_last :: "bytes \<Rightarrow> int \<Rightarrow> bytes" where
  "str_last xs sz = (if 0 < sz then
     (let n = (if length xs < nat sz then length xs else nat sz)
      in take n (drop (length xs - n) xs)) else [])"

text \<open>\<open>mid\<close> also adds a position and a size as \<open>int\<close>s; the callers in this development stay at most two bytes beyond the
  end of a string, so that the sum fits.\<close>

definition str_mid :: "bytes \<Rightarrow> nat \<Rightarrow> int \<Rightarrow> bytes" where
  "str_mid xs pos sz = (if 0 < sz then
     (let n = (if int (length xs) < int pos + sz then int (length xs) - int pos else sz)
      in if 0 < n then take (nat n) (drop pos xs) else []) else [])"

text \<open>\<open>first(size)\<close> copies without a bound: past the contents it reads the block's slack.\<close>

definition str_first :: "bytes \<Rightarrow> int \<Rightarrow> bytes res" where
  "str_first xs sz = (if xs = [] then Inr []
     else if sz < 0 \<or> int (length xs) < sz then Inl UB else Inr (take (nat sz) xs))"

function trim_start :: "bytes \<Rightarrow> nat \<Rightarrow> nat \<Rightarrow> nat" where
  "trim_start xs start stop =
     (if start < stop \<and> is_space (xs ! start) then trim_start xs (start + 1) stop else start)"
  by pat_completeness auto
termination by (relation "measure (\<lambda>(xs, start, stop). stop - start)") auto

function trim_end :: "bytes \<Rightarrow> nat \<Rightarrow> nat \<Rightarrow> nat" where
  "trim_end xs start stop =
     (if start < stop \<and> is_space (xs ! (stop - 1)) then trim_end xs start (stop - 1) else stop)"
  by pat_completeness auto
termination by (relation "measure (\<lambda>(xs, start, stop). stop)") auto

text \<open>\<open>trimmed\<close>; \<open>stop\<close> is the code's \<open>end + 1\<close>.\<close>

definition trimmed :: "bytes \<Rightarrow> bytes" where
  "trimmed xs = (let start = trim_start xs 0 (length xs); stop = trim_end xs start (length xs)
     in take (stop - start) (drop start xs))"

declare index_loop.simps [simp del] trim_start.simps [simp del] trim_end.simps [simp del]

lemma index_loop_bounds:
  "index_loop p c n \<noteq> -1 \<Longrightarrow> int c \<le> index_loop p c n \<and> index_loop p c n < int n"
proof (induction p c n rule: index_loop.induct)
  case (1 p c n)
  show ?case
  proof (cases "c < n \<and> \<not> p c")
    case True
    then have "index_loop p c n = index_loop p (c + 1) n" by (simp add: index_loop.simps [of p c n])
    with 1 True show ?thesis by simp
  next
    case False
    with 1(2) show ?thesis by (simp add: index_loop.simps [of p c n] split: if_splits)
  qed
qed

lemma indexOf_char_bounds:
  "str_indexOf_char xs ch pos \<noteq> -1 \<Longrightarrow>
   int pos \<le> str_indexOf_char xs ch pos \<and> str_indexOf_char xs ch pos < int (length xs)"
  unfolding str_indexOf_char_def by (rule index_loop_bounds)

subsection \<open>Splitting\<close>

text \<open>The \<open>while (1)\<close> loop of \<open>split\<close>, from position \<open>pos\<close>.\<close>

function split_loop :: "bytes \<Rightarrow> char \<Rightarrow> bool \<Rightarrow> nat \<Rightarrow> bytes list" where
  "split_loop xs sep keep pos =
     (if str_indexOf_char xs sep pos = -1
      then (if pos < length xs \<or> pos = length xs \<and> keep
            then [str_last xs (int (length xs) - int pos)] else [])
      else (if 0 < str_indexOf_char xs sep pos - int pos \<or> keep
            then [str_mid xs pos (str_indexOf_char xs sep pos - int pos)] else []) @
           split_loop xs sep keep (nat (str_indexOf_char xs sep pos + 1)))"
  by pat_completeness auto
termination
proof (relation "measure (\<lambda>(xs, sep, keep, pos). length xs - pos)")
  fix xs sep keep pos assume "str_indexOf_char xs sep pos \<noteq> -1"
  from indexOf_char_bounds [OF this]
  show "((xs, sep, keep, nat (str_indexOf_char xs sep pos + 1)), xs, sep, keep, pos)
      \<in> measure (\<lambda>(xs, sep, keep, pos). length xs - pos)" by auto
qed simp

declare split_loop.simps [simp del]

definition str_split :: "bytes \<Rightarrow> char \<Rightarrow> bool \<Rightarrow> bytes list" where
  "str_split xs sep keep = split_loop xs sep keep 0"

subsection \<open>Numbers\<close>

definition digits :: bytes where "digits = ''0123456789abcdef''"

function digits_loop :: "nat \<Rightarrow> nat \<Rightarrow> bytes \<Rightarrow> bytes" where
  "digits_loop base val ret = (if val = 0 \<or> base < 2 then ret
     else digits_loop base (val div base) (digits ! (val mod base) # ret))"
  by pat_completeness auto
termination by (relation "measure (\<lambda>(base, val, ret). val)") auto

declare digits_loop.simps [simp del]

definition number :: "int \<Rightarrow> int \<Rightarrow> bytes" where
  "number n base = (if n = 0 then ''0''
     else let b = (if 16 < base then 16 else base); b = (if b < 2 then 2 else b);
              ret = digits_loop (nat b) (nat \<bar>n\<bar>) []
          in if n < 0 then CHR ''-'' # ret else ret)"

text \<open>
  \<open>toInt\<close> in a 32-bit \<open>int\<close>: overflow is undefined. The result is the value and what is stored
  through \<open>ok\<close> (\<open>None\<close>: nothing). \<open>UNIMPLEMENTED\<close> builds an exception object and does not
  throw it, so the bases 1 and 8 yield 0 and success.
\<close>

definition mul_add :: "int \<Rightarrow> int \<Rightarrow> int \<Rightarrow> int res" where
  "mul_add base ret d = (if 2 ^ 31 \<le> ret * base \<or> 2 ^ 31 \<le> ret * base + d then Inl UB
     else Inr (ret * base + d))"

definition dec_digit :: "char \<Rightarrow> int option" where
  "dec_digit c = (if is_digit c then Some (int (of_char c) - 48) else None)"

definition hex_digit :: "char \<Rightarrow> int option" where
  "hex_digit c = (if is_digit c then Some (int (of_char c) - 48)
     else let c = to_upper c in if is_upper c then Some (int (of_char c) - 65 + 10) else None)"

fun toInt_loop :: "(char \<Rightarrow> int option) \<Rightarrow> int \<Rightarrow> int \<Rightarrow> bytes \<Rightarrow> (int \<times> bool option) res" where
  "toInt_loop dig base ret [] = Inr (ret, Some True)"
| "toInt_loop dig base ret (c # cs) = ebind (mul_add base ret 0) (\<lambda>_.
     case dig c of None \<Rightarrow> Inr (0, Some False)
     | Some d \<Rightarrow> ebind (mul_add base ret d) (\<lambda>r. toInt_loop dig base r cs))"

definition toInt :: "bytes \<Rightarrow> int \<Rightarrow> (int \<times> bool option) res" where
  "toInt xs base = (if base = 1 \<or> base = 8 then Inr (0, Some True)
     else if base = 10 then toInt_loop dec_digit 10 0 xs
     else if base = 16 then toInt_loop hex_digit 16 0 xs
     else Inr (0, None))"

subsection \<open>Escaping\<close>

definition html_escape_char :: "char \<Rightarrow> bytes" where
  "html_escape_char ch =
     (if ch = CHR ''<'' then ''&lt;'' else if ch = CHR ''>'' then ''&gt;''
      else if ch = CHR ''&'' then ''&amp;'' else if ch = CHR 0x22 then ''&quot;''
      else if ch = CHR 0x27 then ''&apos;'' else [ch])"

fun html_loop :: "bytes \<Rightarrow> bytes \<Rightarrow> bytes" where
  "html_loop ret [] = ret"
| "html_loop ret (c # cs) = html_loop (ret @ html_escape_char c) cs"

definition toHtmlEscaped :: "bytes \<Rightarrow> bytes" where
  "toHtmlEscaped xs = html_loop [] xs"

text \<open>
  \<open>percent_decode\<close>: \<open>replace(pos, 3, ch)\<close> on the private copy removes two bytes and stores one;
  \<open>(char)ch\<close> keeps the low eight bits.
\<close>

definition pct_step :: "bytes \<Rightarrow> nat \<Rightarrow> bytes" where
  "pct_step r pos = (if r ! pos = CHR ''+'' then r[pos := CHR '' '']
     else if r ! pos = CHR ''%'' then
       (let h = str_mid r (pos + 1) 2 in
        case toInt h 16 of
          Inr (ch, ok) \<Rightarrow> if ok = Some True \<and> length h = 2
            then (take (pos + 1) r @ drop (pos + 3) r)[pos := char_of (nat ch)] else r
        | Inl e \<Rightarrow> r)
     else r)"

lemma pct_step_length: "length (pct_step r pos) \<le> length r"
  by (auto simp: pct_step_def Let_def split: sum.split prod.split)

function pct_loop :: "bytes \<Rightarrow> nat \<Rightarrow> bytes" where
  "pct_loop r pos = (if pos < length r then pct_loop (pct_step r pos) (pos + 1) else r)"
  by pat_completeness auto
termination
proof (relation "measure (\<lambda>(r, pos). length r - pos)")
  fix r :: bytes and pos assume "pos < length r"
  with pct_step_length [of r pos] show "((pct_step r pos, pos + 1), r, pos) \<in> measure (\<lambda>(r, pos). length r - pos)"
    by auto
qed simp

declare pct_loop.simps [simp del]

definition percent_decode :: "bytes \<Rightarrow> bytes" where
  "percent_decode xs = pct_loop xs 0"

section \<open>The loops as list functions\<close>

lemma indexOf_char_drop:
  assumes "pos \<le> length xs"
  shows "str_indexOf_char xs ch pos = (if ch \<in> set (drop pos xs)
    then int (pos + length (takeWhile (\<lambda>c. c \<noteq> ch) (drop pos xs))) else -1)"
proof -
  have "index_loop (\<lambda>c. xs ! c = ch) c n = (if ch \<in> set (drop c xs)
      then int (c + length (takeWhile (\<lambda>c. c \<noteq> ch) (drop c xs))) else -1)"
    if "n = length xs" "c \<le> n" for c n
    using that
  proof (induction "\<lambda>c. xs ! c = ch" c n rule: index_loop.induct)
    case (1 c n)
    show ?case
    proof (cases "c < n")
      case True
      then have d: "drop c xs = xs ! c # drop (c + 1) xs" using 1(2) by (simp add: Cons_nth_drop_Suc)
      show ?thesis using 1 True unfolding d by (subst index_loop.simps) auto
    next
      case False
      with 1 show ?thesis by (subst index_loop.simps) simp
    qed
  qed
  with assms show ?thesis by (simp add: str_indexOf_char_def)
qed

text \<open>Splitting, structurally.\<close>

fun split_on :: "char \<Rightarrow> bytes \<Rightarrow> bytes list" where
  "split_on sep [] = [[]]"
| "split_on sep (c # cs) = (if c = sep then [] # split_on sep cs
     else (case split_on sep cs of [] \<Rightarrow> [[c]] | p # ps \<Rightarrow> (c # p) # ps))"

fun join_on :: "char \<Rightarrow> bytes list \<Rightarrow> bytes" where
  "join_on sep [] = []"
| "join_on sep [p] = p"
| "join_on sep (p # q # ps) = p @ sep # join_on sep (q # ps)"

lemma split_on_not_Nil [simp]: "split_on sep xs \<noteq> []"
  by (cases xs) (auto split: list.splits)

lemma split_on_none: "sep \<notin> set xs \<Longrightarrow> split_on sep xs = [xs]"
  by (induction xs) auto

lemma split_on_append: "sep \<notin> set p \<Longrightarrow> split_on sep (p @ sep # ys) = p # split_on sep ys"
  by (induction p) auto

lemma join_on_Cons: "ps \<noteq> [] \<Longrightarrow> join_on sep (p # ps) = p @ sep # join_on sep ps"
  by (cases ps) auto

lemma join_split_on: "join_on sep (split_on sep xs) = xs"
proof (induction xs)
  case (Cons c cs)
  show ?case
  proof (cases "split_on sep cs")
    case (Cons p ps)
    with Cons.IH show ?thesis by (cases ps) (auto simp: join_on_Cons)
  qed simp
qed simp

lemma split_join_on:
  "ps \<noteq> [] \<Longrightarrow> \<forall>p\<in>set ps. sep \<notin> set p \<Longrightarrow> split_on sep (join_on sep ps) = ps"
proof (induction ps rule: join_on.induct)
  case (3 sep p q ps)
  then show ?case by (simp add: split_on_append)
qed (auto simp: split_on_none)

lemma split_on_sep_free: "p \<in> set (split_on sep xs) \<Longrightarrow> sep \<notin> set p"
  by (induction xs arbitrary: p) (auto split: if_splits list.splits)

lemma last_mid_drop:
  "pos \<le> length xs \<Longrightarrow> str_last xs (int (length xs) - int pos) = drop pos xs"
  by (auto simp: str_last_def Let_def nat_diff_distrib')

lemma mid_takeWhile:
  assumes "pos + k \<le> length xs"
  shows "str_mid xs pos (int k) = take k (drop pos xs)"
  using assms by (auto simp: str_mid_def Let_def)

lemma takeWhile_less: "x \<in> set xs \<Longrightarrow> \<not> p x \<Longrightarrow> length (takeWhile p xs) < length xs"
  by (induction xs) auto

lemma split_loop_eq:
  "pos \<le> length xs \<Longrightarrow>
   split_loop xs sep keep pos = filter (\<lambda>p. keep \<or> p \<noteq> []) (split_on sep (drop pos xs))"
proof (induction xs sep keep pos rule: split_loop.induct)
  case (1 xs sep keep pos)
  let ?d = "drop pos xs" and ?i = "str_indexOf_char xs sep pos"
  note idx = indexOf_char_drop [OF 1(2), of sep]
  show ?case
  proof (cases "sep \<in> set ?d")
    case False
    with idx have i: "?i = -1" by simp
    show ?thesis
      using False 1(2) by (subst split_loop.simps) (auto simp: i split_on_none last_mid_drop)
  next
    case True
    let ?k = "length (takeWhile (\<lambda>c. c \<noteq> sep) ?d)"
    from True idx have i: "?i = int (pos + ?k)" by simp
    have lt: "?k < length ?d"
      using True by (intro takeWhile_less) auto
    then have d: "?d = takeWhile (\<lambda>c. c \<noteq> sep) ?d @ sep # drop (pos + ?k + 1) xs"
    proof -
      have "?d ! ?k = sep" using nth_length_takeWhile [OF lt] by simp
      moreover have "dropWhile (\<lambda>c. c \<noteq> sep) ?d = drop ?k ?d" by (rule dropWhile_eq_drop)
      moreover have "drop ?k ?d = ?d ! ?k # drop (?k + 1) ?d"
        using Cons_nth_drop_Suc [OF lt] by (metis Suc_eq_plus1)
      ultimately show ?thesis by (metis add.assoc add.commute drop_drop takeWhile_dropWhile_id)
    qed
    have mid: "str_mid xs pos (?i - int pos) = takeWhile (\<lambda>c. c \<noteq> sep) ?d"
    proof -
      have "str_mid xs pos (int ?k) = take ?k ?d" using lt 1(2) by (intro mid_takeWhile) auto
      also have "\<dots> = takeWhile (\<lambda>c. c \<noteq> sep) ?d" by (rule takeWhile_eq_take [symmetric])
      finally show ?thesis by (simp add: i)
    qed
    have IH: "split_loop xs sep keep (nat (?i + 1)) =
        filter (\<lambda>p. keep \<or> p \<noteq> []) (split_on sep (drop (pos + ?k + 1) xs))"
      using 1(1) 1(2) lt by (simp add: i nat_add_distrib)
    have so: "split_on sep ?d = takeWhile (\<lambda>c. c \<noteq> sep) ?d # split_on sep (drop (pos + ?k + 1) xs)"
      by (subst d) (rule split_on_append, auto dest: set_takeWhileD)
    have ne: "(int pos < ?i) = (takeWhile (\<lambda>c. c \<noteq> sep) ?d \<noteq> [])" by (simp add: i)
    have "?i \<noteq> -1" by (simp add: i)
    then show ?thesis
      unfolding so by (subst split_loop.simps) (simp add: IH mid ne)
  qed
qed

lemma str_split_eq: "str_split xs sep keep = filter (\<lambda>p. keep \<or> p \<noteq> []) (split_on sep xs)"
  using split_loop_eq [of 0 xs] by (simp add: str_split_def)

subsection \<open>Trimming\<close>

definition strip :: "bytes \<Rightarrow> bytes" where
  "strip xs = rev (dropWhile is_space (rev (dropWhile is_space xs)))"

lemma trim_start_drop:
  "start \<le> length xs \<Longrightarrow> drop (trim_start xs start (length xs)) xs = dropWhile is_space (drop start xs)
   \<and> trim_start xs start (length xs) \<le> length xs"
proof (induction xs start "length xs" rule: trim_start.induct)
  case (1 xs start)
  show ?case
  proof (cases "start < length xs")
    case True
    then have "drop start xs = xs ! start # drop (start + 1) xs" by (simp add: Cons_nth_drop_Suc)
    with 1 True show ?thesis by (subst (1 2) trim_start.simps) auto
  next
    case False
    with 1 show ?thesis by (subst (1 2) trim_start.simps) simp
  qed
qed

lemma trim_end_take:
  "start \<le> stop \<Longrightarrow> stop \<le> length xs \<Longrightarrow>
   take (trim_end xs start stop - start) (drop start xs) =
     rev (dropWhile is_space (rev (take (stop - start) (drop start xs))))"
proof (induction xs start stop rule: trim_end.induct)
  case (1 xs start stop)
  show ?case
  proof (cases "start < stop")
    case True
    then have "stop - start = Suc (stop - 1 - start)" by simp
    then have t: "take (stop - start) (drop start xs) =
        take (stop - 1 - start) (drop start xs) @ [xs ! (stop - 1)]"
      using 1 True by (simp add: take_Suc_conv_app_nth)
    show ?thesis
    proof (cases "is_space (xs ! (stop - 1))")
      case sp: True
      with True have "trim_end xs start stop = trim_end xs start (stop - 1)"
        by (subst trim_end.simps) simp
      with 1 True sp show ?thesis unfolding t by simp
    next
      case False
      then have te: "trim_end xs start stop = stop" by (subst trim_end.simps) simp
      show ?thesis unfolding te t using False by simp
    qed
  next
    case False
    with 1 show ?thesis by (subst trim_end.simps) simp
  qed
qed

lemma trimmed_eq: "trimmed xs = strip xs"
proof -
  let ?s = "trim_start xs 0 (length xs)"
  from trim_start_drop [of 0 xs] have s: "drop ?s xs = dropWhile is_space xs" "?s \<le> length xs" by auto
  have "take (trim_end xs ?s (length xs) - ?s) (drop ?s xs) =
      rev (dropWhile is_space (rev (take (length xs - ?s) (drop ?s xs))))"
    by (rule trim_end_take [OF s(2)]) simp
  moreover have "length xs - ?s = length (dropWhile is_space xs)"
    using arg_cong [OF s(1), of length] by simp
  ultimately show ?thesis by (simp add: trimmed_def Let_def strip_def s)
qed

lemma dropWhile_none: "\<forall>c\<in>set xs. \<not> p c \<Longrightarrow> dropWhile p xs = xs"
  by (cases xs) auto

lemma strip_no_space: "(\<forall>c\<in>set xs. \<not> is_space c) \<Longrightarrow> strip xs = xs"
  by (simp add: strip_def dropWhile_none)

lemma strip_ends:
  assumes "strip xs \<noteq> []" shows "\<not> is_space (hd (strip xs)) \<and> \<not> is_space (last (strip xs))"
proof -
  let ?d = "dropWhile is_space xs"
  let ?e = "dropWhile is_space (rev ?d)"
  have e: "?e \<noteq> []" using assms by (simp add: strip_def)
  then have l: "\<not> is_space (last (strip xs))" using hd_dropWhile [of is_space "rev ?d"]
    by (simp add: strip_def last_rev)
  obtain ys where ys: "rev ?d = ys @ ?e" by (metis takeWhile_dropWhile_id)
  then have d: "?d = strip xs @ rev ys" unfolding strip_def by (metis rev_append rev_rev_ident)
  then have "hd ?d = hd (strip xs)" using assms by (metis hd_append2)
  moreover have "?d \<noteq> []" using d assms by auto
  ultimately show ?thesis using l hd_dropWhile by metis
qed

lemma dropWhile_hd_none: "xs \<noteq> [] \<Longrightarrow> \<not> p (hd xs) \<Longrightarrow> dropWhile p xs = xs"
  by (cases xs) auto

lemma strip_idem: "strip (strip xs) = strip xs"
proof (cases "strip xs = []")
  case True
  show ?thesis unfolding True by (simp add: strip_def)
next
  case False
  from strip_ends [OF this] False show ?thesis
    by (simp add: strip_def [of "strip xs"] dropWhile_hd_none hd_rev)
qed

subsection \<open>Numbers\<close>

lemma digits_hex: "d < 16 \<Longrightarrow> hex_digit (digits ! d) = Some (int d)"
proof -
  have "list_all (\<lambda>d. hex_digit (digits ! d) = Some (int d)) [0..<16]" by code_simp
  then show "d < 16 \<Longrightarrow> hex_digit (digits ! d) = Some (int d)" by (simp add: list_all_iff)
qed

lemma digits_dec: "d < 10 \<Longrightarrow> dec_digit (digits ! d) = Some (int d)"
proof -
  have "list_all (\<lambda>d. dec_digit (digits ! d) = Some (int d)) [0..<10]" by code_simp
  then show "d < 10 \<Longrightarrow> dec_digit (digits ! d) = Some (int d)" by (simp add: list_all_iff)
qed

lemma toInt_digits:
  assumes dig: "\<And>d. d < b \<Longrightarrow> dig (digits ! d) = Some (int d)" and b: "2 \<le> b" and v: "int v < 2 ^ 31"
  shows "toInt_loop dig (int b) 0 (digits_loop b v ret) = toInt_loop dig (int b) (int v) ret"
  using b v dig
proof (induction b v ret rule: digits_loop.induct)
  case (1 base val ret)
  show ?case
  proof (cases "val = 0")
    case True
    then show ?thesis by (subst digits_loop.simps) simp
  next
    case False
    have eq: "int (val div base) * int base + int (val mod base) = int val"
      by (metis div_mult_mod_eq of_nat_add of_nat_mult)
    then have le: "int (val div base) * int base \<le> int val" by linarith
    have "val div base \<le> val" by (rule div_le_dividend)
    then have "int (val div base) < 2 ^ 31" using 1(3) by linarith
    with 1 False have "toInt_loop dig (int base) 0
        (digits_loop base (val div base) (digits ! (val mod base) # ret)) =
      toInt_loop dig (int base) (int (val div base)) (digits ! (val mod base) # ret)" by simp
    also have "\<dots> = toInt_loop dig (int base) (int val) ret"
    proof -
      have "dig (digits ! (val mod base)) = Some (int (val mod base))" using 1(2,4) by simp
      moreover have "mul_add (int base) (int (val div base)) 0 = Inr (int (val div base) * int base)"
        using le 1(3) unfolding mul_add_def by simp
      moreover have "mul_add (int base) (int (val div base)) (int (val mod base)) = Inr (int val)"
        using le 1(3) unfolding mul_add_def eq by simp
      ultimately show ?thesis by simp
    qed
    finally show ?thesis using False 1(2) by (subst digits_loop.simps) simp
  qed
qed

subsection \<open>Escaping\<close>

lemma toHtmlEscaped_eq: "toHtmlEscaped xs = concat (map html_escape_char xs)"
proof -
  have "html_loop ret xs = ret @ concat (map html_escape_char xs)" for ret
    by (induction xs arbitrary: ret) simp_all
  then show ?thesis by (simp add: toHtmlEscaped_def)
qed

lemma html_char_prefix_free:
  "html_escape_char c @ xs = html_escape_char d @ ys \<Longrightarrow> c = d"
  by (auto simp: html_escape_char_def split: if_splits)

text \<open>Percent decoding, structurally.\<close>

fun pct :: "bytes \<Rightarrow> bytes" where
  "pct [] = []"
| "pct (c # cs) = (if c = CHR ''+'' then CHR '' '' # pct cs
     else if c = CHR ''%'' then
       (case cs of a # b # r \<Rightarrow> (case (hex_digit a, hex_digit b) of
            (Some x, Some y) \<Rightarrow> char_of (nat (x * 16 + y)) # pct r | _ \<Rightarrow> c # pct cs)
        | _ \<Rightarrow> c # pct cs)
     else c # pct cs)"

lemma hex_digit_range: "hex_digit c = Some x \<Longrightarrow> 0 \<le> x \<and> x < 36"
  by (auto simp: hex_digit_def Let_def charclass less_eq_char_def split: if_splits)

lemma toInt_hex2:
  "toInt [a, b] 16 = (case hex_digit a of None \<Rightarrow> Inr (0, Some False)
     | Some x \<Rightarrow> (case hex_digit b of None \<Rightarrow> Inr (0, Some False)
        | Some y \<Rightarrow> Inr (x * 16 + y, Some True)))"
  using hex_digit_range [of a] hex_digit_range [of b]
  by (auto simp: toInt_def mul_add_def split: option.split)

lemma mid2: "str_mid r pos 2 = (case drop pos r of [] \<Rightarrow> [] | [a] \<Rightarrow> [a] | a # b # ys \<Rightarrow> [a, b])"
proof (cases "pos < length r")
  case False
  then show ?thesis by (simp add: str_mid_def)
next
  case True
  then obtain a ys where d: "drop pos r = a # ys" by (metis Cons_nth_drop_Suc)
  have len: "length r = pos + Suc (length ys)" using arg_cong [OF d, of length] True by simp
  show ?thesis using len d by (cases ys) (auto simp: str_mid_def Let_def)
qed

lemma pct_pass:
  assumes "\<nexists>a b ys x y. rest = a # b # ys \<and> hex_digit a = Some x \<and> hex_digit b = Some y"
  shows "pct (CHR ''%'' # rest) = CHR ''%'' # pct rest"
proof (cases rest)
  case (Cons a r1)
  then show ?thesis
  proof (cases r1)
    case (Cons b ys)
    with \<open>rest = a # r1\<close> assms have "hex_digit a = None \<or> hex_digit b = None" by auto
    with Cons \<open>rest = a # r1\<close> show ?thesis
      by (subst pct.simps(2)) (auto simp del: pct.simps split: option.split)
  qed simp
qed simp

lemma pct_loop_eq: "pos \<le> length r \<Longrightarrow> pct_loop r pos = take pos r @ pct (drop pos r)"
proof (induction r pos rule: pct_loop.induct)
  case (1 r pos)
  show ?case
  proof (cases "pos < length r")
    case False
    with 1 show ?thesis by (subst pct_loop.simps) simp
  next
    case True
    let ?c = "r ! pos" and ?rest = "drop (pos + 1) r"
    have d: "drop pos r = ?c # ?rest" using True by (simp add: Cons_nth_drop_Suc)
    have tk: "take (pos + 1) r = take pos r @ [?c]" using True by (simp add: take_Suc_conv_app_nth)
    have le: "pos + 1 \<le> length (pct_step r pos)"
      using True by (auto simp: pct_step_def Let_def split: sum.split prod.split)
    have step: "pct_loop r pos = take (pos + 1) (pct_step r pos) @ pct (drop (pos + 1) (pct_step r pos))"
      using 1 True le by (subst pct_loop.simps) simp
    consider "?c = CHR ''+''" | "?c \<noteq> CHR ''+''" "?c \<noteq> CHR ''%''" | "?c = CHR ''%''" by auto
    then show ?thesis
    proof cases
      case 1
      then show ?thesis using True unfolding step d
        by (simp add: pct_step_def take_Suc_conv_app_nth)
    next
      case 2
      then show ?thesis using tk unfolding step d by (simp add: pct_step_def)
    next
      case 3
      show ?thesis
      proof (cases "\<exists>a b ys x y. ?rest = a # b # ys \<and> hex_digit a = Some x \<and> hex_digit b = Some y")
        case True
        then obtain a b ys x y where h: "?rest = a # b # ys" "hex_digit a = Some x" "hex_digit b = Some y"
          by blast
        then have "str_mid r (pos + 1) 2 = [a, b]" by (simp add: mid2)
        moreover have "drop (pos + 3) r = ys"
          using arg_cong [OF h(1), of "drop 2"] by (simp add: numeral_eq_Suc)
        ultimately have "pct_step r pos = take pos r @ [char_of (nat (x * 16 + y))] @ ys"
          using 3 tk \<open>pos < length r\<close> h(2,3) by (simp add: pct_step_def Let_def toInt_hex2 list_update_append)
        then show ?thesis using 3 h \<open>pos < length r\<close> unfolding step d by (simp add: min_absorb2)
      next
        case False
        have "pct_step r pos = r"
        proof (cases "?rest")
          case Nil
          then show ?thesis using 3 by (simp add: pct_step_def mid2 split: sum.split prod.split)
        next
          case (Cons a r1)
          show ?thesis
          proof (cases r1)
            case Nil
            with Cons 3 show ?thesis by (simp add: pct_step_def mid2 Let_def split: sum.split prod.split)
          next
            case (Cons b ys)
            with \<open>?rest = a # r1\<close> False have "hex_digit a = None \<or> hex_digit b = None" by auto
            then have "toInt [a, b] 16 = Inr (0, Some False)"
              by (auto simp: toInt_hex2 split: option.split)
            with Cons \<open>?rest = a # r1\<close> 3 show ?thesis by (simp add: pct_step_def mid2)
          qed
        qed
        moreover have "pct (?c # ?rest) = ?c # pct ?rest"
          unfolding 3 using False by (intro pct_pass) blast
        ultimately show ?thesis using tk unfolding step d by simp
      qed
    qed
  qed
qed

lemma pct_loop_length: "length (pct_loop r pos) \<le> length r"
proof (induction r pos rule: pct_loop.induct)
  case (1 r pos)
  then show ?case
    using pct_step_length [of r pos] by (subst pct_loop.simps) (auto intro: le_trans)
qed

lemma percent_decode_eq: "percent_decode xs = pct xs"
  using pct_loop_eq [of 0 xs] by (simp add: percent_decode_def)

subsection \<open>Keys of ordered maps\<close>

text \<open>
  Scopes and structs are \<open>std::map\<close>s keyed by strings and compared with \<open>operator<=>\<close>. Such a
  comparison has to be a strict weak order; its equivalence classes are the keys.
\<close>

locale strict_weak =
  fixes lt :: "'k \<Rightarrow> 'k \<Rightarrow> bool"
  assumes irrefl: "\<not> lt x x"
    and trans: "lt x y \<Longrightarrow> lt y z \<Longrightarrow> lt x z"
    and incomp_trans: "\<not> lt x y \<Longrightarrow> \<not> lt y x \<Longrightarrow> \<not> lt y z \<Longrightarrow> \<not> lt z y \<Longrightarrow> \<not> lt x z \<and> \<not> lt z x"
begin

definition same :: "'k \<Rightarrow> 'k \<Rightarrow> bool" where
  "same x y \<longleftrightarrow> \<not> lt x y \<and> \<not> lt y x"

lemma asym: "lt x y \<Longrightarrow> \<not> lt y x"
  using trans irrefl by blast

lemma same_refl: "same x x"
  by (simp add: same_def irrefl)

lemma same_sym: "same x y \<Longrightarrow> same y x"
  by (simp add: same_def)

lemma same_trans: "same x y \<Longrightarrow> same y z \<Longrightarrow> same x z"
  using incomp_trans unfolding same_def by blast

lemma lt_same: "lt x y \<Longrightarrow> same y z \<Longrightarrow> lt x z"
  using trans asym incomp_trans unfolding same_def by blast

lemma same_lt: "same x y \<Longrightarrow> lt y z \<Longrightarrow> lt x z"
  using trans asym incomp_trans unfolding same_def by blast

end

definition key_of :: "bytes \<Rightarrow> bytes option" where
  "key_of xs = (if xs = [] then None else Some (map to_lower (cstr xs)))"

lemma strcasecmp_lex:
  "strcasecmp xs ys = (if map to_lower xs = map to_lower ys then 0
     else if map to_lower xs < map to_lower ys then -1 else 1)"
  by (induction xs ys rule: strcasecmp.induct) auto

lemma spaceship_key:
  "spaceship xs ys = (if key_of xs = key_of ys then Equal else if key_of xs < key_of ys then Less else Greater)"
  by (auto simp: spaceship_def key_of_def strcasecmp_lex of_sign_def)

definition key_less :: "bytes \<Rightarrow> bytes \<Rightarrow> bool" where
  "key_less xs ys \<longleftrightarrow> spaceship xs ys = Less"

lemma key_less_iff: "key_less xs ys \<longleftrightarrow> key_of xs < key_of ys"
  by (auto simp: key_less_def spaceship_key)

interpretation map_key: strict_weak key_less
  by unfold_locales (auto simp: key_less_iff)

lemma map_key_same: "map_key.same xs ys \<longleftrightarrow> key_of xs = key_of ys"
  by (auto simp: map_key.same_def key_less_iff)

text \<open>A string as a map key is a preorder of the library.\<close>

datatype cfkey = Key bytes

instantiation cfkey :: preorder
begin

fun less_cfkey :: "cfkey \<Rightarrow> cfkey \<Rightarrow> bool" where
  "less_cfkey (Key x) (Key y) = key_less x y"

fun less_eq_cfkey :: "cfkey \<Rightarrow> cfkey \<Rightarrow> bool" where
  "less_eq_cfkey (Key x) (Key y) = (spaceship x y \<noteq> Greater)"

instance
proof
  fix x y z :: cfkey
  show "x < y \<longleftrightarrow> x \<le> y \<and> \<not> y \<le> x"
    by (cases x; cases y) (auto simp: key_less_def spaceship_key split: if_splits)
  show "x \<le> x" by (cases x) (simp add: spaceship_key)
  show "x \<le> y \<Longrightarrow> y \<le> z \<Longrightarrow> x \<le> z"
    by (cases x; cases y; cases z) (auto simp: spaceship_key split: if_splits)
qed

end

section \<open>Properties\<close>

text \<open>\<open>split\<close> cuts at every separator: with \<open>keep_empty\<close> the pieces joined by the separator are
  the original text and none contains it; without, exactly the empty pieces are missing; and text
  joined from separator-free pieces splits back into them.\<close>

theorem split_correct:
  "join_on sep (str_split xs sep True) = xs \<and> (\<forall>p\<in>set (str_split xs sep True). sep \<notin> set p) \<and>
   str_split xs sep False = filter (\<lambda>p. p \<noteq> []) (str_split xs sep True) \<and>
   (ps \<noteq> [] \<and> list_all (\<lambda>p. sep \<notin> set p) ps \<longrightarrow> str_split (join_on sep ps) sep True = ps)"
  using split_join_on [of ps sep] by (auto simp: str_split_eq join_split_on list_all_iff dest: split_on_sep_free)

theorem split_correct_witness:
  "str_split (join_on CHR ''/'' [''a'', [], ''bc'']) CHR ''/'' True = [''a'', [], ''bc'']"
  using split_correct [of "CHR ''/''" "[]" "[''a'', [], ''bc'']"] by simp

text \<open>\<open>trimmed\<close>, with its two index loops, removes exactly the white space at both ends, and
  trimming again changes nothing.\<close>

theorem trimmed_correct:
  "trimmed xs = rev (dropWhile is_space (rev (dropWhile is_space xs))) \<and> trimmed (trimmed xs) = trimmed xs"
  using strip_idem [of xs] by (simp add: trimmed_eq) (simp add: strip_def)

text \<open>a non-negative \<open>int\<close> printed by \<open>number\<close> in base 10 or 16 is read back by \<open>toInt\<close>
  without overflow; a negative one printed in base 10 is refused.\<close>

theorem number_toInt:
  assumes "0 \<le> n" "n < 2 ^ 31"
  shows "toInt (number n 10) 10 = Inr (n, Some True) \<and> toInt (number n 16) 16 = Inr (n, Some True) \<and>
    (0 < n \<longrightarrow> toInt (number (- n) 10) 10 = Inr (0, Some False))"
proof (cases "n = 0")
  case True
  have "toInt_loop dec_digit 10 0 ''0'' = Inr (0, Some True)" "toInt_loop hex_digit 16 0 ''0'' = Inr (0, Some True)"
    by code_simp+
  with True show ?thesis by (simp add: number_def toInt_def)
next
  case False
  with assms have v: "int (nat n) < 2 ^ 31" "int (nat n) = n" by auto
  have "toInt_loop dec_digit 10 0 (digits_loop 10 (nat n) []) = Inr (n, Some True)"
    using toInt_digits [of 10 dec_digit "nat n" "[]", OF digits_dec _ v(1)] v(2) by simp
  moreover have "toInt_loop hex_digit 16 0 (digits_loop 16 (nat n) []) = Inr (n, Some True)"
    using toInt_digits [of 16 hex_digit "nat n" "[]", OF digits_hex _ v(1)] v(2) by simp
  moreover have "dec_digit CHR ''-'' = None" by code_simp
  ultimately show ?thesis using False assms by (simp add: number_def toInt_def Let_def mul_add_def)
qed

theorem number_toInt_witness:
  "toInt (number 255 10) 10 = Inr (255, Some True) \<and> toInt (number 255 16) 16 = Inr (255, Some True) \<and>
   toInt (number (- 255) 10) 10 = Inr (0, Some False)"
  using number_toInt [of 255] by simp

text \<open>HTML escaping is safe and loses nothing: no markup character is left in the output and
  different texts have different escapes.\<close>

theorem html_escape_safe:
  "set (toHtmlEscaped xs) \<inter> {CHR ''<'', CHR ''>'', CHR 0x22, CHR 0x27} = {} \<and>
   (toHtmlEscaped xs = toHtmlEscaped ys \<longleftrightarrow> xs = ys)"
proof -
  have "set (html_escape_char c) \<inter> {CHR ''<'', CHR ''>'', CHR 0x22, CHR 0x27} = {}" for c
    by (simp add: html_escape_char_def)
  moreover have ne: "html_escape_char c \<noteq> []" for c by (simp add: html_escape_char_def)
  have "concat (map html_escape_char xs) = concat (map html_escape_char ys) \<Longrightarrow> xs = ys"
  proof (induction xs arbitrary: ys)
    case Nil
    then show ?case using ne by (cases ys) auto
  next
    case (Cons c cs)
    then obtain d ds where ys: "ys = d # ds" using ne by (cases ys) auto
    with Cons.prems have "c = d" by (auto dest: html_char_prefix_free)
    with Cons ys show ?case by auto
  qed
  ultimately show ?thesis by (auto simp: toHtmlEscaped_eq)
qed

text \<open>percent decoding in place, which shortens the text while it scans it, decodes as a
  single pass over the original: plus signs are blanks, a percent sign with two digits is one
  byte, any other percent sign stays. Every letter counts as a digit, so an invalid escape such as
  percent z z is decoded too.\<close>

theorem percent_decode_correct:
  "percent_decode xs = pct xs \<and> length (percent_decode xs) \<le> length xs \<and> percent_decode ''%zz'' = ''S''"
proof -
  have "pct ''%zz'' = ''S''" by code_simp
  then show ?thesis using pct_loop_length [of xs 0]
    by (simp add: percent_decode_eq [symmetric]) (simp add: percent_decode_def)
qed

text \<open>\<open>operator<=>\<close> orders map keys consistently: less-than is a strict weak order, two keys are
  the same entry exactly when they agree up to ASCII case (up to the first NUL, the empty key apart
  from every other), and exchanging the operands mirrors the result.\<close>

theorem key_order_consistent:
  "\<not> key_less x x \<and> (key_less x y \<and> key_less y z \<longrightarrow> key_less x z) \<and>
   (spaceship x y = Equal \<longleftrightarrow> key_of x = key_of y) \<and>
   (spaceship x y = Less \<longleftrightarrow> spaceship y x = Greater) \<and>
   (key_less x y \<and> spaceship y z = Equal \<longrightarrow> key_less x z)"
proof (intro conjI impI)
  show "\<not> key_less x x" by (rule map_key.irrefl)
  show "key_less x y \<and> key_less y z \<Longrightarrow> key_less x z" by (blast intro: map_key.trans)
  show "(spaceship x y = Equal) = (key_of x = key_of y)" by (simp add: spaceship_key)
  show "(spaceship x y = Less) = (spaceship y x = Greater)" by (auto simp: spaceship_key)
  show "key_less x y \<and> spaceship y z = Equal \<Longrightarrow> key_less x z"
    by (auto intro: map_key.lt_same simp: map_key_same spaceship_key split: if_splits)
qed

theorem key_order_consistent_witness:
  "key_less ''B'' ''c'' \<and> key_less ''a'' ''c''"
proof -
  have "key_less ''a'' ''B''" "key_less ''B'' ''c''"
    by (simp_all add: key_less_def spaceship_def of_sign_def cstr_def nul_def to_lower_def is_upper_def
      less_eq_char_def less_char_def char_of_def bit_0)
  with key_order_consistent [of "''a''" "''B''" "''c''"] show ?thesis by blast
qed

end
