(* ===== verification/Codecs.thy ===== *)
theory Codecs imports StringOps "HOL-Library.Word" begin

unbundle bit_operations_syntax

section \<open>Binary codecs: hex, base64, UU and URL encoding\<close>

text \<open>
  Models the encoders and decoders of \<open>src/cffunctions/common.cpp\<close> (\<open>binaryEncode*\<close>,
  \<open>binaryDecode*\<close>), the dispatch of \<open>fn_binaryencode.cpp\<close> and \<open>fn_binarydecode.cpp\<close>, the byte loops of
  \<open>fn_urlencodedformat.cpp\<close> and \<open>fn_encodeforurl.cpp\<close>, and \<open>urlDecodeString\<close> of
  \<open>src/core/core_misc.cpp\<close>. A \<open>std::byte\<close> and a character are both a \<open>char\<close>. The \<open>unsigned int\<close>
  accumulators hold at most 24 bits and are naturals; shifts and masks are the bit operations.
\<close>

definition byte :: "nat \<Rightarrow> char" where
  "byte n = char_of (n AND 255)"

abbreviation code :: "char \<Rightarrow> nat" where "code c \<equiv> of_char c"

subsection \<open>Hex\<close>

definition cryptoHexDigits :: bytes where "cryptoHexDigits = ''0123456789ABCDEF''"

definition binaryDecodeHexVal :: "char \<Rightarrow> nat option" where
  "binaryDecodeHexVal c = (if CHR ''0'' \<le> c \<and> c \<le> CHR ''9'' then Some (code c - 48)
     else if CHR ''a'' \<le> c \<and> c \<le> CHR ''f'' then Some (code c - 97 + 10)
     else if CHR ''A'' \<le> c \<and> c \<le> CHR ''F'' then Some (code c - 65 + 10)
     else None)"

definition blank :: "char \<Rightarrow> bool" where
  "blank c \<longleftrightarrow> c = CHR '' '' \<or> c = CHR 0x09 \<or> c = CHR 0x0D \<or> c = CHR 0x0A"

fun hex_decode_loop :: "nat option \<Rightarrow> bytes \<Rightarrow> bytes \<Rightarrow> bytes res" where
  "hex_decode_loop hi out [] = (if hi \<noteq> None
     then Inl (Throw ''BinaryDecode: Hex string must contain an even number of characters'') else Inr out)"
| "hex_decode_loop hi out (c # cs) = (if blank c then hex_decode_loop hi out cs
     else case binaryDecodeHexVal c of
       None \<Rightarrow> Inl (Throw (''BinaryDecode: Invalid hex character '' @ [CHR 0x27, c, CHR 0x27]))
     | Some v \<Rightarrow> (case hi of None \<Rightarrow> hex_decode_loop (Some v) out cs
         | Some h \<Rightarrow> hex_decode_loop None (out @ [byte (push_bit 4 h OR v)]) cs))"

definition binaryDecodeHex :: "bytes \<Rightarrow> bytes res" where
  "binaryDecodeHex s = hex_decode_loop None [] s"

definition hex_pair :: "char \<Rightarrow> bytes" where
  "hex_pair c = [cryptoHexDigits ! drop_bit 4 (code c), cryptoHexDigits ! (code c AND 15)]"

fun hex_encode_loop :: "bytes \<Rightarrow> bytes \<Rightarrow> bytes" where
  "hex_encode_loop out [] = out"
| "hex_encode_loop out (c # cs) = hex_encode_loop (out @ hex_pair c) cs"

definition binaryEncodeHex :: "bytes \<Rightarrow> bytes" where
  "binaryEncodeHex bs = hex_encode_loop [] bs"

subsection \<open>Base64\<close>

definition b64_alphabet :: "bool \<Rightarrow> bytes" where
  "b64_alphabet urlSafe = (if urlSafe
     then ''ABCDEFGHIJKLMNOPQRSTUVWXYZabcdefghijklmnopqrstuvwxyz0123456789-_''
     else ''ABCDEFGHIJKLMNOPQRSTUVWXYZabcdefghijklmnopqrstuvwxyz0123456789+/'')"

definition binaryDecodeBase64Val :: "bool \<Rightarrow> char \<Rightarrow> nat option" where
  "binaryDecodeBase64Val urlSafe c =
    (if CHR ''A'' \<le> c \<and> c \<le> CHR ''Z'' then Some (code c - 65)
     else if CHR ''a'' \<le> c \<and> c \<le> CHR ''z'' then Some (code c - 97 + 26)
     else if CHR ''0'' \<le> c \<and> c \<le> CHR ''9'' then Some (code c - 48 + 52)
     else if c = CHR ''+'' then Some 62 else if c = CHR ''/'' then Some 63
     else if urlSafe \<and> c = CHR ''-'' then Some 62 else if urlSafe \<and> c = CHR ''_'' then Some 63
     else None)"

definition b64_invalid :: "char \<Rightarrow> err" where
  "b64_invalid c = Throw (''BinaryDecode: Invalid base64 character '' @ [CHR 0x27, c, CHR 0x27])"

text \<open>The decoding loop on the text from index \<open>i\<close> on.\<close>

function b64_decode_loop :: "bool \<Rightarrow> bytes \<Rightarrow> bytes \<Rightarrow> bytes res" where
  "b64_decode_loop u out [] = Inr out"
| "b64_decode_loop u out (x # xs) = (if x = CHR ''='' then
      (if list_ex (\<lambda>y. y \<noteq> CHR ''='') xs then Inl (Throw ''BinaryDecode: Invalid base64 padding'')
       else if 2 < length (x # xs) then Inl (Throw ''BinaryDecode: Invalid base64 padding'')
       else Inr out)
    else case binaryDecodeBase64Val u x of None \<Rightarrow> Inl (b64_invalid x)
    | Some c0 \<Rightarrow> (case xs of [] \<Rightarrow> Inl (Throw ''BinaryDecode: Invalid base64 length'')
      | y # ys \<Rightarrow> (case binaryDecodeBase64Val u y of None \<Rightarrow> Inl (b64_invalid y)
        | Some c1 \<Rightarrow>
          let acc = push_bit 18 c0 OR push_bit 12 c1; out1 = out @ [byte (drop_bit 16 acc)] in
          if ys \<noteq> [] \<and> hd ys \<noteq> CHR ''='' then
            (case binaryDecodeBase64Val u (hd ys) of None \<Rightarrow> Inl (b64_invalid (hd ys))
             | Some c2 \<Rightarrow>
               let acc = acc OR push_bit 6 c2; out2 = out1 @ [byte (drop_bit 8 acc)]; zs = tl ys in
               if zs \<noteq> [] \<and> hd zs \<noteq> CHR ''='' then
                 (case binaryDecodeBase64Val u (hd zs) of None \<Rightarrow> Inl (b64_invalid (hd zs))
                  | Some c3 \<Rightarrow> b64_decode_loop u (out2 @ [byte (acc OR c3)]) (tl zs))
               else b64_decode_loop u out2 zs)
          else b64_decode_loop u out1 ys)))"
  by pat_completeness auto
termination
  by (relation "measure (\<lambda>(u, out, xs). length xs)") auto

definition binaryDecodeBase64 :: "bytes \<Rightarrow> bool \<Rightarrow> bytes res" where
  "binaryDecodeBase64 s urlSafe = b64_decode_loop urlSafe [] s"

fun b64_encode_loop :: "bool \<Rightarrow> bytes \<Rightarrow> bytes" where
  "b64_encode_loop u (a # b # c # rest) =
     (let v = push_bit 16 (code a) OR push_bit 8 (code b) OR code c; al = b64_alphabet u
      in [al ! (drop_bit 18 v AND 63), al ! (drop_bit 12 v AND 63), al ! (drop_bit 6 v AND 63),
          al ! (v AND 63)] @ b64_encode_loop u rest)"
| "b64_encode_loop u [a, b] =
     (let v = push_bit 16 (code a) OR push_bit 8 (code b); al = b64_alphabet u
      in [al ! (drop_bit 18 v AND 63), al ! (drop_bit 12 v AND 63), al ! (drop_bit 6 v AND 63)]
         @ (if \<not> u then ''='' else []))"
| "b64_encode_loop u [a] =
     (let v = push_bit 16 (code a); al = b64_alphabet u
      in [al ! (drop_bit 18 v AND 63), al ! (drop_bit 12 v AND 63)] @ (if \<not> u then ''=='' else []))"
| "b64_encode_loop u [] = []"

definition binaryEncodeBase64 :: "bytes \<Rightarrow> bool \<Rightarrow> bytes" where
  "binaryEncodeBase64 bs urlSafe = b64_encode_loop urlSafe bs"

subsection \<open>UU\<close>

text \<open>Up to four sextets of a line; characters outside the alphabet are skipped.\<close>

fun uu_take :: "nat list \<Rightarrow> bytes \<Rightarrow> nat list \<times> bytes" where
  "uu_take got [] = (got, [])"
| "uu_take got (c # cs) = (if 4 \<le> length got then (got, c # cs)
     else if code c < 32 \<or> 96 < code c then uu_take got cs
     else uu_take (got @ [(code c - 32) AND 63]) cs)"

lemma uu_take_le: "length (snd (uu_take got cs)) \<le> length cs"
  by (induction got cs rule: uu_take.induct) auto

lemma uu_take_less: "cs \<noteq> [] \<Longrightarrow> length (snd (uu_take [] cs)) < length cs"
  using uu_take_le by (cases cs) (auto simp: less_Suc_eq_le)

definition uu_group_out :: "nat \<Rightarrow> nat list \<Rightarrow> bytes" where
  "uu_group_out room c =
     (let o1 = (if 2 \<le> length c then [byte (push_bit 2 (c ! 0) OR drop_bit 4 (c ! 1))] else []);
          o2 = (if 3 \<le> length c \<and> length o1 < room
                then [byte (push_bit 4 (c ! 1 AND 15) OR drop_bit 2 (c ! 2))] else []);
          o3 = (if 4 \<le> length c \<and> length o1 + length o2 < room
                then [byte (push_bit 6 (c ! 2 AND 3) OR c ! 3)] else [])
      in o1 @ o2 @ o3)"

function uu_line_loop :: "nat \<Rightarrow> nat \<Rightarrow> bytes \<Rightarrow> bytes \<Rightarrow> bytes" where
  "uu_line_loop n produced out line =
     (if line \<noteq> [] \<and> produced < n then
        (let c = fst (uu_take [] line); o1 = uu_group_out (n - produced) c in
         if c = [] then out
         else uu_line_loop n (produced + length o1) (out @ o1) (snd (uu_take [] line)))
      else out)"
  by pat_completeness auto
termination
  by (relation "measure (\<lambda>(n, produced, out, line). length line)") (auto simp: uu_take_less)

definition uu_sep :: "char \<Rightarrow> bool" where
  "uu_sep c \<longleftrightarrow> c = CHR 0x0A \<or> c = CHR 0x0D"

definition uu_marker :: "bytes \<Rightarrow> bool" where
  "uu_marker line \<longleftrightarrow> 5 \<le> length line \<and> map to_lower (take 5 line) = ''begin'' \<or>
     3 \<le> length line \<and> map to_lower (take 3 line) = ''end''"

function uu_decode_loop :: "bytes \<Rightarrow> bytes \<Rightarrow> bytes res" where
  "uu_decode_loop out s =
     (let s1 = dropWhile uu_sep s; line = takeWhile (\<lambda>c. \<not> uu_sep c) s1;
          rest = dropWhile (\<lambda>c. \<not> uu_sep c) s1 in
      if s1 = [] then Inr out
      else if uu_marker line then uu_decode_loop out rest
      else if code (hd line) < 32 \<or> 96 < code (hd line)
        then Inl (Throw ''BinaryDecode: Invalid UU line length character'')
      else let n = (code (hd line) - 32) AND 63 in
        if n = 0 then Inr out
        else uu_decode_loop (out @ uu_line_loop n 0 [] (tl line)) rest)"
  by pat_completeness auto

lemma dropWhile_shorter:
  "dropWhile p xs \<noteq> [] \<Longrightarrow> length (dropWhile (\<lambda>c. \<not> p c) (dropWhile p xs)) < length xs"
proof -
  assume ne: "dropWhile p xs \<noteq> []"
  then obtain y ys where y: "dropWhile p xs = y # ys" by (cases "dropWhile p xs") auto
  with hd_dropWhile [OF ne] have "\<not> p y" by simp
  then have "length (dropWhile (\<lambda>c. \<not> p c) (dropWhile p xs)) \<le> length ys"
    by (simp add: y length_dropWhile_le)
  moreover have "length (dropWhile p xs) \<le> length xs" by (rule length_dropWhile_le)
  ultimately show ?thesis by (simp add: y)
qed

termination uu_decode_loop
  by (relation "measure (\<lambda>(out, s). length s)") (auto intro: dropWhile_shorter)

definition binaryDecodeUU :: "bytes \<Rightarrow> bytes res" where
  "binaryDecodeUU s = uu_decode_loop [] s"

text \<open>The sextets of a group; a byte the group lacks is 0.\<close>

definition uu_s0 :: "nat \<Rightarrow> nat" where "uu_s0 a = drop_bit 2 a"

definition uu_s1 :: "nat \<Rightarrow> nat \<Rightarrow> nat" where "uu_s1 a b = push_bit 4 (a AND 3) OR drop_bit 4 b"

definition uu_s2 :: "nat \<Rightarrow> nat \<Rightarrow> nat" where "uu_s2 b c = push_bit 2 (b AND 15) OR drop_bit 6 c"

definition uu_s3 :: "nat \<Rightarrow> nat" where "uu_s3 c = c AND 63"

fun uu_groups :: "bytes \<Rightarrow> bytes" where
  "uu_groups (a # b # c # rest) =
     [char_of (uu_s0 (code a) + 32), char_of (uu_s1 (code a) (code b) + 32),
      char_of (uu_s2 (code b) (code c) + 32), char_of (uu_s3 (code c) + 32)] @ uu_groups rest"
| "uu_groups [a, b] =
     [char_of (uu_s0 (code a) + 32), char_of (uu_s1 (code a) (code b) + 32),
      char_of (uu_s2 (code b) 0 + 32)]"
| "uu_groups [a] = [char_of (uu_s0 (code a) + 32), char_of (uu_s1 (code a) 0 + 32)]"
| "uu_groups [] = []"

definition uu_line :: "bytes \<Rightarrow> bytes" where
  "uu_line bs = char_of (32 + length bs) # uu_groups bs @
     replicate (((length bs + 2) div 3) * 4 - length (uu_groups bs)) CHR '' ''"

function uu_encode_loop :: "bytes \<Rightarrow> bytes" where
  "uu_encode_loop bs = (if bs = [] then []
     else uu_line (take 45 bs) @ CHR 0x0A # uu_encode_loop (drop 45 bs))"
  by pat_completeness auto
termination
  by (relation "measure length") auto

definition binaryEncodeUU :: "bytes \<Rightarrow> bytes" where
  "binaryEncodeUU bs = uu_encode_loop bs"

subsection \<open>URL encoding\<close>

definition urlHexDigit :: "char \<Rightarrow> nat option" where
  "urlHexDigit c = (if CHR ''0'' \<le> c \<and> c \<le> CHR ''9'' then Some (code c - 48)
     else if CHR ''a'' \<le> c \<and> c \<le> CHR ''f'' then Some (code c - 97 + 10)
     else if CHR ''A'' \<le> c \<and> c \<le> CHR ''F'' then Some (code c - 65 + 10)
     else None)"

function url_decode_loop :: "bool \<Rightarrow> bytes \<Rightarrow> bytes \<Rightarrow> bytes res" where
  "url_decode_loop strict out [] = Inr out"
| "url_decode_loop strict out (c # cs) =
     (if c = CHR ''+'' then url_decode_loop strict (out @ '' '') cs
      else if c = CHR ''%'' then
        (if 2 \<le> length cs \<and> urlHexDigit (cs ! 0) \<noteq> None \<and> urlHexDigit (cs ! 1) \<noteq> None
         then url_decode_loop strict
           (out @ [byte (push_bit 4 (the (urlHexDigit (cs ! 0))) OR the (urlHexDigit (cs ! 1)))]) (drop 2 cs)
         else if strict then Inl (Throw ''DecodeFromURL: Invalid URL-encoded string'')
         else url_decode_loop strict (out @ ''%'') cs)
      else url_decode_loop strict (out @ [c]) cs)"
  by pat_completeness auto
termination
  by (relation "measure (\<lambda>(strict, out, s). length s)") auto

definition urlDecodeString :: "bytes \<Rightarrow> bool \<Rightarrow> bytes res" where
  "urlDecodeString s strict = url_decode_loop strict [] s"

definition pct_escape :: "char \<Rightarrow> bytes" where
  "pct_escape c = CHR ''%'' # hex_pair c"

text \<open>The byte loops of \<open>URLEncodedFormat\<close> and \<open>EncodeForURL\<close>.\<close>

fun url_encoded_format :: "bytes \<Rightarrow> bytes" where
  "url_encoded_format [] = []"
| "url_encoded_format (c # cs) = (if is_alnum c then [c] else pct_escape c) @ url_encoded_format cs"

fun encode_for_url :: "bytes \<Rightarrow> bytes" where
  "encode_for_url [] = []"
| "encode_for_url (c # cs) =
     (if is_alnum c \<or> c = CHR ''-'' \<or> c = CHR ''_'' \<or> c = CHR ''.'' then [c]
      else if c = CHR '' '' then ''+'' else pct_escape c) @ encode_for_url cs"

subsection \<open>The built-ins\<close>

text \<open>An argument is missing (\<open>None\<close>), not binary (\<open>Some None\<close>) or a binary value.\<close>

definition cf_binaryencode :: "bytes option option \<Rightarrow> bytes option \<Rightarrow> bytes res" where
  "cf_binaryencode data encoding = (case (data, encoding) of
     (Some v, Some e) \<Rightarrow> (case v of
        None \<Rightarrow> Inl (Throw ''BinaryEncode: The first argument must be a binary value'')
      | Some bs \<Rightarrow> let enc = map to_upper e in
          if enc = ''HEX'' then Inr (binaryEncodeHex bs)
          else if enc = ''BASE64'' then Inr (binaryEncodeBase64 bs False)
          else if enc = ''BASE64URL'' then Inr (binaryEncodeBase64 bs True)
          else if enc = ''UU'' then Inr (binaryEncodeUU bs)
          else Inl (Throw (''BinaryEncode: Unknown encoding '' @ enc)))
     | _ \<Rightarrow> Inl (Throw ''BinaryEncode requires exactly 2 arguments''))"

definition cf_binarydecode :: "bytes option \<Rightarrow> bytes option \<Rightarrow> bytes res" where
  "cf_binarydecode str encoding = (case (str, encoding) of
     (Some s, Some e) \<Rightarrow> let enc = map to_upper e in
        if enc = ''HEX'' then binaryDecodeHex s
        else if enc = ''BASE64'' then binaryDecodeBase64 s False
        else if enc = ''BASE64URL'' then binaryDecodeBase64 s True
        else if enc = ''UU'' then binaryDecodeUU s
        else Inl (Throw (''BinaryDecode: Unknown encoding '' @ enc))
     | _ \<Rightarrow> Inl (Throw ''BinaryDecode: Missing argument''))"

subsection \<open>Bits of a byte\<close>

lemma and_masks:
  "n AND 15 = take_bit 4 (n :: nat)" "n AND 63 = take_bit 6 n" "n AND 255 = take_bit 8 n"
  "n AND 3 = take_bit 2 n"
  by (simp_all add: take_bit_eq_mask mask_eq_exp_minus_1)

lemma less8: "n < 8 \<longleftrightarrow> n = 0 \<or> n = 1 \<or> n = 2 \<or> n = 3 \<or> n = 4 \<or> n = 5 \<or> n = 6 \<or> n = (7 :: nat)"
  by auto

lemma code_high [simp]: "8 \<le> k \<Longrightarrow> \<not> bit (code c) k"
proof -
  assume k: "8 \<le> k"
  have "take_bit 8 (code c) = code c" by (rule take_bit_nat_eq_self) simp
  with k show ?thesis by (metis bit_take_bit_iff not_le)
qed

lemma byteI:
  assumes "\<And>n. n < 8 \<Longrightarrow> bit x n = bit (code c) n" shows "byte x = c"
proof -
  have "x AND 255 = code c"
  proof (rule bit_eqI)
    fix n
    show "bit (x AND 255) n = bit (code c) n"
      using assms [of n] by (cases "n < 8") (auto simp: and_masks bit_simps)
  qed
  then show ?thesis by (simp add: byte_def)
qed

lemma hex_bits: "byte (push_bit 4 (drop_bit 4 (code c)) OR (code c AND 15)) = c"
  by (rule byteI, simp only: less8) (elim disjE; simp add: and_masks bit_simps)

lemma b64_bits3:
  assumes v_def: "v = push_bit 16 (code a) OR push_bit 8 (code b) OR code c"
  shows "byte (drop_bit 16 (push_bit 18 (drop_bit 18 v AND 63) OR push_bit 12 (drop_bit 12 v AND 63))) = a"
    and "byte (drop_bit 8 (push_bit 18 (drop_bit 18 v AND 63) OR push_bit 12 (drop_bit 12 v AND 63)
          OR push_bit 6 (drop_bit 6 v AND 63))) = b"
    and "byte (push_bit 18 (drop_bit 18 v AND 63) OR push_bit 12 (drop_bit 12 v AND 63)
          OR push_bit 6 (drop_bit 6 v AND 63) OR (v AND 63)) = c"
  by (rule byteI, simp only: less8, elim disjE; simp add: v_def and_masks bit_simps)+

lemma b64_bits2:
  assumes v_def: "v = push_bit 16 (code a) OR push_bit 8 (code b)"
  shows "byte (drop_bit 16 (push_bit 18 (drop_bit 18 v AND 63) OR push_bit 12 (drop_bit 12 v AND 63))) = a"
    and "byte (drop_bit 8 (push_bit 18 (drop_bit 18 v AND 63) OR push_bit 12 (drop_bit 12 v AND 63)
          OR push_bit 6 (drop_bit 6 v AND 63))) = b"
  by (rule byteI, simp only: less8, elim disjE; simp add: v_def and_masks bit_simps)+

lemma b64_bits1:
  "byte (drop_bit 16 (push_bit 18 (drop_bit 18 (push_bit 16 (code a)) AND 63)
     OR push_bit 12 (drop_bit 12 (push_bit 16 (code a)) AND 63))) = a"
  by (rule byteI, simp only: less8) (elim disjE; simp add: and_masks bit_simps)

lemma mask_less: "n AND 15 < (16 :: nat)" "n AND 63 < (64 :: nat)"
  using take_bit_nat_less_exp [of 4 n] take_bit_nat_less_exp [of 6 n] by (simp_all add: and_masks)

lemma code_drop4: "drop_bit 4 (code c) < 16"
proof -
  have "code c < 16 * 16" by simp
  then have "code c div 16 < 16" by (rule less_mult_imp_div_less)
  then show ?thesis by (simp add: drop_bit_eq_div)
qed

subsection \<open>Round trips\<close>

text \<open>Every digit of an alphabet decodes to its index.\<close>

lemma hex_val: "d < 16 \<Longrightarrow> binaryDecodeHexVal (cryptoHexDigits ! d) = Some d \<and> \<not> blank (cryptoHexDigits ! d)"
proof -
  have "list_all (\<lambda>d. binaryDecodeHexVal (cryptoHexDigits ! d) = Some d \<and> \<not> blank (cryptoHexDigits ! d)) [0..<16]"
    by code_simp
  then show "d < 16 \<Longrightarrow> ?thesis" by (simp add: list_all_iff)
qed

lemma b64_val:
  "d < 64 \<Longrightarrow> binaryDecodeBase64Val u (b64_alphabet u ! d) = Some d \<and> b64_alphabet u ! d \<noteq> CHR ''=''"
proof -
  have "list_all (\<lambda>d. list_all (\<lambda>u. binaryDecodeBase64Val u (b64_alphabet u ! d) = Some d \<and>
      b64_alphabet u ! d \<noteq> CHR ''='') [True, False]) [0..<64]"
    by code_simp
  then have "d < 64 \<Longrightarrow> list_all (\<lambda>u. binaryDecodeBase64Val u (b64_alphabet u ! d) = Some d \<and>
      b64_alphabet u ! d \<noteq> CHR ''='') [True, False]" by (simp add: list_all_iff)
  then show "d < 64 \<Longrightarrow> ?thesis" by (cases u) simp_all
qed

lemma hex_encode_eq: "hex_encode_loop out bs = out @ concat (map hex_pair bs)"
  by (induction bs arbitrary: out) simp_all

lemma hex_decode_pair: "hex_decode_loop None out (hex_pair c @ rest) = hex_decode_loop None (out @ [c]) rest"
  using hex_val [OF code_drop4 [of c]] hex_val [OF mask_less(1) [of "code c"]] hex_bits [of c]
  by (simp add: hex_pair_def)

lemma hex_roundtrip: "binaryDecodeHex (binaryEncodeHex bs) = Inr bs"
proof -
  have "hex_decode_loop None out (concat (map hex_pair bs)) = Inr (out @ bs)" for out
    by (induction bs arbitrary: out) (simp_all add: hex_decode_pair)
  then show ?thesis by (simp add: binaryDecodeHex_def binaryEncodeHex_def hex_encode_eq)
qed

declare b64_decode_loop.simps [simp del]

lemma b64_step4:
  assumes "c0 < 64" "c1 < 64" "c2 < 64" "c3 < 64"
  shows "b64_decode_loop u out (b64_alphabet u ! c0 # b64_alphabet u ! c1 # b64_alphabet u ! c2 # b64_alphabet u ! c3 # rest)
    = b64_decode_loop u (out @ [byte (drop_bit 16 (push_bit 18 c0 OR push_bit 12 c1)),
        byte (drop_bit 8 (push_bit 18 c0 OR push_bit 12 c1 OR push_bit 6 c2)),
        byte (push_bit 18 c0 OR push_bit 12 c1 OR push_bit 6 c2 OR c3)]) rest"
  using assms [THEN b64_val, of u] by (subst b64_decode_loop.simps) (simp add: Let_def or.assoc del: drop_bit_or)

lemma b64_step3:
  assumes "c0 < 64" "c1 < 64" "c2 < 64"
  shows "b64_decode_loop u out ([b64_alphabet u ! c0, b64_alphabet u ! c1, b64_alphabet u ! c2] @ (if \<not> u then ''='' else []))
    = Inr (out @ [byte (drop_bit 16 (push_bit 18 c0 OR push_bit 12 c1)),
        byte (drop_bit 8 (push_bit 18 c0 OR push_bit 12 c1 OR push_bit 6 c2))])"
  using assms [THEN b64_val, of u] by (subst append_Cons, subst b64_decode_loop.simps)
    (simp add: Let_def or.assoc b64_decode_loop.simps del: drop_bit_or)

lemma b64_step2:
  assumes "c0 < 64" "c1 < 64"
  shows "b64_decode_loop u out ([b64_alphabet u ! c0, b64_alphabet u ! c1] @ (if \<not> u then ''=='' else []))
    = Inr (out @ [byte (drop_bit 16 (push_bit 18 c0 OR push_bit 12 c1))])"
  using assms [THEN b64_val, of u] by (subst append_Cons, subst b64_decode_loop.simps)
    (simp add: Let_def or.assoc b64_decode_loop.simps del: drop_bit_or)

lemma b64_roundtrip_loop: "b64_decode_loop u out (b64_encode_loop u bs) = Inr (out @ bs)"
proof (induction u bs arbitrary: out rule: b64_encode_loop.induct)
  case (1 u a b c rest)
  show ?case
    unfolding b64_encode_loop.simps Let_def append_Cons append_Nil
      b64_step4 [OF mask_less(2) mask_less(2) mask_less(2) mask_less(2)] b64_bits3 [OF refl]
    by (simp add: 1 [OF refl refl])
next
  case (2 u a b)
  show ?case
    unfolding b64_encode_loop.simps Let_def b64_step3 [OF mask_less(2) mask_less(2) mask_less(2)]
      b64_bits2 [OF refl] ..
next
  case (3 u a)
  show ?case
    unfolding b64_encode_loop.simps Let_def b64_step2 [OF mask_less(2) mask_less(2)] b64_bits1 ..
qed (simp add: b64_decode_loop.simps)

lemma b64_roundtrip: "binaryDecodeBase64 (binaryEncodeBase64 bs u) u = Inr bs"
  by (simp add: binaryDecodeBase64_def binaryEncodeBase64_def b64_roundtrip_loop)

subsection \<open>UU lines\<close>

declare uu_line_loop.simps [simp del] uu_decode_loop.simps [simp del] uu_encode_loop.simps [simp del]

lemma less64I:
  assumes "\<And>n. 6 \<le> n \<Longrightarrow> \<not> bit x n" shows "x < (64 :: nat)"
proof -
  have "take_bit 6 x = x" using assms by (intro bit_eqI) (metis bit_take_bit_iff not_le)
  then show ?thesis using take_bit_nat_less_exp [of 6 x] by simp
qed

lemma sextets_less:
  "uu_s0 (code a) < 64" "uu_s1 (code a) 0 < 64" "uu_s2 (code a) 0 < 64"
  "uu_s1 (code a) (code b) < 64" "uu_s2 (code b) (code c) < 64" "uu_s3 (code c) < 64"
  unfolding uu_s0_def uu_s1_def uu_s2_def uu_s3_def
  by (rule less64I, auto simp: and_masks bit_simps)+

lemma sextet_code:
  assumes "x < 64" shows "code (char_of (x + 32)) = x + 32"
  using assms by (simp add: of_char_of)

lemma uu_take_sextet:
  "x < 64 \<Longrightarrow> length got < 4 \<Longrightarrow> uu_take got (char_of (x + 32) # cs) = uu_take (got @ [x]) cs"
  by (simp add: sextet_code and_masks take_bit_nat_eq_self)

lemma uu_take_blank: "length got < 4 \<Longrightarrow> uu_take got (CHR '' '' # cs) = uu_take (got @ [0]) cs"
  by simp

lemma uu_take_full: "length got = 4 \<Longrightarrow> uu_take got cs = (got, cs)"
  by (cases cs) auto

lemma uu_bits:
  "byte (push_bit 2 (uu_s0 (code a)) OR drop_bit 4 (uu_s1 (code a) (code b))) = a"
  "byte (push_bit 4 (uu_s1 (code a) (code b) AND 15) OR drop_bit 2 (uu_s2 (code b) (code c))) = b"
  "byte (push_bit 6 (uu_s2 (code b) (code c) AND 3) OR uu_s3 (code c)) = c"
  "byte (push_bit 4 (uu_s1 (code a) (code b) AND 15) OR drop_bit 2 (uu_s2 (code b) 0)) = b"
  "byte (push_bit 2 (uu_s0 (code a)) OR drop_bit 4 (uu_s1 (code a) 0)) = a"
  unfolding uu_s0_def uu_s1_def uu_s2_def uu_s3_def
  by (rule byteI, simp only: less8, elim disjE; simp add: and_masks bit_simps)+

definition uu_body :: "bytes \<Rightarrow> bytes" where
  "uu_body bs = uu_groups bs @ replicate (((length bs + 2) div 3) * 4 - length (uu_groups bs)) CHR '' ''"

lemma uu_body_simps:
  "uu_body [] = []" "uu_body [a] = uu_groups [a] @ ''  ''" "uu_body [a, b] = uu_groups [a, b] @ '' ''"
  "uu_body (a # b # c # rest) = take 4 (uu_groups (a # b # c # rest)) @ uu_body rest"
proof -
  have "(length (a # b # c # rest) + 2) div 3 = Suc ((length rest + 2) div 3)" by simp
  then show "uu_body (a # b # c # rest) = take 4 (uu_groups (a # b # c # rest)) @ uu_body rest"
    by (simp add: uu_body_def)
qed (simp_all add: uu_body_def numeral_2_eq_2)

lemma uu_line_body: "uu_line bs = char_of (32 + length bs) # uu_body bs"
  by (simp add: uu_line_def uu_body_def)

lemma uu_line_loop_Nil: "uu_line_loop n p out [] = out"
  by (simp add: uu_line_loop.simps)

lemma uu_line_loop_step:
  assumes "uu_take [] line = (c, rest)" "line \<noteq> []" "c \<noteq> []" "p < n"
  shows "uu_line_loop n p out line =
    uu_line_loop n (p + length (uu_group_out (n - p) c)) (out @ uu_group_out (n - p) c) rest"
  using assms by (subst uu_line_loop.simps) (simp add: Let_def)

lemma uu_line_decode: "uu_line_loop (p + length ys) p out (uu_body ys) = out @ ys"
proof (induction ys arbitrary: p out rule: uu_groups.induct)
  case (1 a b c rest)
  let ?q = "[uu_s0 (code a), uu_s1 (code a) (code b), uu_s2 (code b) (code c), uu_s3 (code c)]"
  have t: "uu_take [] (uu_body (a # b # c # rest)) = (?q, uu_body rest)"
    by (simp add: uu_body_simps uu_take_sextet uu_take_full sextets_less del: uu_take.simps)
  have o1: "uu_group_out (Suc (Suc (Suc (length rest)))) ?q = [a, b, c]"
    by (simp add: uu_group_out_def uu_bits del: push_bit_and)
  have ne: "uu_body (a # b # c # rest) \<noteq> []" by (simp add: uu_body_simps)
  show ?case using 1 [of "p + 3" "out @ [a, b, c]"]
    by (subst uu_line_loop_step [OF t ne]) (simp_all add: o1 numeral_3_eq_3)
next
  case (2 a b)
  let ?q = "[uu_s0 (code a), uu_s1 (code a) (code b), uu_s2 (code b) 0, 0]"
  have t: "uu_take [] (uu_body [a, b]) = (?q, [])"
    by (simp add: uu_body_simps uu_take_sextet uu_take_blank uu_take_full sextets_less del: uu_take.simps)
  have o1: "uu_group_out 2 ?q = [a, b]" by (simp add: uu_group_out_def uu_bits del: push_bit_and)
  have ne: "uu_body [a, b] \<noteq> []" by (simp add: uu_body_simps)
  show ?case by (subst uu_line_loop_step [OF t ne]) (simp_all add: o1 uu_line_loop_Nil)
next
  case (3 a)
  let ?q = "[uu_s0 (code a), uu_s1 (code a) 0, 0, 0]"
  have t: "uu_take [] (uu_body [a]) = (?q, [])"
    by (simp add: uu_body_simps uu_take_sextet uu_take_blank uu_take_full sextets_less del: uu_take.simps)
  have o1: "uu_group_out (Suc 0) ?q = [a]" by (simp add: uu_group_out_def uu_bits del: push_bit_and)
  have ne: "uu_body [a] \<noteq> []" by (simp add: uu_body_simps)
  show ?case by (subst uu_line_loop_step [OF t ne]) (simp_all add: o1 uu_line_loop_Nil)
qed (simp add: uu_body_simps uu_line_loop_Nil)

lemma uu_groups_no_sep: "c \<in> set (uu_groups ys) \<Longrightarrow> \<not> uu_sep c"
proof -
  have s: "x < 64 \<Longrightarrow> \<not> uu_sep (char_of (x + 32))" for x :: nat
    using sextet_code [of x] by (auto simp: uu_sep_def dest: arg_cong [of _ _ code])
  show "c \<in> set (uu_groups ys) \<Longrightarrow> ?thesis"
    by (induction ys rule: uu_groups.induct) (auto simp: s sextets_less)
qed

lemma uu_line_no_sep: "length ys \<le> 45 \<Longrightarrow> c \<in> set (uu_line ys) \<Longrightarrow> \<not> uu_sep c"
proof -
  assume l: "length ys \<le> 45" and c: "c \<in> set (uu_line ys)"
  have h: "code (char_of (32 + length ys)) = 32 + length ys" using l by (simp add: of_char_of)
  have "\<not> uu_sep (char_of (32 + length ys))" using h by (auto simp: uu_sep_def dest: arg_cong [of _ _ code])
  moreover have "\<not> uu_sep CHR '' ''" by (simp add: uu_sep_def)
  ultimately show ?thesis using c uu_groups_no_sep by (auto simp: uu_line_def)
qed

lemma uu_decode_sep: "uu_sep c \<Longrightarrow> uu_decode_loop out (c # s) = uu_decode_loop out s"
  by (subst (1 2) uu_decode_loop.simps) simp

lemma uu_decode_line:
  assumes "ys \<noteq> []" "length ys \<le> 45" "\<not> uu_marker (uu_line ys)"
  shows "uu_decode_loop out (uu_line ys @ CHR 0x0A # rest) = uu_decode_loop (out @ ys) rest"
proof -
  let ?s = "uu_line ys @ CHR 0x0A # rest"
  have ns: "\<forall>c\<in>set (uu_line ys). \<not> uu_sep c" using uu_line_no_sep [OF assms(2)] by blast
  have nl: "uu_sep CHR 0x0A" by (simp add: uu_sep_def)
  have ne: "uu_line ys \<noteq> []" by (simp add: uu_line_def)
  have d: "dropWhile uu_sep ?s = ?s" using ns ne by (cases "uu_line ys") auto
  have t: "takeWhile (\<lambda>c. \<not> uu_sep c) ?s = uu_line ys" using ns nl by (simp add: takeWhile_append2)
  have r: "dropWhile (\<lambda>c. \<not> uu_sep c) ?s = CHR 0x0A # rest" using ns nl by (simp add: dropWhile_append2)
  have h: "code (hd (uu_line ys)) = 32 + length ys" using assms(2) by (simp add: uu_line_def of_char_of)
  have n: "length ys AND 63 = length ys"
    using assms(2) by (simp add: and_masks take_bit_nat_eq_self)
  have b: "uu_line_loop (length ys) 0 [] (tl (uu_line ys)) = ys"
    using uu_line_decode [of 0 ys "[]"] by (simp add: uu_line_body)
  have "uu_decode_loop out ?s = uu_decode_loop (out @ ys) (CHR 0x0A # rest)"
    using assms by (subst uu_decode_loop.simps) (simp add: Let_def d t r h n b del: append_assoc)
  then show ?thesis by (simp add: uu_decode_sep [OF nl])
qed

text \<open>The lines \<open>binaryEncodeUU\<close> writes.\<close>

function uu_lines :: "bytes \<Rightarrow> bytes list" where
  "uu_lines bs = (if bs = [] then [] else uu_line (take 45 bs) # uu_lines (drop 45 bs))"
  by pat_completeness auto
termination by (relation "measure length") auto

declare uu_lines.simps [simp del]

lemma uu_roundtrip_loop:
  "list_all (\<lambda>l. \<not> uu_marker l) (uu_lines bs) \<Longrightarrow> uu_decode_loop out (uu_encode_loop bs) = Inr (out @ bs)"
proof (induction bs arbitrary: out rule: uu_encode_loop.induct)
  case (1 bs)
  show ?case
  proof (cases "bs = []")
    case True
    then show ?thesis by (simp add: uu_encode_loop.simps uu_decode_loop.simps)
  next
    case False
    with 1(2) have m: "\<not> uu_marker (uu_line (take 45 bs))" "list_all (\<lambda>l. \<not> uu_marker l) (uu_lines (drop 45 bs))"
      by (simp_all add: uu_lines.simps [of bs])
    from False uu_decode_line [OF _ _ m(1)] 1(1) [OF False m(2)] show ?thesis
      by (simp add: uu_encode_loop.simps [of bs])
  qed
qed

subsection \<open>URL escapes\<close>

lemma url_hex_val: "d < 16 \<Longrightarrow> urlHexDigit (cryptoHexDigits ! d) = Some d"
  using hex_val [of d] by (simp add: urlHexDigit_def binaryDecodeHexVal_def)

lemma url_decode_escape:
  "url_decode_loop strict out (pct_escape c @ rest) = url_decode_loop strict (out @ [c]) rest"
  using url_hex_val [OF code_drop4 [of c]] url_hex_val [OF mask_less(1) [of "code c"]] hex_bits [of c]
  by (simp add: pct_escape_def hex_pair_def)

lemma alnum_plain: "is_alnum c \<Longrightarrow> c \<noteq> CHR ''+'' \<and> c \<noteq> CHR ''%''"
  by (auto simp: charclass less_eq_char_def)

lemma url_format_roundtrip: "urlDecodeString (url_encoded_format bs) strict = Inr bs"
proof -
  have "url_decode_loop strict out (url_encoded_format bs) = Inr (out @ bs)" for out
    by (induction bs arbitrary: out) (auto simp: url_decode_escape alnum_plain)
  then show ?thesis by (simp add: urlDecodeString_def)
qed

lemma url_encode_roundtrip: "urlDecodeString (encode_for_url bs) strict = Inr bs"
proof -
  have "url_decode_loop strict out (encode_for_url bs) = Inr (out @ bs)" for out
    by (induction bs arbitrary: out) (auto simp: url_decode_escape alnum_plain)
  then show ?thesis by (simp add: urlDecodeString_def)
qed

section \<open>The contract of a codec\<close>

locale byte_codec =
  fixes enc :: "bytes \<Rightarrow> bytes" and dec :: "bytes \<Rightarrow> bytes res" and ok :: "bytes \<Rightarrow> bool"
  assumes roundtrip: "ok bs \<Longrightarrow> dec (enc bs) = Inr bs"
begin

lemma enc_inj: "ok xs \<Longrightarrow> ok ys \<Longrightarrow> enc xs = enc ys \<Longrightarrow> xs = ys"
  using roundtrip by (metis sum.inject(2))

lemma dec_enc_all: "list_all ok xss \<Longrightarrow> map (\<lambda>x. dec (enc x)) xss = map Inr xss"
  by (induction xss) (auto simp: roundtrip)

end

locale total_codec = byte_codec enc dec "\<lambda>bs. True" for enc dec
begin

lemma enc_eq_iff: "enc xs = enc ys \<longleftrightarrow> xs = ys"
  using enc_inj by blast

lemma dec_surj: "\<exists>s. dec s = Inr bs"
  using roundtrip by blast

end

interpretation hex: total_codec binaryEncodeHex binaryDecodeHex
  by unfold_locales (rule hex_roundtrip)

interpretation base64: total_codec "\<lambda>bs. binaryEncodeBase64 bs u" "\<lambda>s. binaryDecodeBase64 s u" for u
  by unfold_locales (rule b64_roundtrip)

interpretation uu: byte_codec binaryEncodeUU binaryDecodeUU "\<lambda>bs. list_all (\<lambda>l. \<not> uu_marker l) (uu_lines bs)"
  by unfold_locales (simp add: binaryEncodeUU_def binaryDecodeUU_def uu_roundtrip_loop)

interpretation url_format: total_codec url_encoded_format "\<lambda>s. urlDecodeString s strict" for strict
  by unfold_locales (rule url_format_roundtrip)

interpretation for_url: total_codec encode_for_url "\<lambda>s. urlDecodeString s strict" for strict
  by unfold_locales (rule url_encode_roundtrip)

section \<open>Properties\<close>

text \<open>C28: \<open>BinaryDecode\<close> inverts \<open>BinaryEncode\<close> for every binary value in the encodings hex, base64
  and base64URL, whatever the case the encoding's name is written in.\<close>

theorem binary_encode_decode:
  assumes "map to_upper e \<in> {''HEX'', ''BASE64'', ''BASE64URL''}"
  shows "\<exists>s. cf_binaryencode (Some (Some bs)) (Some e) = Inr s \<and> cf_binarydecode (Some s) (Some e) = Inr bs"
  using assms hex.roundtrip [of bs] base64.roundtrip [where bs = bs]
  by (auto simp: cf_binaryencode_def cf_binarydecode_def Let_def)

theorem binary_encode_decode_witness:
  "\<exists>s. cf_binaryencode (Some (Some ''a?'')) (Some ''Base64Url'') = Inr s \<and>
     cf_binarydecode (Some s) (Some ''Base64Url'') = Inr ''a?''"
proof (rule binary_encode_decode)
  show "map to_upper ''Base64Url'' \<in> {''HEX'', ''BASE64'', ''BASE64URL''}" by code_simp
qed

text \<open>the UU codec loses nothing as long as no line it writes looks like a \<open>begin\<close> or \<open>end\<close>
  marker; a final line of 37 bytes can, and then the decoder drops those bytes.\<close>

theorem uu_encode_decode:
  "(list_all (\<lambda>l. \<not> uu_marker l) (uu_lines bs) \<longrightarrow> binaryDecodeUU (binaryEncodeUU bs) = Inr bs) \<and>
   binaryDecodeUU (binaryEncodeUU (char_of (186 :: nat) # CHR ''@'' # replicate 35 CHR 0x00)) = Inr []"
proof -
  have "binaryDecodeUU (binaryEncodeUU (char_of (186 :: nat) # CHR ''@'' # replicate 35 CHR 0x00)) = Inr []"
    by code_simp
  then show ?thesis using uu.roundtrip by blast
qed

theorem uu_encode_decode_witness:
  "binaryDecodeUU (binaryEncodeUU ''Cat'') = Inr ''Cat''"
proof -
  have "list_all (\<lambda>l. \<not> uu_marker l) (uu_lines ''Cat'')" by code_simp
  with uu_encode_decode [of "''Cat''"] show ?thesis by blast
qed

text \<open>URL decoding inverts both URL encoders on every byte string, in strict and in lenient
  mode, although one of them writes a blank as a plus sign.\<close>

theorem url_encode_decode:
  "urlDecodeString (url_encoded_format bs) strict = Inr bs \<and> urlDecodeString (encode_for_url bs) strict = Inr bs"
  using url_format.roundtrip for_url.roundtrip by blast

definition hex_or_blank :: "char \<Rightarrow> bool" where
  "hex_or_blank c \<longleftrightarrow> \<not> (\<not> blank c \<and> binaryDecodeHexVal c = None)"

lemma hex_decode_cases:
  "(\<exists>r. hex_decode_loop hi out s = Inr r) \<longleftrightarrow>
     list_all hex_or_blank s \<and>
     even (length (filter (\<lambda>c. \<not> blank c) s) + (if hi = None then 0 else 1))"
  by (induction hi out s rule: hex_decode_loop.induct) (auto simp: hex_or_blank_def split: option.splits)

text \<open>the hex decoder accepts exactly texts with an even number of hex digits apart from blanks,
  and throws otherwise; it never produces output from an odd or invalid text.\<close>

theorem hex_decode_accepts:
  "(\<exists>r. binaryDecodeHex s = Inr r) \<longleftrightarrow>
     list_all hex_or_blank s \<and> even (length (filter (\<lambda>c. \<not> blank c) s))"
  using hex_decode_cases [of None "[]" s] by (simp add: binaryDecodeHex_def)

end
