(* ===== verification/Charsets.thy ===== *)
theory Charsets
  imports Codecs
begin

text \<open>
  The character encodings of \<open>src/core/core_misc.cpp\<close>: \<open>utf8Decode\<close>, \<open>codepointsToBytes\<close>,
  \<open>utf8ToCodepoints\<close>, \<open>stringToBytes\<close>, \<open>normalizeCharsetName\<close>, \<open>bytesToText\<close>, and
  \<open>decodeUtf8ReplacementBytes\<close> of \<open>src/cfvariant.cpp\<close>. Code points are naturals (the code:
  \<open>uint32_t\<close>; none exceeds 21 bits).
\<close>

section \<open>UTF-8\<close>


text \<open>The first byte: the payload bits and the number of continuation bytes.\<close>

definition utf8_lead :: "nat \<Rightarrow> (nat \<times> nat) option" where
  "utf8_lead c = (if c < 0x80 then Some (c, 0)
     else if c AND 0xE0 = 0xC0 then Some (c AND 0x1F, 1)
     else if c AND 0xF0 = 0xE0 then Some (c AND 0x0F, 2)
     else if c AND 0xF8 = 0xF0 then Some (c AND 0x07, 3)
     else None)"

fun utf8_cont :: "nat \<Rightarrow> bytes \<Rightarrow> nat option" where
  "utf8_cont cp [] = Some cp"
| "utf8_cont cp (b # bs) = (if code b AND 0xC0 \<noteq> 0x80 then None
     else utf8_cont (push_bit 6 cp OR (code b AND 0x3F)) bs)"

text \<open>\<open>utf8Decode\<close> fails on the first malformed sequence.\<close>

function utf8Decode :: "bytes \<Rightarrow> nat list option" where
  "utf8Decode [] = Some []"
| "utf8Decode (b # bs) = (case utf8_lead (code b) of None \<Rightarrow> None
   | Some (cp, extra) \<Rightarrow> if length bs < extra then None
       else (case utf8_cont cp (take extra bs) of None \<Rightarrow> None
             | Some cp' \<Rightarrow> map_option (\<lambda>cps. cp' # cps) (utf8Decode (drop extra bs))))"
  by pat_completeness auto

termination by (relation "measure length") auto

text \<open>The UTF-8 branch of \<open>codepointsToBytes\<close>, and the end of \<open>bytesToText\<close>.\<close>

definition utf8_bytes :: "nat \<Rightarrow> bytes" where
  "utf8_bytes cp = map byte (if cp < 0x80 then [cp]
     else if cp < 0x800 then [0xC0 OR drop_bit 6 cp, 0x80 OR (cp AND 0x3F)]
     else if cp < 0x10000 then [0xE0 OR drop_bit 12 cp, 0x80 OR (drop_bit 6 cp AND 0x3F), 0x80 OR (cp AND 0x3F)]
     else [0xF0 OR drop_bit 18 cp, 0x80 OR (drop_bit 12 cp AND 0x3F), 0x80 OR (drop_bit 6 cp AND 0x3F), 0x80 OR (cp AND 0x3F)])"

definition utf8_encode :: "nat list \<Rightarrow> bytes" where
  "utf8_encode cps = concat (map utf8_bytes cps)"

definition utf8ToCodepoints :: "bytes \<Rightarrow> nat list" where
  "utf8ToCodepoints s = (case utf8Decode s of None \<Rightarrow> map code s | Some cps \<Rightarrow> cps)"

section \<open>The other encodings\<close>

definition utf16_unit :: "bool \<Rightarrow> nat \<Rightarrow> bytes" where
  "utf16_unit be u = (if be then [byte (drop_bit 8 u AND 0xFF), byte (u AND 0xFF)]
     else [byte (u AND 0xFF), byte (drop_bit 8 u AND 0xFF)])"

definition utf16_bytes :: "bool \<Rightarrow> nat \<Rightarrow> bytes" where
  "utf16_bytes be cp = (if cp < 0x10000 then utf16_unit be cp
     else let v = cp - 0x10000 in utf16_unit be (0xD800 + drop_bit 10 v) @ utf16_unit be (0xDC00 + (v AND 0x3FF)))"

datatype charset = Utf8 | Latin1 | Ascii | Utf16 bool bool

text \<open>The encoding names both directions accept; the flags of UTF-16 are big endian and byte order mark.\<close>

definition charset_of :: "bytes \<Rightarrow> charset option" where
  "charset_of enc = (if enc \<in> {''UTF-8'', ''UTF8''} then Some Utf8
     else if enc \<in> {''ISO-8859-1'', ''LATIN1'', ''ISO8859-1'', ''LATIN-1''} then Some Latin1
     else if enc \<in> {''US-ASCII'', ''ASCII'', ''ISO646-US''} then Some Ascii
     else if enc \<in> {''UTF-16'', ''UTF-16BE'', ''UTF-16LE'', ''UTF16''} then Some (Utf16 (enc \<noteq> ''UTF-16LE'') (enc = ''UTF-16''))
     else None)"

definition encode_points :: "charset \<Rightarrow> nat list \<Rightarrow> bytes" where
  "encode_points cs cps = (case cs of
     Utf8 \<Rightarrow> utf8_encode cps
   | Latin1 \<Rightarrow> map (\<lambda>cp. byte (if 0xFF < cp then 0x3F else cp)) cps
   | Ascii \<Rightarrow> map (\<lambda>cp. byte (if 0x7F < cp then 0x3F else cp)) cps
   | Utf16 be bom \<Rightarrow> (if bom then (if be then map byte [0xFE, 0xFF] else map byte [0xFF, 0xFE]) else []) @ concat (map (utf16_bytes be) cps))"

definition not_supported :: "bytes \<Rightarrow> err" where
  "not_supported enc = Throw (''The character encoding '' @ [CHR 0x27] @ enc @ [CHR 0x27] @ '' is not supported'')"

definition codepointsToBytes :: "nat list \<Rightarrow> bytes \<Rightarrow> bytes res" where
  "codepointsToBytes cps enc = (case charset_of (map to_upper enc) of
     None \<Rightarrow> Inl (not_supported enc) | Some cs \<Rightarrow> Inr (encode_points cs cps))"

definition stringToBytes :: "bytes \<Rightarrow> bytes \<Rightarrow> bytes res" where
  "stringToBytes s enc = codepointsToBytes (utf8ToCodepoints s) (if enc = [] then ''UTF-8'' else enc)"

text \<open>\<open>bytesToText\<close> replaces each byte that starts no sequence by U+FFFD.\<close>

function utf8_replace :: "bytes \<Rightarrow> nat list" where
  "utf8_replace [] = []"
| "utf8_replace (b # bs) = (case utf8_lead (code b) of None \<Rightarrow> 0xFFFD # utf8_replace bs
   | Some (cp, extra) \<Rightarrow> if length bs < extra then 0xFFFD # utf8_replace bs
       else (case utf8_cont cp (take extra bs) of None \<Rightarrow> 0xFFFD # utf8_replace bs
             | Some cp' \<Rightarrow> cp' # utf8_replace (drop extra bs)))"
  by pat_completeness auto

termination by (relation "measure length") auto

definition unit_of :: "bool \<Rightarrow> char \<Rightarrow> char \<Rightarrow> nat" where
  "unit_of be a b = (if be then push_bit 8 (code a) OR code b else push_bit 8 (code b) OR code a)"

text \<open>A trailing odd byte is dropped; an unpaired surrogate is kept as it is.\<close>

fun utf16_loop :: "bool \<Rightarrow> bytes \<Rightarrow> nat list" where
  "utf16_loop be (a # b # c # d # bs) = (let u = unit_of be a b; u2 = unit_of be c d in
     if 0xD800 \<le> u \<and> u \<le> 0xDBFF \<and> 0xDC00 \<le> u2 \<and> u2 \<le> 0xDFFF
     then (0x10000 + push_bit 10 (u - 0xD800) + (u2 - 0xDC00)) # utf16_loop be bs
     else u # utf16_loop be (c # d # bs))"
| "utf16_loop be (a # b # bs) = unit_of be a b # utf16_loop be bs"
| "utf16_loop be bs = []"

definition utf16_decode :: "bool \<Rightarrow> bool \<Rightarrow> bytes \<Rightarrow> nat list" where
  "utf16_decode be bom bs = (if bom \<and> 2 \<le> length bs \<and> code (bs ! 0) = 0xFE \<and> code (bs ! 1) = 0xFF then utf16_loop True (drop 2 bs)
     else if bom \<and> 2 \<le> length bs \<and> code (bs ! 0) = 0xFF \<and> code (bs ! 1) = 0xFE then utf16_loop False (drop 2 bs)
     else utf16_loop be bs)"

definition decode_points :: "charset \<Rightarrow> bytes \<Rightarrow> nat list" where
  "decode_points cs bs = (case cs of
     Utf8 \<Rightarrow> utf8_replace bs
   | Latin1 \<Rightarrow> map code bs
   | Ascii \<Rightarrow> map (\<lambda>b. if code b < 0x80 then code b else 0xFFFD) bs
   | Utf16 be bom \<Rightarrow> utf16_decode be bom bs)"

definition bytesToText :: "bytes \<Rightarrow> bytes \<Rightarrow> bytes res" where
  "bytesToText bs enc = (case charset_of (map to_upper (if enc = [] then ''UTF-8'' else enc)) of
     None \<Rightarrow> Inl (not_supported enc) | Some cs \<Rightarrow> Inr (utf8_encode (decode_points cs bs)))"

definition normalizeCharsetName :: "bytes \<Rightarrow> bytes res" where
  "normalizeCharsetName encoding = (let n = map (\<lambda>c. if c = CHR ''_'' then CHR ''-'' else c) (map to_upper encoding)
     in if n = ''UTF8'' then Inr ''UTF-8''
        else if n = ''UTF16'' then Inr ''UTF-16''
        else if n \<in> {''LATIN1'', ''LATIN-1'', ''ISO8859-1'', ''8859-1''} then Inr ''ISO-8859-1''
        else if n \<in> {''ASCII'', ''ISO646-US''} then Inr ''US-ASCII''
        else if n \<in> {''UTF-8'', ''ISO-8859-1'', ''US-ASCII'', ''UTF-16'', ''UTF-16BE'', ''UTF-16LE''} then Inr n
        else Inl (Throw (''Unsupported encoding format '' @ (if encoding = [] then [CHR 0x27, CHR 0x27] else encoding) @ ''.'')))"

text \<open>\<open>decodeUtf8ReplacementBytes\<close> keeps the bytes of a sequence and checks the same conditions.\<close>

definition replacement :: bytes where
  "replacement = map byte [0xEF, 0xBF, 0xBD]"

definition utf8_extra :: "nat \<Rightarrow> nat" where
  "utf8_extra c = (if c AND 0xE0 = 0xC0 then 1 else if c AND 0xF0 = 0xE0 then 2 else if c AND 0xF8 = 0xF0 then 3 else 0)"

function decodeUtf8ReplacementBytes :: "bytes \<Rightarrow> bytes" where
  "decodeUtf8ReplacementBytes [] = []"
| "decodeUtf8ReplacementBytes (b # bs) = (if code b < 0x80 then b # decodeUtf8ReplacementBytes bs
   else let extra = utf8_extra (code b) in
     if 0 < extra \<and> extra \<le> length bs \<and> list_all (\<lambda>c. code c AND 0xC0 = 0x80) (take extra bs)
     then b # take extra bs @ decodeUtf8ReplacementBytes (drop extra bs)
     else replacement @ decodeUtf8ReplacementBytes bs)"
  by pat_completeness auto

termination by (relation "measure length") (auto simp: Let_def)


section \<open>Bits as arithmetic\<close>

lemma and63: "n AND 0x3F = n mod (64 :: nat)"
  using take_bit_eq_mod [of 6 n] by (simp add: take_bit_eq_mask mask_eq_exp_minus_1)

lemma and255: "n AND 0xFF = n mod (256 :: nat)"
  using take_bit_eq_mod [of 8 n] by (simp add: take_bit_eq_mask mask_eq_exp_minus_1)

lemma and1023: "n AND 0x3FF = n mod (1024 :: nat)"
  using take_bit_eq_mod [of 10 n] by (simp add: take_bit_eq_mask mask_eq_exp_minus_1)

lemma or_disjoint: "x < 2 ^ k \<Longrightarrow> push_bit k m OR x = m * 2 ^ k + (x :: nat)"
proof -
  assume "x < 2 ^ k"
  then have "x = take_bit k x" by (simp add: take_bit_nat_eq_self)
  then have b: "bit x i \<Longrightarrow> i < k" for i by (metis bit_take_bit_iff)
  have "push_bit k m AND x = 0"
  proof (rule bit_eqI)
    fix n show "bit (push_bit k m AND x) n = bit 0 n" using b [of n] by (auto simp: bit_simps)
  qed
  then have "push_bit k m OR x = push_bit k m + x" by (rule disjunctive_add_eq_or [symmetric])
  then show ?thesis by (simp add: push_bit_eq_mult)
qed

lemma and_shift: "(c :: nat) AND push_bit j (mask k) = push_bit j (take_bit k (drop_bit j c))"
  by (rule bit_eqI) (auto simp: bit_simps)

lemma and_high:
  "c AND 0xE0 = c div 32 mod 8 * (32 :: nat)" "c AND 0xF0 = c div 16 mod 16 * (16 :: nat)"
  "c AND 0xF8 = c div 8 mod 32 * (8 :: nat)" "c AND 0xC0 = c div 64 mod 4 * (64 :: nat)"
  using and_shift [of c 5 3] and_shift [of c 4 4] and_shift [of c 3 5] and_shift [of c 6 2]
  by (simp_all add: push_bit_eq_mult mask_eq_exp_minus_1 take_bit_eq_mod drop_bit_eq_div)

lemma and_low: "c AND 0x1F = c mod (32 :: nat)" "c AND 0x0F = c mod (16 :: nat)" "c AND 0x07 = c mod (8 :: nat)"
  using and_shift [of c 0 5] and_shift [of c 0 4] and_shift [of c 0 3]
  by (simp_all add: mask_eq_exp_minus_1 take_bit_eq_mod)

lemma byte_code [simp]: "n < 256 \<Longrightarrow> of_char (byte n) = n"
  by (simp add: byte_def and255)

lemma code_byte [simp]: "byte (code c) = c"
  by (simp add: byte_def and255)

lemma div_mod_eq: "c < a * b \<Longrightarrow> c div a mod b = c div (a :: nat)"
  by (simp add: less_mult_imp_div_less mult.commute)

lemma mod_minus: "k * m \<le> c \<Longrightarrow> c < k * m + m \<Longrightarrow> c mod m = c - k * (m :: nat)"
proof -
  assume a: "k * m \<le> c" "c < k * m + m"
  then obtain d where "c = k * m + d" using le_Suc_ex by blast
  with a show ?thesis by simp
qed

lemma lead_iff:
  assumes "c < (256 :: nat)"
  shows "c AND 0xE0 = 0xC0 \<longleftrightarrow> 192 \<le> c \<and> c < 224" "c AND 0xF0 = 0xE0 \<longleftrightarrow> 224 \<le> c \<and> c < 240"
    "c AND 0xF8 = 0xF0 \<longleftrightarrow> 240 \<le> c \<and> c < 248" "c AND 0xC0 = 0x80 \<longleftrightarrow> 128 \<le> c \<and> c < 192"
proof -
  have "c div 32 = 6 \<longleftrightarrow> 192 \<le> c \<and> c < 224" "c div 16 = 14 \<longleftrightarrow> 224 \<le> c \<and> c < 240"
    "c div 8 = 30 \<longleftrightarrow> 240 \<le> c \<and> c < 248" "c div 64 = 2 \<longleftrightarrow> 128 \<le> c \<and> c < 192"
    by arith+
  then show "c AND 0xE0 = 0xC0 \<longleftrightarrow> 192 \<le> c \<and> c < 224" "c AND 0xF0 = 0xE0 \<longleftrightarrow> 224 \<le> c \<and> c < 240"
    "c AND 0xF8 = 0xF0 \<longleftrightarrow> 240 \<le> c \<and> c < 248" "c AND 0xC0 = 0x80 \<longleftrightarrow> 128 \<le> c \<and> c < 192"
    using assms by (simp_all add: and_high div_mod_eq)
qed

lemma lead_mod:
  "192 \<le> c \<Longrightarrow> c < 224 \<Longrightarrow> c mod 32 = c - (192 :: nat)" "224 \<le> c \<Longrightarrow> c < 240 \<Longrightarrow> c mod 16 = c - (224 :: nat)"
  "240 \<le> c \<Longrightarrow> c < 248 \<Longrightarrow> c mod 8 = c - (240 :: nat)" "128 \<le> c \<Longrightarrow> c < 192 \<Longrightarrow> c mod 64 = c - (128 :: nat)"
  using mod_minus [of 6 32 c] mod_minus [of 14 16 c] mod_minus [of 30 8 c] mod_minus [of 2 64 c] by simp_all

lemma utf8_lead_eq: "c < 256 \<Longrightarrow> utf8_lead c = (if c < 128 then Some (c, 0) else if c < 192 then None
    else if c < 224 then Some (c - 192, 1) else if c < 240 then Some (c - 224, 2)
    else if c < 248 then Some (c - 240, 3) else None)"
  by (simp add: utf8_lead_def lead_iff and_low lead_mod)

lemma or_lead: "x < 32 \<Longrightarrow> 0xC0 OR x = 192 + (x :: nat)" "x < 16 \<Longrightarrow> 0xE0 OR x = 224 + (x :: nat)"
  "x < 8 \<Longrightarrow> 0xF0 OR x = 240 + (x :: nat)" "x < 64 \<Longrightarrow> 0x80 OR x = 128 + (x :: nat)"
  using or_disjoint [of x 5 6] or_disjoint [of x 4 14] or_disjoint [of x 3 30] or_disjoint [of x 6 2]
  by (simp_all add: push_bit_eq_mult)

lemma utf8_cont_eq: "utf8_cont cp (b # bs) = (if 128 \<le> code b \<and> code b < 192
    then utf8_cont (cp * 64 + code b mod 64) bs else None)"
  using or_disjoint [of "code b mod 64" 6 cp] by (simp add: lead_iff and63)

declare utf8_cont.simps(2) [simp del]

lemma code_less [simp]: "code b < 256"
  by (cases b) (simp add: of_char_def)

lemma utf8_bytes_eq: "cp < 0x200000 \<Longrightarrow> utf8_bytes cp = map byte (if cp < 128 then [cp]
    else if cp < 2048 then [192 + cp div 64, 128 + cp mod 64]
    else if cp < 65536 then [224 + cp div 64 div 64, 128 + cp div 64 mod 64, 128 + cp mod 64]
    else [240 + cp div 64 div 64 div 64, 128 + cp div 64 div 64 mod 64, 128 + cp div 64 mod 64, 128 + cp mod 64])"
  by (simp add: utf8_bytes_def and63 or_lead drop_bit_eq_div div_mult2_eq [symmetric] less_mult_imp_div_less)

lemma add_mod [simp]: "x < 64 \<Longrightarrow> (128 + x) mod 64 = (x :: nat)"
  using mod_minus [of 2 64 "128 + x"] by simp

lemma utf8_bytes_step:
  assumes "cp < 0x200000"
  obtains b bs c where "utf8_bytes cp = b # bs" "utf8_lead (code b) = Some (c, length bs)" "utf8_cont c bs = Some cp"
proof -
  consider "cp < 128" | "128 \<le> cp" "cp < 2048" | "2048 \<le> cp" "cp < 65536" | "65536 \<le> cp" by linarith
  then show thesis
  proof cases
    case 1
    then show ?thesis using assms by (intro that [of "byte cp" "[]" cp]) (simp_all add: utf8_bytes_eq utf8_lead_eq)
  next
    case 2
    then have "cp div 64 < 32" by simp
    with 2 show ?thesis using assms
      by (intro that [of "byte (192 + cp div 64)" "[byte (128 + cp mod 64)]" "cp div 64"])
        (simp_all add: utf8_bytes_eq utf8_lead_eq utf8_cont_eq)
  next
    case 3
    then have "cp div 64 div 64 < 16" by simp
    with 3 show ?thesis using assms
      by (intro that [of "byte (224 + cp div 64 div 64)" "[byte (128 + cp div 64 mod 64), byte (128 + cp mod 64)]" "cp div 64 div 64"])
        (simp_all add: utf8_bytes_eq utf8_lead_eq utf8_cont_eq)
  next
    case 4
    then have "cp div 64 div 64 div 64 < 8" using assms by simp
    with 4 show ?thesis using assms
      by (intro that [of "byte (240 + cp div 64 div 64 div 64)" "[byte (128 + cp div 64 div 64 mod 64), byte (128 + cp div 64 mod 64), byte (128 + cp mod 64)]" "cp div 64 div 64 div 64"])
        (simp_all add: utf8_bytes_eq utf8_lead_eq utf8_cont_eq)
  qed
qed

lemma utf8Decode_bytes: "cp < 0x200000 \<Longrightarrow> utf8Decode (utf8_bytes cp @ bs) = map_option ((#) cp) (utf8Decode bs)"
  by (erule utf8_bytes_step) simp

lemma utf8_replace_bytes: "cp < 0x200000 \<Longrightarrow> utf8_replace (utf8_bytes cp @ bs) = cp # utf8_replace bs"
  by (erule utf8_bytes_step) simp

lemma utf8_encode_Nil [simp]: "utf8_encode [] = []"
  and utf8_encode_Cons [simp]: "utf8_encode (cp # cps) = utf8_bytes cp @ utf8_encode cps"
  by (simp_all add: utf8_encode_def)

lemma utf8Decode_encode: "list_all (\<lambda>cp. cp < 0x200000) cps \<Longrightarrow> utf8Decode (utf8_encode cps) = Some cps"
  by (induction cps) (simp_all add: utf8Decode_bytes)

lemma utf8_replace_encode: "list_all (\<lambda>cp. cp < 0x200000) cps \<Longrightarrow> utf8_replace (utf8_encode cps) = cps"
  by (induction cps) (simp_all add: utf8_replace_bytes)

lemma utf8_cont_bound: "utf8_cont c bs = Some cp \<Longrightarrow> cp < (c + 1) * 64 ^ length bs"
proof (induction bs arbitrary: c)
  case (Cons b bs)
  then have c: "utf8_cont (c * 64 + code b mod 64) bs = Some cp" by (simp add: utf8_cont_eq split: if_splits)
  have "c * 64 + code b mod 64 + 1 \<le> (c + 1) * (64 :: nat)" by simp
  then have "(c * 64 + code b mod 64 + 1) * 64 ^ length bs \<le> (c + 1) * 64 * (64 :: nat) ^ length bs" by (rule mult_le_mono1)
  with Cons.IH [OF c] have "cp < (c + 1) * 64 * (64 :: nat) ^ length bs" by (rule less_le_trans)
  then show ?case by (simp only: list.size power_Suc mult.assoc add_Suc_right add_0_right)
qed simp

lemma utf8_unit_bound:
  assumes "utf8_lead (code b) = Some (c, n)" "utf8_cont c (take n bs) = Some cp" "n \<le> length bs"
  shows "cp < 0x200000"
proof -
  have "cp < (c + 1) * 64 ^ n" using utf8_cont_bound [OF assms(2)] assms(3) by simp
  moreover have "(c + 1) * 64 ^ n \<le> 0x200000"
    using assms(1) by (auto simp: utf8_lead_eq split: if_splits)
  ultimately show ?thesis by linarith
qed

lemma utf8_replace_bound: "list_all (\<lambda>cp. cp < 0x200000) (utf8_replace bs)"
  by (induction bs rule: utf8_replace.induct) (auto split: option.split dest: utf8_unit_bound)

lemma unit_of_eq: "unit_of be a b = (if be then code a * 256 + code b else code b * 256 + code a)"
  using or_disjoint [of "code b" 8 "code a"] or_disjoint [of "code a" 8 "code b"] by (simp add: unit_of_def)

lemma unit_of_bound: "unit_of be a b < 0x10000"
proof -
  have "x < 256 \<Longrightarrow> y < 256 \<Longrightarrow> x * 256 + y < (65536 :: nat)" for x y by linarith
  from this [of "code a" "code b"] this [of "code b" "code a"] show ?thesis unfolding unit_of_eq by (cases be) simp_all
qed

lemma utf16_loop_bound: "list_all (\<lambda>cp. cp < 0x110000) (utf16_loop be bs)"
proof (induction be bs rule: utf16_loop.induct)
  case (1 be a b c d bs)
  have p: "0x10000 + push_bit 10 (u - 0xD800) + (u2 - 0xDC00) < (0x110000 :: nat)" if "u \<le> 0xDBFF" "u2 \<le> 0xDFFF" for u u2
  proof -
    have "u - 0xD800 \<le> 0x3FF" "u2 - 0xDC00 \<le> 0x3FF" using that by linarith+
    then show ?thesis unfolding push_bit_eq_mult by simp
  qed
  have "unit_of be a b < 0x110000" using unit_of_bound [of be a b] by linarith
  with 1 p [of "unit_of be a b" "unit_of be c d"] show ?case by (auto simp: Let_def)
qed (simp_all add: less_trans [OF unit_of_bound])

lemma decode_points_bound: "list_all (\<lambda>cp. cp < 0x200000) (decode_points cs bs)"
proof -
  have "cp < 0x110000 \<Longrightarrow> cp < 0x200000" for cp :: nat by simp
  then have "list_all (\<lambda>cp. cp < 0x200000) (utf16_loop be xs)" for be xs
    using utf16_loop_bound [of be xs] by (auto simp: list_all_iff)
  moreover have "code b < 0x200000" for b using code_less [of b] by linarith
  ultimately show ?thesis
    using utf8_replace_bound [of bs] by (auto simp: decode_points_def utf16_decode_def list.pred_map list_all_iff split: charset.split)
qed

lemma utf8_encode_decode_points: "utf8Decode (utf8_encode (decode_points cs bs)) = Some (decode_points cs bs)"
  by (rule utf8Decode_encode [OF decode_points_bound])

section \<open>Valid text\<close>

lemma utf8_replace_valid: "utf8Decode s = Some cps \<Longrightarrow> utf8_replace s = cps"
  by (induction s arbitrary: cps rule: utf8Decode.induct) (auto split: option.splits if_splits)

lemma utf8_cont_iff: "utf8_cont c bs = None \<longleftrightarrow> \<not> list_all (\<lambda>b. code b AND 0xC0 = 0x80) bs"
  by (induction bs arbitrary: c) (auto simp: utf8_cont.simps(2))

lemma utf8_lead_extra: "128 \<le> code b \<Longrightarrow> map_option snd (utf8_lead (code b)) = (if utf8_extra (code b) = 0 then None else Some (utf8_extra (code b)))"
  by (simp add: utf8_lead_def utf8_extra_def)

lemma replacement_eq: "replacement = utf8_bytes 0xFFFD"
  by (simp add: replacement_def utf8_bytes_eq)

lemma utf8Decode_replacement: "utf8Decode (decodeUtf8ReplacementBytes bs) = Some (utf8_replace bs)"
proof (induction bs rule: decodeUtf8ReplacementBytes.induct)
  case (2 b bs)
  show ?case
  proof (cases "code b < 128")
    case True
    with 2(1) show ?thesis by (simp add: utf8_lead_def)
  next
    case False
    let ?e = "utf8_extra (code b)"
    let ?ok = "0 < ?e \<and> ?e \<le> length bs \<and> list_all (\<lambda>c. code c AND 0xC0 = 0x80) (take ?e bs)"
    show ?thesis
    proof (cases ?ok)
      case True
      with False utf8_lead_extra [of b] obtain c where "utf8_lead (code b) = Some (c, ?e)" by auto
      moreover from True obtain cp where "utf8_cont c (take ?e bs) = Some cp"
        using utf8_cont_iff [of c "take ?e bs"] by auto
      ultimately show ?thesis using False True 2(2) [OF False refl True] by (simp add: Let_def)
    next
      case no: False
      have "0 < ?e \<Longrightarrow> \<not> length bs < ?e \<Longrightarrow> utf8_cont c (take ?e bs) = None" for c
        using no utf8_cont_iff [of c "take ?e bs"] by auto
      with no False have "utf8_replace (b # bs) = 0xFFFD # utf8_replace bs"
        using utf8_lead_extra [of b] by (auto split: option.split if_splits)
      moreover have "decodeUtf8ReplacementBytes (b # bs) = replacement @ decodeUtf8ReplacementBytes bs"
        using no False by (simp only: decodeUtf8ReplacementBytes.simps Let_def if_False)
      ultimately show ?thesis using 2(3) [OF False refl no] by (simp only: replacement_eq utf8Decode_bytes) simp
    qed
  qed
qed simp

lemma decodeUtf8ReplacementBytes_valid: "utf8Decode s = Some cps \<Longrightarrow> decodeUtf8ReplacementBytes s = s"
proof (induction s arbitrary: cps rule: decodeUtf8ReplacementBytes.induct)
  case (2 b bs)
  show ?case
  proof (cases "code b < 128")
    case True
    with 2 show ?thesis by (auto simp: utf8_lead_def)
  next
    case False
    let ?e = "utf8_extra (code b)"
    from 2(4) obtain c n cp where l: "utf8_lead (code b) = Some (c, n)" "n \<le> length bs" "utf8_cont c (take n bs) = Some cp"
      and d: "utf8Decode (drop n bs) \<noteq> None" by (auto split: option.splits if_splits)
    from l(1) utf8_lead_extra [of b] False have n: "n = ?e" "0 < ?e" by (auto split: if_splits)
    with l utf8_cont_iff [of c "take n bs"] have ok: "0 < ?e \<and> ?e \<le> length bs \<and> list_all (\<lambda>c. code c AND 0xC0 = 0x80) (take ?e bs)" by auto
    from d n obtain cps' where "utf8Decode (drop ?e bs) = Some cps'" by auto
    from 2(2) [OF False refl ok this] ok False show ?thesis by (simp add: Let_def)
  qed
qed simp

section \<open>UTF-16\<close>

lemma utf16_unit_of: "u < 0x10000 \<Longrightarrow> utf16_unit be u = [a, b] \<Longrightarrow> unit_of be a b = u"
  by (auto simp: utf16_unit_def unit_of_eq and255 drop_bit_eq_div div_mod_eq split: if_splits)

lemma utf16_unit_two: obtains a b where "utf16_unit be u = [a, b]"
  using that by (cases be) (auto simp: utf16_unit_def)

lemma utf16_loop_unit:
  assumes "u < 0x10000" "\<not> (0xD800 \<le> u \<and> u \<le> 0xDBFF)"
  shows "utf16_loop be (utf16_unit be u @ bs) = u # utf16_loop be bs"
proof -
  obtain a b where u: "utf16_unit be u = [a, b]" by (rule utf16_unit_two)
  consider "bs = []" | c where "bs = [c]" | c d bs' where "bs = c # d # bs'"
    by (metis list.exhaust)
  then show ?thesis using utf16_unit_of [OF assms(1) u] assms(2) by cases (auto simp: u Let_def)
qed

lemma utf16_loop_pair:
  assumes "h < 0x400" "l < 0x400"
  shows "utf16_loop be (utf16_unit be (0xD800 + h) @ utf16_unit be (0xDC00 + l) @ bs) = (0x10000 + h * 1024 + l) # utf16_loop be bs"
proof -
  obtain a b where u: "utf16_unit be (0xD800 + h) = [a, b]" by (rule utf16_unit_two)
  obtain c d where v: "utf16_unit be (0xDC00 + l) = [c, d]" by (rule utf16_unit_two)
  have "unit_of be a b = 0xD800 + h" "unit_of be c d = 0xDC00 + l"
    using utf16_unit_of [OF _ u] utf16_unit_of [OF _ v] assms by simp_all
  with assms show ?thesis by (simp add: u v Let_def push_bit_eq_mult)
qed

lemma utf16_loop_bytes:
  assumes "cp < 0x110000" "\<not> (0xD800 \<le> cp \<and> cp \<le> 0xDFFF)"
  shows "utf16_loop be (utf16_bytes be cp @ bs) = cp # utf16_loop be bs"
proof (cases "cp < 0x10000")
  case True
  moreover have "\<not> (0xD800 \<le> cp \<and> cp \<le> 0xDBFF)" using assms(2) by linarith
  ultimately have "utf16_loop be (utf16_unit be cp @ bs) = cp # utf16_loop be bs" using True utf16_loop_unit by blast
  with True show ?thesis by (simp add: utf16_bytes_def)
next
  case False
  let ?v = "cp - 0x10000"
  have "?v div 1024 < 0x400" "?v mod 1024 < 0x400" using assms by simp_all
  from utf16_loop_pair [OF this, of be bs] False show ?thesis
    by (simp add: utf16_bytes_def Let_def drop_bit_eq_div and1023 add.assoc)
qed

section \<open>Round trip\<close>

definition representable :: "charset \<Rightarrow> nat \<Rightarrow> bool" where
  "representable cs cp = (case cs of Utf8 \<Rightarrow> cp < 0x200000 | Latin1 \<Rightarrow> cp \<le> 0xFF | Ascii \<Rightarrow> cp \<le> 0x7F
    | Utf16 be bom \<Rightarrow> cp < 0x110000 \<and> \<not> (0xD800 \<le> cp \<and> cp \<le> 0xDFFF))"

lemma utf16_loop_encode: "list_all (representable (Utf16 be' bom)) cps \<Longrightarrow> utf16_loop be (concat (map (utf16_bytes be) cps)) = cps"
  by (induction cps) (auto simp: representable_def utf16_loop_bytes)

lemma decode_encode_points:
  assumes "list_all (representable cs) cps" "charset_of enc = Some cs"
  shows "decode_points cs (encode_points cs cps) = cps"
proof (cases cs)
  case Utf8
  with assms have "list_all (\<lambda>cp. cp < 0x200000) cps" by (simp add: representable_def list_all_iff)
  with Utf8 show ?thesis by (simp add: decode_points_def encode_points_def utf8_replace_encode)
next
  case Latin1
  with assms(1) have "map (code \<circ> (\<lambda>cp. byte (if 0xFF < cp then 0x3F else cp))) cps = map id cps"
    by (intro map_cong) (auto simp: list_all_iff representable_def)
  with Latin1 show ?thesis by (simp add: decode_points_def encode_points_def)
next
  case Ascii
  with assms(1) have "map ((\<lambda>b. if code b < 0x80 then code b else 0xFFFD) \<circ> (\<lambda>cp. byte (if 0x7F < cp then 0x3F else cp))) cps = map id cps"
    by (intro map_cong) (auto simp: list_all_iff representable_def)
  with Ascii show ?thesis by (simp add: decode_points_def encode_points_def)
next
  case (Utf16 be bom)
  with assms have "bom \<longrightarrow> be" by (auto simp: charset_of_def split: if_splits)
  with Utf16 utf16_loop_encode [of be bom cps be] assms(1) show ?thesis
    by (auto simp: decode_points_def encode_points_def utf16_decode_def)
qed

lemma representable_bound: "representable cs cp \<Longrightarrow> cp < 0x200000"
  by (auto simp: representable_def split: charset.splits)

definition encoding_of :: "bytes \<Rightarrow> charset option" where
  "encoding_of enc = charset_of (map to_upper (if enc = [] then ''UTF-8'' else enc))"

lemma stringToBytes_eq: "stringToBytes s enc = (case encoding_of enc of
    None \<Rightarrow> Inl (not_supported (if enc = [] then ''UTF-8'' else enc)) | Some cs \<Rightarrow> Inr (encode_points cs (utf8ToCodepoints s)))"
  by (simp add: stringToBytes_def codepointsToBytes_def encoding_of_def)

lemma bytesToText_eq: "bytesToText bs enc = (case encoding_of enc of
    None \<Rightarrow> Inl (not_supported enc) | Some cs \<Rightarrow> Inr (utf8_encode (decode_points cs bs)))"
  by (simp add: bytesToText_def encoding_of_def)

lemma utf8ToCodepoints_encode: "list_all (\<lambda>cp. cp < 0x200000) cps \<Longrightarrow> utf8ToCodepoints (utf8_encode cps) = cps"
  by (simp add: utf8ToCodepoints_def utf8Decode_encode)

text \<open>C29: encoding a string into any of the character sets and decoding the bytes gives the string back, for
  every string of code points the set has: 21 bits for UTF-8, no surrogate below 0x110000 for UTF-16 in either
  byte order and with the byte order mark, and the first 256 or 128 for Latin-1 and ASCII.\<close>

theorem charset_roundtrip:
  assumes "encoding_of enc = Some cs" "list_all (representable cs) cps"
  shows "\<exists>bs. stringToBytes (utf8_encode cps) enc = Inr bs \<and> bytesToText bs enc = Inr (utf8_encode cps)"
proof -
  have "list_all (\<lambda>cp. cp < 0x200000) cps" using assms(2) by (auto simp: list_all_iff intro: representable_bound)
  then have "stringToBytes (utf8_encode cps) enc = Inr (encode_points cs cps)"
    by (simp add: stringToBytes_eq assms(1) utf8ToCodepoints_encode)
  moreover have "bytesToText (encode_points cs cps) enc = Inr (utf8_encode cps)"
    using decode_encode_points [OF assms(2)] assms(1) by (simp add: bytesToText_eq encoding_of_def)
  ultimately show ?thesis by blast
qed

theorem charset_roundtrip_witness:
  "\<exists>bs. stringToBytes (utf8_encode [0x41, 0x20AC, 0x1F600]) ''utf-16'' = Inr bs \<and> bytesToText bs ''utf-16'' = Inr (utf8_encode [0x41, 0x20AC, 0x1F600])"
  by (rule charset_roundtrip [where cs = "Utf16 True True"]) (code_simp, simp add: representable_def)

text \<open>whatever the bytes, the text that \<open>bytesToText\<close> returns is UTF-8 that the strict decoder accepts
  and every code point of it fits in 21 bits, so encoding it again never falls back to Latin-1.\<close>

theorem decoded_text_valid:
  assumes "bytesToText bs enc = Inr s"
  shows "\<exists>cps. utf8Decode s = Some cps \<and> list_all (\<lambda>cp. cp < 0x200000) cps \<and> stringToBytes s ''UTF-8'' = Inr s"
proof -
  from assms obtain cs where s: "s = utf8_encode (decode_points cs bs)" by (auto simp: bytesToText_eq split: option.splits)
  have "encoding_of ''UTF-8'' = Some Utf8" by code_simp
  then have "stringToBytes s ''UTF-8'' = Inr s"
    using utf8ToCodepoints_encode [OF decode_points_bound] by (simp add: stringToBytes_eq s encode_points_def)
  with s utf8_encode_decode_points decode_points_bound show ?thesis by blast
qed

theorem decoded_text_valid_witness:
  "\<exists>s cps. bytesToText (map byte [0x41, 0xC3, 0xFF]) ''utf-8'' = Inr s \<and> utf8Decode s = Some cps"
proof -
  have "encoding_of ''utf-8'' = Some Utf8" by code_simp
  then obtain s where s: "bytesToText (map byte [0x41, 0xC3, 0xFF]) ''utf-8'' = Inr s" by (simp add: bytesToText_eq)
  with decoded_text_valid [OF s] show ?thesis by blast
qed

text \<open>the two lossy UTF-8 decoders of the program agree code point by code point on every byte string, and
  both leave text that the strict decoder accepts as it is.\<close>

theorem lossy_decoders_agree:
  "utf8Decode (decodeUtf8ReplacementBytes bs) = Some (utf8_replace bs) \<and>
   (utf8Decode bs = None \<or> decodeUtf8ReplacementBytes bs = bs)"
  by (cases "utf8Decode bs") (simp_all add: utf8Decode_replacement decodeUtf8ReplacementBytes_valid utf8_replace_valid)

lemma normalize_names:
  "normalizeCharsetName ''UTF-8'' = Inr ''UTF-8''" "normalizeCharsetName ''UTF-16'' = Inr ''UTF-16''"
  "normalizeCharsetName ''ISO-8859-1'' = Inr ''ISO-8859-1''" "normalizeCharsetName ''US-ASCII'' = Inr ''US-ASCII''"
  "normalizeCharsetName ''UTF-16BE'' = Inr ''UTF-16BE''" "normalizeCharsetName ''UTF-16LE'' = Inr ''UTF-16LE''"
  by code_simp+

lemma encoding_names:
  "encoding_of ''UTF-8'' = Some Utf8" "encoding_of ''UTF-16'' = Some (Utf16 True True)"
  "encoding_of ''ISO-8859-1'' = Some Latin1" "encoding_of ''US-ASCII'' = Some Ascii"
  "encoding_of ''UTF-16BE'' = Some (Utf16 True False)" "encoding_of ''UTF-16LE'' = Some (Utf16 False False)"
  by code_simp+

lemma charset_names:
  "charset_of ''UTF-8'' = Some Utf8" "charset_of ''UTF-16'' = Some (Utf16 True True)"
  "charset_of ''ISO-8859-1'' = Some Latin1" "charset_of ''US-ASCII'' = Some Ascii"
  "charset_of ''UTF-16BE'' = Some (Utf16 True False)" "charset_of ''UTF-16LE'' = Some (Utf16 False False)"
  by code_simp+

text \<open>a name that \<open>normalizeCharsetName\<close> returns is one both directions know, and normalising it again changes nothing.\<close>

theorem normalized_charset_known:
  assumes "normalizeCharsetName enc = Inr n"
  shows "charset_of n \<noteq> None \<and> normalizeCharsetName n = Inr n \<and> stringToBytes s n = Inr (encode_points (the (charset_of n)) (utf8ToCodepoints s))"
proof -
  from assms have "n \<in> {''UTF-8'', ''ISO-8859-1'', ''US-ASCII'', ''UTF-16'', ''UTF-16BE'', ''UTF-16LE''}"
    unfolding normalizeCharsetName_def Let_def by (simp only: split: if_splits) auto
  then show ?thesis
    by (elim insertE emptyE) (simp_all only: normalize_names stringToBytes_eq encoding_names charset_names option.case option.sel simp_thms option.distinct)
qed

theorem normalized_charset_known_witness:
  "normalizeCharsetName ''utf_16'' = Inr ''UTF-16'' \<and> charset_of ''UTF-16'' \<noteq> None"
proof -
  have "normalizeCharsetName ''utf_16'' = Inr ''UTF-16''" by code_simp
  with normalized_charset_known [OF this] show ?thesis by blast
qed

text \<open>An overlong form decodes: the two bytes C0 AF are a solidus, which the JDK decoder the comment refers to replaces.\<close>

lemma overlong_accepted: "utf8_replace (map byte [0xC0, 0xAF]) = [0x2F]"
  by code_simp

end
