(* ===== verification/HttpResponse.thy ===== *)
theory HttpResponse
  imports Charsets
begin

text \<open>
  The HTTP response of a request: \<open>response_state\<close> and the functions over it in \<open>src/cftags/common.cpp\<close>, the
  output functions of \<open>src/core/core_response.cpp\<close>, and the tags cfheader, cflocation, cfcontent, cfflush, cfsilent,
  cfcookie and cfhtmlhead (\<open>src/cftags/tag_*.cpp\<close>).

  The page's buffer and the stack of discard buffers are explicit; a pointer to one is a \<open>buffer\<close>, and one past
  the stack dangles. \<open>wire\<close> is what the web engine has been given. An operation that throws returns the error
  together with the state it leaves, since a page may catch it and go on.
\<close>

section \<open>State\<close>

record response_state =
  contentType :: bytes
  charset :: bytes
  committed :: bool
  binary :: bool
  stream :: bool
  contentLanguage :: bytes
  cookies :: "bytes list"
  statusCode :: int
  headers :: "(bytes \<times> bytes) list"
  headContent :: bytes

datatype buffer = PageOut | Silent nat

record http =
  resp :: response_state
  s_response_write :: bool
  wire :: bytes
  g_cli_flushed :: bytes
  page_out :: bytes
  g_silentBufs :: "bytes list"
  g_silentRealBufs :: "buffer option list"
  g_cfoutputOnly :: bool

type_synonym outcome = "err option \<times> http"

definition fails :: "err \<Rightarrow> http \<Rightarrow> outcome" where "fails e st = (Some e, st)"

definition ret :: "http \<Rightarrow> outcome" where "ret st = (None, st)"

definition buf_get :: "buffer \<Rightarrow> http \<Rightarrow> bytes option" where
  "buf_get b st = (case b of PageOut \<Rightarrow> Some (page_out st)
     | Silent n \<Rightarrow> if n < length (g_silentBufs st) then Some (g_silentBufs st ! n) else None)"

definition buf_set :: "buffer \<Rightarrow> bytes \<Rightarrow> http \<Rightarrow> http" where
  "buf_set b v st = (case b of PageOut \<Rightarrow> st\<lparr>page_out := v\<rparr> | Silent n \<Rightarrow> st\<lparr>g_silentBufs := (g_silentBufs st)[n := v]\<rparr>)"

definition with_buf :: "buffer \<Rightarrow> http \<Rightarrow> (bytes \<Rightarrow> outcome) \<Rightarrow> outcome" where
  "with_buf b st f = (case buf_get b st of None \<Rightarrow> fails UB st | Some v \<Rightarrow> f v)"

section \<open>Output\<close>

definition cfwriteoutput :: "buffer \<Rightarrow> bytes \<Rightarrow> http \<Rightarrow> outcome" where
  "cfwriteoutput b s st = (if binary (resp st) \<or> s = [] then ret st else with_buf b st (\<lambda>v. ret (buf_set b (v @ s) st)))"

definition ends_blank :: "bytes \<Rightarrow> bool" where
  "ends_blank v \<longleftrightarrow> last v \<in> {CHR '' '', CHR 0x09, CHR 0x0A, CHR 0x0D, CHR 0x0C, CHR 0x0B}"

definition cf_whitespace_space :: "buffer \<Rightarrow> http \<Rightarrow> outcome" where
  "cf_whitespace_space b st = (if binary (resp st) then ret st else with_buf b st (\<lambda>v.
     if v = [] \<or> ends_blank v then ret st else ret (buf_set b (v @ '' '') st)))"

definition cf_cfoutputonly_set :: "bool \<Rightarrow> http \<Rightarrow> outcome" where
  "cf_cfoutputonly_set on st = ret (st\<lparr>g_cfoutputOnly := on\<rparr>)"

definition cf_write_output_gated :: "buffer \<Rightarrow> bytes \<Rightarrow> http \<Rightarrow> outcome" where
  "cf_write_output_gated b s st = (if g_cfoutputOnly st \<or> s = [] then ret st else with_buf b st (\<lambda>v. ret (buf_set b (v @ s) st)))"

definition cf_whitespace_space_gated :: "buffer \<Rightarrow> http \<Rightarrow> outcome" where
  "cf_whitespace_space_gated b st = (if g_cfoutputOnly st then ret st else cf_whitespace_space b st)"

definition silent_buf_push :: "http \<Rightarrow> http" where
  "silent_buf_push st = st\<lparr>g_silentBufs := g_silentBufs st @ [[]]\<rparr>"

definition silent_buf_pop :: "http \<Rightarrow> http" where
  "silent_buf_pop st = (let bufs = butlast (g_silentBufs st) in st\<lparr>g_silentBufs := bufs,
     g_silentRealBufs := (if g_silentRealBufs st \<noteq> [] \<and> length bufs < length (g_silentRealBufs st)
       then butlast (g_silentRealBufs st) else g_silentRealBufs st)\<rparr>)"

definition silent_set_real_out :: "buffer \<Rightarrow> http \<Rightarrow> http" where
  "silent_set_real_out b st = (let real = g_silentRealBufs st @ replicate (length (g_silentBufs st) - length (g_silentRealBufs st)) None
     in st\<lparr>g_silentRealBufs := (if real = [] then [] else real[length real - 1 := Some b])\<rparr>)"

definition silent_real_out :: "http \<Rightarrow> buffer option" where
  "silent_real_out st = (if g_silentRealBufs st = [] then None else last (g_silentRealBufs st))"

definition silent_buf_contains :: "buffer \<Rightarrow> http \<Rightarrow> bool" where
  "silent_buf_contains b st = (case b of PageOut \<Rightarrow> False | Silent n \<Rightarrow> n < length (g_silentBufs st))"

definition cf_silent_begin :: "buffer option \<Rightarrow> http \<Rightarrow> outcome" where
  "cf_silent_begin real st = ret (case real of None \<Rightarrow> silent_buf_push st | Some b \<Rightarrow> silent_set_real_out b (silent_buf_push st))"

definition cf_silent_end :: "http \<Rightarrow> outcome" where
  "cf_silent_end st = ret (silent_buf_pop st)"

definition cf_htmlhead_append :: "bytes \<Rightarrow> http \<Rightarrow> outcome" where
  "cf_htmlhead_append s st = ret (st\<lparr>resp := (resp st)\<lparr>headContent := headContent (resp st) @ s\<rparr>\<rparr>)"

section \<open>Headers and the wire\<close>

definition crlf :: bytes where "crlf = [CHR 0x0D, CHR 0x0A]"

text \<open>Names, values and cookies are appended as C strings, up to their first NUL.\<close>

definition status_line :: "response_state \<Rightarrow> bytes" where
  "status_line r = ''Status: '' @ number (statusCode r) 10"

definition header_line :: "bytes \<times> bytes \<Rightarrow> bytes" where
  "header_line h = cstr (fst h) @ '': '' @ cstr (snd h)"

definition header_lines :: "response_state \<Rightarrow> bytes list" where
  "header_lines r = (if statusCode r \<noteq> 200 then [status_line r] else []) @ map header_line (headers r)
     @ [''Content-Type: '' @ contentType r @ '';charset='' @ charset r] @ map (\<lambda>c. ''Set-Cookie: '' @ cstr c) (cookies r)
     @ (if contentLanguage r \<noteq> [] then [''Content-Language: '' @ contentLanguage r] else [])"

definition header_block :: "response_state \<Rightarrow> bytes" where
  "header_block r = concat (map (\<lambda>l. l @ crlf) (header_lines r)) @ crlf"

definition sendHeader :: "http \<Rightarrow> http" where
  "sendHeader st = (if s_response_write st then st\<lparr>wire := wire st @ header_block (resp st)\<rparr> else st)"

definition responseCharsetCanonical :: "bytes \<Rightarrow> bytes res" where
  "responseCharsetCanonical cs = (if cs = [] then Inr ''UTF-8'' else
     let n = map (\<lambda>c. if c = CHR ''_'' then CHR ''-'' else c) (map to_upper cs)
     in if n = ''UTF8'' then Inr ''UTF-8''
        else if n \<in> {''LATIN1'', ''LATIN-1'', ''ISO8859-1'', ''8859-1''} then Inr ''ISO-8859-1''
        else if n = ''UNICODE'' then Inr ''UTF-16''
        else if n \<in> {''ASCII'', ''ISO646-US''} then Inr ''US-ASCII''
        else if n \<in> {''UTF-8'', ''ISO-8859-1'', ''US-ASCII'', ''UTF-16'', ''UTF-16BE'', ''UTF-16LE''} then Inr n
        else Inl (Throw (''Unsupported encoding format '' @ cs @ ''.'')))"

definition isUtf8Charset :: "bytes \<Rightarrow> bool" where
  "isUtf8Charset cs \<longleftrightarrow> map to_upper cs \<in> {''UTF-8'', ''UTF8''}"

definition encodeBuffer :: "bytes \<Rightarrow> response_state \<Rightarrow> bytes res" where
  "encodeBuffer s r = ebind (responseCharsetCanonical (charset r)) (\<lambda>enc.
     if binary r \<or> isUtf8Charset enc then Inr s else stringToBytes s enc)"

definition sendEncoded :: "bytes \<Rightarrow> http \<Rightarrow> outcome" where
  "sendEncoded s st = (if \<not> s_response_write st \<or> s = [] then ret st else case encodeBuffer s (resp st) of
     Inl e \<Rightarrow> fails e st | Inr bs \<Rightarrow> ret (st\<lparr>wire := wire st @ bs\<rparr>))"

definition commit :: "http \<Rightarrow> http" where
  "commit st = (if committed (resp st) then st else (sendHeader st)\<lparr>resp := (resp st)\<lparr>committed := True\<rparr>\<rparr>)"

text \<open>cfflush. In the command-line program there is no stream and the text is kept aside.\<close>

definition response_flush :: "buffer \<Rightarrow> http \<Rightarrow> outcome" where
  "response_flush b st = (if silent_buf_contains b st then ret st else with_buf b st (\<lambda>v.
     if \<not> stream (resp st) then ret (buf_set b [] (st\<lparr>g_cli_flushed := g_cli_flushed st @ v, resp := (resp st)\<lparr>committed := True\<rparr>\<rparr>))
     else if v = [] then ret (commit st)
     else case sendEncoded v (commit st) of (Some e, st') \<Rightarrow> (Some e, st') | (None, st') \<Rightarrow> ret (buf_set b [] st')))"

definition response_send_remaining :: "buffer \<Rightarrow> http \<Rightarrow> outcome" where
  "response_send_remaining b st = (if \<not> stream (resp st) then ret st else with_buf b st (\<lambda>v.
     let st1 = commit st in
     case (if headContent (resp st1) = [] then ret st1 else case sendEncoded (headContent (resp st1)) st1 of
         (Some e, st2) \<Rightarrow> (Some e, st2) | (None, st2) \<Rightarrow> ret (st2\<lparr>resp := (resp st2)\<lparr>headContent := []\<rparr>\<rparr>)) of
       (Some e, st2) \<Rightarrow> (Some e, st2)
     | (None, st2) \<Rightarrow> sendEncoded v st2))"

definition response_encode_all :: "buffer \<Rightarrow> http \<Rightarrow> bytes res" where
  "response_encode_all b st = (case buf_get b st of None \<Rightarrow> Inl UB
     | Some v \<Rightarrow> encodeBuffer (g_cli_flushed st @ headContent (resp st) @ v) (resp st))"

section \<open>Values of headers\<close>

definition ws_or_tab :: "char \<Rightarrow> bool" where "ws_or_tab c \<longleftrightarrow> c = CHR '' '' \<or> c = CHR 0x09"

definition unquote :: "bytes \<Rightarrow> bytes" where
  "unquote cs = (if 2 \<le> length cs \<and> hd cs \<in> {CHR 0x22, CHR 0x27} \<and> last cs = hd cs
     then trimmed (take (length cs - 2) (drop 1 cs)) else cs)"

definition parseContentType :: "bytes \<Rightarrow> bytes \<times> bytes" where
  "parseContentType ty = (let semi = str_indexOf_char ty (CHR '';'') 0 in
     if semi < 0 then (trimmed ty, []) else
     let mime = trimmed (str_left ty semi); rest = drop (nat semi + 1) ty;
         csPos = str_indexOf (map to_lower rest) ''charset'' 0 in
     if csPos < 0 then (mime, []) else
     (case dropWhile ws_or_tab (drop (nat csPos + 7) rest) of [] \<Rightarrow> (mime, [])
      | c # q \<Rightarrow> if c \<noteq> CHR ''='' then (mime, []) else
          let cs = trimmed (dropWhile ws_or_tab q); stop = str_indexOf_char cs (CHR '';'') 0
          in (mime, unquote (if 0 \<le> stop then trimmed (str_left cs stop) else cs))))"

definition stripCRLF :: "bytes \<Rightarrow> bytes" where
  "stripCRLF s = filter (\<lambda>c. c \<noteq> CHR 0x0D \<and> c \<noteq> CHR 0x0A) s"

definition hex_lower :: "nat \<Rightarrow> char" where
  "hex_lower n = digits ! n"

definition encodeControlChars :: "bytes \<Rightarrow> bytes" where
  "encodeControlChars s = concat (map (\<lambda>c. if code c < 32 then [CHR ''%'', hex_lower (code c div 16), hex_lower (code c mod 16)] else [c]) s)"

definition token_at :: "bytes \<Rightarrow> bytes \<Rightarrow> nat \<Rightarrow> bool" where
  "token_at name url i \<longleftrightarrow> i + 1 + length name < length url
     \<and> compareCaseInsensitive (str_mid url (i + 1) (int (length name))) name = 0 \<and> url ! (i + 1 + length name) = CHR ''=''"

definition urlContainsCFTokens :: "bytes \<Rightarrow> bool" where
  "urlContainsCFTokens url = list_ex (\<lambda>i. url ! i \<in> {CHR ''?'', CHR ''&''} \<and> (token_at ''cfid'' url i \<or> token_at ''cftoken'' url i))
     [0 ..< length url - 1]"

fun set_header :: "bytes \<Rightarrow> bytes \<Rightarrow> (bytes \<times> bytes) list \<Rightarrow> (bytes \<times> bytes) list" where
  "set_header name v [] = [(name, v)]"
| "set_header name v (h # hs) = (if map to_lower (cstr (fst h)) = map to_lower name then (fst h, v) # hs else h # set_header name v hs)"

definition responseSetHeader :: "bytes \<Rightarrow> bytes \<Rightarrow> response_state \<Rightarrow> response_state" where
  "responseSetHeader name v r = r\<lparr>headers := set_header name v (headers r)\<rparr>"

definition set_content_type :: "bytes \<Rightarrow> http \<Rightarrow> outcome" where
  "set_content_type ty st = (let (mime, cs) = parseContentType ty; r = resp st;
       r1 = (if mime \<noteq> [] then r\<lparr>contentType := mime\<rparr> else r) in
     if cs = [] then ret (st\<lparr>resp := r1\<rparr>) else case responseCharsetCanonical cs of
       Inl e \<Rightarrow> fails e (st\<lparr>resp := r1\<rparr>) | Inr _ \<Rightarrow> ret (st\<lparr>resp := r1\<lparr>charset := cs\<rparr>\<rparr>))"

section \<open>Tags\<close>

definition already_flushed :: err where
  "already_flushed = Throw ''Failed to add HTML header. ColdFusion was unable to add the header you specified to the output stream. This is probably because you have already used a cfflush tag in your template or buffered output is turned off.''"

text \<open>The value of a header in the charset asked for; content-disposition is always converted.\<close>

definition header_charset :: "bytes \<Rightarrow> bytes option \<Rightarrow> bytes" where
  "header_charset name cs = (case cs of Some c \<Rightarrow> stripCRLF c
     | None \<Rightarrow> if compareCaseInsensitive name ''content-disposition'' = 0 then ''UTF-8'' else [])"

definition header_value :: "bytes \<Rightarrow> bytes \<Rightarrow> bytes res" where
  "header_value v cs = (if cs = [] then Inr (stripCRLF v) else case stringToBytes (stripCRLF v) cs of
     Inr bs \<Rightarrow> Inr bs
   | Inl _ \<Rightarrow> Inl (Throw (''Attribute validation error for tag cfheader. '' @ cs @ '' is not a supported character encoding.'')))"

definition set_status :: "int option \<Rightarrow> http \<Rightarrow> http" where
  "set_status status st = (case status of None \<Rightarrow> st | Some n \<Rightarrow> st\<lparr>resp := (resp st)\<lparr>statusCode := n\<rparr>\<rparr>)"

definition store_header :: "bytes \<Rightarrow> bytes \<Rightarrow> http \<Rightarrow> outcome" where
  "store_header n v st = (if compareCaseInsensitive n ''content-type'' = 0 then set_content_type v st
     else ret (st\<lparr>resp := (resp st)\<lparr>headers := headers (resp st) @ [(n, v)]\<rparr>\<rparr>))"

definition response_add_header :: "bytes option \<Rightarrow> bytes option \<Rightarrow> bytes option \<Rightarrow> int option \<Rightarrow> http \<Rightarrow> outcome" where
  "response_add_header name v cs status st = (if committed (resp st) then fails already_flushed st else
     case (name, v) of (Some n, Some value) \<Rightarrow> (case header_value value (header_charset n cs) of
         Inl e \<Rightarrow> fails e (set_status status st) | Inr value' \<Rightarrow> store_header n value' (set_status status st))
     | _ \<Rightarrow> ret (set_status status st))"

text \<open>cflocation; the session is the identifier of one created by this request. The page is aborted afterwards.\<close>

definition redirect_url :: "bytes option \<Rightarrow> bool \<Rightarrow> bytes option \<Rightarrow> bytes" where
  "redirect_url url addToken session = (let u = encodeControlChars (case url of None \<Rightarrow> [] | Some s \<Rightarrow> stripCRLF s) in
     case session of Some sid \<Rightarrow> if addToken \<and> \<not> urlContainsCFTokens u \<and> sid \<noteq> []
         then u @ (if CHR ''?'' \<in> set u then ''&CFID='' else ''?CFID='') @ cstr (takeWhile (\<lambda>c. c \<noteq> CHR '':'') sid) @ ''&CFTOKEN=''
           @ cstr (drop 1 (dropWhile (\<lambda>c. c \<noteq> CHR '':'') sid)) else u
     | None \<Rightarrow> u)"

definition response_redirect :: "bytes option \<Rightarrow> bool \<Rightarrow> int option \<Rightarrow> bytes option \<Rightarrow> http \<Rightarrow> outcome" where
  "response_redirect url addToken status session st = (let n = (case status of None \<Rightarrow> 302 | Some n \<Rightarrow> n) in
     if n < 300 \<or> 307 < n then fails (Throw ''Attribute validation error in the cflocation tag. Value of statuscode must be between 300 and 307.'') st
     else ret (if committed (resp st) then st else st\<lparr>resp := responseSetHeader ''Pragma'' ''no-cache'' (responseSetHeader ''Cache-Control'' ''no-cache''
       (responseSetHeader ''location'' (redirect_url url addToken session) ((resp st)\<lparr>statusCode := n\<rparr>)))\<rparr>))"

text \<open>cfcontent. The file is the result of reading it; deleting it afterwards is not modelled.\<close>

datatype content = FileBytes "bytes res" | BinaryVar bytes | TextVar bytes

definition replace_output :: "buffer \<Rightarrow> content \<Rightarrow> http \<Rightarrow> outcome" where
  "replace_output b c st = (let st1 = st\<lparr>resp := (resp st)\<lparr>binary := True\<rparr>\<rparr> in with_buf b st1 (\<lambda>_.
     let st2 = buf_set b [] st1 in
     case (case c of FileBytes r \<Rightarrow> r | BinaryVar bs \<Rightarrow> Inr bs | TextVar s \<Rightarrow> encodeBuffer s (resp st2)) of
       Inl e \<Rightarrow> fails e st2 | Inr bs \<Rightarrow> ret (buf_set b bs st2)))"

definition reset_output :: "buffer \<Rightarrow> http \<Rightarrow> outcome" where
  "reset_output b st = with_buf b st (\<lambda>_. let st1 = buf_set b [] st in
     case silent_real_out st1 of None \<Rightarrow> ret st1 | Some real \<Rightarrow> with_buf real st1 (\<lambda>_. ret (buf_set real [] st1)))"

definition response_apply_cfcontent :: "buffer \<Rightarrow> bytes option \<Rightarrow> bool option \<Rightarrow> content option \<Rightarrow> http \<Rightarrow> outcome" where
  "response_apply_cfcontent b ty reset c st = (case (case c of Some x \<Rightarrow> replace_output b x st
       | None \<Rightarrow> if reset \<noteq> Some False then reset_output b st else ret st) of
     (Some e, st1) \<Rightarrow> (Some e, st1)
   | (None, st1) \<Rightarrow> (case ty of Some t \<Rightarrow> if committed (resp st1) then ret st1 else set_content_type t st1 | None \<Rightarrow> ret st1))"

definition response_add_cookie :: "bytes \<Rightarrow> bytes \<Rightarrow> bytes \<Rightarrow> http \<Rightarrow> outcome" where
  "response_add_cookie name v path st = ret (if committed (resp st) then st
     else st\<lparr>resp := (resp st)\<lparr>cookies := cookies (resp st) @ [cstr name @ ''='' @ cstr v @ ''; Path='' @ cstr path]\<rparr>\<rparr>)"

text \<open>cfsavecontent: the name of its variable, then a discard buffer whose text is assigned to it.\<close>

fun var_name_from :: "bool \<Rightarrow> bytes \<Rightarrow> bool" where
  "var_name_from first [] = True"
| "var_name_from first (c # cs) = (if c = CHR ''.'' then \<not> (first \<or> cs = []) \<and> var_name_from first cs
     else (c = CHR ''_'' \<or> c = CHR ''$'' \<or> is_alpha c \<or> (\<not> first \<and> is_digit c)) \<and> var_name_from False cs)"

definition savecontentVarNameValid :: "bytes \<Rightarrow> bool" where
  "savecontentVarNameValid name \<longleftrightarrow> name \<noteq> [] \<and> var_name_from True name"

definition cf_savecontent_validate :: "bytes option \<Rightarrow> http \<Rightarrow> outcome" where
  "cf_savecontent_validate name st = (case name of None \<Rightarrow> ret st
     | Some n \<Rightarrow> if savecontentVarNameValid n then ret st else fails (Throw (''Cannot set variable with name '' @ n @ ''.'')) st)"

definition cf_savecontent_begin :: "http \<Rightarrow> buffer \<times> http" where
  "cf_savecontent_begin st = (Silent (length (g_silentBufs st)), silent_buf_push st)"

definition cf_savecontent_end :: "buffer \<Rightarrow> http \<Rightarrow> bytes option \<times> http" where
  "cf_savecontent_end captured st = (buf_get captured st, silent_buf_pop st)"

text \<open>cfcookie. The age in seconds is that of the expires attribute, -1 for a session cookie; the two date formats
  are functions of the age.\<close>

record cookie_attrs =
  c_name :: bytes
  c_value :: bytes
  c_encode :: bool
  c_preservecase :: bool
  c_maxAge :: int
  c_secure :: bool
  c_httponly :: bool
  c_domain :: bytes
  c_path :: bytes
  c_samesite :: bytes

definition cookieUrlEncode :: "bytes \<Rightarrow> bytes" where
  "cookieUrlEncode v = (case stringToBytes v ''UTF-8'' of Inl _ \<Rightarrow> []
     | Inr bs \<Rightarrow> concat (map (\<lambda>c. if is_alnum c then [c] else pct_escape c) bs))"

definition cookieNameValid :: "bytes \<Rightarrow> bool" where
  "cookieNameValid name \<longleftrightarrow> name \<noteq> [] \<and> list_all (\<lambda>c. c \<notin> {CHR '' '', CHR '','', CHR '';''}) name \<and> hd name \<noteq> CHR ''$''"

definition cookieValueIsToken :: "bytes \<Rightarrow> bool" where
  "cookieValueIsToken v = list_all (\<lambda>c. 0x21 \<le> code c \<and> code c \<le> 0x7E \<and> c \<notin> set ([CHR 0x22] @ ''(),:;<=>?@['' @ [CHR 0x5C] @ '']{}'')) v"

definition quoteCookieValue :: "bytes \<Rightarrow> bytes" where
  "quoteCookieValue v = [CHR 0x22] @ concat (map (\<lambda>c. if c \<in> {CHR 0x22, CHR 0x5C} then [CHR 0x5C, c] else [c]) v) @ [CHR 0x22]"

definition cookie_tail :: "cookie_attrs \<Rightarrow> bytes" where
  "cookie_tail a = (let path = stripCRLF (c_path a) in ''; Path='' @ (if path = [] then ''/'' else path)
     @ (if c_secure a then ''; Secure'' else []) @ (if c_httponly a then ''; HttpOnly'' else []))"

definition cookie_domain :: "cookie_attrs \<Rightarrow> bytes" where
  "cookie_domain a = (let d = stripCRLF (c_domain a) in if d = [] then [] else ''; Domain='' @ d)"

definition cookie_body :: "(int \<Rightarrow> bytes) \<Rightarrow> (int \<Rightarrow> bytes) \<Rightarrow> bytes \<Rightarrow> cookie_attrs \<Rightarrow> bytes" where
  "cookie_body rfc850 rfc1123 name a = (let v = stripCRLF (c_value a); cv = (if c_encode a then cookieUrlEncode v else v);
       age = c_maxAge a; maxage = (if 0 \<le> age then ''; Max-Age='' @ number age 10 else []) in
     if c_samesite a \<noteq> [] \<or> v = []
     then name @ ''='' @ (if c_samesite a \<noteq> [] then cv else [CHR 0x22, CHR 0x22]) @ cookie_domain a
       @ maxage @ (if 0 \<le> age then ''; Expires='' @ rfc850 age else []) @ cookie_tail a
       @ (if c_samesite a \<noteq> [] then ''; SameSite='' @ c_samesite a else [])
     else name @ ''='' @ (if cookieValueIsToken cv then cv else quoteCookieValue cv @ ''; Version=1'' @ maxage)
       @ cookie_domain a @ (if 0 \<le> age then ''; Expires='' @ rfc1123 age else []) @ cookie_tail a)"

definition cf_cookie_tag :: "(int \<Rightarrow> bytes) \<Rightarrow> (int \<Rightarrow> bytes) \<Rightarrow> cookie_attrs \<Rightarrow> http \<Rightarrow> outcome" where
  "cf_cookie_tag rfc850 rfc1123 a st = (let name = (if c_preservecase a then c_name a else map to_upper (c_name a)) in
     if \<not> cookieNameValid name then fails (Throw (''An error has occurred while trying to create a cookie with name '' @ name @ ''.'')) st
     else ret (if committed (resp st) then st
       else st\<lparr>resp := (resp st)\<lparr>cookies := cookies (resp st) @ [cookie_body rfc850 rfc1123 name a]\<rparr>\<rparr>))"

end
