(* ===== verification/HttpHeaders.thy ===== *)
theory HttpHeaders
  imports HttpResponse
begin

text \<open>
  Programs over the response: the order of what reaches the wire, the text of a page however it is flushed, and
  when the header block is the list of headers the page set.
\<close>

section \<open>Programs\<close>

datatype http_op = Write buffer bytes | WriteGated buffer bytes | Space buffer | SpaceGated buffer | OutputOnly bool
  | SilentBegin "buffer option" | SilentEnd | HtmlHead bytes
  | AddHeader "bytes option" "bytes option" "bytes option" "int option" | Redirect "bytes option" bool "int option" "bytes option"
  | Content buffer "bytes option" "bool option" "content option" | Cookie bytes bytes bytes | CookieTag cookie_attrs
  | Flush buffer | Finish buffer

fun http_step :: "(int \<Rightarrow> bytes) \<Rightarrow> (int \<Rightarrow> bytes) \<Rightarrow> http_op \<Rightarrow> http \<Rightarrow> outcome" where
  "http_step d1 d2 (Write b s) st = cfwriteoutput b s st"
| "http_step d1 d2 (WriteGated b s) st = cf_write_output_gated b s st"
| "http_step d1 d2 (Space b) st = cf_whitespace_space b st"
| "http_step d1 d2 (SpaceGated b) st = cf_whitespace_space_gated b st"
| "http_step d1 d2 (OutputOnly on) st = cf_cfoutputonly_set on st"
| "http_step d1 d2 (SilentBegin real) st = cf_silent_begin real st"
| "http_step d1 d2 SilentEnd st = cf_silent_end st"
| "http_step d1 d2 (HtmlHead s) st = cf_htmlhead_append s st"
| "http_step d1 d2 (AddHeader n v cs status) st = response_add_header n v cs status st"
| "http_step d1 d2 (Redirect url tok status session) st = response_redirect url tok status session st"
| "http_step d1 d2 (Content b ty reset c) st = response_apply_cfcontent b ty reset c st"
| "http_step d1 d2 (Cookie n v path) st = response_add_cookie n v path st"
| "http_step d1 d2 (CookieTag a) st = cf_cookie_tag d1 d2 a st"
| "http_step d1 d2 (Flush b) st = response_flush b st"
| "http_step d1 d2 (Finish b) st = response_send_remaining b st"

text \<open>A page that catches every error: each operation runs in the state the one before it left.\<close>

fun http_run :: "(int \<Rightarrow> bytes) \<Rightarrow> (int \<Rightarrow> bytes) \<Rightarrow> http_op list \<Rightarrow> http \<Rightarrow> http" where
  "http_run d1 d2 [] st = st"
| "http_run d1 d2 (op # ops) st = http_run d1 d2 ops (snd (http_step d1 d2 op st))"

text \<open>The state a request starts with, an engine attached.\<close>

definition silent_buf_clear :: "http \<Rightarrow> http" where
  "silent_buf_clear st = st\<lparr>g_silentBufs := [], g_silentRealBufs := []\<rparr>"

definition response_begin :: "bytes \<Rightarrow> http \<Rightarrow> http" where
  "response_begin defaultOutputCharset st = silent_buf_clear (st\<lparr>resp := \<lparr>contentType = ''text/html'', charset = defaultOutputCharset,
     committed = False, binary = False, stream = False, contentLanguage = [], cookies = [], statusCode = 200, headers = [],
     headContent = []\<rparr>, g_cli_flushed := []\<rparr>)"

definition request_start :: "bytes \<Rightarrow> http" where
  "request_start cs = (let st = response_begin cs \<lparr>resp = \<lparr>contentType = [], charset = [],
     committed = False, binary = False, stream = False, contentLanguage = [], cookies = [], statusCode = 200, headers = [],
     headContent = []\<rparr>, s_response_write = True, wire = [], g_cli_flushed = [], page_out = [],
     g_silentBufs = [], g_silentRealBufs = [], g_cfoutputOnly = False\<rparr> in st\<lparr>resp := (resp st)\<lparr>stream := True\<rparr>\<rparr>)"

lemma request_start_fresh: "stream (resp (request_start cs))" "s_response_write (request_start cs)" "\<not> committed (resp (request_start cs))"
    "wire (request_start cs) = []" "page_out (request_start cs) = []" "\<not> binary (resp (request_start cs))"
    "headContent (resp (request_start cs)) = []" "charset (resp (request_start cs)) = cs" "contentType (resp (request_start cs)) = ''text/html''"
    "contentLanguage (resp (request_start cs)) = []" "cookies (resp (request_start cs)) = []" "headers (resp (request_start cs)) = []"
  by (simp_all add: request_start_def response_begin_def silent_buf_clear_def Let_def)

lemma http_run_append: "http_run d1 d2 (xs @ ys) st = http_run d1 d2 ys (http_run d1 d2 xs st)"
  by (induction xs arbitrary: st) auto

section \<open>What an operation does to the wire\<close>

definition head_of :: "response_state \<Rightarrow> int \<times> (bytes \<times> bytes) list \<times> bytes \<times> bytes \<times> bytes list \<times> bytes" where
  "head_of r = (statusCode r, headers r, contentType r, charset r, cookies r, contentLanguage r)"

lemma header_lines_head: "head_of r = head_of r' \<Longrightarrow> header_lines r = header_lines r'"
  by (simp add: head_of_def header_lines_def status_line_def)

lemma header_block_head: "head_of r = head_of r' \<Longrightarrow> header_block r = header_block r'"
  using header_lines_head [of r r'] by (simp add: header_block_def)

definition attached :: "http \<Rightarrow> bool" where
  "attached st \<longleftrightarrow> stream (resp st) \<and> s_response_write st"

definition quiet :: "http \<Rightarrow> http \<Rightarrow> bool" where
  "quiet st st' \<longleftrightarrow> wire st' = wire st \<and> attached st' = attached st \<and> committed (resp st') = committed (resp st)
     \<and> (committed (resp st) \<longrightarrow> head_of (resp st') = head_of (resp st))"

definition sends :: "bytes \<Rightarrow> http \<Rightarrow> http \<Rightarrow> bool" where
  "sends body st st' \<longleftrightarrow> attached st' = attached st \<and> committed (resp st') \<and> head_of (resp st') = head_of (resp st)
     \<and> wire st' = wire st @ (if committed (resp st) then [] else header_block (resp st)) @ body"

text \<open>The body an operation adds, read off the buffers and the charset alone: what a flush or the end of the request
  finds in the buffer, encoded, after the head content at the end. A text the charset cannot hold adds nothing, and
  nothing follows it.\<close>

definition encodes :: "bytes \<Rightarrow> response_state \<Rightarrow> bool" where
  "encodes s r \<longleftrightarrow> s = [] \<or> (case encodeBuffer s r of Inl _ \<Rightarrow> False | Inr _ \<Rightarrow> True)"

definition piece :: "bytes \<Rightarrow> response_state \<Rightarrow> bytes" where
  "piece s r = (if s = [] then [] else case encodeBuffer s r of Inl _ \<Rightarrow> [] | Inr bs \<Rightarrow> bs)"

definition commits :: "http_op \<Rightarrow> http \<Rightarrow> bool" where
  "commits op st = (case op of Flush b \<Rightarrow> \<not> silent_buf_contains b st \<and> buf_get b st \<noteq> None
     | Finish b \<Rightarrow> buf_get b st \<noteq> None | _ \<Rightarrow> False)"

definition body_of :: "http_op \<Rightarrow> http \<Rightarrow> bytes" where
  "body_of op st = (case op of
       Flush b \<Rightarrow> if silent_buf_contains b st then [] else (case buf_get b st of None \<Rightarrow> [] | Some v \<Rightarrow> piece v (resp st))
     | Finish b \<Rightarrow> (case buf_get b st of None \<Rightarrow> [] | Some v \<Rightarrow> piece (headContent (resp st)) (resp st)
         @ (if encodes (headContent (resp st)) (resp st) then piece v (resp st) else []))
     | _ \<Rightarrow> [])"

text \<open>Along a page: the response as the first operation that sends anything finds it, and the whole body.\<close>

fun head_at :: "(int \<Rightarrow> bytes) \<Rightarrow> (int \<Rightarrow> bytes) \<Rightarrow> http_op list \<Rightarrow> http \<Rightarrow> response_state option" where
  "head_at d1 d2 [] st = None"
| "head_at d1 d2 (op # ops) st = (if commits op st then Some (resp st) else head_at d1 d2 ops (snd (http_step d1 d2 op st)))"

fun body_run :: "(int \<Rightarrow> bytes) \<Rightarrow> (int \<Rightarrow> bytes) \<Rightarrow> http_op list \<Rightarrow> http \<Rightarrow> bytes" where
  "body_run d1 d2 [] st = []"
| "body_run d1 d2 (op # ops) st = body_of op st @ body_run d1 d2 ops (snd (http_step d1 d2 op st))"

lemma body_quiet: "\<not> commits op st \<Longrightarrow> body_of op st = []"
  by (auto simp: commits_def body_of_def split: http_op.splits option.splits)

lemma quiet_refl [simp]: "quiet st st"
  by (simp add: quiet_def)

lemma quiet_trans: "quiet a b \<Longrightarrow> quiet b c \<Longrightarrow> quiet a c"
  by (auto simp: quiet_def)

lemma buf_set_fields [simp]: "resp (buf_set b v st) = resp st" "wire (buf_set b v st) = wire st"
    "s_response_write (buf_set b v st) = s_response_write st" "g_cfoutputOnly (buf_set b v st) = g_cfoutputOnly st"
    "g_cli_flushed (buf_set b v st) = g_cli_flushed st"
  by (simp_all add: buf_set_def split: buffer.split)

lemma quiet_buf_set [simp]: "quiet st (buf_set b v st)"
  by (simp add: quiet_def attached_def)

lemma quiet_with_buf: "(\<And>v. quiet st0 (snd (f v))) \<Longrightarrow> quiet st0 st \<Longrightarrow> quiet st0 (snd (with_buf b st f))"
  by (simp add: with_buf_def fails_def split: option.split)

lemma quiet_resp: "resp st' = resp st \<Longrightarrow> wire st' = wire st \<Longrightarrow> s_response_write st' = s_response_write st \<Longrightarrow> quiet st st'"
  by (simp add: quiet_def attached_def)

lemma quiet_set_content_type: "\<not> committed (resp st) \<Longrightarrow> quiet st (snd (set_content_type ty st))"
  by (simp add: set_content_type_def ret_def fails_def quiet_def attached_def Let_def split: prod.split sum.split)

lemma quiet_set_status: "\<not> committed (resp st) \<Longrightarrow> quiet st (set_status status st) \<and> \<not> committed (resp (set_status status st))"
  by (auto simp: set_status_def quiet_def attached_def split: option.split)

lemma quiet_store_header: "\<not> committed (resp st) \<Longrightarrow> quiet st (snd (store_header n v st))"
  by (simp add: store_header_def quiet_set_content_type) (simp add: quiet_def attached_def ret_def)

lemma quiet_add_header: "quiet st (snd (response_add_header n v cs status st))"
proof (cases "committed (resp st)")
  case False
  with quiet_set_status [of st status] have "quiet st (set_status status st)" "quiet st (snd (store_header m w (set_status status st)))" for m w
    by (blast intro: quiet_trans quiet_store_header)+
  with False show ?thesis by (simp add: response_add_header_def fails_def ret_def split: option.split sum.split)
qed (simp add: response_add_header_def fails_def)

lemma quiet_replace_output: "quiet st (snd (replace_output b c st))"
proof -
  let ?st1 = "st\<lparr>resp := (resp st)\<lparr>binary := True\<rparr>\<rparr>"
  have q: "quiet st ?st1" by (simp add: quiet_def attached_def head_of_def)
  then have "quiet st (buf_set b v ?st1)" "quiet st (buf_set b w (buf_set b v ?st1))" for v w by (blast intro: quiet_trans quiet_buf_set)+
  with q show ?thesis unfolding replace_output_def Let_def
    by (intro quiet_with_buf) (simp_all add: fails_def ret_def split: sum.split)
qed

lemma quiet_reset_output: "quiet st (snd (reset_output b st))"
  unfolding reset_output_def Let_def
proof (rule quiet_with_buf)
  fix v
  let ?st1 = "buf_set b [] st"
  have "quiet st (buf_set real [] ?st1)" for real by (blast intro: quiet_trans quiet_buf_set)
  then show "quiet st (snd (case silent_real_out ?st1 of None \<Rightarrow> ret ?st1 | Some real \<Rightarrow> with_buf real ?st1 (\<lambda>_. ret (buf_set real [] ?st1))))"
    by (simp add: ret_def quiet_with_buf split: option.split)
qed simp

lemma quiet_cfcontent: "quiet st (snd (response_apply_cfcontent b ty reset c st))"
proof -
  let ?r = "case c of Some x \<Rightarrow> replace_output b x st | None \<Rightarrow> if reset \<noteq> Some False then reset_output b st else ret st"
  have "quiet st (snd ?r)" using quiet_replace_output quiet_reset_output by (auto simp: ret_def split: option.split)
  then show ?thesis unfolding response_apply_cfcontent_def
    by (auto simp: ret_def intro: quiet_trans quiet_set_content_type split: prod.split option.split)
qed

lemma quiet_redirect: "quiet st (snd (response_redirect url tok status session st))"
  by (simp add: response_redirect_def Let_def fails_def ret_def responseSetHeader_def) (simp add: quiet_def attached_def)

lemma quiet_cookie_tag: "quiet st (snd (cf_cookie_tag d1 d2 a st))"
  by (simp add: cf_cookie_tag_def Let_def fails_def ret_def) (simp add: quiet_def attached_def)

lemma quiet_writes: "quiet st (snd (cfwriteoutput b s st))" "quiet st (snd (cf_write_output_gated b s st))"
    "quiet st (snd (cf_whitespace_space b st))" "quiet st (snd (cf_whitespace_space_gated b st))"
  unfolding cfwriteoutput_def cf_write_output_gated_def cf_whitespace_space_gated_def cf_whitespace_space_def
  by (simp_all add: ret_def quiet_with_buf)

lemma quiet_silent: "quiet st (snd (cf_silent_begin real st))" "quiet st (snd (cf_silent_end st))"
  by (auto simp: cf_silent_begin_def cf_silent_end_def ret_def silent_buf_push_def silent_set_real_out_def silent_buf_pop_def Let_def
      intro!: quiet_resp split: option.split)

lemma quiet_others: "quiet st (snd (cf_htmlhead_append s st))" "quiet st (snd (response_add_cookie n v path st))"
    "quiet st (snd (cf_cfoutputonly_set on st))"
  by (auto simp: cf_htmlhead_append_def response_add_cookie_def cf_cfoutputonly_set_def ret_def quiet_def attached_def head_of_def)

text \<open>The two operations that write to the wire.\<close>

lemma commit_fields [simp]: "attached (commit st) = attached st" "committed (resp (commit st))" "head_of (resp (commit st)) = head_of (resp st)"
    "s_response_write (commit st) = s_response_write st" "charset (resp (commit st)) = charset (resp st)" "binary (resp (commit st)) = binary (resp st)"
    "headContent (resp (commit st)) = headContent (resp st)" "stream (resp (commit st)) = stream (resp st)"
  by (auto simp: commit_def attached_def sendHeader_def head_of_def)

lemma commit_wire: "attached st \<Longrightarrow> wire (commit st) = wire st @ (if committed (resp st) then [] else header_block (resp st))"
  by (simp add: commit_def attached_def sendHeader_def)

lemma sends_commit: "attached st \<Longrightarrow> sends [] st (commit st)"
  by (simp add: sends_def commit_wire)

lemma sendEncoded_fields: "resp (snd (sendEncoded s st)) = resp st" "s_response_write (snd (sendEncoded s st)) = s_response_write st"
  by (simp_all add: sendEncoded_def ret_def fails_def split: sum.split)

lemma encodeBuffer_head: "head_of r = head_of r' \<Longrightarrow> binary r = binary r' \<Longrightarrow> encodeBuffer s r = encodeBuffer s r'"
  by (simp add: encodeBuffer_def head_of_def)

lemma sendEncoded_exact:
  assumes "attached st" "head_of (resp st) = head_of r" "binary (resp st) = binary r"
  shows "snd (sendEncoded s st) = st\<lparr>wire := wire st @ piece s r\<rparr>" "fst (sendEncoded s st) = None \<longleftrightarrow> encodes s r"
  using assms(1) encodeBuffer_head [OF assms(2,3), of s]
  by (simp_all add: sendEncoded_def piece_def encodes_def attached_def ret_def fails_def split: sum.split)

lemma sends_extend: "sends u st st1 \<Longrightarrow> sends (u @ v) st (st1\<lparr>wire := wire st1 @ v\<rparr>)"
  by (simp add: sends_def attached_def)

lemma sends_fields: "sends u st st1 \<Longrightarrow> sends u st (buf_set b v st1)" "sends u st st1 \<Longrightarrow> sends u st (st1\<lparr>resp := (resp st1)\<lparr>headContent := h\<rparr>\<rparr>)"
  by (auto simp: sends_def attached_def head_of_def)

lemma flush_effect:
  assumes "attached st"
  shows "if commits (Flush b) st then sends (body_of (Flush b) st) st (snd (response_flush b st)) else quiet st (snd (response_flush b st))"
proof (cases "silent_buf_contains b st \<or> buf_get b st = None")
  case True
  then show ?thesis by (auto simp: response_flush_def ret_def fails_def with_buf_def commits_def)
next
  case False
  then obtain v where v: "buf_get b st = Some v" by auto
  have p: "sends (piece v (resp st)) st (snd (sendEncoded v (commit st)))"
    using sends_extend [OF sends_commit [OF assms]] sendEncoded_exact(1) [of "commit st" "resp st" v] assms by simp
  moreover have "v = [] \<Longrightarrow> snd (sendEncoded v (commit st)) = commit st" by (simp add: sendEncoded_def ret_def)
  ultimately show ?thesis using False v assms
    by (cases "sendEncoded v (commit st)")
      (auto simp: commits_def body_of_def response_flush_def with_buf_def ret_def sends_fields attached_def split: option.split)
qed

lemma finish_effect:
  assumes "attached st"
  shows "if commits (Finish b) st then sends (body_of (Finish b) st) st (snd (response_send_remaining b st))
    else quiet st (snd (response_send_remaining b st))"
proof (cases "buf_get b st")
  case None
  then show ?thesis by (auto simp: response_send_remaining_def ret_def fails_def with_buf_def commits_def)
next
  case (Some v)
  let ?h = "headContent (resp st)" and ?r = "resp st"
  let ?s = "(commit st)\<lparr>wire := wire (commit st) @ piece ?h ?r\<rparr>"
  let ?t = "if ?h = [] then commit st else ?s\<lparr>resp := (resp ?s)\<lparr>headContent := []\<rparr>\<rparr>"
  have st: "stream (resp st)" using assms by (simp add: attached_def)
  have h: "snd (sendEncoded ?h (commit st)) = ?s" "fst (sendEncoded ?h (commit st)) = None \<longleftrightarrow> encodes ?h ?r"
    using sendEncoded_exact [of "commit st" ?r ?h] assms by simp_all
  have e: "sends (piece ?h ?r) st ?s" using sends_extend [OF sends_commit [OF assms]] by simp
  then have t: "sends (piece ?h ?r) st ?t" using sends_commit [OF assms] sends_fields(2) [OF e, of "[]"] by (auto simp: piece_def)
  have "attached ?t" "head_of (resp ?t) = head_of ?r" "binary (resp ?t) = binary ?r" using t assms by (simp_all add: sends_def)
  from sendEncoded_exact(1) [OF this] sends_extend [OF t] have f: "sends (piece ?h ?r @ piece v ?r) st (snd (sendEncoded v ?t))" by simp
  have "snd (response_send_remaining b st) = (if encodes ?h ?r then snd (sendEncoded v ?t) else ?s)"
    using Some st h by (cases "sendEncoded ?h (commit st)")
      (auto simp: response_send_remaining_def with_buf_def ret_def Let_def encodes_def split: option.split)
  with e f Some show ?thesis by (simp add: commits_def body_of_def)
qed

lemma step_effect:
  assumes "attached st"
  shows "if commits op st then sends (body_of op st) st (snd (http_step d1 d2 op st)) else quiet st (snd (http_step d1 d2 op st))"
  using flush_effect [OF assms] finish_effect [OF assms]
  by (cases op) (simp_all add: commits_def quiet_add_header quiet_cfcontent quiet_redirect quiet_cookie_tag quiet_writes quiet_silent quiet_others)

lemma run_committed: "attached st \<Longrightarrow> committed (resp st) \<Longrightarrow> committed (resp (http_run d1 d2 ops st))
    \<and> head_of (resp (http_run d1 d2 ops st)) = head_of (resp st) \<and> wire (http_run d1 d2 ops st) = wire st @ body_run d1 d2 ops st"
proof (induction ops arbitrary: st)
  case (Cons op ops)
  let ?st1 = "snd (http_step d1 d2 op st)"
  have "attached ?st1 \<and> committed (resp ?st1) \<and> head_of (resp ?st1) = head_of (resp st) \<and> wire ?st1 = wire st @ body_of op st"
    using step_effect [OF Cons.prems(1), of op d1 d2] Cons.prems body_quiet [of op st] by (auto simp: quiet_def sends_def split: if_splits)
  with Cons.IH [of ?st1] show ?case by auto
qed simp

lemma run_sends:
  assumes "attached st" "\<not> committed (resp st)" "wire st = []"
  shows "case head_at d1 d2 ops st of
      None \<Rightarrow> \<not> committed (resp (http_run d1 d2 ops st)) \<and> wire (http_run d1 d2 ops st) = []
    | Some r \<Rightarrow> committed (resp (http_run d1 d2 ops st)) \<and> head_of (resp (http_run d1 d2 ops st)) = head_of r
        \<and> wire (http_run d1 d2 ops st) = header_block r @ body_run d1 d2 ops st"
  using assms
proof (induction ops arbitrary: st)
  case (Cons op ops)
  let ?st1 = "snd (http_step d1 d2 op st)"
  show ?case
  proof (cases "commits op st")
    case True
    with step_effect [OF Cons.prems(1), of op d1 d2] have "sends (body_of op st) st ?st1" by simp
    with Cons.prems have s: "attached ?st1" "committed (resp ?st1)" "head_of (resp ?st1) = head_of (resp st)"
        "wire ?st1 = header_block (resp st) @ body_of op st" by (simp_all add: sends_def)
    from run_committed [OF s(1,2), of d1 d2 ops] s(3,4) True show ?thesis by simp
  next
    case False
    with step_effect [OF Cons.prems(1), of op d1 d2] have "quiet st ?st1" by simp
    with Cons.prems have "attached ?st1" "\<not> committed (resp ?st1)" "wire ?st1 = []" by (simp_all add: quiet_def)
    from Cons.IH [OF this] False body_quiet [OF False] show ?thesis by (simp split: option.splits)
  qed
qed simp

text \<open>C2: whatever a page does on a stream the web engine gave it, what the engine receives is exactly one header block
  followed by the body, or nothing. Nothing arrives before the first flush (or the end) of a buffer; the block is made
  of the headers, cookies, status and type the response held at that moment; and after it come exactly the encoded
  contents of the buffers flushed, in order: no second block, no byte lost or added, and no later change of a header
  is kept.\<close>

theorem headers_sent_once:
  assumes "attached st" "\<not> committed (resp st)" "wire st = []"
  shows "case head_at d1 d2 ops st of
      None \<Rightarrow> \<not> committed (resp (http_run d1 d2 ops st)) \<and> wire (http_run d1 d2 ops st) = []
    | Some r \<Rightarrow> committed (resp (http_run d1 d2 ops st)) \<and> head_of (resp (http_run d1 d2 ops st)) = head_of r
        \<and> wire (http_run d1 d2 ops st) = header_block r @ body_run d1 d2 ops st"
  by (rule run_sends [OF assms])

section \<open>The text of a page\<close>

lemma utf8Decode_append: "utf8Decode a = Some x \<Longrightarrow> utf8Decode (a @ b) = map_option ((@) x) (utf8Decode b)"
proof (induction a arbitrary: x rule: utf8Decode.induct)
  case (2 c bs)
  then obtain cp n cp' y where h: "utf8_lead (code c) = Some (cp, n)" "\<not> length bs < n" "utf8_cont cp (take n bs) = Some cp'"
      "utf8Decode (drop n bs) = Some y" "x = cp' # y" by (auto split: option.splits if_splits prod.splits)
  from 2(1) [OF h(1) refl h(2,3,4)] h show ?case by (cases "utf8Decode b") auto
qed (simp add: option.map_ident map_option_cong [where f = "(@) []" and g = "\<lambda>x. x"])

definition valid_text :: "bytes \<Rightarrow> bool" where
  "valid_text s \<longleftrightarrow> utf8Decode s \<noteq> None"

lemma valid_append: "valid_text a \<Longrightarrow> valid_text b \<Longrightarrow> valid_text (a @ b)"
  by (auto simp: valid_text_def utf8Decode_append)

text \<open>Every charset but UTF-16 with its mark encodes text piece by piece.\<close>

definition piecewise :: "response_state \<Rightarrow> bool" where
  "piecewise r \<longleftrightarrow> (\<exists>enc. responseCharsetCanonical (charset r) = Inr enc \<and> enc \<noteq> ''UTF-16'')"

lemma canonical_names: "responseCharsetCanonical cs = Inr enc \<Longrightarrow> enc \<in> {''UTF-8'', ''ISO-8859-1'', ''US-ASCII'', ''UTF-16'', ''UTF-16BE'', ''UTF-16LE''}"
  unfolding responseCharsetCanonical_def Let_def by (simp only: split: if_splits) auto

lemma piecewise_charset:
  assumes "responseCharsetCanonical cs = Inr enc" "enc \<noteq> ''UTF-16''"
  obtains c where "encoding_of enc = Some c" "\<And>x y. encode_points c (x @ y) = encode_points c x @ encode_points c y" "encode_points c [] = []"
proof -
  from canonical_names [OF assms(1)] assms(2) have "enc \<in> {''UTF-8'', ''ISO-8859-1'', ''US-ASCII'', ''UTF-16BE'', ''UTF-16LE''}" by simp
  then show thesis
    by (elim insertE emptyE) (rule that, simp only: encoding_names, simp_all add: encode_points_def utf8_encode_def)+
qed

lemma encodeBuffer_append:
  assumes "piecewise r"
  shows "valid_text a \<Longrightarrow> valid_text b \<Longrightarrow> \<exists>x y. encodeBuffer a r = Inr x \<and> encodeBuffer b r = Inr y \<and> encodeBuffer (a @ b) r = Inr (x @ y)"
    and "encodeBuffer [] r = Inr []"
proof -
  obtain enc where enc: "responseCharsetCanonical (charset r) = Inr enc" "enc \<noteq> ''UTF-16''" using assms by (auto simp: piecewise_def)
  obtain c where c: "encoding_of enc = Some c" "\<And>x y. encode_points c (x @ y) = encode_points c x @ encode_points c y" "encode_points c [] = []"
    by (rule piecewise_charset [OF enc]) blast
  have e: "encodeBuffer s r = Inr (if binary r \<or> isUtf8Charset enc then s else encode_points c (utf8ToCodepoints s))" for s
    by (simp add: encodeBuffer_def enc(1) stringToBytes_eq c(1))
  show "encodeBuffer [] r = Inr []" by (simp add: e utf8ToCodepoints_def c(3))
  assume "valid_text a" "valid_text b"
  then have "utf8ToCodepoints (a @ b) = utf8ToCodepoints a @ utf8ToCodepoints b"
    by (auto simp: valid_text_def utf8ToCodepoints_def utf8Decode_append)
  then show "\<exists>x y. encodeBuffer a r = Inr x \<and> encodeBuffer b r = Inr y \<and> encodeBuffer (a @ b) r = Inr (x @ y)"
    by (simp add: e c(2))
qed

fun page_text :: "http_op list \<Rightarrow> bool \<Rightarrow> bytes" where
  "page_text [] gate = []"
| "page_text (Write b s # ops) gate = s @ page_text ops gate"
| "page_text (WriteGated b s # ops) gate = (if gate then [] else s) @ page_text ops gate"
| "page_text (OutputOnly on # ops) gate = page_text ops on"
| "page_text (op # ops) gate = page_text ops gate"

fun textual :: "http_op \<Rightarrow> bool" where
  "textual (Write b s) = (b = PageOut \<and> valid_text s)"
| "textual (WriteGated b s) = (b = PageOut \<and> valid_text s)"
| "textual (OutputOnly on) = True"
| "textual (Flush b) = (b = PageOut)"
| "textual op = False"

text \<open>The state after text \<open>t\<close>: what was flushed is on the wire, the rest in the buffer.\<close>

definition written :: "http \<Rightarrow> bytes \<Rightarrow> http \<Rightarrow> bool" where
  "written st0 t st \<longleftrightarrow> attached st \<and> head_of (resp st) = head_of (resp st0) \<and> \<not> binary (resp st) \<and> headContent (resp st) = []
     \<and> valid_text (page_out st) \<and> (if committed (resp st)
       then \<exists>t1 bs. t = t1 @ page_out st \<and> valid_text t1 \<and> encodeBuffer t1 (resp st0) = Inr bs \<and> wire st = header_block (resp st0) @ bs
       else wire st = [] \<and> page_out st = t)"

lemma written_write:
  assumes "written st0 t st" "valid_text s"
  shows "written st0 (t @ s) (buf_set PageOut (page_out st @ s) st)"
  using assms by (auto simp: written_def valid_append buf_set_def attached_def)

lemma sendEncoded_ok: "s_response_write st \<Longrightarrow> encodeBuffer s (resp st) = Inr bs \<Longrightarrow> s = [] \<longrightarrow> bs = [] \<Longrightarrow>
    sendEncoded s st = ret (st\<lparr>wire := wire st @ bs\<rparr>)"
  by (auto simp: sendEncoded_def ret_def)

text \<open>Putting the buffer on the wire.\<close>

lemma send_page:
  assumes w: "written st0 t st" and p: "piecewise (resp st0)" and b: "\<not> binary (resp st0)"
  obtains x bs where "sendEncoded (page_out st) (commit st) = ret ((commit st)\<lparr>wire := wire (commit st) @ x\<rparr>)"
    "page_out st = [] \<longrightarrow> x = []" "encodeBuffer t (resp st0) = Inr bs" "wire (commit st) @ x = header_block (resp st0) @ bs" "valid_text t"
proof -
  have att: "stream (resp st)" "s_response_write st" and hd: "head_of (resp st) = head_of (resp st0)" and nb: "\<not> binary (resp st)"
    and v: "valid_text (page_out st)" using w by (auto simp: written_def attached_def)
  have e: "encodeBuffer s (resp (commit st)) = encodeBuffer s (resp st0)" for s
    using hd nb b by (intro encodeBuffer_head) auto
  obtain x where x: "encodeBuffer (page_out st) (resp st0) = Inr x"
    using encodeBuffer_append(1) [OF p v v] by blast
  have "page_out st = [] \<longrightarrow> x = []" using x encodeBuffer_append(2) [OF p] by auto
  moreover have "sendEncoded (page_out st) (commit st) = ret ((commit st)\<lparr>wire := wire (commit st) @ x\<rparr>)"
    by (rule sendEncoded_ok) (use att x calculation e in auto)
  moreover have "\<exists>bs. encodeBuffer t (resp st0) = Inr bs \<and> wire (commit st) @ x = header_block (resp st0) @ bs \<and> valid_text t"
  proof (cases "committed (resp st)")
    case True
    with w obtain t1 y where "t = t1 @ page_out st" "valid_text t1" "encodeBuffer t1 (resp st0) = Inr y" "wire st = header_block (resp st0) @ y"
      by (auto simp: written_def)
    moreover from this encodeBuffer_append(1) [OF p _ v, of t1] x have "encodeBuffer t (resp st0) = Inr (y @ x)" by auto
    ultimately show ?thesis using True v by (simp add: commit_def valid_append)
  next
    case False
    with w have "wire st = []" "page_out st = t" by (auto simp: written_def)
    moreover have "header_block (resp st) = header_block (resp st0)" using hd by (rule header_block_head)
    ultimately show ?thesis using False x v att by (simp add: commit_wire attached_def)
  qed
  ultimately show thesis using that by blast
qed

lemma written_flush:
  assumes w: "written st0 t st" and p: "piecewise (resp st0)" and b: "\<not> binary (resp st0)"
  shows "written st0 t (snd (response_flush PageOut st))"
proof -
  from send_page [OF assms] obtain x bs where s: "sendEncoded (page_out st) (commit st) = ret ((commit st)\<lparr>wire := wire (commit st) @ x\<rparr>)"
      "page_out st = [] \<longrightarrow> x = []" "encodeBuffer t (resp st0) = Inr bs" "wire (commit st) @ x = header_block (resp st0) @ bs" "valid_text t"
    by blast
  let ?st = "buf_set PageOut [] ((commit st)\<lparr>wire := wire (commit st) @ x\<rparr>)"
  have "written st0 t ?st"
    using w s(3,4,5) by (auto simp: written_def buf_set_def attached_def valid_text_def)
  moreover have "snd (response_flush PageOut st) = (if page_out st = [] then commit st else ?st)"
    using w s(1) by (simp add: response_flush_def silent_buf_contains_def with_buf_def buf_get_def ret_def written_def attached_def)
  moreover have "page_out st = [] \<Longrightarrow> commit st = ?st"
    using s(2) by (simp add: buf_set_def commit_def sendHeader_def)
  ultimately show ?thesis by (auto split: if_splits)
qed

lemma written_run:
  assumes "piecewise (resp st0)" "\<not> binary (resp st0)"
  shows "written st0 t st \<Longrightarrow> list_all textual ops \<Longrightarrow> written st0 (t @ page_text ops (g_cfoutputOnly st)) (http_run d1 d2 ops st)"
proof (induction ops arbitrary: t st)
  case (Cons op ops)
  have w: "written st0 (t @ page_text [op] (g_cfoutputOnly st)) (snd (http_step d1 d2 op st))"
  proof (cases op)
    case (Write b s)
    with Cons.prems written_write [OF Cons.prems(1), of s] show ?thesis
      by (auto simp: cfwriteoutput_def with_buf_def buf_get_def ret_def written_def)
  next
    case (WriteGated b s)
    with Cons.prems written_write [OF Cons.prems(1), of s] show ?thesis
      by (auto simp: cf_write_output_gated_def with_buf_def buf_get_def ret_def written_def)
  next
    case (OutputOnly on)
    with Cons.prems show ?thesis by (auto simp: cf_cfoutputonly_set_def ret_def written_def attached_def)
  next
    case (Flush b)
    with Cons.prems written_flush [OF Cons.prems(1) assms] show ?thesis by simp
  qed (use Cons.prems in auto)
  have g: "g_cfoutputOnly (snd (http_step d1 d2 op st)) = (case op of OutputOnly on \<Rightarrow> on | _ \<Rightarrow> g_cfoutputOnly st)"
    using Cons.prems(2)
    by (cases op) (auto simp: cfwriteoutput_def cf_write_output_gated_def cf_cfoutputonly_set_def with_buf_def fails_def ret_def
        response_flush_def silent_buf_contains_def buf_get_def sendEncoded_def commit_def sendHeader_def split: option.split prod.split sum.split)
  have "page_text [op] (g_cfoutputOnly st) @ page_text ops (g_cfoutputOnly (snd (http_step d1 d2 op st))) = page_text (op # ops) (g_cfoutputOnly st)"
    using Cons.prems(2) g by (cases op) simp_all
  with Cons.IH [OF w] Cons.prems(2) show ?case by simp
qed simp

text \<open>C32: on a page without head content whose response is text in a charset other than UTF-16 (with that one every
  flush starts with its own byte order mark, so there flushing does change the body) and that only writes valid UTF-8
  to the page's buffer, switches cfsetting's output gate and flushes that buffer, what is sent is the header block and
  the encoding of the text the page wrote, in order, minus what the gate suppressed, wherever and however often the
  page flushed.\<close>

theorem page_output_exact:
  assumes "attached st" "\<not> committed (resp st)" "wire st = []" "page_out st = []" "\<not> binary (resp st)" "headContent (resp st) = []"
    and "piecewise (resp st)" "list_all textual ops"
  shows "\<exists>bs. encodeBuffer (page_text ops (g_cfoutputOnly st)) (resp st) = Inr bs
    \<and> wire (http_run d1 d2 (ops @ [Finish PageOut]) st) = header_block (resp st) @ bs"
proof -
  let ?st' = "http_run d1 d2 ops st" and ?t = "page_text ops (g_cfoutputOnly st)"
  have "written st [] st" using assms by (simp add: written_def valid_text_def)
  from written_run [OF assms(7,5) this assms(8)] have w: "written st ?t ?st'" by simp
  from send_page [OF w assms(7,5)] obtain x bs where s: "sendEncoded (page_out ?st') (commit ?st') = ret ((commit ?st')\<lparr>wire := wire (commit ?st') @ x\<rparr>)"
      "encodeBuffer ?t (resp st) = Inr bs" "wire (commit ?st') @ x = header_block (resp st) @ bs" by blast
  have "snd (response_send_remaining PageOut ?st') = (commit ?st')\<lparr>wire := wire (commit ?st') @ x\<rparr>"
    using w s(1) by (simp add: response_send_remaining_def with_buf_def buf_get_def Let_def ret_def written_def attached_def)
  with s show ?thesis by (auto simp: http_run_append)
qed

definition sample_page :: "http_op list" where
  "sample_page = [AddHeader (Some ''X-A'') (Some ''1'') None None, Write PageOut ''a'', Flush PageOut, Redirect (Some ''/x'') False None None,
     Write PageOut ''b'', Flush PageOut, Write PageOut ''c'', Finish PageOut]"

definition no_dates :: "int \<Rightarrow> bytes" where "no_dates age = []"

theorem headers_sent_once_witness: "wire (http_run no_dates no_dates sample_page (request_start ''UTF-8''))
    = ''X-A: 1'' @ crlf @ ''Content-Type: text/html;charset=UTF-8'' @ crlf @ crlf @ ''abc''"
proof -
  have h: "map_option header_block (head_at no_dates no_dates sample_page (request_start ''UTF-8''))
      = Some (''X-A: 1'' @ crlf @ ''Content-Type: text/html;charset=UTF-8'' @ crlf @ crlf)"
    and b: "body_run no_dates no_dates sample_page (request_start ''UTF-8'') = ''abc''"
    by code_simp+
  from h obtain r where r: "head_at no_dates no_dates sample_page (request_start ''UTF-8'') = Some r"
      "header_block r = ''X-A: 1'' @ crlf @ ''Content-Type: text/html;charset=UTF-8'' @ crlf @ crlf" by auto
  show ?thesis using headers_sent_once [of "request_start ''UTF-8''" no_dates no_dates sample_page] r b
    by (simp add: attached_def request_start_fresh)
qed

theorem page_output_exact_witness: "\<exists>bs. encodeBuffer ''ab'' (resp (request_start ''UTF-8'')) = Inr bs
    \<and> wire (http_run (\<lambda>_. []) (\<lambda>_. []) ([Write PageOut ''a'', Flush PageOut, OutputOnly True, WriteGated PageOut ''x'', Write PageOut ''b''] @ [Finish PageOut])
        (request_start ''UTF-8'')) = header_block (resp (request_start ''UTF-8'')) @ bs"
proof -
  let ?ops = "[Write PageOut ''a'', Flush PageOut, OutputOnly True, WriteGated PageOut ''x'', Write PageOut ''b'']"
  have v: "valid_text [c]" if "code c < 128" for c using that by (simp add: valid_text_def utf8_lead_def)
  have "responseCharsetCanonical ''UTF-8'' = Inr ''UTF-8''" by code_simp
  then have "piecewise (resp (request_start ''UTF-8''))" by (simp add: piecewise_def request_start_fresh)
  moreover have "list_all textual ?ops" by (simp add: v)
  moreover have "page_text ?ops (g_cfoutputOnly (request_start ''UTF-8'')) = ''ab''"
    by (simp add: request_start_def response_begin_def silent_buf_clear_def Let_def)
  ultimately show ?thesis
    using page_output_exact [of "request_start ''UTF-8''" ?ops "\<lambda>_. []" "\<lambda>_. []"] by (simp only: attached_def request_start_fresh simp_thms)
qed

section \<open>Captured content\<close>

text \<open>What a cfsavecontent block captures is what its body wrote to it; the page's own output and wire are as before,
  and an output written elsewhere meanwhile stays.\<close>

fun captured_text :: "bytes list \<Rightarrow> bytes" where
  "captured_text [] = []"
| "captured_text (s # ss) = s @ captured_text ss"

lemma captured_writes:
  assumes "\<not> binary (resp st)" "buf_get b st = Some v"
  shows "http_run d1 d2 (map (Write b) ss) st = buf_set b (v @ captured_text ss) st"
  using assms
proof (induction ss arbitrary: st v)
  case Nil
  then show ?case by (auto simp: buf_get_def buf_set_def split: buffer.splits if_splits)
next
  case (Cons s ss)
  have g: "buf_get b (buf_set b w st) = Some w" for w using Cons.prems(2) by (auto simp: buf_get_def buf_set_def split: buffer.splits if_splits)
  have t: "buf_set b x (buf_set b w st) = buf_set b x st" for x w by (simp add: buf_set_def split: buffer.split)
  have "buf_set b v st = st" using Cons.prems(2) by (auto simp: buf_get_def buf_set_def split: buffer.splits if_splits)
  then have "snd (cfwriteoutput b s st) = buf_set b (v @ s) st" using Cons.prems by (simp add: cfwriteoutput_def with_buf_def ret_def)
  with Cons.IH [of "buf_set b (v @ s) st" "v @ s"] Cons.prems(1) g t show ?case by simp
qed

lemma savecontent_captures:
  assumes "\<not> binary (resp st)" "length (g_silentRealBufs st) \<le> length (g_silentBufs st)"
  shows "cf_savecontent_end (fst (cf_savecontent_begin st)) (http_run d1 d2 (map (Write (fst (cf_savecontent_begin st))) ss) (snd (cf_savecontent_begin st)))
    = (Some (captured_text ss), st)"
proof -
  have b: "\<not> binary (resp (silent_buf_push st))" "buf_get (Silent (length (g_silentBufs st))) (silent_buf_push st) = Some []"
    using assms(1) by (simp_all add: silent_buf_push_def buf_get_def)
  show ?thesis using captured_writes [OF b, of d1 d2 ss] assms(2)
    by (simp add: cf_savecontent_begin_def cf_savecontent_end_def buf_get_def buf_set_def silent_buf_push_def silent_buf_pop_def Let_def)
qed

lemma savecontent_names: "savecontentVarNameValid ''a..b'' \<and> \<not> savecontentVarNameValid ''1a''"
  by code_simp

end
