(* ===== verification/HttpClean.thy ===== *)
theory HttpClean
  imports HttpHeaders
begin

text \<open>
  The header block as a web server reads it, and the response fields free of line breaks: which tags keep them so,
  and what a page must not pass to the ones that do not.
\<close>

section \<open>Reading the header block\<close>

text \<open>The web server's side: lines end with CR LF, and an empty line ends the block.\<close>

fun split_crlf :: "bytes \<Rightarrow> (bytes \<times> bytes) option" where
  "split_crlf (c # d # cs) = (if c = CHR 0x0D \<and> d = CHR 0x0A then Some ([], cs)
     else map_option (\<lambda>(l, rest). (c # l, rest)) (split_crlf (d # cs)))"
| "split_crlf cs = None"

lemma split_crlf_shorter: "split_crlf s = Some (l, rest) \<Longrightarrow> length rest < length s"
  by (induction s arbitrary: l rule: split_crlf.induct) (force split: if_splits)+

function read_head :: "bytes \<Rightarrow> (bytes list \<times> bytes) option" where
  "read_head s = (case split_crlf s of None \<Rightarrow> None
     | Some (l, rest) \<Rightarrow> if l = [] then Some ([], rest) else map_option (\<lambda>(ls, body). (l # ls, body)) (read_head rest))"
  by pat_completeness auto

termination by (relation "measure length") (auto dest: split_crlf_shorter)

declare read_head.simps [simp del]

definition clean :: "bytes \<Rightarrow> bool" where
  "clean s \<longleftrightarrow> CHR 0x0D \<notin> set s \<and> CHR 0x0A \<notin> set s"

lemma clean_simps [simp]: "clean []" "clean (c # s) \<longleftrightarrow> c \<noteq> CHR 0x0D \<and> c \<noteq> CHR 0x0A \<and> clean s" "clean (a @ b) \<longleftrightarrow> clean a \<and> clean b"
  by (auto simp: clean_def)

lemma clean_subset: "set s \<subseteq> set t \<Longrightarrow> clean t \<Longrightarrow> clean s"
  by (auto simp: clean_def)

lemma split_crlf_clean: "clean l \<Longrightarrow> split_crlf (l @ crlf @ rest) = Some (l, rest)"
proof (induction l)
  case (Cons c l)
  then show ?case by (cases l) (auto simp: crlf_def)
qed (simp add: crlf_def)

lemma read_head_lines: "list_all (\<lambda>l. clean l \<and> l \<noteq> []) ls \<Longrightarrow> read_head (concat (map (\<lambda>l. l @ crlf) ls) @ crlf @ body) = Some (ls, body)"
proof (induction ls)
  case Nil
  then show ?case using split_crlf_clean [of "[]" body] by (simp add: read_head.simps)
next
  case (Cons l ls)
  then show ?case using split_crlf_clean [of l "concat (map (\<lambda>l. l @ crlf) ls) @ crlf @ body"]
    by (simp add: read_head.simps [of "l @ _"])
qed

text \<open>Fields without line breaks.\<close>

definition fields_clean :: "response_state \<Rightarrow> bool" where
  "fields_clean r \<longleftrightarrow> clean (contentType r) \<and> clean (charset r) \<and> clean (contentLanguage r) \<and> list_all clean (cookies r)
     \<and> list_all (\<lambda>h. clean (fst h) \<and> clean (snd h)) (headers r)"

lemma clean_cstr: "clean s \<Longrightarrow> clean (cstr s)"
  by (rule clean_subset) (auto simp: cstr_def dest: set_takeWhileD)

lemma clean_digit: "i < 16 \<Longrightarrow> clean [digits ! i]"
proof -
  assume "i < 16"
  then have "digits ! i \<in> set digits" by (intro nth_mem) (simp add: digits_def)
  moreover have "clean digits" by (simp add: digits_def)
  ultimately show ?thesis by (auto simp: clean_def)
qed

lemma clean_digits_loop: "base \<le> 16 \<Longrightarrow> clean s \<Longrightarrow> clean (digits_loop base val s)"
proof (induction base val s rule: digits_loop.induct)
  case (1 base val s)
  show ?case
  proof (cases "val = 0 \<or> base < 2")
    case False
    then have "val mod base < base" by (intro mod_less_divisor) simp
    then have "val mod base < 16" using 1(2) by simp
    then have "clean (digits ! (val mod base) # s)" using clean_digit 1(3) by fastforce
    with 1(1) [OF False] 1(2) False show ?thesis by (simp add: digits_loop.simps [of base val])
  qed (use 1 in \<open>simp add: digits_loop.simps [of base val]\<close>)
qed

lemma clean_number: "clean (number n 10)"
  using clean_digits_loop [of 10 "[]"] by (simp add: number_def Let_def)

lemma header_lines_clean: "fields_clean r \<Longrightarrow> list_all (\<lambda>l. clean l \<and> l \<noteq> []) (header_lines r)"
  by (auto simp: fields_clean_def header_lines_def status_line_def header_line_def clean_number clean_cstr list_all_iff)

lemma read_header_block: "fields_clean r \<Longrightarrow> read_head (header_block r @ body) = Some (header_lines r, body)"
  using read_head_lines [OF header_lines_clean, of r body] by (simp add: header_block_def)

section \<open>Which operations keep the fields clean\<close>

lemma clean_strip [simp]: "clean (stripCRLF s)"
  by (auto simp: stripCRLF_def clean_def)

lemma clean_trimmed: "clean s \<Longrightarrow> clean (trimmed s)"
  by (rule clean_subset) (auto simp: trimmed_def Let_def dest!: in_set_takeD in_set_dropD)

lemma clean_cut: "clean s \<Longrightarrow> clean (take n s)" "clean s \<Longrightarrow> clean (drop n s)" "clean s \<Longrightarrow> clean (dropWhile P s)"
    "clean s \<Longrightarrow> clean (str_left s k)"
  by (auto simp: clean_def str_left_def dest!: in_set_takeD in_set_dropD dest: set_dropWhileD)

lemma clean_unquote: "clean s \<Longrightarrow> clean (unquote s)"
  by (simp add: unquote_def clean_trimmed clean_cut)

lemma parseContentType_clean:
  assumes "clean ty" "parseContentType ty = (mime, cs)"
  shows "clean mime \<and> clean cs"
proof -
  have u: "clean (unquote (trimmed (str_left (trimmed (dropWhile ws_or_tab q)) n)))" "clean (unquote (trimmed (dropWhile ws_or_tab q)))"
    if "clean q" for q n using that by (simp_all add: clean_unquote clean_trimmed clean_cut)
  have q: "clean q" if "dropWhile ws_or_tab (drop k ty) = c # q" for k c q
    using that assms(1) clean_cut(3) [of "drop k ty" ws_or_tab] by (simp add: clean_cut)
  show ?thesis using assms(2) assms(1)
    by (auto simp: parseContentType_def Let_def clean_trimmed clean_cut u simp del: clean_simps(2,3) split: if_splits list.splits dest!: q)
qed

lemma set_content_type_clean:
  assumes "fields_clean (resp st)" "clean ty"
  shows "fields_clean (resp (snd (set_content_type ty st)))"
proof -
  obtain mime cs where m: "parseContentType ty = (mime, cs)" by fastforce
  with parseContentType_clean [OF assms(2) m] assms(1) show ?thesis
    by (simp add: set_content_type_def fields_clean_def ret_def fails_def Let_def split: sum.split)
qed

lemma hex_lower_clean: "n < 16 \<Longrightarrow> hex_lower n \<noteq> CHR 0x0D \<and> hex_lower n \<noteq> CHR 0x0A"
  using clean_digit [of n] by (simp add: hex_lower_def)

lemma clean_encodeControlChars: "clean (encodeControlChars s)"
proof (induction s)
  case (Cons c s)
  have "\<not> code c < 32 \<Longrightarrow> c \<noteq> CHR 0x0D \<and> c \<noteq> CHR 0x0A" by auto
  with Cons hex_lower_clean [of "code c div 16"] hex_lower_clean [of "code c mod 16"] show ?case by (simp add: encodeControlChars_def)
qed (simp add: encodeControlChars_def)

lemma clean_redirect_url: "pred_option clean session \<Longrightarrow> clean (redirect_url url tok session)"
proof -
  have "clean sid \<Longrightarrow> clean (cstr (takeWhile P sid)) \<and> clean (cstr (drop 1 (dropWhile P sid)))" for P sid
    by (intro conjI clean_cstr clean_cut) (auto simp: clean_def dest: set_takeWhileD)
  then show "pred_option clean session \<Longrightarrow> clean (redirect_url url tok session)"
    by (auto simp: redirect_url_def Let_def clean_encodeControlChars split: option.split)
qed

lemma set_header_clean: "list_all (\<lambda>h. clean (fst h) \<and> clean (snd h)) hs \<Longrightarrow> clean n \<Longrightarrow> clean v \<Longrightarrow>
    list_all (\<lambda>h. clean (fst h) \<and> clean (snd h)) (set_header n v hs)"
  by (induction n v hs rule: set_header.induct) auto

lemma redirect_clean: "fields_clean (resp st) \<Longrightarrow> pred_option clean session \<Longrightarrow> fields_clean (resp (snd (response_redirect url tok status session st)))"
  by (simp add: response_redirect_def Let_def responseSetHeader_def fails_def ret_def fields_clean_def set_header_clean clean_redirect_url)

lemma clean_upper: "clean s \<Longrightarrow> clean (map to_upper s)"
proof -
  have "to_upper c \<noteq> CHR 0x0D \<and> to_upper c \<noteq> CHR 0x0A" if "c \<noteq> CHR 0x0D" "c \<noteq> CHR 0x0A" for c
  proof (cases "is_lower c")
    case True
    then have r: "97 \<le> (of_char c :: nat)" "(of_char c :: nat) \<le> 122" by (simp_all add: is_lower_def char_le_nat)
    then have "(of_char (to_upper c) :: nat) = of_char c - 32" using True by (simp add: to_upper_def)
    with r have "65 \<le> (of_char (to_upper c) :: nat)" by linarith
    then show ?thesis by auto
  qed (use that in \<open>simp add: to_upper_def\<close>)
  then show "clean s \<Longrightarrow> clean (map to_upper s)" by (induction s) auto
qed

lemma clean_hex_pair: "clean (hex_pair c)"
proof -
  have "cryptoHexDigits ! i \<in> set cryptoHexDigits" if "i < 16" for i using that by (intro nth_mem) (simp add: cryptoHexDigits_def)
  moreover have "drop_bit 4 (code c) < 16" by (simp add: drop_bit_eq_div less_mult_imp_div_less)
  moreover have "code c AND 15 < 16" using take_bit_nat_less_exp [of 4 "code c"] by (simp add: take_bit_eq_mask mask_eq_exp_minus_1)
  moreover have "clean cryptoHexDigits" by (simp add: cryptoHexDigits_def)
  ultimately show ?thesis by (auto simp: hex_pair_def clean_def)
qed

lemma clean_cookieUrlEncode: "clean (cookieUrlEncode v)"
proof -
  have "clean (concat (map (\<lambda>c. if is_alnum c then [c] else pct_escape c) bs))" for bs
    by (induction bs) (auto simp: charclass pct_escape_def clean_hex_pair)
  then show ?thesis by (simp add: cookieUrlEncode_def split: sum.split)
qed

lemma clean_quote: "clean v \<Longrightarrow> clean (quoteCookieValue v)"
  by (auto simp: quoteCookieValue_def clean_def)

text \<open>The date texts the cookie tag is given are clean.\<close>

definition clean_dates :: "(int \<Rightarrow> bytes) \<Rightarrow> (int \<Rightarrow> bytes) \<Rightarrow> bool" where
  "clean_dates d1 d2 \<longleftrightarrow> (\<forall>age. clean (d1 age) \<and> clean (d2 age))"

lemma clean_cookie_body:
  assumes "clean_dates d1 d2" "clean name" "clean (c_samesite a)"
  shows "clean (cookie_body d1 d2 name a)"
proof -
  have "clean (d1 k)" "clean (d2 k)" for k using assms(1) by (simp_all add: clean_dates_def)
  with assms(2,3) show ?thesis
    by (simp add: cookie_body_def Let_def cookie_domain_def cookie_tail_def clean_cookieUrlEncode clean_quote clean_number)
qed

text \<open>What a page must keep free of line breaks: what the code sends as it was given.\<close>

definition safe_op :: "http_op \<Rightarrow> bool" where
  "safe_op op = (case op of
       AddHeader (Some n) (Some v) cs status \<Rightarrow> clean n \<and> header_charset n cs = []
     | Redirect url tok status session \<Rightarrow> pred_option clean session
     | Content b ty reset c \<Rightarrow> pred_option clean ty
     | Cookie n v path \<Rightarrow> clean n \<and> clean v \<and> clean path
     | CookieTag a \<Rightarrow> clean (c_name a) \<and> clean (c_samesite a)
     | _ \<Rightarrow> True)"


lemma fields_clean_head: "head_of r = head_of r' \<Longrightarrow> fields_clean r' \<Longrightarrow> fields_clean r"
  by (simp add: head_of_def fields_clean_def)

lemma head_with_buf: "(\<And>v. head_of (resp (snd (f v))) = h) \<Longrightarrow> head_of (resp st) = h \<Longrightarrow> head_of (resp (snd (with_buf b st f))) = h"
  by (simp add: with_buf_def fails_def split: option.split)

lemma head_sendEncoded: "sendEncoded s st = (e, st') \<Longrightarrow> head_of (resp st') = head_of (resp st)"
  using sendEncoded_fields(1) [of s st] by simp

lemma head_writes: "head_of (resp (snd (cfwriteoutput b s st))) = head_of (resp st)"
    "head_of (resp (snd (cf_write_output_gated b s st))) = head_of (resp st)"
    "head_of (resp (snd (cf_whitespace_space b st))) = head_of (resp st)"
    "head_of (resp (snd (cf_whitespace_space_gated b st))) = head_of (resp st)"
  unfolding cfwriteoutput_def cf_write_output_gated_def cf_whitespace_space_gated_def cf_whitespace_space_def
  by (simp_all add: ret_def head_with_buf)

lemma head_silent: "head_of (resp (snd (cf_silent_begin real st))) = head_of (resp st)" "head_of (resp (snd (cf_silent_end st))) = head_of (resp st)"
    "head_of (resp (snd (cf_htmlhead_append s st))) = head_of (resp st)" "head_of (resp (snd (cf_cfoutputonly_set on st))) = head_of (resp st)"
  by (auto simp: cf_silent_begin_def cf_silent_end_def ret_def silent_buf_push_def silent_set_real_out_def silent_buf_pop_def Let_def
      cf_htmlhead_append_def cf_cfoutputonly_set_def head_of_def split: option.split)

lemma head_update [simp]: "head_of (r\<lparr>committed := c\<rparr>) = head_of r" "head_of (r\<lparr>headContent := h\<rparr>) = head_of r"
  by (simp_all add: head_of_def)

lemma head_flush: "head_of (resp (snd (response_flush b st))) = head_of (resp st)"
  unfolding response_flush_def
  by (auto simp: ret_def intro!: head_with_buf dest!: head_sendEncoded split: prod.split option.split)

lemma head_finish: "head_of (resp (snd (response_send_remaining b st))) = head_of (resp st)"
proof -
  have "head_of (resp (snd (sendEncoded v st'))) = head_of (resp st)" if "head_of (resp st') = head_of (resp st)" for v st'
    using that sendEncoded_fields(1) [of v st'] by simp
  moreover have "head_of (resp (st'\<lparr>resp := (resp st')\<lparr>headContent := []\<rparr>\<rparr>)) = head_of (resp st)"
    if "sendEncoded (headContent (resp (commit st))) (commit st) = (e, st')" for e st' using head_sendEncoded [OF that] by simp
  ultimately show ?thesis unfolding response_send_remaining_def Let_def
    by (auto simp: ret_def intro!: head_with_buf dest: head_sendEncoded split: prod.split option.split)
qed

lemmas head_keeps = head_writes head_silent head_flush head_finish

lemma step_clean:
  assumes "clean_dates d1 d2" "fields_clean (resp st)" "safe_op op"
  shows "fields_clean (resp (snd (http_step d1 d2 op st)))"
proof (cases op)
  case (AddHeader n v cs status)
  let ?st = "set_status status st"
  have "fields_clean (resp ?st)" using assms(2) by (simp add: set_status_def fields_clean_def split: option.split)
  moreover from this have "fields_clean (resp (snd (store_header m w ?st)))" if "clean m" "clean w" for m w
    using that set_content_type_clean by (auto simp: store_header_def fields_clean_def ret_def)
  ultimately show ?thesis using AddHeader assms(2,3)
    by (auto simp: response_add_header_def safe_op_def header_value_def fails_def ret_def split: option.split)
next
  case (Redirect url tok status session)
  then show ?thesis using assms by (simp add: redirect_clean safe_op_def)
next
  case (Content b ty reset c)
  let ?r = "case c of Some x \<Rightarrow> replace_output b x st | None \<Rightarrow> if reset \<noteq> Some False then reset_output b st else ret st"
  have "fields_clean (resp (snd ?r))" using assms(2)
    by (auto simp: replace_output_def reset_output_def with_buf_def Let_def fails_def ret_def fields_clean_def split: option.split sum.split)
  then show ?thesis using Content assms(3) set_content_type_clean
    by (auto simp: response_apply_cfcontent_def safe_op_def ret_def split: prod.split option.split)
next
  case (Cookie n v path)
  then show ?thesis using assms by (simp add: response_add_cookie_def safe_op_def ret_def fields_clean_def clean_cstr)
next
  case (CookieTag a)
  then show ?thesis using assms clean_cookie_body [OF assms(1)] clean_upper
    by (simp add: cf_cookie_tag_def safe_op_def ret_def fails_def fields_clean_def Let_def)
qed (use assms(2) head_keeps in \<open>auto intro: fields_clean_head\<close>)

section \<open>The block a server reads\<close>

lemma run_wire:
  assumes "attached st" "\<not> committed (resp st)" "wire st = []"
  shows "wire (http_run d1 d2 ops st) = [] \<or> wire (http_run d1 d2 ops st) = header_block (resp (http_run d1 d2 ops st)) @ body_run d1 d2 ops st"
proof (cases "head_at d1 d2 ops st")
  case None
  with run_sends [OF assms, of d1 d2 ops] show ?thesis by simp
next
  case (Some r)
  with run_sends [OF assms, of d1 d2 ops] have "head_of (resp (http_run d1 d2 ops st)) = head_of r"
      "wire (http_run d1 d2 ops st) = header_block r @ body_run d1 d2 ops st" by simp_all
  with header_block_head [OF this(1)] show ?thesis by simp
qed

lemma run_clean: "clean_dates d1 d2 \<Longrightarrow> fields_clean (resp st) \<Longrightarrow> list_all safe_op ops \<Longrightarrow> fields_clean (resp (http_run d1 d2 ops st))"
  by (induction ops arbitrary: st) (simp_all add: step_clean)

lemma request_start_clean: "clean cs \<Longrightarrow> fields_clean (resp (request_start cs))"
  by (simp add: fields_clean_def request_start_fresh)

text \<open>C3: the header block a page sends is read back by the server as exactly the lines of the page's headers, and
  what follows it as exactly the body, as long as nothing the code sends as it stands holds a line break. That is:
  the default charset, the names given to cfheader, the types given to cfcontent, the name and SameSite of a cfcookie,
  the date texts of its expiry, the name, value and path given to \<open>response_add_cookie\<close> (the session cookies) and the
  session identifier appended to a redirect are clean, and no cfheader value is converted to a charset, so neither the
  charset attribute nor the name Content-Disposition is used (C33 shows what that conversion lets through). Header
  values, the value, domain and path of a cfcookie, redirect targets, texts and head content are arbitrary.\<close>

theorem no_forged_header:
  assumes "clean cs" "clean_dates d1 d2" "list_all safe_op ops" "st' = http_run d1 d2 ops (request_start cs)" "wire st' \<noteq> []"
  shows "read_head (wire st') = Some (header_lines (resp st'), body_run d1 d2 ops (request_start cs))"
proof -
  have "attached (request_start cs)" by (simp add: attached_def request_start_fresh)
  from run_wire [OF this request_start_fresh(3,4), of d1 d2 ops] assms(4,5)
  have "wire st' = header_block (resp st') @ body_run d1 d2 ops (request_start cs)" by simp
  with read_header_block [OF run_clean [OF assms(2) request_start_clean [OF assms(1)] assms(3)]] assms(4) show ?thesis by auto
qed

definition forging_page :: "http_op list" where
  "forging_page = [AddHeader (Some ''X'') (Some (''a'' @ crlf @ ''b'')) None None, Redirect (Some (''/x'' @ crlf @ ''Y: 1'')) False None None,
     CookieTag \<lparr>c_name = ''k'', c_value = ''1'' @ crlf @ ''Z: 2'', c_encode = False, c_preservecase = True, c_maxAge = -1, c_secure = False,
       c_httponly = False, c_domain = [], c_path = ''/'' @ crlf @ ''p'', c_samesite = []\<rparr>, Write PageOut (crlf @ ''hi''), Flush PageOut]"

theorem no_forged_header_witness: "read_head (wire (http_run no_dates no_dates forging_page (request_start ''UTF-8'')))
    = Some ([''Status: 302'', ''X: ab'', ''location: /xY: 1'', ''Cache-Control: no-cache'', ''Pragma: no-cache'',
        ''Content-Type: text/html;charset=UTF-8'', ''Set-Cookie: k='' @ [CHR 0x22] @ ''1Z: 2'' @ [CHR 0x22] @ ''; Version=1; Path=/p''], crlf @ ''hi'')"
proof -
  let ?st = "http_run no_dates no_dates forging_page (request_start ''UTF-8'')"
  have "header_charset ''X'' None = []" by code_simp
  then have s: "list_all safe_op forging_page" "clean ''UTF-8''" by (simp_all add: forging_page_def safe_op_def)
  have d: "clean_dates no_dates no_dates" by (simp add: clean_dates_def no_dates_def)
  have w: "wire ?st \<noteq> []" "header_lines (resp ?st) = [''Status: 302'', ''X: ab'', ''location: /xY: 1'', ''Cache-Control: no-cache'', ''Pragma: no-cache'',
        ''Content-Type: text/html;charset=UTF-8'', ''Set-Cookie: k='' @ [CHR 0x22] @ ''1Z: 2'' @ [CHR 0x22] @ ''; Version=1; Path=/p'']"
      "body_run no_dates no_dates forging_page (request_start ''UTF-8'') = crlf @ ''hi''"
    by code_simp+
  show ?thesis using no_forged_header [OF s(2) d s(1) refl w(1)] w(2,3) by simp
qed

text \<open>The bytes C0 8D C0 8A are an overlong spelling of CR LF: the strip does not see them, and the conversion to the
  header's charset turns them into a line break.\<close>

definition overlong_crlf :: bytes where "overlong_crlf = map byte [0xC0, 0x8D, 0xC0, 0x8A]"

lemma utf8Decode_overlong: "utf8Decode overlong_crlf = Some [13, 10]"
  by code_simp

definition plain :: "bytes \<Rightarrow> bool" where
  "plain s \<longleftrightarrow> list_all (\<lambda>c. 32 \<le> code c \<and> code c < 127) s"

lemma plain_clean: "plain s \<Longrightarrow> clean s"
  by (auto simp: plain_def clean_def list_all_iff)

lemma plain_cstr: "plain s \<Longrightarrow> CHR 0x00 \<notin> set s"
  by (auto simp: plain_def list_all_iff)

lemma plain_decode: "plain s \<Longrightarrow> utf8Decode s = Some (map code s)"
  by (induction s) (auto simp: plain_def utf8_lead_def)

lemma plain_encode: "plain s \<Longrightarrow> utf8_encode (map code s) = s"
  by (induction s) (auto simp: plain_def utf8_encode_def utf8_bytes_def)

lemma stripCRLF_id: "clean s \<Longrightarrow> stripCRLF s = s"
  by (auto simp: stripCRLF_def clean_def intro!: filter_True)

lemma overlong_header_value:
  assumes "plain a" "plain b"
  shows "header_value (a @ overlong_crlf @ b) ''UTF-8'' = Inr (a @ crlf @ b)"
proof -
  have c: "clean overlong_crlf" by code_simp
  have b: "byte 13 = CHR 0x0D" "byte 10 = CHR 0x0A" by code_simp+
  have "utf8Decode (a @ overlong_crlf @ b) = Some (map code a @ [13, 10] @ map code b)"
    by (simp add: utf8Decode_append plain_decode assms utf8Decode_overlong)
  moreover have "utf8_encode (map code a @ [13, 10] @ map code b) = a @ crlf @ b"
    using plain_encode [OF assms(1)] plain_encode [OF assms(2)] b by (simp add: utf8_encode_def utf8_bytes_def crlf_def)
  moreover have "stringToBytes v ''UTF-8'' = Inr (utf8_encode (utf8ToCodepoints v))" for v
    by (simp add: stringToBytes_def codepointsToBytes_def charset_of_def to_upper_def is_lower_def encode_points_def)
  ultimately show ?thesis
    by (simp add: header_value_def stripCRLF_id c plain_clean assms utf8ToCodepoints_def)
qed


lemma overlong_header_line:
  assumes "plain v" "plain line"
  shows "header_line (''Content-Disposition'', v @ crlf @ line) = ''Content-Disposition: '' @ v @ crlf @ line"
proof -
  have "cstr s = s" if "CHR 0x00 \<notin> set s" for s :: bytes using that by (auto simp: cstr_def nul_def takeWhile_eq_all_conv)
  with plain_cstr [OF assms(1)] plain_cstr [OF assms(2)] show ?thesis by (simp add: header_line_def crlf_def)
qed

lemma overlong_add_header:
  assumes "plain v" "plain line" "\<not> committed (resp st)"
  shows "response_add_header (Some ''Content-Disposition'') (Some (v @ overlong_crlf @ line)) None None st
    = ret (st\<lparr>resp := (resp st)\<lparr>headers := headers (resp st) @ [(''Content-Disposition'', v @ crlf @ line)]\<rparr>\<rparr>)"
proof -
  have "compareCaseInsensitive ''Content-Disposition'' ''content-disposition'' = 0" "compareCaseInsensitive ''Content-Disposition'' ''content-type'' \<noteq> 0"
    by code_simp+
  then show ?thesis using assms
    by (simp add: response_add_header_def header_charset_def overlong_header_value store_header_def set_status_def)
qed

text \<open>C33: the value of a Content-Disposition header that holds the overlong line break, which no filter for CR and LF
  rejects, splits the header: the server reads whatever follows it as a header line of its own.\<close>

theorem disposition_forges_header:
  assumes "fields_clean (resp st)" "\<not> committed (resp st)" "plain v" "plain line" "line \<noteq> []"
  shows "clean (v @ overlong_crlf @ line) \<and> (\<exists>pre post. read_head (header_block (resp (snd (response_add_header (Some ''Content-Disposition'')
      (Some (v @ overlong_crlf @ line)) None None st))) @ body) = Some (pre @ [''Content-Disposition: '' @ v, line] @ post, body))"
proof -
  let ?r = "resp st" and ?h = "(''Content-Disposition'', v @ crlf @ line)"
  let ?pre = "(if statusCode ?r \<noteq> 200 then [status_line ?r] else []) @ map header_line (headers ?r)"
  let ?post = "[''Content-Type: '' @ contentType ?r @ '';charset='' @ charset ?r] @ map (\<lambda>c. ''Set-Cookie: '' @ cstr c) (cookies ?r)
     @ (if contentLanguage ?r \<noteq> [] then [''Content-Language: '' @ contentLanguage ?r] else [])"
  let ?ls = "?pre @ [''Content-Disposition: '' @ v, line] @ ?post"
  have "header_lines (?r\<lparr>headers := headers ?r @ [?h]\<rparr>) = ?pre @ [''Content-Disposition: '' @ v @ crlf @ line] @ ?post"
    using overlong_header_line [OF assms(3,4)] by (simp add: header_lines_def status_line_def)
  then have b: "header_block (?r\<lparr>headers := headers ?r @ [?h]\<rparr>) = concat (map (\<lambda>l. l @ crlf) ?ls) @ crlf"
    by (simp only: header_block_def map_append concat_append list.map concat.simps append_assoc append_Nil append_Nil2)
  have "list_all (\<lambda>l. clean l \<and> l \<noteq> []) (header_lines ?r)" by (rule header_lines_clean [OF assms(1)])
  then have "list_all (\<lambda>l. clean l \<and> l \<noteq> []) ?ls" using assms(3-5) by (auto simp: header_lines_def plain_clean)
  from read_head_lines [OF this, of body] b have "read_head (header_block (?r\<lparr>headers := headers ?r @ [?h]\<rparr>) @ body) = Some (?ls, body)"
    by (simp only: append_assoc)
  moreover have "resp (snd (response_add_header (Some ''Content-Disposition'') (Some (v @ overlong_crlf @ line)) None None st)) = ?r\<lparr>headers := headers ?r @ [?h]\<rparr>"
    using overlong_add_header [OF assms(3,4,2)] by (simp add: ret_def)
  moreover have "clean overlong_crlf" by code_simp
  then have "clean (v @ overlong_crlf @ line)" using assms(3,4) plain_clean by simp
  ultimately show ?thesis by (intro conjI exI [of _ ?pre] exI [of _ ?post]) (simp_all only:)
qed

theorem disposition_forges_header_witness: "\<exists>pre post. read_head (header_block (resp (snd (response_add_header (Some ''Content-Disposition'')
    (Some (''a'' @ overlong_crlf @ ''Set-Cookie: x=1'')) None None (request_start ''UTF-8'')))) @ ''body'')
    = Some (pre @ [''Content-Disposition: '' @ ''a'', ''Set-Cookie: x=1''] @ post, ''body'')"
proof -
  have p: "plain ''a''" "plain ''Set-Cookie: x=1''" by code_simp+
  have f: "fields_clean (resp (request_start ''UTF-8''))" by (rule request_start_clean) simp
  have n: "''Set-Cookie: x=1'' \<noteq> []" by simp
  show ?thesis by (rule disposition_forges_header [THEN conjunct2, OF f request_start_fresh(3) p n])
qed

end
