(* ===== verification/CowString.thy ===== *)
theory CowString imports Prelude begin

section \<open>The copy-on-write string: \<open>webstrada::string\<close> over an explicit heap\<close>

text \<open>
  Models \<open>src/string.cpp\<close>. A \<open>webstrada::string\<close> object is a pointer to a reference-counted
  buffer and a length (\<open>m_buffer\<close>, \<open>m_size\<close>); several objects may point to one buffer. The store
  holds the heap of buffers and the live string objects, each under an identity (\<open>sid\<close>, the
  address of the object). A byte of a fresh \<open>malloc\<close> block is \<open>None\<close> (indeterminate).
  Dereferencing a freed block or accessing outside one is \<open>Inl UB\<close>.

  \<open>malloc\<close> succeeds (its failure throws "Out of memory" and leaves the object unusable) and
  \<open>realloc\<close> extends a block under its identity: after \<open>mutate\<close> the block has one owner, so
  where it is moved to cannot be seen. The length of a string is an unbounded natural: strings of 2 GiB, where the
  \<open>int\<close> length would wrap, are outside the model. Positions and sizes a caller passes are \<open>int\<close>s, and a sum of
  them beyond 32 bits is undefined behaviour.
\<close>

type_synonym sid = nat
type_synonym addr = nat

record stringbuf =
  sb_ref :: nat
  sb_size :: nat
  sb_data :: "char option list"

record cfstr =
  m_buffer :: "addr option"
  m_size :: nat

record store =
  bufs :: "addr \<rightharpoonup> stringbuf"
  strs :: "sid \<rightharpoonup> cfstr"
  brk :: addr

definition empty_cfstr :: cfstr where
  "empty_cfstr = \<lparr>m_buffer = None, m_size = 0\<rparr>"

definition empty_store :: store where
  "empty_store = \<lparr>bufs = Map.empty, strs = Map.empty, brk = 0\<rparr>"

subsection \<open>Memory accesses\<close>

definition get_str :: "sid \<Rightarrow> store \<Rightarrow> cfstr res" where
  "get_str s st = (case strs st s of None \<Rightarrow> Inl UB | Some o1 \<Rightarrow> Inr o1)"

definition get_buf :: "addr \<Rightarrow> store \<Rightarrow> stringbuf res" where
  "get_buf b st = (case bufs st b of None \<Rightarrow> Inl UB | Some buf \<Rightarrow> Inr buf)"

definition put_str :: "sid \<Rightarrow> cfstr \<Rightarrow> store \<Rightarrow> store" where
  "put_str s o1 st = st\<lparr>strs := (strs st)(s \<mapsto> o1)\<rparr>"

definition put_buf :: "addr \<Rightarrow> stringbuf \<Rightarrow> store \<Rightarrow> store" where
  "put_buf b buf st = st\<lparr>bufs := (bufs st)(b \<mapsto> buf)\<rparr>"

text \<open>\<open>memcpy\<close>/\<open>memmove\<close>/\<open>memset\<close> of \<open>cs\<close> into a block at \<open>pos\<close>, and reading \<open>n\<close> bytes at \<open>pos\<close>.\<close>

definition blit :: "nat \<Rightarrow> char option list \<Rightarrow> stringbuf \<Rightarrow> stringbuf res" where
  "blit pos cs buf = (if pos + length cs \<le> length (sb_data buf)
     then Inr (buf\<lparr>sb_data := take pos (sb_data buf) @ cs @ drop (pos + length cs) (sb_data buf)\<rparr>)
     else Inl UB)"

definition peek :: "nat \<Rightarrow> nat \<Rightarrow> stringbuf \<Rightarrow> char option list res" where
  "peek pos n buf = (if pos + n \<le> length (sb_data buf)
     then Inr (take n (drop pos (sb_data buf))) else Inl UB)"

text \<open>The allocation size used everywhere in the file: \<open>(((size + 1) / 256) * 256) + 256\<close>.\<close>

definition aligned_size :: "nat \<Rightarrow> nat" where
  "aligned_size n = ((n + 1) div 256) * 256 + 256"

definition malloc_buf :: "nat \<Rightarrow> stringbuf" where
  "malloc_buf n = \<lparr>sb_ref = 1, sb_size = aligned_size n,
                   sb_data = replicate (aligned_size n) None\<rparr>"

text \<open>\<open>--ref == 0 ? free : keep\<close>, the release every path of the file performs.\<close>

definition release_buf :: "addr \<Rightarrow> store \<Rightarrow> store res" where
  "release_buf b st = ebind (get_buf b st) (\<lambda>buf.
     if sb_ref buf - 1 = 0 then Inr (st\<lparr>bufs := (bufs st)(b := None)\<rparr>)
     else Inr (put_buf b (buf\<lparr>sb_ref := sb_ref buf - 1\<rparr>) st))"

text \<open>A write through \<open>m_buffer->data\<close> of the object \<open>s\<close>.\<close>

definition write_data :: "sid \<Rightarrow> nat \<Rightarrow> char option list \<Rightarrow> store \<Rightarrow> store res" where
  "write_data s pos cs st = ebind (get_str s st) (\<lambda>o1.
     case m_buffer o1 of None \<Rightarrow> Inl UB
     | Some b \<Rightarrow> ebind (get_buf b st) (\<lambda>buf. ebind (blit pos cs buf) (\<lambda>buf'. Inr (put_buf b buf' st))))"

definition read_data :: "sid \<Rightarrow> nat \<Rightarrow> nat \<Rightarrow> store \<Rightarrow> char option list res" where
  "read_data s pos n st = ebind (get_str s st) (\<lambda>o1.
     case m_buffer o1 of None \<Rightarrow> (if n = 0 then Inr [] else Inl UB)
     | Some b \<Rightarrow> ebind (get_buf b st) (peek pos n))"

subsection \<open>Buffer management\<close>

definition str_clear :: "sid \<Rightarrow> store \<Rightarrow> store res" where
  "str_clear s st = ebind (get_str s st) (\<lambda>o1.
     case m_buffer o1 of None \<Rightarrow> Inr st
     | Some b \<Rightarrow> ebind (release_buf b st) (\<lambda>st1. Inr (put_str s empty_cfstr st1)))"

text \<open>\<open>mutate\<close>: a shared buffer is copied before a write.\<close>

definition str_mutate :: "sid \<Rightarrow> store \<Rightarrow> store res" where
  "str_mutate s st = ebind (get_str s st) (\<lambda>o1.
     case m_buffer o1 of None \<Rightarrow> Inr st
     | Some b \<Rightarrow> ebind (get_buf b st) (\<lambda>buf.
         if 1 < sb_ref buf then
           ebind (peek 0 (m_size o1) buf) (\<lambda>old.
           ebind (blit 0 (old @ [Some nul]) (malloc_buf (m_size o1))) (\<lambda>new.
             Inr (put_str s (o1\<lparr>m_buffer := Some (brk st)\<rparr>)
                   (put_buf (brk st) new
                     (put_buf b (buf\<lparr>sb_ref := sb_ref buf - 1\<rparr>) st)\<lparr>brk := brk st + 1\<rparr>))))
         else Inr st))"

text \<open>The block \<open>resize\<close> and \<open>reserve\<close> build for an object without one.\<close>

definition fresh_buffer :: "sid \<Rightarrow> nat \<Rightarrow> store \<Rightarrow> store res" where
  "fresh_buffer s n st = ebind (blit n [Some nul] (malloc_buf n)) (\<lambda>buf.
     Inr (put_str s \<lparr>m_buffer = Some (brk st), m_size = n\<rparr>
            (put_buf (brk st) buf st\<lparr>brk := brk st + 1\<rparr>)))"

text \<open>\<open>realloc\<close> to the aligned size: the new tail is indeterminate.\<close>

definition realloc_buf :: "nat \<Rightarrow> stringbuf \<Rightarrow> stringbuf" where
  "realloc_buf n buf = buf\<lparr>sb_size := aligned_size n,
     sb_data := take (aligned_size n)
       (sb_data buf @ replicate (aligned_size n - length (sb_data buf)) None)\<rparr>"

definition grow_buffer :: "sid \<Rightarrow> nat \<Rightarrow> store \<Rightarrow> store res" where
  "grow_buffer s n st = ebind (get_str s st) (\<lambda>o1.
     case m_buffer o1 of None \<Rightarrow> Inl UB
     | Some b \<Rightarrow> ebind (get_buf b st) (\<lambda>buf.
         if sb_size buf - 1 < n then Inr (put_buf b (realloc_buf n buf) st) else Inr st))"

definition set_size :: "sid \<Rightarrow> nat \<Rightarrow> store \<Rightarrow> store res" where
  "set_size s n st = ebind (get_str s st) (\<lambda>o1. Inr (put_str s (o1\<lparr>m_size := n\<rparr>) st))"

definition str_resize :: "sid \<Rightarrow> nat \<Rightarrow> store \<Rightarrow> store res" where
  "str_resize s n st = ebind (get_str s st) (\<lambda>o1.
     if n = m_size o1 then Inr st
     else if n = 0 then str_clear s st
     else if m_buffer o1 = None then fresh_buffer s n st
     else ebind (if m_size o1 < n
                 then ebind (str_mutate s st) (grow_buffer s n)
                 else Inr st) (\<lambda>st1.
          ebind (set_size s n st1) (write_data s n [Some nul])))"

text \<open>
  \<open>reserve\<close> differs from \<open>resize\<close>: it never shrinks, returns early when the block is large
  enough, and moves to a new block instead of \<open>realloc\<close>. It also sets \<open>m_size\<close>.
\<close>

definition move_buffer :: "sid \<Rightarrow> nat \<Rightarrow> store \<Rightarrow> store res" where
  "move_buffer s n st = ebind (get_str s st) (\<lambda>o1.
     case m_buffer o1 of None \<Rightarrow> Inl UB
     | Some b \<Rightarrow> ebind (get_buf b st) (\<lambda>buf.
         if sb_size buf - 1 < n then
           ebind (peek 0 (m_size o1) buf) (\<lambda>old.
           ebind (blit 0 (old @ [Some nul]) (malloc_buf n)) (\<lambda>new.
           ebind (release_buf b st) (\<lambda>st1.
             Inr (put_str s (o1\<lparr>m_buffer := Some (brk st1)\<rparr>)
                   (put_buf (brk st1) new st1\<lparr>brk := brk st1 + 1\<rparr>)))))
         else Inr st))"

definition str_reserve :: "sid \<Rightarrow> nat \<Rightarrow> store \<Rightarrow> store res" where
  "str_reserve s n st = ebind (get_str s st) (\<lambda>o1.
     if n = m_size o1 then Inr st
     else case m_buffer o1 of None \<Rightarrow> fresh_buffer s n st
     | Some b \<Rightarrow> ebind (get_buf b st) (\<lambda>buf.
         if n < sb_size buf then Inr st
         else if m_size o1 < n then
           ebind (str_mutate s st) (\<lambda>st1.
           ebind (move_buffer s n st1) (\<lambda>st2.
           ebind (set_size s n st2) (write_data s n [Some nul])))
         else Inr st))"

text \<open>\<open>truncate\<close> takes an \<open>int\<close>; a negative one becomes a \<open>size_t\<close> beyond every block.\<close>

definition str_truncate :: "sid \<Rightarrow> int \<Rightarrow> store \<Rightarrow> store res" where
  "str_truncate s n st = (if n < 0 then Inl UB else ebind (str_reserve s (nat n) st) (str_resize s (nat n)))"

subsection \<open>Construction, copying and destruction\<close>

text \<open>
  Each constructor makes the object \<open>d\<close> live. The copy constructor and the copy assignment
  share the source's buffer; the moves swap pointer and length.
\<close>

definition str_new :: "sid \<Rightarrow> store \<Rightarrow> store res" where
  "str_new d st = Inr (put_str d empty_cfstr st)"

definition str_from_bytes :: "sid \<Rightarrow> bytes \<Rightarrow> store \<Rightarrow> store res" where
  "str_from_bytes d cs st = ebind (str_new d st) (\<lambda>st1.
     if cs \<noteq> [] then ebind (str_resize d (length cs) st1) (write_data d 0 (map Some cs))
     else str_resize d 0 st1)"

definition str_from_fill :: "sid \<Rightarrow> nat \<Rightarrow> char \<Rightarrow> store \<Rightarrow> store res" where
  "str_from_fill d n c st = ebind (str_new d st) (\<lambda>st1. ebind (str_resize d n st1) (\<lambda>st2.
     if 0 < n then write_data d 0 (replicate n (Some c)) st2 else Inr st2))"

definition share_buffer :: "sid \<Rightarrow> sid \<Rightarrow> store \<Rightarrow> store res" where
  "share_buffer d s st = ebind (get_str s st) (\<lambda>src.
     case m_buffer src of None \<Rightarrow> Inr (put_str d \<lparr>m_buffer = None, m_size = m_size src\<rparr> st)
     | Some b \<Rightarrow> ebind (get_buf b st) (\<lambda>buf.
         Inr (put_str d \<lparr>m_buffer = Some b, m_size = m_size src\<rparr>
               (put_buf b (buf\<lparr>sb_ref := sb_ref buf + 1\<rparr>) st))))"

definition str_copy :: "sid \<Rightarrow> sid \<Rightarrow> store \<Rightarrow> store res" where
  "str_copy d s st = ebind (get_str s st) (\<lambda>src.
     if m_buffer src \<noteq> None then share_buffer d s st else str_new d st)"

definition str_assign :: "sid \<Rightarrow> sid \<Rightarrow> store \<Rightarrow> store res" where
  "str_assign d s st = (if s = d then Inr st
     else ebind (str_clear d st) (share_buffer d s))"

definition str_swap :: "sid \<Rightarrow> sid \<Rightarrow> store \<Rightarrow> store res" where
  "str_swap d s st = ebind (get_str d st) (\<lambda>od. ebind (get_str s st) (\<lambda>os.
     Inr (put_str d os (put_str s od st))))"

definition str_move :: "sid \<Rightarrow> sid \<Rightarrow> store \<Rightarrow> store res" where
  "str_move d s st = ebind (str_new d st) (str_swap d s)"

definition str_destroy :: "sid \<Rightarrow> store \<Rightarrow> store res" where
  "str_destroy s st = ebind (str_clear s st) (\<lambda>st1. Inr (st1\<lparr>strs := (strs st1)(s := None)\<rparr>))"

subsection \<open>Appending\<close>

definition str_append_char :: "sid \<Rightarrow> char \<Rightarrow> store \<Rightarrow> store res" where
  "str_append_char s c st = ebind (get_str s st) (\<lambda>o1.
     ebind (str_resize s (m_size o1 + 1) st) (write_data s (m_size o1) [Some c]))"

definition str_append_bytes :: "sid \<Rightarrow> bytes \<Rightarrow> store \<Rightarrow> store res" where
  "str_append_bytes s cs st = (if cs = [] then Inr st else ebind (get_str s st) (\<lambda>o1.
     ebind (str_resize s (m_size o1 + length cs) st) (write_data s (m_size o1) (map Some cs))))"

text \<open>
  \<open>memcpy(m_buffer->data + pos, src.m_buffer->data, n)\<close>: undefined when the two ranges of one
  block overlap. A null source with \<open>n = 0\<close> copies nothing.
\<close>

definition copy_data :: "sid \<Rightarrow> nat \<Rightarrow> sid \<Rightarrow> nat \<Rightarrow> store \<Rightarrow> store res" where
  "copy_data d pos s n st = ebind (get_str d st) (\<lambda>od. ebind (get_str s st) (\<lambda>os.
     if 0 < n \<and> m_buffer od = m_buffer os \<and> pos < n then Inl UB
     else ebind (read_data s 0 n st) (\<lambda>cs. if n = 0 then Inr st else write_data d pos cs st)))"

definition str_append :: "sid \<Rightarrow> sid \<Rightarrow> store \<Rightarrow> store res" where
  "str_append d s st = ebind (get_str d st) (\<lambda>od. ebind (get_str s st) (\<lambda>os.
     let n = m_size os in
     if n = 0 then Inr st
     else ebind (str_resize d (m_size od + n) st) (copy_data d (m_size od) s n)))"

definition str_plus_char :: "sid \<Rightarrow> char \<Rightarrow> store \<Rightarrow> store res" where
  "str_plus_char s c st = ebind (get_str s st) (\<lambda>o1.
     ebind (str_resize s (m_size o1 + 1) st) (\<lambda>st1.
     ebind (get_str s st1) (\<lambda>o2. write_data s (m_size o2 - 1) [Some c] st1)))"

definition str_plus_bytes :: "sid \<Rightarrow> bytes \<Rightarrow> store \<Rightarrow> store res" where
  "str_plus_bytes s cs st = ebind (str_mutate s st) (\<lambda>st1. ebind (get_str s st1) (\<lambda>o1.
     ebind (str_resize s (m_size o1 + length cs) st1) (\<lambda>st2. ebind (get_str s st2) (\<lambda>o2.
       if m_buffer o2 = None then Inl (Throw ''Variable is not array.'')
       else write_data s (m_size o1) (map Some cs) st2))))"

text \<open>
  \<open>operator+=\<close> on a string: an empty target shares the other's buffer; otherwise the length
  that is copied is \<open>other.m_size\<close> read \<^emph>\<open>after\<close> the resize.
\<close>

definition str_plus :: "sid \<Rightarrow> sid \<Rightarrow> store \<Rightarrow> store res" where
  "str_plus d s st = ebind (get_str d st) (\<lambda>od. ebind (get_str s st) (\<lambda>os.
     if m_buffer od = None then
       (if m_buffer os = None then Inr st else share_buffer d s st)
     else ebind (str_resize d (m_size od + m_size os) st) (\<lambda>st1.
       ebind (get_str s st1) (\<lambda>os1. copy_data d (m_size od) s (m_size os1) st1))))"

text \<open>The free \<open>operator+(const string &, const string &)\<close> with result object \<open>r\<close>.\<close>

definition str_concat :: "sid \<Rightarrow> sid \<Rightarrow> sid \<Rightarrow> store \<Rightarrow> store res" where
  "str_concat r s t st = ebind (get_str s st) (\<lambda>o1. ebind (get_str t st) (\<lambda>o2.
     ebind (str_new r st) (\<lambda>st1.
     ebind (str_resize r (m_size o1 + m_size o2) st1) (\<lambda>st2.
     ebind (get_str r st2) (\<lambda>o3.
       if m_buffer o3 = None then Inl (Throw ''Variable is not array.'')
       else ebind (copy_data r 0 s (m_size o1) st2) (copy_data r (m_size o1) t (m_size o2)))))))"

subsection \<open>Editing in place\<close>

definition str_prepend :: "sid \<Rightarrow> char \<Rightarrow> store \<Rightarrow> store res" where
  "str_prepend s c st = ebind (get_str s st) (\<lambda>o1.
     ebind (if m_buffer o1 \<noteq> None then
              ebind (str_mutate s st) (\<lambda>st1. ebind (str_resize s (m_size o1 + 1) st1) (\<lambda>st2.
              ebind (read_data s 0 (m_size o1) st2) (\<lambda>cs. write_data s 1 cs st2)))
            else str_resize s 1 st) (write_data s 0 [Some c]))"

text \<open>The sums of a position and a size are \<open>int\<close> sums.\<close>

definition str_remove :: "sid \<Rightarrow> int \<Rightarrow> int \<Rightarrow> store \<Rightarrow> store res" where
  "str_remove s pos n st = (if n \<le> 0 \<or> pos < 0 then Inr st
     else ebind (get_str s st) (\<lambda>o1. ebind (signed_op 32 (pos + n)) (\<lambda>stop. let len = int (m_size o1) in
       if len < stop then str_resize s (nat pos) st
       else ebind (read_data s (nat stop) (nat (len - n - pos)) st) (\<lambda>tail.
            ebind (write_data s (nat pos) tail st) (str_resize s (nat (len - n)))))))"

definition str_removeLast :: "sid \<Rightarrow> store \<Rightarrow> store res" where
  "str_removeLast s st = ebind (get_str s st) (\<lambda>o1. str_remove s (int (m_size o1) - 1) 1 st)"

definition str_replace :: "sid \<Rightarrow> int \<Rightarrow> int \<Rightarrow> char \<Rightarrow> store \<Rightarrow> store res" where
  "str_replace s pos n c st = ebind (get_str s st) (\<lambda>o1.
     if n \<le> 0 \<or> int (m_size o1) \<le> pos then Inr st
     else ebind (str_remove s (pos + 1) (n - 1) st) (\<lambda>st1.
       if pos < 0 then Inl UB else write_data s (nat pos) [Some c] st1))"

definition str_fill :: "sid \<Rightarrow> char \<Rightarrow> int \<Rightarrow> int \<Rightarrow> store \<Rightarrow> store res" where
  "str_fill s c pos0 n0 st = ebind (get_str s st) (\<lambda>o1.
     if m_buffer o1 = None then Inr st
     else let len = int (m_size o1);
              pos = (if pos0 < 0 then 0 else pos0);
              n1 = (if n0 < 0 then len - pos else n0)
          in if len \<le> pos then Inr st
             else ebind (signed_op 32 (pos + n1)) (\<lambda>stop.
               write_data s (nat pos) (replicate (nat (if len < stop then len - pos else n1)) (Some c)) st))"

text \<open>\<open>toLower\<close>/\<open>toUpper\<close> scan first and copy a shared buffer only when something changes.\<close>

definition str_map_case :: "(char \<Rightarrow> bool) \<Rightarrow> (char \<Rightarrow> char) \<Rightarrow> sid \<Rightarrow> store \<Rightarrow> store res" where
  "str_map_case p f s st = ebind (get_str s st) (\<lambda>o1.
     if m_buffer o1 = None \<or> m_size o1 = 0 then Inr st
     else ebind (read_data s 0 (m_size o1) st) (\<lambda>cs.
       if \<not> list_ex (\<lambda>x. case x of None \<Rightarrow> False | Some c \<Rightarrow> p c) cs then Inr st
       else ebind (str_mutate s st) (\<lambda>st1. ebind (read_data s 0 (m_size o1) st1) (\<lambda>cs1.
         write_data s 0 (map (map_option f) cs1) st1))))"

definition str_toLower :: "sid \<Rightarrow> store \<Rightarrow> store res" where
  "str_toLower = str_map_case is_upper to_lower"

definition str_toUpper :: "sid \<Rightarrow> store \<Rightarrow> store res" where
  "str_toUpper = str_map_case is_lower to_upper"

text \<open>\<open>operator=(const char *)\<close>: resize to the new length, then overwrite the buffer.\<close>

definition str_assign_bytes :: "sid \<Rightarrow> bytes \<Rightarrow> store \<Rightarrow> store res" where
  "str_assign_bytes s cs st = ebind (str_resize s (length cs) st) (\<lambda>st1.
     if cs = [] then Inr st1 else write_data s 0 (map Some cs) st1)"

section \<open>Heap invariant and the values of string objects\<close>

text \<open>
  \<open>ptrs st b\<close> are the live objects pointing to the block \<open>b\<close>. \<open>heap_ok\<close>: every block is owned and
  counts exactly its owners, holds as many bytes as it says, and every object without a block
  is empty and every object with one has its length inside it. \<open>coh\<close>: the byte after the
  contents is NUL, and the objects sharing a block have one length.
\<close>

definition ptrs :: "store \<Rightarrow> addr \<Rightarrow> sid set" where
  "ptrs st b = {s. \<exists>o1. strs st s = Some o1 \<and> m_buffer o1 = Some b}"

definition buf_ok :: "store \<Rightarrow> addr \<Rightarrow> stringbuf \<Rightarrow> bool" where
  "buf_ok st b buf \<longleftrightarrow> b < brk st \<and> sb_ref buf = card (ptrs st b) \<and> ptrs st b \<noteq> {}
     \<and> length (sb_data buf) = sb_size buf"

definition str_ok :: "store \<Rightarrow> cfstr \<Rightarrow> bool" where
  "str_ok st o1 \<longleftrightarrow> (case m_buffer o1 of None \<Rightarrow> m_size o1 = 0
     | Some b \<Rightarrow> 0 < m_size o1 \<and> (\<exists>buf. bufs st b = Some buf \<and> m_size o1 < sb_size buf))"

definition heap_ok :: "store \<Rightarrow> bool" where
  "heap_ok st \<longleftrightarrow> finite (dom (strs st)) \<and> (\<forall>b buf. bufs st b = Some buf \<longrightarrow> buf_ok st b buf)
     \<and> (\<forall>s o1. strs st s = Some o1 \<longrightarrow> str_ok st o1)"

definition coh :: "store \<Rightarrow> bool" where
  "coh st \<longleftrightarrow>
     (\<forall>s o1 b buf. strs st s = Some o1 \<longrightarrow> m_buffer o1 = Some b \<longrightarrow> bufs st b = Some buf \<longrightarrow>
        sb_data buf ! m_size o1 = Some nul) \<and>
     (\<forall>s t o1 o2 b. strs st s = Some o1 \<longrightarrow> strs st t = Some o2 \<longrightarrow>
        m_buffer o1 = Some b \<longrightarrow> m_buffer o2 = Some b \<longrightarrow> m_size o1 = m_size o2)"

definition sole :: "sid \<Rightarrow> store \<Rightarrow> bool" where
  "sole s st \<longleftrightarrow> (\<forall>o1 b. strs st s = Some o1 \<longrightarrow> m_buffer o1 = Some b \<longrightarrow> ptrs st b = {s})"

text \<open>What an object denotes: its bytes (\<open>view\<close>, some indeterminate), or \<open>None\<close> when it is not live.\<close>

definition view :: "store \<Rightarrow> sid \<Rightarrow> char option list option" where
  "view st s = (case strs st s of None \<Rightarrow> None
     | Some o1 \<Rightarrow> (case m_buffer o1 of None \<Rightarrow> Some []
        | Some b \<Rightarrow> map_option (\<lambda>buf. take (m_size o1) (sb_data buf)) (bufs st b)))"

definition content :: "store \<Rightarrow> sid \<Rightarrow> bytes option" where
  "content st s = Option.bind (view st s) those"

subsection \<open>Facts about the accesses\<close>

lemma put_simps [simp]:
  "strs (put_str s o1 st) = (strs st)(s \<mapsto> o1)" "bufs (put_str s o1 st) = bufs st"
  "brk (put_str s o1 st) = brk st" "strs (put_buf b buf st) = strs st"
  "bufs (put_buf b buf st) = (bufs st)(b \<mapsto> buf)" "brk (put_buf b buf st) = brk st"
  by (simp_all add: put_str_def put_buf_def)

lemma get_str_Some [simp]: "strs st s = Some o1 \<Longrightarrow> get_str s st = Inr o1"
  by (simp add: get_str_def)

lemma get_buf_Some [simp]: "bufs st b = Some buf \<Longrightarrow> get_buf b st = Inr buf"
  by (simp add: get_buf_def)

lemma aligned_size_gt [simp]: "n < aligned_size n"
proof -
  have "n + 1 < ((n + 1) div 256) * 256 + 256"
    using mod_less_divisor [of 256 "n + 1"] div_mult_mod_eq [of "n + 1" 256] by linarith
  then show ?thesis by (simp add: aligned_size_def)
qed

lemma aligned_size_ge [simp]: "n \<le> aligned_size n" "Suc n \<le> aligned_size n"
  using aligned_size_gt [of n] by linarith+

lemma aligned_size_pos [simp]: "Suc (aligned_size n - Suc 0) = aligned_size n"
  by (simp add: aligned_size_def)

lemma malloc_buf_simps [simp]:
  "sb_ref (malloc_buf n) = 1" "sb_size (malloc_buf n) = aligned_size n"
  "sb_data (malloc_buf n) = replicate (aligned_size n) None"
  by (simp_all add: malloc_buf_def)

lemma ptrs_put_buf [simp]: "ptrs (put_buf b' buf st) b = ptrs st b"
  by (simp add: ptrs_def)

lemma ptrs_brk [simp]: "ptrs (st\<lparr>brk := n\<rparr>) b = ptrs st b"
  by (simp add: ptrs_def)

lemma ptrs_bufs [simp]: "ptrs (st\<lparr>bufs := h\<rparr>) b = ptrs st b"
  by (simp add: ptrs_def)

lemma ptrs_put_str:
  "ptrs (put_str s o1 st) b = (if m_buffer o1 = Some b then insert s (ptrs st b) else ptrs st b - {s})"
  by (auto simp: ptrs_def)

lemma ptrs_finite: "heap_ok st \<Longrightarrow> finite (ptrs st b)"
  by (rule finite_subset [of _ "dom (strs st)"]) (auto simp: ptrs_def heap_ok_def)

lemma empty_cfstr_simps [simp]: "m_buffer empty_cfstr = None" "m_size empty_cfstr = 0"
  by (simp_all add: empty_cfstr_def)

lemma heap_okI:
  assumes "finite (dom (strs st))" "\<And>b buf. bufs st b = Some buf \<Longrightarrow> buf_ok st b buf"
    "\<And>s o1. strs st s = Some o1 \<Longrightarrow> str_ok st o1"
  shows "heap_ok st"
  using assms by (simp add: heap_ok_def)

lemma str_ok_cong: "bufs st' = bufs st \<Longrightarrow> str_ok st' o1 = str_ok st o1"
  by (simp add: str_ok_def split: option.split)

lemma str_ok_empty [simp]: "str_ok st empty_cfstr"
  by (simp add: str_ok_def)

lemma wf_buf: "heap_ok st \<Longrightarrow> bufs st b = Some buf \<Longrightarrow> buf_ok st b buf"
  by (simp add: heap_ok_def)

lemma wf_str: "heap_ok st \<Longrightarrow> strs st s = Some o1 \<Longrightarrow> str_ok st o1"
  by (simp add: heap_ok_def)

lemma heap_ok_transfer:
  assumes ok: "heap_ok st" and eq: "bufs st' = bufs st" "brk st' = brk st" "ptrs st' = ptrs st"
    and fin: "finite (dom (strs st'))"
    and strs: "\<And>s o1. strs st' s = Some o1 \<Longrightarrow> o1 = empty_cfstr \<or> strs st s = Some o1"
  shows "heap_ok st'"
proof (rule heap_okI [OF fin])
  fix b buf assume "bufs st' b = Some buf"
  then show "buf_ok st' b buf" using wf_buf [OF ok, of b buf] by (simp add: buf_ok_def eq)
next
  fix s o1 assume "strs st' s = Some o1"
  from strs [OF this] show "str_ok st' o1" using wf_str [OF ok] str_ok_cong [OF eq(1)] by auto
qed

lemma wf_null: "heap_ok st \<Longrightarrow> strs st s = Some o1 \<Longrightarrow> m_buffer o1 = None \<Longrightarrow> m_size o1 = 0"
  by (auto dest: wf_str simp: str_ok_def)

lemma wf_ptr:
  assumes "heap_ok st" "strs st s = Some o1" "m_buffer o1 = Some b"
  obtains buf where "bufs st b = Some buf" "0 < m_size o1" "m_size o1 < sb_size buf"
    "length (sb_data buf) = sb_size buf" "s \<in> ptrs st b" "sb_ref buf = card (ptrs st b)"
    "b < brk st" "0 < sb_ref buf"
proof -
  from wf_str [OF assms(1,2)] assms(3) obtain buf
    where b: "bufs st b = Some buf" "0 < m_size o1" "m_size o1 < sb_size buf"
    by (auto simp: str_ok_def)
  moreover from wf_buf [OF assms(1) b(1)] have "buf_ok st b buf" .
  moreover have "s \<in> ptrs st b" using assms by (auto simp: ptrs_def)
  moreover have "0 < card (ptrs st b)"
    using \<open>s \<in> ptrs st b\<close> ptrs_finite [OF assms(1)] by (auto simp: card_gt_0_iff)
  ultimately show thesis by (intro that [of buf]) (simp_all add: buf_ok_def)
qed

lemma view_null [simp]: "strs st s = Some o1 \<Longrightarrow> m_buffer o1 = None \<Longrightarrow> view st s = Some []"
  by (simp add: view_def)

lemma view_ptr [simp]:
  "strs st s = Some o1 \<Longrightarrow> m_buffer o1 = Some b \<Longrightarrow> bufs st b = Some buf \<Longrightarrow>
   view st s = Some (take (m_size o1) (sb_data buf))"
  by (simp add: view_def)

lemma view_length:
  assumes "heap_ok st" "view st s = Some xs" "strs st s = Some o1"
  shows "length xs = m_size o1"
proof (cases "m_buffer o1")
  case None
  with assms show ?thesis by (simp add: wf_null)
next
  case (Some b)
  with assms obtain buf where "bufs st b = Some buf" "m_size o1 < sb_size buf"
    "length (sb_data buf) = sb_size buf" by (elim wf_ptr)
  with assms Some show ?thesis by auto
qed

lemma view_live: "view st s = Some xs \<Longrightarrow> \<exists>o1. strs st s = Some o1"
  by (auto simp: view_def split: option.splits)

lemma wf_view: "heap_ok st \<Longrightarrow> strs st s = Some o1 \<Longrightarrow> \<exists>xs. view st s = Some xs"
  by (cases "m_buffer o1") (auto elim: wf_ptr)

lemma ptrs_same_buffer:
  assumes "strs st s = Some o1" "m_buffer o2 = m_buffer o1"
  shows "ptrs (put_str s o2 st) = ptrs st"
  using assms by (auto simp: ptrs_def fun_eq_iff)

lemma sole_other:
  assumes "sole s st" "strs st s = Some o1" "m_buffer o1 = Some b"
    "strs st t = Some o2" "t \<noteq> s"
  shows "m_buffer o2 \<noteq> Some b"
proof
  assume "m_buffer o2 = Some b"
  with assms(4) have "t \<in> ptrs st b" by (auto simp: ptrs_def)
  moreover have "ptrs st b = {s}" using assms(1-3) by (auto simp: sole_def)
  ultimately show False using assms(5) by simp
qed

text \<open>
  The one heap update behind every write: the only owner of a block replaces the block's
  bytes and its own length.
\<close>

definition upd :: "sid \<Rightarrow> cfstr \<Rightarrow> addr \<Rightarrow> stringbuf \<Rightarrow> nat \<Rightarrow> char option list \<Rightarrow> store \<Rightarrow> store" where
  "upd s o1 b buf m d st = put_str s (o1\<lparr>m_size := m\<rparr>)
     (put_buf b (buf\<lparr>sb_size := length d, sb_data := d\<rparr>) st)"

lemma upd_ptrs:
  assumes "strs st s = Some o1" "m_buffer o1 = Some b"
  shows "ptrs (upd s o1 b buf m d st) = ptrs st"
  using assms by (auto simp: upd_def ptrs_def fun_eq_iff)

lemma upd_heap_ok:
  assumes ok: "heap_ok st" and s: "strs st s = Some o1" "m_buffer o1 = Some b" "bufs st b = Some buf"
    and sole: "sole s st" and m: "0 < m" "m < length d"
  shows "heap_ok (upd s o1 b buf m d st)"
proof -
  let ?st = "upd s o1 b buf m d st"
  have "buf_ok ?st b' buf'" if "bufs ?st b' = Some buf'" for b' buf'
    using that wf_buf [OF ok, of b'] wf_buf [OF ok s(3)] upd_ptrs [OF s(1,2)]
    by (cases "b' = b") (auto simp: buf_ok_def upd_def)
  moreover have "str_ok ?st o2" if t: "strs ?st t = Some o2" for t o2
  proof (cases "t = s")
    case True
    with t s m show ?thesis by (auto simp: str_ok_def upd_def)
  next
    case False
    with t have t': "strs st t = Some o2" by (simp add: upd_def)
    with sole_other [OF sole s(1,2) t' False] wf_str [OF ok t'] show ?thesis
      by (auto simp: str_ok_def upd_def split: option.splits)
  qed
  moreover have "finite (dom (strs ?st))"
    using ok by (simp add: heap_ok_def upd_def)
  ultimately show ?thesis by (simp add: heap_ok_def)
qed

lemma upd_view:
  assumes s: "strs st s = Some o1" "m_buffer o1 = Some b" and sole: "sole s st"
  shows "view (upd s o1 b buf m d st) = (view st)(s \<mapsto> take m d)"
proof
  fix t
  show "view (upd s o1 b buf m d st) t = ((view st)(s \<mapsto> take m d)) t"
  proof (cases "t = s")
    case True
    with s show ?thesis by (simp add: view_def upd_def)
  next
    case False
    with sole_other [OF sole s(1,2)] show ?thesis
      by (auto simp: view_def upd_def split: option.splits)
  qed
qed

lemma upd_strs:
  "strs (upd s o1 b buf m d st) = (strs st)(s \<mapsto> o1\<lparr>m_size := m\<rparr>)"
  "bufs (upd s o1 b buf m d st) = (bufs st)(b \<mapsto> buf\<lparr>sb_size := length d, sb_data := d\<rparr>)"
  "brk (upd s o1 b buf m d st) = brk st"
  by (simp_all add: upd_def)

lemma upd_sole:
  assumes "strs st s = Some o1" "m_buffer o1 = Some b" "sole s st"
  shows "sole s (upd s o1 b buf m d st)"
proof -
  have "ptrs st b = {s}" using assms unfolding sole_def by blast
  then show ?thesis
    using assms(2) unfolding sole_def upd_ptrs [OF assms(1,2)] by (simp add: upd_strs)
qed

lemma coh_nul:
  "coh st \<Longrightarrow> strs st s = Some o1 \<Longrightarrow> m_buffer o1 = Some b \<Longrightarrow> bufs st b = Some buf \<Longrightarrow>
   sb_data buf ! m_size o1 = Some nul"
  unfolding coh_def by blast

lemma coh_size:
  "coh st \<Longrightarrow> strs st s = Some o1 \<Longrightarrow> strs st t = Some o2 \<Longrightarrow>
   m_buffer o1 = Some b \<Longrightarrow> m_buffer o2 = Some b \<Longrightarrow> m_size o1 = m_size o2"
  unfolding coh_def by blast

lemma cohI:
  assumes "\<And>s o1 b buf. strs st s = Some o1 \<Longrightarrow> m_buffer o1 = Some b \<Longrightarrow> bufs st b = Some buf \<Longrightarrow>
      sb_data buf ! m_size o1 = Some nul"
    and "\<And>s t o1 o2 b. strs st s = Some o1 \<Longrightarrow> strs st t = Some o2 \<Longrightarrow> s \<noteq> t \<Longrightarrow>
      m_buffer o1 = Some b \<Longrightarrow> m_buffer o2 = Some b \<Longrightarrow> m_size o1 = m_size o2"
  shows "coh st"
  unfolding coh_def
proof (intro conjI allI impI)
  fix s t o1 o2 b
  assume "strs st s = Some o1" "strs st t = Some o2" "m_buffer o1 = Some b" "m_buffer o2 = Some b"
  then show "m_size o1 = m_size o2" using assms(2) [of s o1 t o2 b] by (cases "s = t") auto
qed (rule assms(1))

lemma upd_coh:
  assumes coh: "coh st" and s: "strs st s = Some o1" "m_buffer o1 = Some b"
    and sole: "sole s st" and nul: "d ! m = Some nul"
  shows "coh (upd s o1 b buf m d st)"
proof (rule cohI)
  fix t o2 b' buf'
  assume t: "strs (upd s o1 b buf m d st) t = Some o2" "m_buffer o2 = Some b'"
    "bufs (upd s o1 b buf m d st) b' = Some buf'"
  show "sb_data buf' ! m_size o2 = Some nul"
  proof (cases "t = s")
    case True
    with t s nul show ?thesis by (auto simp: upd_strs)
  next
    case False
    with t have t': "strs st t = Some o2" by (simp add: upd_strs)
    with t False sole_other [OF sole s t' False] have "bufs st b' = Some buf'"
      by (auto simp: upd_strs split: if_splits)
    with coh t' t(2) show ?thesis by (rule coh_nul)
  qed
next
  fix t u o2 o3 b'
  assume t: "strs (upd s o1 b buf m d st) t = Some o2" "strs (upd s o1 b buf m d st) u = Some o3"
    "t \<noteq> u" "m_buffer o2 = Some b'" "m_buffer o3 = Some b'"
  show "m_size o2 = m_size o3"
  proof (cases "t = s \<or> u = s")
    case True
    with t s have "m_buffer o2 = Some b \<and> m_buffer o3 = Some b" by (auto simp: upd_strs)
    with True t sole_other [OF sole s] show ?thesis by (auto simp: upd_strs)
  next
    case False
    with t have "strs st t = Some o2" "strs st u = Some o3" by (auto simp: upd_strs)
    with coh t(4,5) show ?thesis by (intro coh_size)
  qed
qed

lemma coh_transfer:
  assumes coh: "coh st" and eq: "bufs st' = bufs st"
    and strs: "\<And>s o1. strs st' s = Some o1 \<Longrightarrow> o1 = empty_cfstr \<or> (\<exists>t. strs st t = Some o1)"
  shows "coh st'"
proof -
  have old: "\<exists>t. strs st t = Some o1" if "strs st' s = Some o1" "m_buffer o1 = Some b" for s o1 b
    using strs [OF that(1)] that(2) by auto
  show ?thesis
  proof (rule cohI)
    fix s o1 b buf
    assume a: "strs st' s = Some o1" "m_buffer o1 = Some b" "bufs st' b = Some buf"
    from old [OF a(1,2)] obtain t where "strs st t = Some o1" ..
    from coh_nul [OF coh this a(2)] a(3) show "sb_data buf ! m_size o1 = Some nul"
      by (simp add: eq)
  next
    fix s t o1 o2 b
    assume a: "strs st' s = Some o1" "strs st' t = Some o2" "m_buffer o1 = Some b" "m_buffer o2 = Some b"
    from old [OF a(1,3)] old [OF a(2,4)] obtain s' t' where
      "strs st s' = Some o1" "strs st t' = Some o2" by blast
    from coh_size [OF coh this a(3,4)] show "m_size o1 = m_size o2" .
  qed
qed

subsection \<open>Releasing and attaching a block\<close>

definition dropped :: "sid \<Rightarrow> addr \<Rightarrow> stringbuf \<Rightarrow> store \<Rightarrow> store" where
  "dropped s b buf st = put_str s empty_cfstr
     (if sb_ref buf - 1 = 0 then st\<lparr>bufs := (bufs st)(b := None)\<rparr>
      else put_buf b (buf\<lparr>sb_ref := sb_ref buf - 1\<rparr>) st)"

definition attached :: "sid \<Rightarrow> nat \<Rightarrow> stringbuf \<Rightarrow> store \<Rightarrow> store" where
  "attached s n new st = put_str s \<lparr>m_buffer = Some (brk st), m_size = n\<rparr>
     (put_buf (brk st) new st\<lparr>brk := brk st + 1\<rparr>)"

lemma dropped_strs:
  "strs (dropped s b buf st) = (strs st)(s \<mapsto> empty_cfstr)"
  "brk (dropped s b buf st) = brk st"
  "bufs (dropped s b buf st) = (if sb_ref buf - 1 = 0 then (bufs st)(b := None)
     else (bufs st)(b \<mapsto> buf\<lparr>sb_ref := sb_ref buf - 1\<rparr>))"
  by (simp_all add: dropped_def)

lemma attached_strs:
  "strs (attached s n new st) = (strs st)(s \<mapsto> \<lparr>m_buffer = Some (brk st), m_size = n\<rparr>)"
  "brk (attached s n new st) = brk st + 1"
  "bufs (attached s n new st) = (bufs st)(brk st \<mapsto> new)"
  by (simp_all add: attached_def)

lemma ptrs_dropped: "ptrs (dropped s b buf st) x = ptrs st x - {s}"
  by (auto simp: ptrs_def dropped_strs empty_cfstr_def)

lemma str_clear_eq:
  "strs st s = Some o1 \<Longrightarrow> m_buffer o1 = Some b \<Longrightarrow> bufs st b = Some buf \<Longrightarrow>
   str_clear s st = Inr (dropped s b buf st)"
  by (simp add: str_clear_def release_buf_def dropped_def)

lemma dropped_heap_ok:
  assumes ok: "heap_ok st" and s: "strs st s = Some o1" "m_buffer o1 = Some b" "bufs st b = Some buf"
  shows "heap_ok (dropped s b buf st)"
proof -
  let ?st = "dropped s b buf st"
  have sin: "s \<in> ptrs st b" using s by (auto simp: ptrs_def)
  note fin = ptrs_finite [OF ok]
  have ref: "sb_ref buf = card (ptrs st b)"
    using wf_buf [OF ok s(3)] by (simp add: buf_ok_def)
  have card: "card (ptrs st b - {s}) = sb_ref buf - 1"
    using sin fin ref by (simp add: card_Diff_singleton)
  have other: "x \<noteq> b \<Longrightarrow> ptrs st x - {s} = ptrs st x" for x
    using s by (auto simp: ptrs_def)
  have "buf_ok ?st x y" if "bufs ?st x = Some y" for x y
  proof (cases "x = b")
    case True
    with that have y: "sb_ref buf - 1 \<noteq> 0" "y = buf\<lparr>sb_ref := sb_ref buf - 1\<rparr>"
      by (auto simp: dropped_strs split: if_splits)
    with card have "ptrs st b - {s} \<noteq> {}" by (metis card.empty)
    with True y card wf_buf [OF ok s(3)] show ?thesis
      by (simp add: buf_ok_def ptrs_dropped dropped_strs)
  next
    case False
    with that have "bufs st x = Some y" by (simp add: dropped_strs split: if_splits)
    from wf_buf [OF ok this] show ?thesis
      by (simp add: buf_ok_def ptrs_dropped other [OF False] dropped_strs)
  qed
  moreover have "str_ok ?st o2" if t: "strs ?st t = Some o2" for t o2
  proof (cases "t = s")
    case True
    with t show ?thesis by (auto simp: str_ok_def dropped_strs empty_cfstr_def)
  next
    case False
    with t have t': "strs st t = Some o2" by (simp add: dropped_strs)
    have "sb_ref buf - 1 \<noteq> 0" if "m_buffer o2 = Some b"
    proof -
      have "t \<in> ptrs st b - {s}" using that t' False by (auto simp: ptrs_def)
      with fin [of b] have "0 < card (ptrs st b - {s})" by (auto simp: card_gt_0_iff)
      with card show ?thesis by simp
    qed
    with wf_str [OF ok t'] s(3) show ?thesis
      by (auto simp: str_ok_def dropped_strs split: option.splits)
  qed
  moreover have "finite (dom (strs ?st))"
    using ok by (simp add: heap_ok_def dropped_strs)
  ultimately show ?thesis by (simp add: heap_ok_def)
qed

lemma dropped_other_bufs:
  assumes ok: "heap_ok st" and s: "strs st s = Some o1" "m_buffer o1 = Some b" "bufs st b = Some buf"
    and t: "strs st t = Some o2" "t \<noteq> s" "m_buffer o2 = Some x" "bufs st x = Some y"
  shows "\<exists>y'. bufs (dropped s b buf st) x = Some y' \<and> sb_data y' = sb_data y \<and> sb_size y' = sb_size y"
proof (cases "x = b")
  case True
  have "{s, t} \<subseteq> ptrs st b" using s t True by (auto simp: ptrs_def)
  then have "card {s, t} \<le> card (ptrs st b)"
    by (rule card_mono [OF ptrs_finite [OF ok]])
  with t(2) wf_buf [OF ok s(3)] have "sb_ref buf - 1 \<noteq> 0" by (simp add: buf_ok_def)
  with True s(3) t(4) show ?thesis by (simp add: dropped_strs)
qed (use t in \<open>auto simp: dropped_strs\<close>)

lemma dropped_view:
  assumes ok: "heap_ok st" and s: "strs st s = Some o1" "m_buffer o1 = Some b" "bufs st b = Some buf"
  shows "view (dropped s b buf st) = (view st)(s \<mapsto> [])"
proof
  fix t
  show "view (dropped s b buf st) t = ((view st)(s \<mapsto> [])) t"
  proof (cases "t = s \<or> strs st t = None")
    case True
    then show ?thesis by (auto simp: view_def dropped_strs empty_cfstr_def)
  next
    case False
    then obtain o2 where t: "t \<noteq> s" "strs st t = Some o2" by auto
    show ?thesis
    proof (cases "m_buffer o2")
      case None
      with t show ?thesis by (simp add: view_def dropped_strs)
    next
      case (Some x)
      then obtain y where y: "bufs st x = Some y" using wf_ptr [OF ok t(2)] by blast
      from dropped_other_bufs [OF ok s t(2,1) Some y] t Some y show ?thesis
        by (auto simp: view_def dropped_strs)
    qed
  qed
qed

lemma dropped_coh:
  assumes ok: "heap_ok st" and coh: "coh st"
    and s: "strs st s = Some o1" "m_buffer o1 = Some b" "bufs st b = Some buf"
  shows "coh (dropped s b buf st)"
proof (rule cohI)
  fix t o2 x y'
  assume t: "strs (dropped s b buf st) t = Some o2" "m_buffer o2 = Some x"
    "bufs (dropped s b buf st) x = Some y'"
  then have t': "t \<noteq> s" "strs st t = Some o2"
    by (auto simp: dropped_strs empty_cfstr_def split: if_splits)
  obtain y where y: "bufs st x = Some y" using wf_ptr [OF ok t'(2) t(2)] by blast
  from dropped_other_bufs [OF ok s t'(2,1) t(2) y] t(3) coh_nul [OF coh t'(2) t(2) y]
  show "sb_data y' ! m_size o2 = Some nul" by auto
next
  fix t u o2 o3 x
  assume "strs (dropped s b buf st) t = Some o2" "strs (dropped s b buf st) u = Some o3" "t \<noteq> u"
    "m_buffer o2 = Some x" "m_buffer o3 = Some x"
  then show "m_size o2 = m_size o3"
    using coh_size [OF coh, of t o2 u o3 x]
    by (auto simp: dropped_strs empty_cfstr_def split: if_splits)
qed

lemma brk_fresh: "heap_ok st \<Longrightarrow> bufs st (brk st) = None"
  by (rule ccontr) (auto simp: heap_ok_def buf_ok_def)

lemma ptrs_fresh: "heap_ok st \<Longrightarrow> ptrs st (brk st) = {}"
  using brk_fresh [of st] by (auto simp: ptrs_def dest!: wf_str simp: str_ok_def split: option.splits)

text \<open>An object without a block takes a fresh one.\<close>

definition blockless :: "sid \<Rightarrow> store \<Rightarrow> bool" where
  "blockless s st \<longleftrightarrow> (\<forall>o1. strs st s = Some o1 \<longrightarrow> m_buffer o1 = None)"

lemma ptrs_attached:
  assumes "blockless s st"
  shows "ptrs (attached s n new st) x = (if x = brk st then insert s (ptrs st x) else ptrs st x)"
  using assms by (auto simp: ptrs_def attached_strs blockless_def)

lemma attached_heap_ok:
  assumes ok: "heap_ok st" and bl: "blockless s st" and n: "0 < n" "n < sb_size new"
    and new: "sb_ref new = 1" "length (sb_data new) = sb_size new"
  shows "heap_ok (attached s n new st)"
proof -
  let ?st = "attached s n new st"
  have "buf_ok ?st x y" if "bufs ?st x = Some y" for x y
    using that wf_buf [OF ok, of x y] new ptrs_fresh [OF ok]
    by (auto simp: buf_ok_def ptrs_attached [OF bl] attached_strs split: if_splits)
  moreover have "str_ok ?st o2" if t: "strs ?st t = Some o2" for t o2
  proof (cases "t = s")
    case True
    with t n show ?thesis by (auto simp: str_ok_def attached_strs)
  next
    case False
    with t have "strs st t = Some o2" by (simp add: attached_strs)
    from wf_str [OF ok this] show ?thesis
      by (auto simp: str_ok_def attached_strs brk_fresh [OF ok] split: option.splits)
  qed
  moreover have "finite (dom (strs ?st))"
    using ok by (simp add: heap_ok_def attached_strs)
  ultimately show ?thesis by (simp add: heap_ok_def)
qed

lemma attached_other:
  assumes "heap_ok st" "strs st t = Some o2" "m_buffer o2 = Some x"
  shows "x \<noteq> brk st"
  using assms by (metis brk_fresh option.distinct(1) wf_ptr)

lemma attached_view:
  assumes ok: "heap_ok st"
  shows "view (attached s n new st) = (view st)(s \<mapsto> take n (sb_data new))"
proof
  fix t
  show "view (attached s n new st) t = ((view st)(s \<mapsto> take n (sb_data new))) t"
    using attached_other [OF ok, of t]
    by (cases "t = s") (auto simp: view_def attached_strs split: option.splits)
qed

lemma attached_coh:
  assumes ok: "heap_ok st" and coh: "coh st" and nul: "sb_data new ! n = Some nul"
  shows "coh (attached s n new st)"
proof (rule cohI)
  fix t o2 x y
  assume "strs (attached s n new st) t = Some o2" "m_buffer o2 = Some x"
    "bufs (attached s n new st) x = Some y"
  then show "sb_data y ! m_size o2 = Some nul"
    using attached_other [OF ok, of t o2 x] coh_nul [OF coh, of t o2 x y] nul
    by (auto simp: attached_strs split: if_splits)
next
  fix t u o2 o3 x
  assume "strs (attached s n new st) t = Some o2" "strs (attached s n new st) u = Some o3" "t \<noteq> u"
    "m_buffer o2 = Some x" "m_buffer o3 = Some x"
  then show "m_size o2 = m_size o3"
    using attached_other [OF ok, of t o2] attached_other [OF ok, of u o3]
      coh_size [OF coh, of t o2 u o3 x] by (auto simp: attached_strs split: if_splits)
qed

lemma attached_sole:
  assumes "heap_ok st" "blockless s st"
  shows "sole s (attached s n new st)"
  using ptrs_fresh [OF assms(1)] by (simp add: sole_def ptrs_attached [OF assms(2)] attached_strs)

end
