(* ===== verification/CowValues.thy ===== *)
theory CowValues imports CowString begin

section \<open>Copy-on-write strings as values\<close>

text \<open>
  What every operation of \<open>src/string.cpp\<close> does to the value of its object and of every other
  object: the lemmas \<open>*_spec\<close>, the interface \<open>value_mutator\<close> with its clients, and the refinement
  of programs over heap strings to programs over values.
\<close>

section \<open>What the operations do to the values\<close>

text \<open>
  From here on the proofs speak of \<open>view\<close> only: \<open>good\<close> states are the ones whose heap is
  consistent and coherent, and each operation maps the view of its object and keeps every other.
\<close>

definition good :: "store \<Rightarrow> bool" where
  "good st \<longleftrightarrow> heap_ok st \<and> coh st"

lemma goodD: "good st \<Longrightarrow> heap_ok st" "good st \<Longrightarrow> coh st"
  by (simp_all add: good_def)

lemma view_cases:
  assumes "good st" "view st s = Some xs"
  obtains (null) o1 where "strs st s = Some o1" "m_buffer o1 = None" "m_size o1 = 0" "xs = []"
  | (block) o1 b buf where "strs st s = Some o1" "m_buffer o1 = Some b" "bufs st b = Some buf"
      "m_size o1 = length xs" "xs \<noteq> []" "length xs < sb_size buf"
      "length (sb_data buf) = sb_size buf" "xs = take (length xs) (sb_data buf)"
      "sb_ref buf = card (ptrs st b)" "s \<in> ptrs st b" "sb_data buf ! length xs = Some nul"
proof -
  from view_live [OF assms(2)] obtain o1 where o1: "strs st s = Some o1" ..
  note len = view_length [OF goodD(1) [OF assms(1)] assms(2) o1]
  show thesis
  proof (cases "m_buffer o1")
    case None
    with o1 assms len show thesis
      by (intro null [of o1]) (auto dest: wf_null [OF goodD(1)])
  next
    case (Some b)
    from wf_ptr [OF goodD(1) [OF assms(1)] o1 Some] obtain buf where buf:
      "bufs st b = Some buf" "0 < m_size o1" "m_size o1 < sb_size buf"
      "length (sb_data buf) = sb_size buf" "s \<in> ptrs st b" "sb_ref buf = card (ptrs st b)"
      by metis
    moreover have "xs = take (length xs) (sb_data buf)"
      using assms(2) o1 Some buf(1) len by simp
    moreover have "sb_data buf ! length xs = Some nul"
      using coh_nul [OF goodD(2) [OF assms(1)] o1 Some buf(1)] len by simp
    ultimately show thesis using o1 Some len by (intro block [of o1 b buf]) auto
  qed
qed

lemma read_spec:
  assumes "good st" "view st s = Some xs" "pos + n \<le> length xs"
  shows "read_data s pos n st = Inr (take n (drop pos xs))"
  using assms(1,2)
proof (cases rule: view_cases)
  case (block o1 b buf)
  then have "drop pos xs = take (length xs - pos) (drop pos (sb_data buf))"
    by (metis drop_take)
  then show ?thesis using block assms(3)
    by (simp add: read_data_def peek_def min_absorb1)
qed (use assms in \<open>simp add: read_data_def\<close>)

lemma write_spec:
  assumes "good st" "sole s st" "view st s = Some xs" "xs \<noteq> []" "pos + length cs \<le> length xs"
  shows "\<exists>st'. write_data s pos cs st = Inr st' \<and> good st' \<and> sole s st' \<and>
    view st' = (view st)(s \<mapsto> take pos xs @ cs @ drop (pos + length cs) xs)"
  using assms(1,3)
proof (cases rule: view_cases)
  case (block o1 b buf)
  let ?d = "take pos (sb_data buf) @ cs @ drop (pos + length cs) (sb_data buf)"
  let ?st = "upd s o1 b buf (length xs) ?d st"
  have len: "length ?d = sb_size buf" using block assms(5) by auto
  have "buf\<lparr>sb_size := length ?d, sb_data := ?d\<rparr> = buf\<lparr>sb_data := ?d\<rparr>" unfolding len by simp
  moreover have "put_str s (o1\<lparr>m_size := length xs\<rparr>) (put_buf b (buf\<lparr>sb_data := ?d\<rparr>) st)
      = put_buf b (buf\<lparr>sb_data := ?d\<rparr>) st"
    using block by (simp add: put_str_def put_buf_def fun_upd_idem)
  ultimately have "write_data s pos cs st = Inr ?st"
    using block assms(5) by (simp add: write_data_def blit_def upd_def)
  moreover have "heap_ok ?st"
    by (rule upd_heap_ok [OF goodD(1) [OF assms(1)] block(1-3) assms(2)])
      (use block len in auto)
  moreover have "\<not> length xs - pos < length cs" using assms(5) by linarith
  then have "?d ! length xs = Some nul"
    using block assms(5) by (simp add: nth_append)
  then have "coh ?st" by (rule upd_coh [OF goodD(2) [OF assms(1)] block(1,2) assms(2)])
  moreover have "take (length xs) ?d = take pos xs @ cs @ drop (pos + length cs) xs"
  proof -
    have "take pos xs = take pos (sb_data buf)"
      using block assms(5) by (metis add_leD1 min.absorb1 take_take)
    moreover have "drop (pos + length cs) xs =
        take (length xs - (pos + length cs)) (drop (pos + length cs) (sb_data buf))"
      using block by (metis drop_take)
    ultimately show ?thesis using block assms(5) by (simp add: min_absorb2)
  qed
  ultimately show ?thesis
    using upd_sole [OF block(1,2) assms(2)] upd_view [OF block(1,2) assms(2)]
    by (auto simp: good_def)
qed (use assms in simp)

lemma view_sole_null:
  assumes "good st" "view st s = Some []" shows "sole s st"
  using assms by (cases rule: view_cases) (auto simp: sole_def)

lemma mutate_spec:
  assumes "good st" "view st s = Some xs"
  shows "\<exists>st'. str_mutate s st = Inr st' \<and> good st' \<and> sole s st' \<and> view st' = view st \<and>
    (\<forall>o1. strs st s = Some o1 \<longrightarrow> (\<exists>o2. strs st' s = Some o2 \<and> m_size o2 = m_size o1))"
  using assms
proof (cases rule: view_cases)
  case (null o1)
  then show ?thesis using assms(1) by (auto simp: str_mutate_def sole_def)
next
  case (block o1 b buf)
  note ok = goodD(1) [OF assms(1)] and coh = goodD(2) [OF assms(1)]
  show ?thesis
  proof (cases "1 < sb_ref buf")
    case False
    with block ptrs_finite [OF ok, of b] have "card (ptrs st b) = 1"
      by (metis One_nat_def card_gt_0_iff empty_iff less_one linorder_neqE_nat not_less_eq)
    with block(10) have "ptrs st b = {s}" by (auto simp: card_1_singleton_iff)
    with False block assms(1) show ?thesis by (auto simp: str_mutate_def sole_def)
  next
    case True
    let ?mid = "dropped s b buf st"
    let ?new = "(malloc_buf (length xs))\<lparr>sb_data := xs @ [Some nul] @
      drop (length xs + 1) (replicate (aligned_size (length xs)) None)\<rparr>"
    let ?st = "attached s (length xs) ?new ?mid"
    have bl: "blockless s ?mid" by (simp add: blockless_def dropped_strs empty_cfstr_def)
    have mid: "heap_ok ?mid" "coh ?mid"
      using dropped_heap_ok [OF ok block(1-3)] dropped_coh [OF ok coh block(1-3)] by auto
    have eq: "o1\<lparr>m_buffer := Some (brk st)\<rparr> = \<lparr>m_buffer = Some (brk st), m_size = length xs\<rparr>"
      using block(4) by simp
    have "str_mutate s st = Inr ?st"
      using True block
      by (simp add: str_mutate_def peek_def blit_def attached_def dropped_def eq put_str_def put_buf_def)
    moreover have "heap_ok ?st"
      by (rule attached_heap_ok [OF mid(1) bl])
        (use block in \<open>auto simp del: drop_replicate\<close>)
    moreover have "coh ?st"
      by (rule attached_coh [OF mid]) (simp add: nth_append)
    moreover have "view ?st = view st"
      using assms(2) by (simp add: attached_view [OF mid(1)] dropped_view [OF ok block(1-3)] fun_eq_iff)
    moreover have "sole s ?st" by (rule attached_sole [OF mid(1) bl])
    ultimately show ?thesis using block by (auto simp: good_def attached_strs)
  qed
qed

lemma fresh_spec:
  assumes "good st" "blockless s st" "0 < n"
  shows "\<exists>st' ys. fresh_buffer s n st = Inr st' \<and> good st' \<and> sole s st' \<and>
    view st' = (view st)(s \<mapsto> ys) \<and> length ys = n"
proof -
  let ?d = "replicate n None @ [Some nul] @ drop (n + 1) (replicate (aligned_size n) None)"
  let ?new = "(malloc_buf n)\<lparr>sb_data := ?d\<rparr>"
  let ?st = "attached s n ?new st"
  note ok = goodD(1) [OF assms(1)] and coh = goodD(2) [OF assms(1)]
  have "fresh_buffer s n st = Inr ?st"
    by (simp add: fresh_buffer_def blit_def attached_def put_str_def put_buf_def min_absorb1)
  moreover have "heap_ok ?st"
    by (rule attached_heap_ok [OF ok assms(2,3)]) (auto simp del: drop_replicate)
  moreover have "coh ?st" by (rule attached_coh [OF ok coh]) (simp add: nth_append)
  ultimately show ?thesis
    using attached_view [OF ok] attached_sole [OF ok assms(2)]
    by (intro exI [of _ ?st] exI [of _ "replicate n None"]) (simp add: good_def)
qed

lemma grow_spec:
  assumes "good st" "sole s st" "view st s = Some xs" "xs \<noteq> []" "length xs < n"
  shows "\<exists>st' ys. ebind (grow_buffer s n st) (\<lambda>st1. ebind (set_size s n st1) (write_data s n [Some nul]))
      = Inr st' \<and> good st' \<and> sole s st' \<and> view st' = (view st)(s \<mapsto> xs @ ys) \<and>
      length ys = n - length xs"
  using assms(1,3)
proof (cases rule: view_cases)
  case (block o1 b buf)
  note ok = goodD(1) [OF assms(1)] and coh = goodD(2) [OF assms(1)]
  let ?b1 = "if sb_size buf - 1 < n then realloc_buf n buf else buf"
  let ?d1 = "sb_data ?b1"
  have d1: "length ?d1 = sb_size ?b1" "n < sb_size ?b1" "take (length xs) ?d1 = xs" "sb_ref ?b1 = sb_ref buf"
    using block assms(5) aligned_size_gt [of n] less_trans [OF assms(5) aligned_size_gt [of n]]
    by (auto simp: realloc_buf_def min_absorb1 min_def)
  let ?d = "take n ?d1 @ [Some nul] @ drop (n + 1) ?d1"
  let ?st = "upd s o1 b buf n ?d st"
  have len: "length ?d = sb_size ?b1" using d1 by auto
  have st1: "grow_buffer s n st = Inr (if sb_size buf - 1 < n then put_buf b ?b1 st else st)"
    using block by (simp add: grow_buffer_def)
  have "ebind (grow_buffer s n st) (\<lambda>st1. ebind (set_size s n st1) (write_data s n [Some nul])) = Inr ?st"
    unfolding st1 using block(1-3) d1 len
    by (auto simp: set_size_def write_data_def blit_def upd_def put_str_def put_buf_def realloc_buf_def
          split: if_splits)
  moreover have "heap_ok ?st"
    by (rule upd_heap_ok [OF ok block(1-3) assms(2)]) (use d1 len assms(5) in auto)
  moreover have "?d ! n = Some nul" using d1 by (simp add: nth_append)
  then have "coh ?st" by (rule upd_coh [OF coh block(1,2) assms(2)])
  moreover have "take n ?d = xs @ take (n - length xs) (drop (length xs) ?d1)"
  proof -
    have "take n ?d1 = take (length xs) ?d1 @ take (n - length xs) (drop (length xs) ?d1)"
      using assms(5) by (metis le_add_diff_inverse less_imp_le take_add)
    with d1 assms(5) show ?thesis by simp
  qed
  ultimately show ?thesis
    using upd_sole [OF block(1,2) assms(2)] upd_view [OF block(1,2) assms(2)] d1 assms(5)
    by (intro exI [of _ ?st] exI [of _ "take (n - length xs) (drop (length xs) ?d1)"])
      (simp add: good_def)
qed (use assms in simp)

lemma resize_grow:
  assumes "good st" "view st s = Some xs" "length xs < n"
  shows "\<exists>st' ys. str_resize s n st = Inr st' \<and> good st' \<and> sole s st' \<and>
    view st' = (view st)(s \<mapsto> xs @ ys) \<and> length ys = n - length xs"
  using assms(1,2)
proof (cases rule: view_cases)
  case (null o1)
  then have "blockless s st" by (simp add: blockless_def)
  from fresh_spec [OF assms(1) this, of n] null assms(3) show ?thesis
    by (auto simp: str_resize_def)
next
  case (block o1 b buf)
  from mutate_spec [OF assms(1,2)] block(1) obtain st1 o2 where
    st1: "str_mutate s st = Inr st1" "good st1" "sole s st1" "view st1 = view st" by auto
  with assms(2) have v: "view st1 s = Some xs" by simp
  from grow_spec [OF st1(2,3) v block(5) assms(3)] obtain st' ys where
    "ebind (grow_buffer s n st1) (\<lambda>st1. ebind (set_size s n st1) (write_data s n [Some nul])) = Inr st'"
    "good st'" "sole s st'" "view st' = (view st1)(s \<mapsto> xs @ ys)" "length ys = n - length xs" by blast
  moreover have "str_resize s n st = ebind (grow_buffer s n st1)
      (\<lambda>st1. ebind (set_size s n st1) (write_data s n [Some nul]))"
    using block assms(3) st1(1) by (simp add: str_resize_def ebind_assoc)
  ultimately show ?thesis using st1(4) by auto
qed

lemma clear_spec:
  assumes "good st" "view st s = Some xs"
  shows "\<exists>st'. str_clear s st = Inr st' \<and> good st' \<and> sole s st' \<and> view st' = (view st)(s \<mapsto> []) \<and>
    strs st' = (strs st)(s \<mapsto> empty_cfstr)"
  using assms
proof (cases rule: view_cases)
  case (null o1)
  then have "o1 = empty_cfstr" by (simp add: empty_cfstr_def)
  with null assms show ?thesis
    by (auto simp: str_clear_def sole_def fun_eq_iff)
next
  case (block o1 b buf)
  note ok = goodD(1) [OF assms(1)] and coh = goodD(2) [OF assms(1)]
  show ?thesis
    using str_clear_eq [OF block(1-3)] dropped_heap_ok [OF ok block(1-3)]
      dropped_coh [OF ok coh block(1-3)] dropped_view [OF ok block(1-3)]
    by (auto simp: good_def sole_def dropped_strs empty_cfstr_def)
qed

lemma resize_same:
  assumes "good st" "view st s = Some xs" "n = length xs"
  shows "str_resize s n st = Inr st"
  using assms(1,2) by (cases rule: view_cases) (auto simp: str_resize_def assms(3))

lemma resize_zero:
  assumes "good st" "view st s = Some xs"
  shows "\<exists>st'. str_resize s 0 st = Inr st' \<and> good st' \<and> sole s st' \<and> view st' = (view st)(s \<mapsto> [])"
proof (cases "xs = []")
  case True
  with assms show ?thesis using view_sole_null [of st s] resize_same [OF assms, of 0]
    by (auto simp: fun_eq_iff)
next
  case False
  from clear_spec [OF assms] obtain st' where "str_clear s st = Inr st'" "good st'" "sole s st'"
    "view st' = (view st)(s \<mapsto> [])" by blast
  moreover have "str_resize s 0 st = str_clear s st"
    using assms(1,2) False by (cases rule: view_cases) (auto simp: str_resize_def)
  ultimately show ?thesis by simp
qed

lemma resize_shrink:
  assumes "good st" "sole s st" "view st s = Some xs" "n \<le> length xs"
  shows "\<exists>st'. str_resize s n st = Inr st' \<and> good st' \<and> sole s st' \<and>
    view st' = (view st)(s \<mapsto> take n xs)"
proof (cases "n = length xs \<or> n = 0")
  case True
  with resize_same [OF assms(1,3), of n] resize_zero [OF assms(1,3)] assms show ?thesis
    by (auto simp: fun_eq_iff)
next
  case False
  from assms(1,3) show ?thesis
  proof (cases rule: view_cases)
    case (block o1 b buf)
    note ok = goodD(1) [OF assms(1)] and coh = goodD(2) [OF assms(1)]
    let ?d = "take n (sb_data buf) @ [Some nul] @ drop (n + 1) (sb_data buf)"
    let ?st = "upd s o1 b buf n ?d st"
    have len: "length ?d = sb_size buf" using block assms(4) by auto
    have "str_resize s n st = Inr ?st"
      using block(1-3) block(4,6,7) False assms(4) len
      by (auto simp: str_resize_def set_size_def write_data_def blit_def upd_def put_str_def put_buf_def)
    moreover have "heap_ok ?st"
      by (rule upd_heap_ok [OF ok block(1-3) assms(2)]) (use len False assms(4) block in auto)
    moreover have "?d ! n = Some nul" using block assms(4) by (simp add: nth_append)
    then have "coh ?st" by (rule upd_coh [OF coh block(1,2) assms(2)])
    moreover have "take n ?d = take n xs"
    proof -
      have "n \<le> length (sb_data buf)" using block(6,7) assms(4) by simp
      moreover have "take n xs = take n (sb_data buf)"
        using arg_cong [OF block(8), of "take n"] assms(4) by (simp add: min_absorb1)
      ultimately show ?thesis by simp
    qed
    ultimately show ?thesis
      using upd_sole [OF block(1,2) assms(2)] upd_view [OF block(1,2) assms(2)]
      by (auto simp: good_def)
  qed (use False assms in simp)
qed

subsection \<open>The mutating operations, on values\<close>

text \<open>
  \<open>implements op s f\<close>: on every good state in which \<open>s\<close> is live, \<open>op\<close> returns, the state stays
  good, the value of \<open>s\<close> becomes \<open>f\<close> of the old one, and no other object changes value.
\<close>

definition implements ::
  "(store \<Rightarrow> store res) \<Rightarrow> sid \<Rightarrow> (char option list \<Rightarrow> char option list) \<Rightarrow> bool" where
  "implements op s f \<longleftrightarrow> (\<forall>st xs. good st \<longrightarrow> view st s = Some xs \<longrightarrow>
     (\<exists>st'. op st = Inr st' \<and> good st' \<and> view st' = (view st)(s \<mapsto> f xs)))"

lemma implementsI:
  assumes "\<And>st xs. good st \<Longrightarrow> view st s = Some xs \<Longrightarrow>
    \<exists>st'. op st = Inr st' \<and> good st' \<and> view st' = (view st)(s \<mapsto> f xs)"
  shows "implements op s f"
  using assms by (auto simp: implements_def)

lemma extend_spec:
  assumes "good st" "view st s = Some xs" "cs \<noteq> []" "0 < length cs"
  shows "\<exists>st'. ebind (str_resize s (length xs + length cs) st) (write_data s (length xs) cs) = Inr st' \<and>
    good st' \<and> view st' = (view st)(s \<mapsto> xs @ cs)"
proof -
  from resize_grow [OF assms(1,2), of "length xs + length cs"] assms(4) obtain st1 ys where
    st1: "str_resize s (length xs + length cs) st = Inr st1" "good st1" "sole s st1"
      "view st1 = (view st)(s \<mapsto> xs @ ys)" "length ys = length cs" by auto
  then have "view st1 s = Some (xs @ ys)" "xs @ ys \<noteq> []" using assms(4) by auto
  from write_spec [OF st1(2,3) this, of "length xs" cs] st1 show ?thesis by auto
qed

lemma view_get_str:
  assumes "good st" "view st s = Some xs"
  obtains o1 where "get_str s st = Inr o1" "strs st s = Some o1" "m_size o1 = length xs"
  using assms view_live [OF assms(2)] view_length [OF goodD(1) [OF assms(1)] assms(2)] by force

lemma append_char_implements: "implements (str_append_char s c) s (\<lambda>xs. xs @ [Some c])"
proof (rule implementsI)
  fix st xs assume a: "good st" "view st s = Some xs"
  obtain o1 where "get_str s st = Inr o1" "m_size o1 = length xs" by (rule view_get_str [OF a])
  with extend_spec [OF a, of "[Some c]"]
  show "\<exists>st'. str_append_char s c st = Inr st' \<and> good st' \<and> view st' = (view st)(s \<mapsto> xs @ [Some c])"
    by (simp add: str_append_char_def)
qed

lemma append_bytes_implements: "implements (str_append_bytes s cs) s (\<lambda>xs. xs @ map Some cs)"
proof (rule implementsI)
  fix st xs assume a: "good st" "view st s = Some xs"
  obtain o1 where "get_str s st = Inr o1" "m_size o1 = length xs" by (rule view_get_str [OF a])
  with extend_spec [OF a, of "map Some cs"] a
  show "\<exists>st'. str_append_bytes s cs st = Inr st' \<and> good st' \<and> view st' = (view st)(s \<mapsto> xs @ map Some cs)"
    by (cases "cs = []") (auto simp: str_append_bytes_def fun_eq_iff)
qed

lemma plus_char_implements: "implements (str_plus_char s c) s (\<lambda>xs. xs @ [Some c])"
proof (rule implementsI)
  fix st xs assume a: "good st" "view st s = Some xs"
  obtain o1 where o1: "get_str s st = Inr o1" "m_size o1 = length xs" by (rule view_get_str [OF a])
  from resize_grow [OF a, of "length xs + 1"] obtain st1 ys where
    st1: "str_resize s (length xs + 1) st = Inr st1" "good st1" "sole s st1"
      "view st1 = (view st)(s \<mapsto> xs @ ys)" "length ys = 1" by auto
  then have v: "view st1 s = Some (xs @ ys)" and ne: "xs @ ys \<noteq> []" by auto
  obtain o2 where "get_str s st1 = Inr o2" "m_size o2 = length xs + 1"
    using view_get_str [OF st1(2) v] st1(5) by (metis length_append)
  with write_spec [OF st1(2,3) v ne, of "length xs" "[Some c]"] o1 st1
  show "\<exists>st'. str_plus_char s c st = Inr st' \<and> good st' \<and> view st' = (view st)(s \<mapsto> xs @ [Some c])"
    by (auto simp: str_plus_char_def)
qed

lemma prepend_implements: "implements (str_prepend s c) s (\<lambda>xs. Some c # xs)"
proof (rule implementsI)
  fix st xs assume a: "good st" "view st s = Some xs"
  let ?goal = "\<exists>st'. str_prepend s c st = Inr st' \<and> good st' \<and> view st' = (view st)(s \<mapsto> Some c # xs)"
  from a show ?goal
  proof (cases rule: view_cases)
    case (null o1)
    with extend_spec [OF a, of "[Some c]"] show ?thesis by (simp add: str_prepend_def)
  next
    case (block o1 b buf)
    from mutate_spec [OF a] obtain st1 where st1: "str_mutate s st = Inr st1" "good st1"
      "view st1 = view st" by blast
    with a have "view st1 s = Some xs" by simp
    from resize_grow [OF st1(2) this, of "length xs + 1"] st1(3) obtain st2 ys where
      st2: "str_resize s (length xs + 1) st1 = Inr st2" "good st2" "sole s st2"
        "view st2 = (view st)(s \<mapsto> xs @ ys)" "length ys = 1" by auto
    then have v2: "view st2 s = Some (xs @ ys)" and ne: "xs @ ys \<noteq> []" by auto
    have r: "read_data s 0 (length xs) st2 = Inr xs"
      using read_spec [OF st2(2) v2, of 0 "length xs"] by simp
    obtain z where z: "take 1 (xs @ ys) = [z]" using st2(5) by (cases xs) (auto simp: length_Suc_conv)
    from write_spec [OF st2(2,3) v2 ne, of 1 xs, unfolded z] st2(4,5) obtain st3 where
      st3: "write_data s 1 xs st2 = Inr st3" "good st3" "sole s st3"
        "view st3 = (view st)(s \<mapsto> z # xs)" by auto
    then have v3: "view st3 s = Some (z # xs)" by simp
    from write_spec [OF st3(2,3) v3, of 0 "[Some c]"] st3(4) obtain st4 where
      "write_data s 0 [Some c] st3 = Inr st4" "good st4" "view st4 = (view st)(s \<mapsto> Some c # xs)"
      by auto
    with block r st1(1) st2(1) st3(1) show ?thesis by (simp add: str_prepend_def)
  qed
qed

lemma map_case_id:
  assumes "\<And>c. \<not> p c \<Longrightarrow> f c = c"
    "\<not> list_ex (\<lambda>x. case x of None \<Rightarrow> False | Some c \<Rightarrow> p c) xs"
  shows "map (map_option f) xs = xs"
  using assms by (induction xs) (auto split: option.splits)

lemma map_case_implements:
  assumes f: "\<And>c. \<not> p c \<Longrightarrow> f c = c"
  shows "implements (str_map_case p f s) s (map (map_option f))"
proof (rule implementsI)
  fix st xs assume a: "good st" "view st s = Some xs"
  let ?ex = "list_ex (\<lambda>x. case x of None \<Rightarrow> False | Some c \<Rightarrow> p c) xs"
  from a show "\<exists>st'. str_map_case p f s st = Inr st' \<and> good st' \<and>
      view st' = (view st)(s \<mapsto> map (map_option f) xs)"
  proof (cases rule: view_cases)
    case (null o1)
    with a show ?thesis by (auto simp: str_map_case_def fun_eq_iff)
  next
    case (block o1 b buf)
    have r: "read_data s 0 (length xs) st = Inr xs" using read_spec [OF a, of 0 "length xs"] by simp
    show ?thesis
    proof (cases ?ex)
      case False
      with map_case_id [OF f False] a block r show ?thesis
        by (auto simp: str_map_case_def fun_eq_iff)
    next
      case True
      from mutate_spec [OF a] obtain st1 where st1: "str_mutate s st = Inr st1" "good st1"
        "sole s st1" "view st1 = view st" by blast
      with a have v1: "view st1 s = Some xs" by simp
      have "read_data s 0 (length xs) st1 = Inr xs"
        using read_spec [OF st1(2) v1, of 0 "length xs"] by simp
      with write_spec [OF st1(2,3) v1 block(5), of 0 "map (map_option f) xs"] True block r st1
      show ?thesis by (auto simp: str_map_case_def)
    qed
  qed
qed

lemma toLower_implements: "implements (str_toLower s) s (map (map_option to_lower))"
  unfolding str_toLower_def by (rule map_case_implements) (simp add: to_lower_def)

lemma toUpper_implements: "implements (str_toUpper s) s (map (map_option to_upper))"
  unfolding str_toUpper_def by (rule map_case_implements) (simp add: to_upper_def)

subsection \<open>Copying, moving and destroying\<close>

definition shared :: "sid \<Rightarrow> addr \<Rightarrow> stringbuf \<Rightarrow> nat \<Rightarrow> store \<Rightarrow> store" where
  "shared d b buf n st = put_str d \<lparr>m_buffer = Some b, m_size = n\<rparr>
     (put_buf b (buf\<lparr>sb_ref := sb_ref buf + 1\<rparr>) st)"

lemma shared_strs:
  "strs (shared d b buf n st) = (strs st)(d \<mapsto> \<lparr>m_buffer = Some b, m_size = n\<rparr>)"
  "bufs (shared d b buf n st) = (bufs st)(b \<mapsto> buf\<lparr>sb_ref := sb_ref buf + 1\<rparr>)"
  "brk (shared d b buf n st) = brk st"
  by (simp_all add: shared_def)

lemma ptrs_shared:
  assumes "blockless d st"
  shows "ptrs (shared d b buf n st) x = (if x = b then insert d (ptrs st x) else ptrs st x)"
  using assms by (auto simp: ptrs_def shared_strs blockless_def)

lemma shared_heap_ok:
  assumes ok: "heap_ok st" and bl: "blockless d st"
    and b: "bufs st b = Some buf" "0 < n" "n < sb_size buf"
  shows "heap_ok (shared d b buf n st)"
proof -
  let ?st = "shared d b buf n st"
  have new: "d \<notin> ptrs st b" using bl by (auto simp: ptrs_def blockless_def)
  have "buf_ok ?st x y" if "bufs ?st x = Some y" for x y
    using that wf_buf [OF ok, of x] wf_buf [OF ok b(1)] new ptrs_finite [OF ok, of b]
    by (auto simp: buf_ok_def ptrs_shared [OF bl] shared_strs split: if_splits)
  moreover have "str_ok ?st o2" if "strs ?st t = Some o2" for t o2
    using that wf_str [OF ok, of t o2] b
    by (auto simp: str_ok_def shared_strs split: option.splits if_splits)
  moreover have "finite (dom (strs ?st))"
    using ok by (simp add: heap_ok_def shared_strs)
  ultimately show ?thesis by (simp add: heap_ok_def)
qed

lemma shared_view:
  assumes "bufs st b = Some buf"
  shows "view (shared d b buf n st) = (view st)(d \<mapsto> take n (sb_data buf))"
  using assms by (auto simp: view_def shared_strs fun_eq_iff split: option.splits)

lemma shared_coh:
  assumes coh: "coh st" and s: "strs st s = Some o1" "m_buffer o1 = Some b" "bufs st b = Some buf"
  shows "coh (shared d b buf (m_size o1) st)"
proof (rule cohI)
  fix t o2 x y
  assume "strs (shared d b buf (m_size o1) st) t = Some o2" "m_buffer o2 = Some x"
    "bufs (shared d b buf (m_size o1) st) x = Some y"
  then show "sb_data y ! m_size o2 = Some nul"
    using coh_nul [OF coh, of t o2 x] coh_nul [OF coh s] s
    by (auto simp: shared_strs split: if_splits)
next
  fix t u o2 o3 x
  assume "strs (shared d b buf (m_size o1) st) t = Some o2"
    "strs (shared d b buf (m_size o1) st) u = Some o3" "t \<noteq> u"
    "m_buffer o2 = Some x" "m_buffer o3 = Some x"
  then show "m_size o2 = m_size o3"
    using coh_size [OF coh, of t o2 u o3 x] coh_size [OF coh s(1), of t o2] coh_size [OF coh s(1), of u o3] s
    by (auto simp: shared_strs split: if_splits)
qed

lemma put_empty_heap_ok:
  assumes "heap_ok st" "blockless d st" shows "heap_ok (put_str d empty_cfstr st)"
proof -
  have p: "ptrs (put_str d empty_cfstr st) = ptrs st"
    using assms(2) by (auto simp: ptrs_def blockless_def empty_cfstr_def fun_eq_iff)
  show ?thesis
    by (rule heap_ok_transfer [OF assms(1) _ _ p]) (use assms(1) in \<open>auto simp: heap_ok_def split: if_splits\<close>)
qed

lemma put_empty:
  assumes "good st" "blockless d st"
  shows "good (put_str d empty_cfstr st)" "view (put_str d empty_cfstr st) = (view st)(d \<mapsto> [])"
proof -
  have "coh (put_str d empty_cfstr st)"
    by (rule coh_transfer [OF goodD(2) [OF assms(1)]]) (auto split: if_splits)
  with put_empty_heap_ok [OF goodD(1) [OF assms(1)] assms(2)]
  show "good (put_str d empty_cfstr st)" by (simp add: good_def)
  show "view (put_str d empty_cfstr st) = (view st)(d \<mapsto> [])"
    by (auto simp: view_def fun_eq_iff split: option.split)
qed

lemma share_spec:
  assumes "good st" "view st s = Some xs" "blockless d st"
  shows "\<exists>st'. share_buffer d s st = Inr st' \<and> good st' \<and> view st' = (view st)(d \<mapsto> xs)"
  using assms(1,2)
proof (cases rule: view_cases)
  case (null o1)
  with put_empty [OF assms(1,3)] show ?thesis by (simp add: share_buffer_def empty_cfstr_def)
next
  case (block o1 b buf)
  have "share_buffer d s st = Inr (shared d b buf (m_size o1) st)"
    using block by (simp add: share_buffer_def shared_def)
  with shared_heap_ok [OF goodD(1) [OF assms(1)] assms(3) block(3), of "m_size o1"]
    shared_coh [OF goodD(2) [OF assms(1)] block(1-3)] shared_view [OF block(3)] block(4-8)
  show ?thesis by (auto simp: good_def)
qed

lemma copy_spec:
  assumes "good st" "view st s = Some xs" "blockless d st"
  shows "\<exists>st'. str_copy d s st = Inr st' \<and> good st' \<and> view st' = (view st)(d \<mapsto> xs)"
  using assms(1,2)
proof (cases rule: view_cases)
  case (null o1)
  with put_empty [OF assms(1,3)] show ?thesis by (simp add: str_copy_def str_new_def)
next
  case (block o1 b buf)
  with share_spec [OF assms] show ?thesis by (simp add: str_copy_def)
qed

lemma assign_spec:
  assumes "good st" "view st s = Some xs" "view st d = Some ys"
  shows "\<exists>st'. str_assign d s st = Inr st' \<and> good st' \<and> view st' = (view st)(d \<mapsto> xs)"
proof (cases "s = d")
  case True
  with assms show ?thesis by (auto simp: str_assign_def fun_eq_iff)
next
  case False
  from clear_spec [OF assms(1,3)] obtain st1 where
    st1: "str_clear d st = Inr st1" "good st1" "view st1 = (view st)(d \<mapsto> [])"
      "strs st1 = (strs st)(d \<mapsto> empty_cfstr)" by blast
  have bl: "blockless d st1" by (simp add: blockless_def st1 empty_cfstr_def)
  have "view st1 s = Some xs" using False assms(2) st1(3) by simp
  from share_spec [OF st1(2) this bl] st1 False show ?thesis by (auto simp: str_assign_def)
qed

lemma drop_null_heap_ok:
  assumes "heap_ok st" "blockless s st" shows "heap_ok (st\<lparr>strs := (strs st)(s := None)\<rparr>)"
proof -
  have p: "ptrs (st\<lparr>strs := (strs st)(s := None)\<rparr>) = ptrs st"
    using assms(2) by (auto simp: ptrs_def blockless_def fun_eq_iff)
  show ?thesis
    by (rule heap_ok_transfer [OF assms(1) _ _ p]) (use assms(1) in \<open>auto simp: heap_ok_def split: if_splits\<close>)
qed

lemma drop_null:
  assumes "good st" "blockless s st"
  shows "good (st\<lparr>strs := (strs st)(s := None)\<rparr>)"
    "view (st\<lparr>strs := (strs st)(s := None)\<rparr>) = (view st)(s := None)"
proof -
  let ?st = "st\<lparr>strs := (strs st)(s := None)\<rparr>"
  have "coh ?st"
    by (rule coh_transfer [OF goodD(2) [OF assms(1)]]) (auto split: if_splits)
  with drop_null_heap_ok [OF goodD(1) [OF assms(1)] assms(2)] show "good ?st"
    by (simp add: good_def)
  show "view ?st = (view st)(s := None)" by (auto simp: view_def fun_eq_iff split: option.split)
qed

lemma destroy_spec:
  assumes "good st" "view st s = Some xs"
  shows "\<exists>st'. str_destroy s st = Inr st' \<and> good st' \<and> view st' = (view st)(s := None)"
proof -
  from clear_spec [OF assms] obtain st1 where
    st1: "str_clear s st = Inr st1" "good st1" "view st1 = (view st)(s \<mapsto> [])"
      "strs st1 = (strs st)(s \<mapsto> empty_cfstr)" by blast
  have "blockless s st1" by (simp add: blockless_def st1 empty_cfstr_def)
  from drop_null [OF st1(2) this] st1 show ?thesis by (auto simp: str_destroy_def)
qed

lemma sole_disjoint:
  assumes "good st" "sole d st" "view st s = Some vs" "d \<noteq> s" "0 < n" "n \<le> length vs"
    "strs st d = Some od" "strs st s = Some os"
  shows "m_buffer od \<noteq> m_buffer os"
proof -
  have "m_buffer os \<noteq> None"
    using assms(1,3) by (cases rule: view_cases) (use assms in auto)
  with sole_other [OF assms(2,7) _ assms(8)] assms(4) show ?thesis by auto
qed

lemma copy_data_spec:
  assumes "good st" "sole d st" "view st d = Some ws" "view st s = Some vs"
    "n \<le> length vs" "pos + n \<le> length ws" "d \<noteq> s \<or> n \<le> pos"
  shows "\<exists>st'. copy_data d pos s n st = Inr st' \<and> good st' \<and> sole d st' \<and>
    view st' = (view st)(d \<mapsto> take pos ws @ take n vs @ drop (pos + n) ws)"
proof -
  obtain od where od: "get_str d st = Inr od" "strs st d = Some od" by (rule view_get_str [OF assms(1,3)])
  obtain os where os: "get_str s st = Inr os" "strs st s = Some os" by (rule view_get_str [OF assms(1,4)])
  have r: "read_data s 0 n st = Inr (take n vs)" using read_spec [OF assms(1,4), of 0 n] assms(5) by simp
  have no: "\<not> (0 < n \<and> m_buffer od = m_buffer os \<and> pos < n)"
    using sole_disjoint [OF assms(1,2,4) _ _ assms(5) od(2) os(2)] assms(7) by auto
  show ?thesis
  proof (cases "n = 0")
    case True
    with od os r no assms show ?thesis by (auto simp: copy_data_def fun_eq_iff)
  next
    case False
    with assms(6) have "ws \<noteq> []" by auto
    from write_spec [OF assms(1-3) this, of pos "take n vs"] assms(5,6) False od os r no
    show ?thesis by (auto simp: copy_data_def min_absorb2)
  qed
qed

lemma append_spec:
  assumes "good st" "view st d = Some xs" "view st s = Some ys"
  shows "\<exists>st'. str_append d s st = Inr st' \<and> good st' \<and> view st' = (view st)(d \<mapsto> xs @ ys)"
proof -
  obtain od where od: "get_str d st = Inr od" "m_size od = length xs" by (rule view_get_str [OF assms(1,2)])
  obtain os where os: "get_str s st = Inr os" "m_size os = length ys" by (rule view_get_str [OF assms(1,3)])
  show ?thesis
proof (cases "ys = []")
  case True
  with od os assms show ?thesis by (auto simp: str_append_def fun_eq_iff)
next
  case False
  from resize_grow [OF assms(1,2), of "length xs + length ys"] False obtain st1 zs where
    st1: "str_resize d (length xs + length ys) st = Inr st1" "good st1" "sole d st1"
      "view st1 = (view st)(d \<mapsto> xs @ zs)" "length zs = length ys" by auto
  then have vd: "view st1 d = Some (xs @ zs)" by simp
  have "\<exists>st'. copy_data d (length xs) s (length ys) st1 = Inr st' \<and> good st' \<and>
      view st' = (view st)(d \<mapsto> xs @ ys)"
  proof (cases "d = s")
    case True
    with assms have "xs = ys" by simp
    with copy_data_spec [OF st1(2,3) vd, of s "xs @ zs" "length ys" "length xs"] st1(4,5) vd True
    show ?thesis by auto
  next
    case False
    with st1(4) assms(3) have "view st1 s = Some ys" by simp
    from copy_data_spec [OF st1(2,3) vd this, of "length ys" "length xs"] False st1(4,5)
    show ?thesis by auto
  qed
  with od os st1(1) False show ?thesis by (simp add: str_append_def)
qed
qed

lemma new_spec:
  assumes "good st" "blockless d st"
  shows "\<exists>st'. str_new d st = Inr st' \<and> good st' \<and> view st' = (view st)(d \<mapsto> [])"
  using put_empty [OF assms] by (simp add: str_new_def)

lemma from_bytes_spec:
  assumes "good st" "blockless d st"
  shows "\<exists>st'. str_from_bytes d cs st = Inr st' \<and> good st' \<and> view st' = (view st)(d \<mapsto> map Some cs)"
proof -
  from new_spec [OF assms] obtain st1 where
    st1: "str_new d st = Inr st1" "good st1" "view st1 = (view st)(d \<mapsto> [])" by blast
  then have v: "view st1 d = Some []" by simp
  show ?thesis
  proof (cases "cs = []")
    case True
    with resize_same [OF st1(2) v] st1 show ?thesis by (simp add: str_from_bytes_def)
  next
    case False
    with extend_spec [OF st1(2) v, of "map Some cs"] st1 show ?thesis
      by (auto simp: str_from_bytes_def)
  qed
qed

lemma concat_spec:
  assumes "good st" "view st s = Some xs" "view st t = Some ys" "strs st r = None"
    "xs @ ys \<noteq> []"
  shows "\<exists>st'. str_concat r s t st = Inr st' \<and> good st' \<and> view st' = (view st)(r \<mapsto> xs @ ys)"
proof -
  obtain o1 where o1: "get_str s st = Inr o1" "m_size o1 = length xs" "strs st s = Some o1"
    by (rule view_get_str [OF assms(1,2)])
  obtain o2 where o2: "get_str t st = Inr o2" "m_size o2 = length ys" "strs st t = Some o2"
    by (rule view_get_str [OF assms(1,3)])
  have ne: "s \<noteq> r" "t \<noteq> r" using o1(3) o2(3) assms(4) by auto
  from new_spec [OF assms(1), of r] assms(4) obtain st1 where
    st1: "str_new r st = Inr st1" "good st1" "view st1 = (view st)(r \<mapsto> [])"
    by (auto simp: blockless_def)
  then have v1: "view st1 r = Some []" by simp
  have "0 < length xs + length ys" using assms(5) by auto
  with resize_grow [OF st1(2) v1, of "length xs + length ys"] st1(3) obtain st2 zs where
    st2: "str_resize r (length xs + length ys) st1 = Inr st2" "good st2" "sole r st2"
      "view st2 = (view st)(r \<mapsto> zs)" "length zs = length xs + length ys" by auto
  then have v2: "view st2 r = Some zs" "view st2 s = Some xs" "zs \<noteq> []"
    using ne assms(2,5) by auto
  from st2(2) v2(1) obtain o3 where o3: "get_str r st2 = Inr o3" "m_buffer o3 \<noteq> None"
    by (cases rule: view_cases) (use v2(3) in auto)
  from copy_data_spec [OF st2(2,3) v2(1,2), of "length xs" 0] ne st2(4,5) obtain st3 where
    st3: "copy_data r 0 s (length xs) st2 = Inr st3" "good st3" "sole r st3"
      "view st3 = (view st)(r \<mapsto> xs @ drop (length xs) zs)" by auto
  then have v3: "view st3 r = Some (xs @ drop (length xs) zs)" "view st3 t = Some ys"
    using ne assms(3) by auto
  from copy_data_spec [OF st3(2,3) v3, of "length ys" "length xs"] ne st3(4) st2(5) obtain st4 where
    "copy_data r (length xs) t (length ys) st3 = Inr st4" "good st4" "view st4 = (view st)(r \<mapsto> xs @ ys)"
    by auto
  with o1 o2 o3 st1(1) st2(1) st3(1) show ?thesis by (auto simp: str_concat_def)
qed

lemma swap_ptrs:
  assumes "strs st d = Some od" "strs st s = Some os"
  shows "ptrs (put_str d os (put_str s od st)) b =
    (\<lambda>x. if x = d then s else if x = s then d else x) ` ptrs st b"
  using assms by (auto simp: ptrs_def image_iff split: if_splits)

lemma swap_heap_ok:
  assumes ok: "heap_ok st" and od: "strs st d = Some od" and os: "strs st s = Some os"
  shows "heap_ok (put_str d os (put_str s od st))"
proof -
  let ?st = "put_str d os (put_str s od st)"
  have card: "card (ptrs ?st b) = card (ptrs st b)" for b
    unfolding swap_ptrs [OF od os] by (rule card_image) (auto simp: inj_on_def)
  show ?thesis
  proof (rule heap_okI)
    fix b buf assume b: "bufs ?st b = Some buf"
    have "ptrs ?st b \<noteq> {} \<longleftrightarrow> ptrs st b \<noteq> {}" unfolding swap_ptrs [OF od os] by blast
    with b wf_buf [OF ok, of b buf] show "buf_ok ?st b buf" by (simp add: buf_ok_def card)
  next
    fix t o1 assume t: "strs ?st t = Some o1"
    then obtain t' where "strs st t' = Some o1" using od os by (auto split: if_splits)
    from wf_str [OF ok this] show "str_ok ?st o1" using str_ok_cong [of ?st st] by simp
  qed (use ok in \<open>simp add: heap_ok_def\<close>)
qed

lemma swap_spec:
  assumes "good st" "view st d = Some xs" "view st s = Some ys"
  shows "\<exists>st'. str_swap d s st = Inr st' \<and> good st' \<and> view st' = (view st)(s \<mapsto> xs, d \<mapsto> ys)"
proof -
  obtain od where od: "get_str d st = Inr od" "strs st d = Some od" by (rule view_get_str [OF assms(1,2)])
  obtain os where os: "get_str s st = Inr os" "strs st s = Some os" by (rule view_get_str [OF assms(1,3)])
  let ?st = "put_str d os (put_str s od st)"
  have "coh ?st"
    by (rule coh_transfer [OF goodD(2) [OF assms(1)]]) (use od os in \<open>auto split: if_splits\<close>)
  moreover have "view ?st = (view st)(s \<mapsto> xs, d \<mapsto> ys)"
    using assms(2,3) od(2) os(2) by (auto simp: view_def fun_eq_iff split: option.splits)
  ultimately show ?thesis
    using od os swap_heap_ok [OF goodD(1) [OF assms(1)]] by (simp add: str_swap_def good_def)
qed

lemma move_spec:
  assumes "good st" "strs st d = None" "view st s = Some xs"
  shows "\<exists>st'. str_move d s st = Inr st' \<and> good st' \<and> view st' = (view st)(s \<mapsto> [], d \<mapsto> xs)"
proof -
  have ne: "s \<noteq> d" using assms(2) view_live [OF assms(3)] by auto
  from new_spec [OF assms(1), of d] assms(2) obtain st1 where
    st1: "str_new d st = Inr st1" "good st1" "view st1 = (view st)(d \<mapsto> [])"
    by (auto simp: blockless_def)
  then have "view st1 d = Some []" "view st1 s = Some xs" using ne assms(3) by auto
  from swap_spec [OF st1(2) this] st1 ne show ?thesis by (auto simp: str_move_def)
qed

subsection \<open>Shrinking and overwriting: only for the sole owner\<close>

text \<open>
  \<open>remove\<close>, \<open>replace\<close>, \<open>fill\<close> and \<open>operator=(const char *)\<close> write without \<open>mutate\<close>. For an
  object that owns its block alone they do what they say.
\<close>

lemma remove_spec:
  assumes "good st" "sole s st" "view st s = Some xs" "pos + n \<le> length xs" "0 < n" "int (length xs) < 2 ^ 31"
  shows "\<exists>st'. str_remove s (int pos) (int n) st = Inr st' \<and> good st' \<and> sole s st' \<and>
    view st' = (view st)(s \<mapsto> take pos xs @ drop (pos + n) xs)"
proof -
  obtain o1 where o1: "get_str s st = Inr o1" "m_size o1 = length xs" by (rule view_get_str [OF assms(1,3)])
  have ne: "xs \<noteq> []" using assms(4,5) by auto
  let ?t = "drop (pos + n) xs"
  have nats: "nat (int pos + int n) = pos + n" "nat (int (length xs) - int n - int pos) = length ?t"
    "nat (int (length xs) - int n) = length xs - n" using assms(4) by auto
  have r: "read_data s (pos + n) (length ?t) st = Inr ?t"
    using read_spec [OF assms(1,3), of "pos + n" "length ?t"] assms(4) by simp
  from write_spec [OF assms(1-3) ne, of pos ?t] assms(4) obtain st1 where
    st1: "write_data s pos ?t st = Inr st1" "good st1" "sole s st1"
      "view st1 = (view st)(s \<mapsto> take pos xs @ ?t @ drop (pos + length ?t) xs)" by auto
  then have v1: "view st1 s = Some (take pos xs @ ?t @ drop (pos + length ?t) xs)" by simp
  have "take (length xs - n) (take pos xs @ ?t @ drop (pos + length ?t) xs) = take pos xs @ ?t"
    using assms(4) by simp
  with resize_shrink [OF st1(2,3) v1, of "length xs - n"] st1(4) assms(4) obtain st2 where
    "str_resize s (length xs - n) st1 = Inr st2" "good st2" "sole s st2"
    "view st2 = (view st)(s \<mapsto> take pos xs @ ?t)" by auto
  moreover have "str_remove s (int pos) (int n) st = str_resize s (length xs - n) st1"
    using assms(4-6) o1 r st1(1) nats by (simp add: str_remove_def Let_def signed_fits_def)
  ultimately show ?thesis by simp
qed

lemma removeLast_spec:
  assumes "good st" "sole s st" "view st s = Some xs" "xs \<noteq> []" "int (length xs) < 2 ^ 31"
  shows "\<exists>st'. str_removeLast s st = Inr st' \<and> good st' \<and> sole s st' \<and>
    view st' = (view st)(s \<mapsto> butlast xs)"
proof -
  obtain o1 where o1: "get_str s st = Inr o1" "m_size o1 = length xs" by (rule view_get_str [OF assms(1,3)])
  have len: "int (length xs) - 1 = int (length xs - 1)" using assms(4) by (cases xs) auto
  have rl: "str_removeLast s st = str_remove s (int (length xs - 1)) (int 1) st"
    by (simp only: str_removeLast_def o1 ebind_Inr len of_nat_1)
  have le: "length xs - 1 + 1 \<le> length xs" using assms(4) by (cases xs) auto
  then have eq: "take (length xs - 1) xs @ drop (length xs - 1 + 1) xs = butlast xs"
    by (simp add: butlast_conv_take)
  show ?thesis
    unfolding rl by (rule remove_spec [OF assms(1-3) le zero_less_one assms(5), unfolded eq])
qed

lemma assign_bytes_spec:
  assumes "good st" "sole s st" "view st s = Some xs"
  shows "\<exists>st'. str_assign_bytes s cs st = Inr st' \<and> good st' \<and> sole s st' \<and>
    view st' = (view st)(s \<mapsto> map Some cs)"
proof -
  have "\<exists>st1 zs. str_resize s (length cs) st = Inr st1 \<and> good st1 \<and> sole s st1 \<and>
      view st1 = (view st)(s \<mapsto> zs) \<and> length zs = length cs"
  proof (cases "length xs < length cs")
    case True
    with resize_grow [OF assms(1,3) True] show ?thesis by force
  next
    case False
    with resize_shrink [OF assms, of "length cs"] show ?thesis by force
  qed
  then obtain st1 zs where st1: "str_resize s (length cs) st = Inr st1" "good st1" "sole s st1"
    "view st1 = (view st)(s \<mapsto> zs)" "length zs = length cs" by blast
  then have v1: "view st1 s = Some zs" by simp
  show ?thesis
  proof (cases "cs = []")
    case True
    with st1 show ?thesis by (auto simp: str_assign_bytes_def)
  next
    case False
    with st1(5) have "zs \<noteq> []" by auto
    from write_spec [OF st1(2,3) v1 this, of 0 "map Some cs"] st1 False show ?thesis
      by (auto simp: str_assign_bytes_def)
  qed
qed

section \<open>The contract of a mutating operation\<close>

text \<open>
  What the rest of the runtime relies on when it calls a mutating member function on a string it
  owns: the call returns, keeps the heap consistent, changes this value and no other.
\<close>

locale value_mutator =
  fixes mop :: "store \<Rightarrow> store res" and s :: sid
    and f :: "char option list \<Rightarrow> char option list"
  assumes law: "good st \<Longrightarrow> view st s = Some xs \<Longrightarrow>
    \<exists>st'. mop st = Inr st' \<and> good st' \<and> view st' = (view st)(s \<mapsto> f xs)"
begin

lemma keeps_others:
  assumes "good st" "view st s = Some xs" "mop st = Inr st'" "t \<noteq> s"
  shows "view st' t = view st t"
  using law [OF assms(1,2)] assms(3,4) by auto

lemma after_copy:
  assumes "good st" "view st s = Some xs" "strs st d = None"
  shows "\<exists>st1 st2. str_copy d s st = Inr st1 \<and> mop st1 = Inr st2 \<and> good st2 \<and>
    view st2 d = Some xs \<and> view st2 s = Some (f xs)"
proof -
  have ne: "s \<noteq> d" using assms(3) view_live [OF assms(2)] by auto
  from copy_spec [OF assms(1,2), of d] assms(3) obtain st1 where
    st1: "str_copy d s st = Inr st1" "good st1" "view st1 = (view st)(d \<mapsto> xs)"
    by (auto simp: blockless_def)
  then have "view st1 s = Some xs" using ne assms(2) by simp
  from law [OF st1(2) this] st1 ne show ?thesis by auto
qed

lemma repeated:
  assumes "good st" "view st s = Some xs"
  shows "\<exists>st'. foldr (\<lambda>_ m. ebind m mop) (replicate n ()) (Inr st) = Inr st' \<and> good st' \<and>
    view st' = (view st)(s \<mapsto> (f ^^ n) xs)"
proof (induction n)
  case 0
  with assms show ?case by (auto simp: fun_eq_iff)
next
  case (Suc n)
  then obtain st1 where "foldr (\<lambda>_ m. ebind m mop) (replicate n ()) (Inr st) = Inr st1" "good st1"
    "view st1 = (view st)(s \<mapsto> (f ^^ n) xs)" by blast
  with law [of st1 "(f ^^ n) xs"] show ?case by auto
qed

end

locale idempotent_mutator = value_mutator +
  assumes idem: "f (f xs) = f xs"
begin

lemma twice:
  assumes "good st" "view st s = Some xs"
  shows "\<exists>st1 st2. mop st = Inr st1 \<and> mop st1 = Inr st2 \<and> good st2 \<and> view st2 = view st1"
proof -
  from law [OF assms] obtain st1 where st1: "mop st = Inr st1" "good st1"
    "view st1 = (view st)(s \<mapsto> f xs)" by blast
  with law [of st1 "f xs"] show ?thesis by (auto simp: idem fun_eq_iff)
qed

end

interpretation append_char: value_mutator "str_append_char s c" s "\<lambda>xs. xs @ [Some c]" for s c
  using append_char_implements by unfold_locales (auto simp: implements_def)

interpretation append_bytes: value_mutator "str_append_bytes s cs" s "\<lambda>xs. xs @ map Some cs" for s cs
  using append_bytes_implements by unfold_locales (auto simp: implements_def)

interpretation plus_char: value_mutator "str_plus_char s c" s "\<lambda>xs. xs @ [Some c]" for s c
  using plus_char_implements by unfold_locales (auto simp: implements_def)

interpretation prepend: value_mutator "str_prepend s c" s "\<lambda>xs. Some c # xs" for s c
  using prepend_implements by unfold_locales (auto simp: implements_def)

lemma map_option_idem: "(\<And>c. h (h c) = h c) \<Longrightarrow> map_option h (map_option h x) = map_option h x"
  by (cases x) auto

interpretation lower: idempotent_mutator "str_toLower s" s "map (map_option to_lower)" for s
  using toLower_implements by unfold_locales (auto simp: implements_def map_option_idem)

interpretation upper: idempotent_mutator "str_toUpper s" s "map (map_option to_upper)" for s
  using toUpper_implements by unfold_locales (auto simp: implements_def map_option_idem)

section \<open>Programs over strings refine programs over values\<close>

text \<open>
  A program is a list of commands. The abstract machine keeps a map from object to value and
  knows nothing of sharing; it refuses (\<open>None\<close>) a command on an object that is not live, a
  construction over a live one and the one documented throw (\<open>operator+\<close> of two empty strings).
\<close>

datatype cmd = New sid | FromBytes sid bytes | Copy sid sid | Move sid sid | Assign sid sid
  | Swap sid sid | Destroy sid | Clear sid | AppendChar sid char | AppendBytes sid bytes
  | Append sid sid | PlusChar sid char | Prepend sid char | ToLower sid | ToUpper sid
  | Concat sid sid sid

fun exec :: "cmd \<Rightarrow> store \<Rightarrow> store res" where
  "exec (New d) = str_new d"
| "exec (FromBytes d cs) = str_from_bytes d cs"
| "exec (Copy d s) = str_copy d s"
| "exec (Move d s) = str_move d s"
| "exec (Assign d s) = str_assign d s"
| "exec (Swap d s) = str_swap d s"
| "exec (Destroy s) = str_destroy s"
| "exec (Clear s) = str_clear s"
| "exec (AppendChar s c) = str_append_char s c"
| "exec (AppendBytes s cs) = str_append_bytes s cs"
| "exec (Append d s) = str_append d s"
| "exec (PlusChar s c) = str_plus_char s c"
| "exec (Prepend s c) = str_prepend s c"
| "exec (ToLower s) = str_toLower s"
| "exec (ToUpper s) = str_toUpper s"
| "exec (Concat r s t) = str_concat r s t"

type_synonym vals = "sid \<Rightarrow> char option list option"

definition live1 :: "vals \<Rightarrow> sid \<Rightarrow> (char option list \<Rightarrow> vals) \<Rightarrow> vals option" where
  "live1 v s k = (case v s of None \<Rightarrow> None | Some xs \<Rightarrow> Some (k xs))"

definition fresh1 :: "vals \<Rightarrow> sid \<Rightarrow> vals option \<Rightarrow> vals option" where
  "fresh1 v d r = (if v d = None then r else None)"

fun aexec :: "cmd \<Rightarrow> vals \<Rightarrow> vals option" where
  "aexec (New d) v = fresh1 v d (Some (v(d \<mapsto> [])))"
| "aexec (FromBytes d cs) v = fresh1 v d (Some (v(d \<mapsto> map Some cs)))"
| "aexec (Copy d s) v = fresh1 v d (live1 v s (\<lambda>xs. v(d \<mapsto> xs)))"
| "aexec (Move d s) v = fresh1 v d (live1 v s (\<lambda>xs. v(s \<mapsto> [], d \<mapsto> xs)))"
| "aexec (Assign d s) v = (if v d = None then None else live1 v s (\<lambda>xs. v(d \<mapsto> xs)))"
| "aexec (Swap d s) v = (case v d of None \<Rightarrow> None
     | Some xs \<Rightarrow> live1 v s (\<lambda>ys. v(s \<mapsto> xs, d \<mapsto> ys)))"
| "aexec (Destroy s) v = live1 v s (\<lambda>xs. v(s := None))"
| "aexec (Clear s) v = live1 v s (\<lambda>xs. v(s \<mapsto> []))"
| "aexec (AppendChar s c) v = live1 v s (\<lambda>xs. v(s \<mapsto> xs @ [Some c]))"
| "aexec (AppendBytes s cs) v = live1 v s (\<lambda>xs. v(s \<mapsto> xs @ map Some cs))"
| "aexec (Append d s) v = (case v s of None \<Rightarrow> None | Some ys \<Rightarrow> live1 v d (\<lambda>xs. v(d \<mapsto> xs @ ys)))"
| "aexec (PlusChar s c) v = live1 v s (\<lambda>xs. v(s \<mapsto> xs @ [Some c]))"
| "aexec (Prepend s c) v = live1 v s (\<lambda>xs. v(s \<mapsto> Some c # xs))"
| "aexec (ToLower s) v = live1 v s (\<lambda>xs. v(s \<mapsto> map (map_option to_lower) xs))"
| "aexec (ToUpper s) v = live1 v s (\<lambda>xs. v(s \<mapsto> map (map_option to_upper) xs))"
| "aexec (Concat r s t) v = fresh1 v r (case (v s, v t) of
     (Some xs, Some ys) \<Rightarrow> if xs @ ys = [] then None else Some (v(r \<mapsto> xs @ ys)) | _ \<Rightarrow> None)"

fun run :: "cmd list \<Rightarrow> store \<Rightarrow> store res" where
  "run [] st = Inr st"
| "run (c # cs) st = ebind (exec c st) (run cs)"

fun arun :: "cmd list \<Rightarrow> vals \<Rightarrow> vals option" where
  "arun [] v = Some v"
| "arun (c # cs) v = Option.bind (aexec c v) (arun cs)"

lemma live1_Some: "live1 v s k = Some v' \<longleftrightarrow> (\<exists>xs. v s = Some xs \<and> v' = k xs)"
  by (auto simp: live1_def split: option.splits)

lemma fresh1_Some: "fresh1 v d r = Some v' \<longleftrightarrow> v d = None \<and> r = Some v'"
  by (auto simp: fresh1_def)

lemma view_None:
  assumes "good st" "view st d = None" shows "strs st d = None"
  using wf_view [OF goodD(1) [OF assms(1)], of d] assms(2) by (cases "strs st d") auto

lemma view_None_blockless: "good st \<Longrightarrow> view st d = None \<Longrightarrow> blockless d st"
  by (drule (1) view_None) (simp add: blockless_def)

lemma implementsD:
  "implements op s f \<Longrightarrow> good st \<Longrightarrow> view st s = Some xs \<Longrightarrow>
   \<exists>st'. op st = Inr st' \<and> good st' \<and> view st' = (view st)(s \<mapsto> f xs)"
  by (auto simp: implements_def)

lemmas mutator_implements = append_char_implements append_bytes_implements plus_char_implements
  prepend_implements toLower_implements toUpper_implements

lemma exec_refines:
  assumes "good st" "aexec c (view st) = Some v"
  shows "\<exists>st'. exec c st = Inr st' \<and> good st' \<and> view st' = v"
proof (cases c)
  case (Clear s)
  with assms obtain xs where "view st s = Some xs" "v = (view st)(s \<mapsto> [])"
    by (auto simp: live1_Some)
  with clear_spec [OF assms(1)] Clear show ?thesis by auto
next
  case (Assign d s)
  with assms obtain xs ys where "view st s = Some xs" "view st d = Some ys" "v = (view st)(d \<mapsto> xs)"
    by (auto simp: live1_Some split: if_splits)
  with assign_spec [OF assms(1)] Assign show ?thesis by simp
next
  case (Swap d s)
  with assms obtain xs ys where "view st d = Some xs" "view st s = Some ys"
    "v = (view st)(s \<mapsto> xs, d \<mapsto> ys)" by (auto simp: live1_Some split: option.splits)
  with swap_spec [OF assms(1)] Swap show ?thesis by simp
next
  case (Append d s)
  with assms obtain xs ys where "view st d = Some xs" "view st s = Some ys"
    "v = (view st)(d \<mapsto> xs @ ys)" by (auto simp: live1_Some split: option.splits)
  with append_spec [OF assms(1)] Append show ?thesis by simp
next
  case (Concat r s t)
  with assms obtain xs ys where "view st s = Some xs" "view st t = Some ys" "view st r = None"
    "xs @ ys \<noteq> []" "v = (view st)(r \<mapsto> xs @ ys)"
    by (auto simp: fresh1_Some split: option.splits if_splits)
  with concat_spec [OF assms(1) this(1,2) view_None [OF assms(1) this(3)] this(4)] Concat
  show ?thesis by simp
next
  case (Move d s)
  with assms obtain xs where "view st d = None" "view st s = Some xs"
    "v = (view st)(s \<mapsto> [], d \<mapsto> xs)" by (auto simp: live1_Some fresh1_Some)
  with move_spec [OF assms(1) view_None [OF assms(1) this(1)] this(2)] Move show ?thesis by simp
qed (use assms in \<open>auto simp: live1_Some fresh1_Some
    intro: new_spec from_bytes_spec copy_spec destroy_spec view_None_blockless
      mutator_implements [THEN implementsD]\<close>)

lemma run_refines:
  assumes "good st" "arun cs (view st) = Some v"
  shows "\<exists>st'. run cs st = Inr st' \<and> good st' \<and> view st' = v"
  using assms
proof (induction cs arbitrary: st)
  case (Cons c cs)
  from Cons.prems(2) obtain v1 where v1: "aexec c (view st) = Some v1" "arun cs v1 = Some v"
    by (auto simp: bind_eq_Some_conv)
  from exec_refines [OF Cons.prems(1) v1(1)] obtain st1 where
    "exec c st = Inr st1" "good st1" "view st1 = v1" by blast
  with Cons.IH [of st1] v1(2) show ?case by simp
qed simp

end
