(* ===== verification/CowSafety.thy ===== *)
theory CowSafety imports CowValues begin

section \<open>Memory safety of the string heap\<close>

text \<open>
  \<open>heap_ok\<close> - exact reference counts, no dangling pointer, no unowned block, every length inside
  its block - survives every operation of \<open>src/string.cpp\<close> that returns, the ones that write to
  a shared block included. \<open>string_step\<close> is the program making any of these calls in any order.
  The second half states what the writes to a shared block do to the other owners.
\<close>

definition safe :: "(store \<Rightarrow> store res) \<Rightarrow> bool" where
  "safe op \<longleftrightarrow> (\<forall>st st'. heap_ok st \<longrightarrow> op st = Inr st' \<longrightarrow> heap_ok st')"

lemma safeI: "(\<And>st st'. heap_ok st \<Longrightarrow> op st = Inr st' \<Longrightarrow> heap_ok st') \<Longrightarrow> safe op"
  by (simp add: safe_def)

lemma safeD: "safe op \<Longrightarrow> heap_ok st \<Longrightarrow> op st = Inr st' \<Longrightarrow> heap_ok st'"
  by (simp add: safe_def)

named_theorems safes \<open>operations that keep the heap consistent\<close>

lemma safe_id [safes]: "safe Inr"
  by (simp add: safe_def)

lemma safe_fail [safes]: "safe (\<lambda>st. Inl e)"
  by (simp add: safe_def)

lemma safe_bind: "safe f \<Longrightarrow> safe g \<Longrightarrow> safe (\<lambda>st. ebind (f st) g)"
  by (rule safeI) (auto simp: ebind_eq_Inr dest: safeD)

lemma safe_read: "(\<And>x. safe (g x)) \<Longrightarrow> safe (\<lambda>st. ebind (r st) (\<lambda>x. g x st))"
  by (rule safeI) (auto simp: ebind_eq_Inr dest: safeD)

lemma safe_if: "safe f \<Longrightarrow> safe g \<Longrightarrow> safe (\<lambda>st. if p st then f st else g st)"
  by (rule safeI) (auto dest: safeD split: if_splits)

lemma get_str_eq_Inr [simp]: "get_str s st = Inr o1 \<longleftrightarrow> strs st s = Some o1"
  by (auto simp: get_str_def split: option.splits)

lemma get_buf_eq_Inr [simp]: "get_buf b st = Inr buf \<longleftrightarrow> bufs st b = Some buf"
  by (auto simp: get_buf_def split: option.splits)

lemma blit_eq_Inr:
  "blit pos cs buf = Inr buf' \<longleftrightarrow> pos + length cs \<le> length (sb_data buf) \<and>
     buf' = buf\<lparr>sb_data := take pos (sb_data buf) @ cs @ drop (pos + length cs) (sb_data buf)\<rparr>"
  by (auto simp: blit_def)

lemma write_data_Inr:
  assumes "write_data s pos cs st = Inr st'"
  obtains o1 b buf buf' where "strs st s = Some o1" "m_buffer o1 = Some b" "bufs st b = Some buf"
    "pos + length cs \<le> length (sb_data buf)" "sb_ref buf' = sb_ref buf" "sb_size buf' = sb_size buf"
    "length (sb_data buf') = length (sb_data buf)" "st' = put_buf b buf' st"
proof -
  from assms obtain o1 b buf where o1: "strs st s = Some o1" "m_buffer o1 = Some b" "bufs st b = Some buf"
    "pos + length cs \<le> length (sb_data buf)" and
    st': "st' = put_buf b (buf\<lparr>sb_data := take pos (sb_data buf) @ cs @ drop (pos + length cs) (sb_data buf)\<rparr>) st"
    by (auto simp: write_data_def ebind_eq_Inr blit_eq_Inr split: option.splits)
  show thesis by (rule that [OF o1 _ _ _ st']) (use o1(4) in auto)
qed

lemma put_buf_heap_ok:
  assumes ok: "heap_ok st" and b: "bufs st b = Some buf" and
    new: "sb_ref buf' = sb_ref buf" "length (sb_data buf') = sb_size buf'" "sb_size buf \<le> sb_size buf'"
  shows "heap_ok (put_buf b buf' st)"
proof (rule heap_okI)
  fix x y assume "bufs (put_buf b buf' st) x = Some y"
  then show "buf_ok (put_buf b buf' st) x y"
    using wf_buf [OF ok, of x y] wf_buf [OF ok b] new
    by (auto simp: buf_ok_def split: if_splits)
next
  fix s o1 assume "strs (put_buf b buf' st) s = Some o1"
  then have "strs st s = Some o1" by simp
  from wf_str [OF ok this] show "str_ok (put_buf b buf' st) o1"
    using b new(3) by (auto simp: str_ok_def split: option.splits)
qed (use ok in \<open>simp add: heap_ok_def\<close>)

lemma write_data_safe [safes]: "safe (write_data s pos cs)"
proof (rule safeI)
  fix st st' assume ok: "heap_ok st" and w: "write_data s pos cs st = Inr st'"
  from w show "heap_ok st'"
  proof (rule write_data_Inr)
    fix o1 b buf buf'
    assume b: "bufs st b = Some buf" "sb_ref buf' = sb_ref buf" "sb_size buf' = sb_size buf"
      "length (sb_data buf') = length (sb_data buf)" "st' = put_buf b buf' st"
    with wf_buf [OF ok b(1)] show ?thesis
      using put_buf_heap_ok [OF ok b(1,2)] by (simp add: buf_ok_def)
  qed
qed

lemma set_write_heap_ok:
  assumes ok: "heap_ok st" and n: "0 < n"
    and r: "ebind (set_size s n st) (write_data s n [Some nul]) = Inr st'"
  shows "heap_ok st'"
proof -
  from r obtain o1 where o1: "strs st s = Some o1"
    "write_data s n [Some nul] (put_str s (o1\<lparr>m_size := n\<rparr>) st) = Inr st'"
    by (auto simp: set_size_def ebind_eq_Inr)
  let ?mid = "put_str s (o1\<lparr>m_size := n\<rparr>) st"
  from o1(2) have "heap_ok ?mid"
  proof (rule write_data_Inr)
    fix o2 b buf
    assume a: "strs ?mid s = Some o2" "m_buffer o2 = Some b" "bufs ?mid b = Some buf"
      "n + length [Some nul] \<le> length (sb_data buf)"
    then have b: "m_buffer o1 = Some b" "bufs st b = Some buf" by auto
    have p: "ptrs ?mid = ptrs st" using o1(1) by (intro ptrs_same_buffer) simp_all
    show "heap_ok ?mid"
    proof (rule heap_okI)
      fix x y assume "bufs ?mid x = Some y"
      with wf_buf [OF ok, of x y] show "buf_ok ?mid x y" by (simp add: buf_ok_def p)
    next
      fix t o3 assume t: "strs ?mid t = Some o3"
      show "str_ok ?mid o3"
      proof (cases "t = s")
        case True
        with t a(4) b n wf_buf [OF ok b(2)] show ?thesis by (auto simp: str_ok_def buf_ok_def)
      next
        case False
        with t wf_str [OF ok, of t o3] show ?thesis using str_ok_cong [of ?mid st] by simp
      qed
    qed (use ok in \<open>simp add: heap_ok_def\<close>)
  qed
  from safeD [OF write_data_safe this o1(2)] show ?thesis .
qed

lemma set_write_safe: "0 < n \<Longrightarrow> safe (\<lambda>st. ebind (set_size s n st) (write_data s n [Some nul]))"
  by (rule safeI) (rule set_write_heap_ok)

lemma clear_safe [safes]: "safe (str_clear s)"
proof (rule safeI)
  fix st st' assume ok: "heap_ok st" and c: "str_clear s st = Inr st'"
  from c obtain o1 where o1: "strs st s = Some o1" by (auto simp: str_clear_def ebind_eq_Inr)
  show "heap_ok st'"
  proof (cases "m_buffer o1")
    case None
    with c o1 ok show ?thesis by (simp add: str_clear_def)
  next
    case (Some b)
    from wf_ptr [OF ok o1 Some] obtain buf where "bufs st b = Some buf" by blast
    with c str_clear_eq [OF o1 Some] dropped_heap_ok [OF ok o1 Some] show ?thesis by simp
  qed
qed

lemma clear_blockless: "heap_ok st \<Longrightarrow> str_clear s st = Inr st' \<Longrightarrow> blockless s st'"
  by (cases "strs st s") (auto simp: str_clear_def ebind_eq_Inr blockless_def get_str_def split: option.splits)

lemma new_block_heap_ok:
  assumes ok: "heap_ok st" and s: "strs st s = Some o1" "m_buffer o1 = Some b" "bufs st b = Some buf"
    and new: "blit 0 (old @ [Some nul]) (malloc_buf n) = Inr new"
    and old: "peek 0 (m_size o1) buf = Inr old"
  shows "heap_ok (attached s (m_size o1) new (dropped s b buf st))"
proof (rule attached_heap_ok [OF dropped_heap_ok [OF ok s]])
  show "blockless s (dropped s b buf st)" by (simp add: blockless_def dropped_strs)
  show "0 < m_size o1" using wf_ptr [OF ok s(1,2)] by blast
  have l: "length old = m_size o1" using old by (auto simp: peek_def split: if_splits)
  with new show "m_size o1 < sb_size new" "sb_ref new = 1" "length (sb_data new) = sb_size new"
    by (auto simp: blit_eq_Inr)
qed

lemma mutate_safe [safes]: "safe (str_mutate s)"
proof (rule safeI)
  fix st st' assume ok: "heap_ok st" and m: "str_mutate s st = Inr st'"
  from m obtain o1 where o1: "strs st s = Some o1" by (auto simp: str_mutate_def ebind_eq_Inr)
  show "heap_ok st'"
  proof (cases "m_buffer o1")
    case None
    with m o1 ok show ?thesis by (simp add: str_mutate_def)
  next
    case (Some b)
    from wf_ptr [OF ok o1 Some] obtain buf where b: "bufs st b = Some buf" by blast
    show ?thesis
    proof (cases "1 < sb_ref buf")
      case False
      with m o1 Some b ok show ?thesis by (simp add: str_mutate_def)
    next
      case True
      with m o1 Some b obtain old new where
        on: "peek 0 (m_size o1) buf = Inr old" "blit 0 (old @ [Some nul]) (malloc_buf (m_size o1)) = Inr new"
        and st': "st' = put_str s (o1\<lparr>m_buffer := Some (brk st)\<rparr>) (put_buf (brk st) new
                     (put_buf b (buf\<lparr>sb_ref := sb_ref buf - 1\<rparr>) st)\<lparr>brk := brk st + 1\<rparr>)"
        by (auto simp: str_mutate_def ebind_eq_Inr)
      have "o1\<lparr>m_buffer := Some (brk st)\<rparr> = \<lparr>m_buffer = Some (brk st), m_size = m_size o1\<rparr>" by simp
      with st' True have "st' = attached s (m_size o1) new (dropped s b buf st)"
        by (simp add: attached_def dropped_def put_str_def put_buf_def)
      with new_block_heap_ok [OF ok o1 Some b on(2,1)] show ?thesis by simp
    qed
  qed
qed

lemma move_buffer_safe [safes]: "safe (move_buffer s n)"
proof (rule safeI)
  fix st st' assume ok: "heap_ok st" and m: "move_buffer s n st = Inr st'"
  from m obtain o1 b where o1: "strs st s = Some o1" "m_buffer o1 = Some b"
    by (auto simp: move_buffer_def ebind_eq_Inr split: option.splits)
  from wf_ptr [OF ok o1] obtain buf where b: "bufs st b = Some buf" by blast
  show "heap_ok st'"
  proof (cases "sb_size buf - 1 < n")
    case False
    with m o1 b ok show ?thesis by (simp add: move_buffer_def)
  next
    case True
    with m o1 b obtain old new st1 where
      on: "peek 0 (m_size o1) buf = Inr old" "blit 0 (old @ [Some nul]) (malloc_buf n) = Inr new"
      and r: "release_buf b st = Inr st1"
      and st': "st' = put_str s (o1\<lparr>m_buffer := Some (brk st1)\<rparr>)
                   (put_buf (brk st1) new st1\<lparr>brk := brk st1 + 1\<rparr>)"
      by (auto simp: move_buffer_def ebind_eq_Inr)
    have d: "put_str s empty_cfstr st1 = dropped s b buf st"
      using r b by (auto simp: release_buf_def dropped_def)
    have "o1\<lparr>m_buffer := Some (brk st1)\<rparr> = \<lparr>m_buffer = Some (brk st1), m_size = m_size o1\<rparr>" by simp
    with st' have "st' = attached s (m_size o1) new (put_str s empty_cfstr st1)"
      by (simp add: attached_def put_str_def put_buf_def)
    with new_block_heap_ok [OF ok o1 b on(2,1)] show ?thesis by (simp add: d)
  qed
qed

lemma fresh_buffer_heap_ok:
  assumes "heap_ok st" "blockless s st" "0 < n" "fresh_buffer s n st = Inr st'"
  shows "heap_ok st'"
proof -
  from assms(4) obtain new where new: "blit n [Some nul] (malloc_buf n) = Inr new"
    and "st' = attached s n new st"
    by (auto simp: fresh_buffer_def ebind_eq_Inr attached_def)
  with attached_heap_ok [OF assms(1-3), of new] show ?thesis by (auto simp: blit_eq_Inr)
qed

lemma grow_buffer_safe [safes]: "safe (grow_buffer s n)"
proof (rule safeI)
  fix st st' assume ok: "heap_ok st" and g: "grow_buffer s n st = Inr st'"
  from g obtain o1 b buf where b: "strs st s = Some o1" "m_buffer o1 = Some b" "bufs st b = Some buf"
    and st': "st' = (if sb_size buf - 1 < n then put_buf b (realloc_buf n buf) st else st)"
    by (auto simp: grow_buffer_def ebind_eq_Inr split: option.splits if_splits)
  have "sb_size buf \<le> aligned_size n" if "sb_size buf - 1 < n"
    using that aligned_size_gt [of n] by linarith
  with put_buf_heap_ok [OF ok b(3), of "realloc_buf n buf"] st' ok show "heap_ok st'"
    by (auto simp: realloc_buf_def min_def)
qed

lemma blocklessI: "strs st s = Some o1 \<Longrightarrow> m_buffer o1 = None \<Longrightarrow> blockless s st"
  by (simp add: blockless_def)

lemma resize_safe [safes]: "safe (str_resize s n)"
proof (rule safeI)
  fix st st' assume ok: "heap_ok st" and r: "str_resize s n st = Inr st'"
  from r obtain o1 where o1: "strs st s = Some o1" by (auto simp: str_resize_def ebind_eq_Inr)
  consider "n = m_size o1" | "n \<noteq> m_size o1" "n = 0" | "n \<noteq> m_size o1" "0 < n" "m_buffer o1 = None"
    | "n \<noteq> m_size o1" "0 < n" "m_buffer o1 \<noteq> None" by (metis neq0_conv)
  then show "heap_ok st'"
  proof cases
    case 1
    with r o1 ok show ?thesis by (simp add: str_resize_def)
  next
    case 2
    with r o1 have "str_clear s st = Inr st'" by (simp add: str_resize_def)
    with safeD [OF clear_safe ok] show ?thesis by blast
  next
    case 3
    with r o1 have "fresh_buffer s n st = Inr st'" by (simp add: str_resize_def)
    with fresh_buffer_heap_ok [OF ok blocklessI [OF o1 3(3)] 3(2)] show ?thesis by blast
  next
    case 4
    let ?grow = "\<lambda>st. if m_size o1 < n then ebind (str_mutate s st) (grow_buffer s n) else Inr st"
    have g: "safe ?grow" by (intro safe_if safe_bind mutate_safe grow_buffer_safe safe_id)
    from 4 r o1 have "ebind (?grow st) (\<lambda>st1. ebind (set_size s n st1) (write_data s n [Some nul])) = Inr st'"
      by (auto simp: str_resize_def)
    with safeD [OF safe_bind [OF g set_write_safe [OF 4(2)]] ok] show ?thesis by blast
  qed
qed

lemma reserve_safe [safes]: "safe (str_reserve s n)"
proof (rule safeI)
  fix st st' assume ok: "heap_ok st" and r: "str_reserve s n st = Inr st'"
  from r obtain o1 where o1: "strs st s = Some o1" by (auto simp: str_reserve_def ebind_eq_Inr)
  show "heap_ok st'"
  proof (cases "m_buffer o1")
    case None
    from wf_null [OF ok o1 None] None r o1 have "st' = st \<or> 0 < n \<and> fresh_buffer s n st = Inr st'"
      by (auto simp: str_reserve_def split: if_splits)
    with ok fresh_buffer_heap_ok [OF ok blocklessI [OF o1 None]] show ?thesis by blast
  next
    case (Some b)
    from wf_ptr [OF ok o1 Some] obtain buf where b: "bufs st b = Some buf" by blast
    let ?move = "\<lambda>st. ebind (str_mutate s st) (\<lambda>st1. ebind (move_buffer s n st1)
        (\<lambda>st2. ebind (set_size s n st2) (write_data s n [Some nul])))"
    from r o1 Some b have "st' = st \<or> 0 < n \<and> ?move st = Inr st'"
      by (auto simp: str_reserve_def split: if_splits)
    moreover have "safe ?move" if "0 < n"
      by (intro safe_bind mutate_safe move_buffer_safe set_write_safe that)
    ultimately show ?thesis using ok safeD [of ?move, OF _ ok] by blast
  qed
qed

lemma truncate_safe [safes]: "safe (str_truncate s n)"
  unfolding str_truncate_def by (intro safe_if safe_bind safes)

lemma share_heap_ok:
  assumes ok: "heap_ok st" and bl: "blockless d st" and r: "share_buffer d s st = Inr st'"
  shows "heap_ok st'"
proof -
  from r obtain o1 where o1: "strs st s = Some o1" by (auto simp: share_buffer_def ebind_eq_Inr)
  show ?thesis
  proof (cases "m_buffer o1")
    case None
    with r o1 wf_null [OF ok o1 None] have "st' = put_str d empty_cfstr st"
      by (simp add: share_buffer_def empty_cfstr_def)
    with put_empty_heap_ok [OF ok bl] show ?thesis by simp
  next
    case (Some b)
    from wf_ptr [OF ok o1 Some] obtain buf where
      b: "bufs st b = Some buf" "0 < m_size o1" "m_size o1 < sb_size buf" by metis
    with r o1 Some have "st' = shared d b buf (m_size o1) st" by (simp add: share_buffer_def shared_def)
    with shared_heap_ok [OF ok bl b] show ?thesis by simp
  qed
qed

lemma assign_safe [safes]: "safe (str_assign d s)"
proof (rule safeI)
  fix st st' assume ok: "heap_ok st" and r: "str_assign d s st = Inr st'"
  show "heap_ok st'"
  proof (cases "s = d")
    case False
    with r obtain st1 where "str_clear d st = Inr st1" "share_buffer d s st1 = Inr st'"
      by (auto simp: str_assign_def ebind_eq_Inr)
    with ok show ?thesis using share_heap_ok clear_blockless safeD [OF clear_safe] by metis
  qed (use r ok in \<open>simp add: str_assign_def\<close>)
qed

lemma swap_safe [safes]: "safe (str_swap d s)"
  by (rule safeI) (auto simp: str_swap_def ebind_eq_Inr swap_heap_ok)

lemma destroy_safe [safes]: "safe (str_destroy s)"
proof (rule safeI)
  fix st st' assume ok: "heap_ok st" and r: "str_destroy s st = Inr st'"
  then obtain st1 where st1: "str_clear s st = Inr st1" "st' = st1\<lparr>strs := (strs st1)(s := None)\<rparr>"
    by (auto simp: str_destroy_def ebind_eq_Inr)
  with drop_null_heap_ok [OF safeD [OF clear_safe ok] clear_blockless [OF ok]] show "heap_ok st'"
    by simp
qed

text \<open>The constructors are safe where no object lives yet.\<close>

lemma new_heap_ok: "heap_ok st \<Longrightarrow> strs st d = None \<Longrightarrow> str_new d st = Inr st' \<Longrightarrow> heap_ok st'"
  using put_empty_heap_ok [of st d] by (auto simp: str_new_def blockless_def)

lemma after_new_heap_ok:
  assumes "heap_ok st" "strs st d = None" "safe op" "ebind (str_new d st) op = Inr st'"
  shows "heap_ok st'"
  using assms new_heap_ok safeD unfolding ebind_eq_Inr by metis

lemma copy_heap_ok:
  assumes "heap_ok st" "strs st d = None" "str_copy d s st = Inr st'"
  shows "heap_ok st'"
proof -
  have "str_new d st = Inr st' \<or> share_buffer d s st = Inr st'"
    using assms(3) by (auto simp: str_copy_def ebind_eq_Inr split: if_splits)
  moreover have "blockless d st" using assms(2) by (simp add: blockless_def)
  ultimately show ?thesis
    using new_heap_ok [OF assms(1,2)] share_heap_ok [OF assms(1)] by blast
qed

lemma copy_data_safe [safes]: "safe (copy_data d pos s n)"
proof (rule safeI)
  fix st st' assume ok: "heap_ok st" and r: "copy_data d pos s n st = Inr st'"
  then have "st' = st \<or> (\<exists>cs. write_data d pos cs st = Inr st')"
    by (auto simp: copy_data_def ebind_eq_Inr split: if_splits)
  with ok safeD [OF write_data_safe ok] show "heap_ok st'" by blast
qed

lemma append_char_safe [safes]: "safe (str_append_char s c)"
  unfolding str_append_char_def by (intro safe_read safe_bind safes)

lemma append_bytes_safe [safes]: "safe (str_append_bytes s cs)"
  unfolding str_append_bytes_def by (intro safe_if safe_read safe_bind safes)

lemma append_safe [safes]: "safe (str_append d s)"
  unfolding str_append_def Let_def by (intro safe_read safe_if safe_bind safes)

lemma plus_char_safe [safes]: "safe (str_plus_char s c)"
  unfolding str_plus_char_def by (intro safe_read safe_if safe_bind safes)

lemma plus_bytes_safe [safes]: "safe (str_plus_bytes s cs)"
  unfolding str_plus_bytes_def by (intro safe_read safe_bind safe_if safes)

lemma prepend_safe [safes]: "safe (str_prepend s c)"
  unfolding str_prepend_def by (intro safe_read safe_bind safe_if safes)

lemma remove_safe [safes]: "safe (str_remove s pos n)"
  unfolding str_remove_def Let_def by (intro safe_read safe_bind safe_if safes)

lemma removeLast_safe [safes]: "safe (str_removeLast s)"
  unfolding str_removeLast_def by (intro safe_read safes)

lemma replace_safe [safes]: "safe (str_replace s pos n c)"
  unfolding str_replace_def by (intro safe_read safe_bind safe_if safes)

lemma fill_safe [safes]: "safe (str_fill s c pos n)"
  unfolding str_fill_def Let_def by (intro safe_read safe_bind safe_if safes)

lemma map_case_safe [safes]: "safe (str_map_case p f s)"
  unfolding str_map_case_def by (intro safe_read safe_bind safe_if safes)

lemma assign_bytes_safe [safes]: "safe (str_assign_bytes s cs)"
  unfolding str_assign_bytes_def by (intro safe_read safe_bind safe_if safes)

lemma plus_safe [safes]: "safe (str_plus d s)"
proof (rule safeI)
  fix st st' assume ok: "heap_ok st" and r: "str_plus d s st = Inr st'"
  from r obtain od os where od: "strs st d = Some od" "strs st s = Some os"
    by (auto simp: str_plus_def ebind_eq_Inr)
  show "heap_ok st'"
  proof (cases "m_buffer od")
    case None
    with r od have "st' = st \<or> share_buffer d s st = Inr st'"
      by (auto simp: str_plus_def split: if_splits)
    with ok share_heap_ok [OF ok blocklessI [OF od(1) None]] show ?thesis by blast
  next
    case (Some b)
    let ?f = "\<lambda>st. ebind (str_resize d (m_size od + m_size os) st) (\<lambda>st1.
       ebind (get_str s st1) (\<lambda>os1. copy_data d (m_size od) s (m_size os1) st1))"
    have "safe ?f" by (intro safe_bind safe_read safes)
    moreover have "?f st = Inr st'" using r od Some by (simp add: str_plus_def)
    ultimately show ?thesis using safeD ok by blast
  qed
qed

lemma constructors_heap_ok:
  assumes "heap_ok st" "strs st d = None"
  shows "str_from_bytes d cs st = Inr st' \<Longrightarrow> heap_ok st'"
    "str_from_fill d n c st = Inr st' \<Longrightarrow> heap_ok st'"
    "str_move d s st = Inr st' \<Longrightarrow> heap_ok st'"
    "str_concat d s t st = Inr st' \<Longrightarrow> heap_ok st'"
proof -
  have 1: "safe (\<lambda>st1. if cs \<noteq> [] then ebind (str_resize d (length cs) st1) (write_data d 0 (map Some cs))
     else str_resize d 0 st1)" by (intro safe_if safe_bind safes)
  have 2: "safe (\<lambda>st1. ebind (str_resize d n st1)
     (\<lambda>st2. if 0 < n then write_data d 0 (replicate n (Some c)) st2 else Inr st2))"
    by (intro safe_if safe_bind safes)
  have 3: "safe (\<lambda>st1. ebind (str_resize d n st1) (\<lambda>st2. ebind (get_str d st2) (\<lambda>o3.
       if m_buffer o3 = None then Inl (Throw ''Variable is not array.'')
       else ebind (copy_data d 0 s n1 st2) (copy_data d n1 t n2))))" for n n1 n2
    by (intro safe_if safe_bind safe_read safes)
  show "str_from_bytes d cs st = Inr st' \<Longrightarrow> heap_ok st'"
    unfolding str_from_bytes_def by (rule after_new_heap_ok [OF assms 1])
  show "str_from_fill d n c st = Inr st' \<Longrightarrow> heap_ok st'"
    unfolding str_from_fill_def by (rule after_new_heap_ok [OF assms 2])
  show "str_move d s st = Inr st' \<Longrightarrow> heap_ok st'"
    unfolding str_move_def by (rule after_new_heap_ok [OF assms swap_safe])
  assume "str_concat d s t st = Inr st'"
  then obtain o1 o2 where "strs st s = Some o1" "strs st t = Some o2"
    by (auto simp: str_concat_def ebind_eq_Inr)
  with \<open>str_concat d s t st = Inr st'\<close> after_new_heap_ok [OF assms 3] show "heap_ok st'"
    by (simp add: str_concat_def)
qed

subsection \<open>Every program over strings\<close>

text \<open>
  One call of the interface: the mutating calls on any object, the constructors on an address
  where no object lives. A call that is undefined or throws makes no step.
\<close>

inductive string_step :: "store \<Rightarrow> store \<Rightarrow> bool" where
  s_new: "strs st d = None \<Longrightarrow> str_new d st = Inr st' \<Longrightarrow> string_step st st'"
| s_from_bytes: "strs st d = None \<Longrightarrow> str_from_bytes d cs st = Inr st' \<Longrightarrow> string_step st st'"
| s_from_fill: "strs st d = None \<Longrightarrow> str_from_fill d n c st = Inr st' \<Longrightarrow> string_step st st'"
| s_copy: "strs st d = None \<Longrightarrow> str_copy d s st = Inr st' \<Longrightarrow> string_step st st'"
| s_move: "strs st d = None \<Longrightarrow> str_move d s st = Inr st' \<Longrightarrow> string_step st st'"
| s_concat: "strs st d = None \<Longrightarrow> str_concat d s t st = Inr st' \<Longrightarrow> string_step st st'"
| s_assign: "str_assign d s st = Inr st' \<Longrightarrow> string_step st st'"
| s_swap: "str_swap d s st = Inr st' \<Longrightarrow> string_step st st'"
| s_destroy: "str_destroy s st = Inr st' \<Longrightarrow> string_step st st'"
| s_clear: "str_clear s st = Inr st' \<Longrightarrow> string_step st st'"
| s_mutate: "str_mutate s st = Inr st' \<Longrightarrow> string_step st st'"
| s_resize: "str_resize s n st = Inr st' \<Longrightarrow> string_step st st'"
| s_reserve: "str_reserve s n st = Inr st' \<Longrightarrow> string_step st st'"
| s_truncate: "str_truncate s n st = Inr st' \<Longrightarrow> string_step st st'"
| s_append_char: "str_append_char s c st = Inr st' \<Longrightarrow> string_step st st'"
| s_append_bytes: "str_append_bytes s cs st = Inr st' \<Longrightarrow> string_step st st'"
| s_append: "str_append d s st = Inr st' \<Longrightarrow> string_step st st'"
| s_plus_char: "str_plus_char s c st = Inr st' \<Longrightarrow> string_step st st'"
| s_plus_bytes: "str_plus_bytes s cs st = Inr st' \<Longrightarrow> string_step st st'"
| s_plus: "str_plus d s st = Inr st' \<Longrightarrow> string_step st st'"
| s_prepend: "str_prepend s c st = Inr st' \<Longrightarrow> string_step st st'"
| s_remove: "str_remove s p k st = Inr st' \<Longrightarrow> string_step st st'"
| s_removeLast: "str_removeLast s st = Inr st' \<Longrightarrow> string_step st st'"
| s_replace: "str_replace s p k c st = Inr st' \<Longrightarrow> string_step st st'"
| s_fill: "str_fill s c p k st = Inr st' \<Longrightarrow> string_step st st'"
| s_toLower: "str_toLower s st = Inr st' \<Longrightarrow> string_step st st'"
| s_toUpper: "str_toUpper s st = Inr st' \<Longrightarrow> string_step st st'"
| s_assign_bytes: "str_assign_bytes s cs st = Inr st' \<Longrightarrow> string_step st st'"

lemma toLower_safe [safes]: "safe (str_toLower s)" and toUpper_safe [safes]: "safe (str_toUpper s)"
  by (simp_all add: str_toLower_def str_toUpper_def map_case_safe)

lemmas step_safeD = clear_safe [THEN safeD] mutate_safe [THEN safeD] resize_safe [THEN safeD]
  reserve_safe [THEN safeD] truncate_safe [THEN safeD] assign_safe [THEN safeD]
  swap_safe [THEN safeD] destroy_safe [THEN safeD] append_char_safe [THEN safeD]
  append_bytes_safe [THEN safeD] append_safe [THEN safeD] plus_char_safe [THEN safeD]
  plus_bytes_safe [THEN safeD] plus_safe [THEN safeD] prepend_safe [THEN safeD]
  remove_safe [THEN safeD] removeLast_safe [THEN safeD] replace_safe [THEN safeD]
  fill_safe [THEN safeD] toLower_safe [THEN safeD] toUpper_safe [THEN safeD]
  assign_bytes_safe [THEN safeD]

lemma step_heap_ok: "string_step st st' \<Longrightarrow> heap_ok st \<Longrightarrow> heap_ok st'"
  by (induction rule: string_step.induct)
    (blast intro: step_safeD new_heap_ok copy_heap_ok constructors_heap_ok)+

lemma empty_heap_ok: "heap_ok empty_store"
  by (simp add: heap_ok_def empty_store_def)

lemma empty_good: "good empty_store"
  using empty_heap_ok by (simp add: good_def coh_def) (simp add: empty_store_def)

lemma empty_view: "view empty_store = Map.empty"
  by (simp add: view_def empty_store_def fun_eq_iff)

lemma heap_ok_no_leak: "heap_ok st \<Longrightarrow> strs st = Map.empty \<Longrightarrow> bufs st = Map.empty"
  by (rule ext, rule ccontr) (auto simp: heap_ok_def buf_ok_def ptrs_def)

section \<open>Properties of the string library\<close>

text \<open>C5: any program over string objects that is legal for values (no use of a dead object, no
  construction over a live one) runs on the reference-counted heap without undefined behaviour
  and without a throw, and ends with exactly the values the value-level machine computes; sharing
  is never visible.\<close>

theorem string_programs_refine:
  assumes "arun cs Map.empty = Some v"
  shows "\<exists>st. run cs empty_store = Inr st \<and> heap_ok st \<and> view st = v"
  using run_refines [OF empty_good, of cs v] assms by (auto simp: empty_view good_def)

theorem string_programs_refine_witness:
  "\<exists>st. run [FromBytes 0 ''ab'', Copy 1 0, AppendChar 0 CHR ''c'', Append 1 1, ToUpper 1] empty_store
     = Inr st \<and> heap_ok st \<and>
   view st = [0 \<mapsto> map Some ''abc'', 1 \<mapsto> map Some ''ABAB'']"
  by (rule string_programs_refine)
    (simp add: fresh1_def live1_def to_upper_def is_lower_def char_le_nat char_of_def bit_0 fun_upd_twist)

text \<open>C13: after any sequence of calls on string objects that all return, the reference counts are
  exact, no object points to a freed block, every length (with its NUL) lies inside its block; and
  when the last object is gone no block is left. A call that would access a byte outside its block, or whose position
  and size have a sum beyond 32 bits, has undefined behaviour and does not return, and strings are shorter than 2 GiB.\<close>

theorem string_heap_safe:
  assumes "string_step\<^sup>*\<^sup>* empty_store st"
  shows "heap_ok st \<and> (strs st = Map.empty \<longrightarrow> bufs st = Map.empty)"
proof -
  from assms have "heap_ok st" by induction (auto simp: empty_heap_ok intro: step_heap_ok)
  with heap_ok_no_leak show ?thesis by blast
qed

lemma two_steps:
  "string_step a b \<Longrightarrow> string_step b c \<Longrightarrow> string_step\<^sup>*\<^sup>* a c"
  by (meson r_into_rtranclp rtranclp_trans)

theorem string_heap_safe_witness:
  "\<exists>st. string_step\<^sup>*\<^sup>* empty_store st \<and> 1 \<in> dom (strs st) \<and>
     heap_ok st \<and> (strs st = Map.empty \<longrightarrow> bufs st = Map.empty)"
proof -
  let ?s1 = "put_str 0 empty_cfstr empty_store" and ?s2 = "put_str 1 empty_cfstr (put_str 0 empty_cfstr empty_store)"
  have "string_step empty_store ?s1" by (rule s_new [of _ 0]) (simp_all add: empty_store_def str_new_def)
  moreover have "string_step ?s1 ?s2" by (rule s_new [of _ 1]) (simp_all add: empty_store_def str_new_def)
  ultimately have "string_step\<^sup>*\<^sup>* empty_store ?s2" by (rule two_steps)
  with string_heap_safe [OF this] show ?thesis by (intro exI [of _ ?s2]) simp
qed

text \<open>copy-on-write isolation. After a copy, lower-casing, prepending or appending to the
  original returns, changes the original as documented and leaves the copy's value alone.\<close>

theorem copy_isolated:
  assumes "good st" "view st s = Some xs" "strs st d = None"
  shows "\<exists>st1. str_copy d s st = Inr st1 \<and>
    (\<exists>st2. str_toLower s st1 = Inr st2 \<and> view st2 d = Some xs \<and>
       view st2 s = Some (map (map_option to_lower) xs)) \<and>
    (\<exists>st2. str_prepend s c st1 = Inr st2 \<and> view st2 d = Some xs \<and> view st2 s = Some (Some c # xs)) \<and>
    (\<exists>st2. str_append_bytes s cs st1 = Inr st2 \<and> view st2 d = Some xs \<and>
       view st2 s = Some (xs @ map Some cs))"
  using lower.after_copy [OF assms] prepend.after_copy [OF assms, of c]
    append_bytes.after_copy [OF assms, of cs] by fastforce

text \<open>Good states with one string, and with a string and a copy of it.\<close>

lemma one_string:
  "\<exists>st. str_from_bytes 0 cs empty_store = Inr st \<and> good st \<and> view st 0 = Some (map Some cs) \<and>
    strs st 1 = None"
proof -
  have "blockless 0 empty_store" by (simp add: blockless_def empty_store_def)
  from from_bytes_spec [OF empty_good this] obtain st where st: "str_from_bytes 0 cs empty_store = Inr st"
    "good st" "view st = (view empty_store)(0 \<mapsto> map Some cs)" by blast
  then have "view st 1 = None" by (simp add: empty_view)
  with view_None [OF st(2)] st show ?thesis by auto
qed

theorem copy_isolated_witness:
  "\<exists>st st1. str_copy 1 0 st = Inr st1 \<and> view st 0 = Some (map Some ''Ab'') \<and>
    (\<exists>st2. str_toLower 0 st1 = Inr st2 \<and> view st2 1 = Some (map Some ''Ab'') \<and>
       view st2 0 = Some (map (map_option to_lower) (map Some ''Ab'')))"
proof -
  from one_string [of "''Ab''"] obtain st where
    "good st" "view st 0 = Some (map Some ''Ab'')" "strs st 1 = None" by blast
  from this(2) copy_isolated [OF this] show ?thesis by blast
qed

text \<open>\<open>append(const string &)\<close> is total and correct on every pair of live strings, the
  string itself included, although \<open>realloc\<close> may move the block the source points into.\<close>

theorem append_correct:
  assumes "good st" "view st d = Some xs" "view st s = Some ys"
  shows "\<exists>st'. str_append d s st = Inr st' \<and> good st' \<and> view st' = (view st)(d \<mapsto> xs @ ys)"
  by (rule append_spec [OF assms])

theorem append_correct_witness:
  "\<exists>st st'. str_append 0 0 st = Inr st' \<and> good st' \<and>
     view st' 0 = Some (map Some ''abab'')"
proof -
  from one_string [of "''ab''"] obtain st where st:
    "good st" "view st 0 = Some (map Some ''ab'')" by blast
  from append_correct [OF st(1,2,2)] show ?thesis by fastforce
qed

text \<open>\<open>s += s\<close> on a non-empty string is undefined: \<open>operator+=\<close> reads the length of its
  argument after it has resized the target, which is the same object, so it copies twice as many
  bytes as fit and the source range overlaps the destination.\<close>

theorem plus_self_undefined:
  assumes "good st" "view st s = Some xs" "xs \<noteq> []"
  shows "str_plus s s st = Inl UB"
proof -
  from assms(1,2) obtain o1 b where o1: "strs st s = Some o1" "m_buffer o1 = Some b" "m_size o1 = length xs"
    by (cases rule: view_cases) (use assms(3) in auto)
  from resize_grow [OF assms(1,2), of "length xs + length xs"] assms(3) obtain st1 ys where
    st1: "str_resize s (length xs + length xs) st = Inr st1" "good st1"
      "view st1 s = Some (xs @ ys)" "length ys = length xs" by auto
  obtain o2 where "strs st1 s = Some o2" "m_size o2 = length xs + length xs"
    using view_get_str [OF st1(2,3)] st1(4) by (metis length_append)
  with o1 st1(1) assms(3) show ?thesis by (simp add: str_plus_def copy_data_def)
qed

theorem plus_self_undefined_witness:
  "\<exists>st. view st 0 = Some [Some CHR ''a''] \<and> str_plus 0 0 st = Inl UB"
proof -
  from one_string [of "''a''"] obtain st where st:
    "good st" "view st 0 = Some [Some CHR ''a'']" by auto
  with plus_self_undefined [OF st] show ?thesis by auto
qed

text \<open>\<open>operator=(const char *)\<close> is not copy-on-write: assigning a text of the same length to
  one of two objects sharing a block changes the value of the other one too.\<close>

theorem assign_bytes_writes_through:
  assumes "good st" "strs st s = Some o1" "strs st t = Some o2" "m_buffer o1 = Some b"
    "m_buffer o2 = Some b" "length cs = m_size o1"
  shows "\<exists>st'. str_assign_bytes s cs st = Inr st' \<and> view st' s = Some (map Some cs) \<and>
    view st' t = Some (map Some cs)"
proof -
  note ok = goodD(1) [OF assms(1)]
  from wf_ptr [OF ok assms(2,4)] obtain buf where buf: "bufs st b = Some buf" "0 < m_size o1"
    "m_size o1 < sb_size buf" "length (sb_data buf) = sb_size buf" by metis
  have eq: "m_size o2 = m_size o1" by (rule coh_size [OF goodD(2) [OF assms(1)] assms(3,2,5,4)])
  let ?d = "map Some cs @ drop (length cs) (sb_data buf)"
  have "str_assign_bytes s cs st = Inr (put_buf b (buf\<lparr>sb_data := ?d\<rparr>) st)"
    using assms buf by (auto simp: str_assign_bytes_def str_resize_def write_data_def blit_def)
  then show ?thesis using assms eq by (auto simp: view_def)
qed

theorem assign_bytes_writes_through_witness:
  "\<exists>st st'. view st 1 = Some (map Some ''abc'') \<and> str_assign_bytes 0 ''xyz'' st = Inr st' \<and>
     view st' 1 = Some (map Some ''xyz'')"
proof -
  from one_string [of "''abc''"] obtain st where st:
    "good st" "view st 0 = Some (map Some ''abc'')" "strs st 1 = None" by blast
  from st(1,2) obtain o1 b buf where o1: "strs st 0 = Some o1" "m_buffer o1 = Some b"
    "bufs st b = Some buf" "m_size o1 = 3"
    by (cases rule: view_cases) auto
  have bl: "blockless 1 st" using st(3) by (simp add: blockless_def)
  let ?st = "shared 1 b buf (m_size o1) st"
  from copy_spec [OF st(1,2) bl] have sh: "good ?st" "view ?st = (view st)(1 \<mapsto> map Some ''abc'')"
    using o1 by (simp_all add: str_copy_def share_buffer_def shared_def)
  have "strs ?st 0 = Some o1" "strs ?st 1 = Some \<lparr>m_buffer = Some b, m_size = 3\<rparr>"
    using o1 by (simp_all add: shared_strs)
  from assign_bytes_writes_through [OF sh(1) this o1(2), of "''xyz''"] o1(4) obtain st' where
    "str_assign_bytes 0 ''xyz'' ?st = Inr st'" "view st' 1 = Some (map Some ''xyz'')" by auto
  with sh(2) show ?thesis by (intro exI [of _ ?st] exI [of _ st']) simp
qed

end
