(* ===== verification/ListFuns.thy ===== *)
theory ListFuns imports StringOps "HOL-Library.Multiset" begin

section \<open>CFML lists: delimited strings\<close>

text \<open>
  Models \<open>parseList\<close> of \<open>src/core/core_interp.cpp\<close>, \<open>splitList\<close>, \<open>joinList\<close> and \<open>joinListItems\<close> of
  \<open>src/cffunctions/common.cpp\<close> and the built-ins of \<open>src/cffunctions/fn_list*.cpp\<close>. An argument is
  what \<open>toString\<close> (for positions \<open>getIntValue\<close>) yields of it, and \<open>None\<close> when the pointer is null
  or, where the code tests it, the value is Null. A callback is a function of a state (the output
  and the scopes it may write) to a result and the new state.
\<close>

subsection \<open>Parsing and joining\<close>

definition actual_delim :: "bytes \<Rightarrow> bytes" where
  "actual_delim delim = (if delim = [] then '','' else delim)"

fun parse_loop :: "bytes \<Rightarrow> bytes \<Rightarrow> bytes \<Rightarrow> bytes list" where
  "parse_loop delim cur [] = (if trimmed cur \<noteq> [] then [trimmed cur] else [])"
| "parse_loop delim cur (c # cs) = (if c \<in> set delim
     then (if trimmed cur \<noteq> [] then [trimmed cur] else []) @ parse_loop delim [] cs
     else parse_loop delim (cur @ [c]) cs)"

definition parseList :: "bytes \<Rightarrow> bytes \<Rightarrow> bytes list" where
  "parseList listStr delim = (if listStr = [] then [] else parse_loop (actual_delim delim) [] listStr)"

fun split_list_loop :: "bytes \<Rightarrow> bool \<Rightarrow> bytes \<Rightarrow> bytes \<Rightarrow> bytes list" where
  "split_list_loop delim keep cur [] = (if keep \<or> trimmed cur \<noteq> [] then [trimmed cur] else [])"
| "split_list_loop delim keep cur (c # cs) = (if c \<in> set delim
     then (if keep \<or> trimmed cur \<noteq> [] then [trimmed cur] else []) @ split_list_loop delim keep [] cs
     else split_list_loop delim keep (cur @ [c]) cs)"

definition splitList :: "bytes \<Rightarrow> bytes \<Rightarrow> bool \<Rightarrow> bytes list" where
  "splitList listStr delim keep = (if listStr = [] then (if keep then [[]] else [])
     else split_list_loop (actual_delim delim) keep [] listStr)"

text \<open>\<open>joinListItems\<close> uses the whole delimiter, \<open>joinList\<close> its first character or a comma.\<close>

fun joinListItems :: "bytes list \<Rightarrow> bytes \<Rightarrow> bytes" where
  "joinListItems [] delim = []"
| "joinListItems [x] delim = x"
| "joinListItems (x # y # xs) delim = x @ delim @ joinListItems (y # xs) delim"

definition joinList :: "bytes list \<Rightarrow> bytes \<Rightarrow> bytes" where
  "joinList xs delim = joinListItems xs (if delim = [] then '','' else take 1 delim)"

subsection \<open>The built-ins on positions\<close>

definition delim_of :: "bytes option \<Rightarrow> bytes" where
  "delim_of delim = (case delim of None \<Rightarrow> '','' | Some d \<Rightarrow> d)"

definition cf_listlen :: "bytes option \<Rightarrow> bytes option \<Rightarrow> int res" where
  "cf_listlen list delim = (case list of None \<Rightarrow> Inl (Throw ''ListLen: Missing argument'')
     | Some l \<Rightarrow> Inr (int (length (parseList l (delim_of delim)))))"

definition cf_listappend :: "bytes option \<Rightarrow> bytes option \<Rightarrow> bytes option \<Rightarrow> bytes res" where
  "cf_listappend list val delim = (case (list, val) of
     (Some l, Some v) \<Rightarrow> let items = parseList l (delim_of delim); v = trimmed v in
       Inr (joinList (if v \<noteq> [] then items @ [v] else items) (delim_of delim))
     | _ \<Rightarrow> Inl (Throw ''ListAppend: Missing argument(s)''))"

definition cf_listprepend :: "bytes option \<Rightarrow> bytes option \<Rightarrow> bytes option \<Rightarrow> bytes res" where
  "cf_listprepend list val delim = (case (list, val) of
     (Some l, Some v) \<Rightarrow> let items = parseList l (delim_of delim); v = trimmed v in
       Inr (joinList (if v \<noteq> [] then v # items else items) (delim_of delim))
     | _ \<Rightarrow> Inl (Throw ''ListPrepend: Missing argument(s)''))"

definition cf_listgetat :: "bytes option \<Rightarrow> int option \<Rightarrow> bytes option \<Rightarrow> bytes res" where
  "cf_listgetat list idx delim = (case (list, idx) of
     (Some l, Some i) \<Rightarrow> let items = parseList l (delim_of delim) in
       if i < 1 \<or> int (length items) < i then Inl (Throw ''ListGetAt: Index out of bounds'')
       else Inr (items ! nat (i - 1))
     | _ \<Rightarrow> Inl (Throw ''ListGetAt: Missing argument(s)''))"

definition cf_listdeleteat :: "bytes option \<Rightarrow> int option \<Rightarrow> bytes option \<Rightarrow> bytes res" where
  "cf_listdeleteat list idx delim = (case (list, idx) of
     (Some l, Some i) \<Rightarrow> let items = parseList l (delim_of delim) in
       if i < 1 \<or> int (length items) < i then Inl (Throw ''ListDeleteAt: Index out of bounds'')
       else Inr (joinList (take (nat (i - 1)) items @ drop (nat (i - 1) + 1) items) (delim_of delim))
     | _ \<Rightarrow> Inl (Throw ''ListDeleteAt: Missing argument(s)''))"

definition cf_listinsertat ::
  "bytes option \<Rightarrow> int option \<Rightarrow> bytes option \<Rightarrow> bytes option \<Rightarrow> bytes res" where
  "cf_listinsertat list idx val delim = (case (list, idx, val) of
     (Some l, Some i, Some v) \<Rightarrow> let items = parseList l (delim_of delim) in
       if i < 1 \<or> int (length items) + 1 < i then Inl (Throw ''ListInsertAt: Index out of bounds'')
       else Inr (joinList (take (nat (i - 1)) items @ trimmed v # drop (nat (i - 1)) items) (delim_of delim))
     | _ \<Rightarrow> Inl (Throw ''ListInsertAt: Missing argument(s)''))"

definition cf_listsetat ::
  "bytes option \<Rightarrow> int option \<Rightarrow> bytes option \<Rightarrow> bytes option \<Rightarrow> bytes res" where
  "cf_listsetat list idx val delim = (case (list, idx, val) of
     (Some l, Some i, Some v) \<Rightarrow> let items = parseList l (delim_of delim) in
       if i < 1 \<or> int (length items) < i then Inl (Throw ''ListSetAt: Index out of bounds'')
       else Inr (joinList (items[nat (i - 1) := trimmed v]) (delim_of delim))
     | _ \<Rightarrow> Inl (Throw ''ListSetAt: Missing argument(s)''))"

text \<open>\<open>ListFirst\<close> and \<open>ListLast\<close> go through \<open>const char *\<close> and so stop at a NUL.\<close>

definition cf_listfirst :: "bytes option \<Rightarrow> bytes option \<Rightarrow> bytes res" where
  "cf_listfirst list delim = (case list of None \<Rightarrow> Inl (Throw ''ListFirst: Missing argument'')
     | Some l \<Rightarrow> let items = parseList l (delim_of delim) in
         Inr (if items = [] then [] else cstr (hd items)))"

definition cf_listlast :: "bytes option \<Rightarrow> bytes option \<Rightarrow> bytes res" where
  "cf_listlast list delim = (case list of None \<Rightarrow> Inl (Throw ''ListLast: Missing argument'')
     | Some l \<Rightarrow> let items = parseList l (delim_of delim) in
         Inr (if items = [] then [] else cstr (last items)))"

definition cf_listrest :: "bytes option \<Rightarrow> bytes option \<Rightarrow> bytes res" where
  "cf_listrest list delim = (case list of None \<Rightarrow> Inl (Throw ''ListRest: Missing argument'')
     | Some l \<Rightarrow> let items = parseList l (delim_of delim) in
         Inr (if length items \<le> 1 then [] else joinList (tl items) (delim_of delim)))"

definition cf_listchangedelims :: "bytes option \<Rightarrow> bytes option \<Rightarrow> bytes option \<Rightarrow> bytes res" where
  "cf_listchangedelims list newDelim delim = (case (list, newDelim) of
     (Some l, Some nd) \<Rightarrow> Inr (joinList (parseList l (delim_of delim)) nd)
     | _ \<Rightarrow> Inl (Throw ''ListChangeDelims: Missing argument(s)''))"

definition cf_listtoarray :: "bytes option \<Rightarrow> bytes option \<Rightarrow> bytes list res" where
  "cf_listtoarray list delim = (case list of None \<Rightarrow> Inl (Throw ''ListToArray: Missing argument'')
     | Some l \<Rightarrow> Inr (parseList l (delim_of delim)))"

subsection \<open>Searching and counting\<close>

text \<open>The search loop: the position of the first item that \<open>p\<close> accepts, 0 when there is none.\<close>

fun find_loop :: "(bytes \<Rightarrow> bool res) \<Rightarrow> int \<Rightarrow> bytes list \<Rightarrow> int res" where
  "find_loop p i [] = Inr 0"
| "find_loop p i (x # xs) = ebind (p x) (\<lambda>b. if b then Inr (i + 1) else find_loop p (i + 1) xs)"

definition list_search ::
  "(bytes \<Rightarrow> bytes \<Rightarrow> bool res) \<Rightarrow> string \<Rightarrow> bytes option \<Rightarrow> bytes option \<Rightarrow> bytes option \<Rightarrow> int res" where
  "list_search p msg list val delim = (case (list, val) of
     (Some l, Some t) \<Rightarrow> find_loop (\<lambda>x. p x t) 0 (parseList l (delim_of delim))
     | _ \<Rightarrow> Inl (Throw msg))"

definition cf_listfind :: "bytes option \<Rightarrow> bytes option \<Rightarrow> bytes option \<Rightarrow> int res" where
  "cf_listfind = list_search (\<lambda>x t. Inr (str_equals x t)) ''ListFind: Missing argument(s)''"

definition cf_listfindnocase :: "bytes option \<Rightarrow> bytes option \<Rightarrow> bytes option \<Rightarrow> int res" where
  "cf_listfindnocase = list_search (\<lambda>x t. Inr (compareCaseInsensitive x t = 0))
     ''ListFindNoCase: Missing argument(s)''"

definition cf_listcontains :: "bytes option \<Rightarrow> bytes option \<Rightarrow> bytes option \<Rightarrow> int res" where
  "cf_listcontains = list_search str_contains ''ListContains: Missing argument(s)''"

definition cf_listcontainsnocase :: "bytes option \<Rightarrow> bytes option \<Rightarrow> bytes option \<Rightarrow> int res" where
  "cf_listcontainsnocase = list_search str_containsCaseInsensitive
     ''ListContainsNoCase: Missing argument(s)''"

fun count_loop :: "(bytes \<Rightarrow> bool) \<Rightarrow> int \<Rightarrow> bytes list \<Rightarrow> int" where
  "count_loop p n [] = n"
| "count_loop p n (x # xs) = count_loop p (if p x then n + 1 else n) xs"

definition cf_listvaluecount :: "bytes option \<Rightarrow> bytes option \<Rightarrow> bytes option \<Rightarrow> int res" where
  "cf_listvaluecount list val delim = (case (list, val) of
     (Some l, Some t) \<Rightarrow> Inr (count_loop (\<lambda>x. str_equals x t) 0 (splitList l (delim_of delim) False))
     | _ \<Rightarrow> Inl (Throw ''ListValueCount requires a list and a value''))"

definition cf_listvaluecountnocase :: "bytes option \<Rightarrow> bytes option \<Rightarrow> bytes option \<Rightarrow> int res" where
  "cf_listvaluecountnocase list val delim = (case (list, val) of
     (Some l, Some t) \<Rightarrow> Inr (count_loop (\<lambda>x. compareCaseInsensitive x t = 0) 0
         (splitList l (delim_of delim) False))
     | _ \<Rightarrow> Inl (Throw ''ListValueCountNoCase requires a list and a value''))"

subsection \<open>Whole-list built-ins\<close>

definition cf_listqualify ::
  "bytes option \<Rightarrow> bytes option \<Rightarrow> bytes option \<Rightarrow> bool option \<Rightarrow> bytes res" where
  "cf_listqualify list qualifier delimiters includeEmptyValues = (case (list, qualifier) of
     (Some l, Some q) \<Rightarrow>
       let d = delim_of delimiters;
           items = splitList l d (includeEmptyValues = Some True);
           qpre = (if 2 \<le> length q then str_left q 1 else q);
           qsuf = (if 2 \<le> length q then str_mid q 1 (int (length q) - 1) else q)
       in Inr (joinListItems (map (\<lambda>item. qpre @ item @ qsuf) items) d)
     | _ \<Rightarrow> Inl (Throw ''ListQualify requires a list and a qualifier''))"

fun dedup_loop :: "(bytes \<Rightarrow> bytes \<Rightarrow> bool) \<Rightarrow> bytes list \<Rightarrow> bytes list \<Rightarrow> bytes list" where
  "dedup_loop eq out [] = out"
| "dedup_loop eq out (x # xs) = dedup_loop eq (if list_ex (\<lambda>seen. eq seen x) out then out else out @ [x]) xs"

definition cf_listremoveduplicates :: "bytes option \<Rightarrow> bytes option \<Rightarrow> bool option \<Rightarrow> bytes res" where
  "cf_listremoveduplicates list delim ignoreCase = (case list of
     None \<Rightarrow> Inl (Throw ''ListRemoveDuplicates requires a list'')
   | Some l \<Rightarrow> let d = delim_of delim;
         eq = (\<lambda>seen item. if ignoreCase = Some True then compareCaseInsensitive seen item = 0
               else str_equals seen item)
       in Inr (joinListItems (dedup_loop eq [] (splitList l d False)) d))"

text \<open>
  \<open>std::stable_sort\<close>: an insertion sort, determined by the comparison when it is a strict weak
  order. \<open>std::sort\<close> may permute equivalent items; the model keeps their order.
\<close>

fun sort_insert :: "('a \<Rightarrow> 'a \<Rightarrow> bool) \<Rightarrow> 'a \<Rightarrow> 'a list \<Rightarrow> 'a list" where
  "sort_insert lt x [] = [x]"
| "sort_insert lt x (y # ys) = (if lt y x then y # sort_insert lt x ys else x # y # ys)"

fun stable_sort :: "('a \<Rightarrow> 'a \<Rightarrow> bool) \<Rightarrow> 'a list \<Rightarrow> 'a list" where
  "stable_sort lt [] = []"
| "stable_sort lt (x # xs) = sort_insert lt x (stable_sort lt xs)"

fun dups_loop :: "bytes list \<Rightarrow> bytes list \<Rightarrow> bytes list \<Rightarrow> bytes list" where
  "dups_loop items dups [] = dups"
| "dups_loop items dups (x # xs) =
     dups_loop items (if list_ex (\<lambda>y. str_equals y x) dups then dups
       else if 1 < count_loop (\<lambda>y. str_equals y x) 0 items then dups @ [x] else dups) xs"

definition cf_listgetduplicates :: "bytes option \<Rightarrow> bytes option \<Rightarrow> bytes res" where
  "cf_listgetduplicates list delim = (case list of
     None \<Rightarrow> Inl (Throw ''ListGetDuplicates requires a list'')
   | Some l \<Rightarrow> let d = delim_of delim; items = splitList l d False in
       Inr (joinListItems (stable_sort (\<lambda>a b. compareCaseInsensitive a b < 0) (dups_loop items [] items)) d))"

text \<open>
  \<open>ListSort\<close> on a type name. \<open>num_less\<close> compares the items as doubles (\<open>getDoubleValue\<close>). A
  comparison that holds both ways between two items breaks the precondition of
  \<open>std::stable_sort\<close>: undefined behaviour.
\<close>

definition sort_less :: "(bytes \<Rightarrow> bytes \<Rightarrow> bool) \<Rightarrow> bytes \<Rightarrow> bytes \<Rightarrow> bytes \<Rightarrow> bool" where
  "sort_less num_less type a b = (if type = ''NUMERIC'' then num_less a b
     else if type = ''TEXTNOCASE'' then compareCaseInsensitive a b < 0
     else cstr a < cstr b)"

fun both_ways :: "('a \<Rightarrow> 'a \<Rightarrow> bool) \<Rightarrow> 'a list \<Rightarrow> bool" where
  "both_ways lt [] = False"
| "both_ways lt (x # xs) = (list_ex (\<lambda>y. lt x y \<and> lt y x) xs \<or> both_ways lt xs)"

definition cf_listsort :: "(bytes \<Rightarrow> bytes \<Rightarrow> bool) \<Rightarrow> bytes option \<Rightarrow> bytes option \<Rightarrow> bytes option \<Rightarrow>
    bytes option \<Rightarrow> bool option \<Rightarrow> bytes res" where
  "cf_listsort num_less list sortType sortOrder delimiters includeEmptyFields = (case list of
     None \<Rightarrow> Inl (Throw ''ListSort requires a list'')
   | Some l \<Rightarrow>
       let d = delim_of delimiters;
           items = splitList l d (includeEmptyFields = Some True);
           type = map to_upper (case sortType of None \<Rightarrow> ''text'' | Some t \<Rightarrow> t);
           asc = (case sortOrder of None \<Rightarrow> True | Some o1 \<Rightarrow> map to_upper o1 \<noteq> ''DESC'');
           lt = (\<lambda>a b. if asc then sort_less num_less type a b else \<not> sort_less num_less type a b)
       in if both_ways lt items then Inl UB else Inr (joinListItems (stable_sort lt items) d))"

subsection \<open>Callbacks\<close>

type_synonym ('s, 'v) callback = "bytes \<Rightarrow> int \<Rightarrow> bytes \<Rightarrow> 's \<Rightarrow> ('v \<times> 's) res"

fun map_cb :: "('s, 'v) callback \<Rightarrow> bytes \<Rightarrow> int \<Rightarrow> bytes list \<Rightarrow> 's \<Rightarrow> ('v list \<times> 's) res" where
  "map_cb cb l i [] s = Inr ([], s)"
| "map_cb cb l i (x # xs) s = ebind (cb x (i + 1) l s) (\<lambda>(v, s1).
     ebind (map_cb cb l (i + 1) xs s1) (\<lambda>(vs, s2). Inr (v # vs, s2)))"

definition cf_listmap ::
  "bytes option \<Rightarrow> ('s, bytes) callback option \<Rightarrow> bytes option \<Rightarrow> bool option \<Rightarrow> 's \<Rightarrow> (bytes \<times> 's) res" where
  "cf_listmap list callback delim includeEmptyFields s = (case (list, callback) of
     (Some l, Some cb) \<Rightarrow> let d = delim_of delim in
       ebind (map_cb cb l 0 (splitList l d (includeEmptyFields = Some True)) s)
         (\<lambda>(vs, s'). Inr (joinListItems vs d, s'))
     | _ \<Rightarrow> Inl (Throw ''ListMap requires a list and a callback''))"

definition cf_listfilter ::
  "bytes option \<Rightarrow> ('s, bool) callback option \<Rightarrow> bytes option \<Rightarrow> bool option \<Rightarrow> 's \<Rightarrow> (bytes \<times> 's) res" where
  "cf_listfilter list callback delim includeEmptyFields s = (case (list, callback) of
     (Some l, Some cb) \<Rightarrow> let d = delim_of delim; items = splitList l d (includeEmptyFields = Some True) in
       ebind (map_cb cb l 0 items s)
         (\<lambda>(bs, s'). Inr (joinListItems (map fst (filter snd (zip items bs))) d, s'))
     | _ \<Rightarrow> Inl (Throw ''ListFilter requires a list and a callback''))"

definition cf_listeach ::
  "bytes option \<Rightarrow> ('s, 'v) callback option \<Rightarrow> bytes option \<Rightarrow> bool option \<Rightarrow> 's \<Rightarrow> 's res" where
  "cf_listeach list callback delim includeEmptyFields s = (case (list, callback) of
     (Some l, Some cb) \<Rightarrow>
       ebind (map_cb cb l 0 (splitList l (delim_of delim) (includeEmptyFields = Some True)) s)
         (\<lambda>(_, s'). Inr s')
     | _ \<Rightarrow> Inl (Throw ''ListEach requires a list and a callback''))"

fun reduce_cb ::
  "('v \<Rightarrow> ('s, 'v) callback) \<Rightarrow> bytes \<Rightarrow> int \<Rightarrow> bytes list \<Rightarrow> 'v \<Rightarrow> 's \<Rightarrow> ('v \<times> 's) res" where
  "reduce_cb cb l i [] acc s = Inr (acc, s)"
| "reduce_cb cb l i (x # xs) acc s = ebind (cb acc x (i + 1) l s) (\<lambda>(v, s1). reduce_cb cb l (i + 1) xs v s1)"

definition cf_listreduce ::
  "bytes option \<Rightarrow> ('v \<Rightarrow> ('s, 'v) callback) option \<Rightarrow> 'v \<Rightarrow> bytes option \<Rightarrow> bool option \<Rightarrow> 's \<Rightarrow> ('v \<times> 's) res" where
  "cf_listreduce list callback initial delim includeEmptyFields s = (case (list, callback) of
     (Some l, Some cb) \<Rightarrow> reduce_cb cb l 0 (splitList l (delim_of delim) (includeEmptyFields = Some True)) initial s
     | _ \<Rightarrow> Inl (Throw ''ListReduce requires a list and a callback''))"

section \<open>Parsing is splitting and trimming\<close>

lemma strip_Nil [simp]: "strip [] = []"
  by (simp add: strip_def)

lemma strip_space_Cons: "is_space c \<Longrightarrow> strip (c # xs) = strip xs"
  by (simp add: strip_def)

lemma strip_space_snoc: "is_space c \<Longrightarrow> strip (xs @ [c]) = strip xs"
  by (induction xs) (auto simp: strip_def)

text \<open>Tokens between delimiter characters; the items of a list are the trimmed non-empty ones.\<close>

fun tokens :: "bytes \<Rightarrow> bytes \<Rightarrow> bytes list" where
  "tokens delim [] = [[]]"
| "tokens delim (c # cs) = (if c \<in> set delim then [] # tokens delim cs
     else (c # hd (tokens delim cs)) # tl (tokens delim cs))"

definition items_of :: "bytes \<Rightarrow> bytes \<Rightarrow> bytes list" where
  "items_of delim xs = filter (\<lambda>t. t \<noteq> []) (map strip (tokens delim xs))"

lemma tokens_ne [simp]: "tokens delim xs \<noteq> []"
  by (cases xs) auto

lemma split_list_loop_eq:
  "split_list_loop delim keep cur xs =
     filter (\<lambda>t. keep \<or> t \<noteq> []) (map strip ((cur @ hd (tokens delim xs)) # tl (tokens delim xs)))"
proof (induction xs arbitrary: cur)
  case (Cons c xs)
  obtain t ts where t: "tokens delim xs = t # ts" using tokens_ne by (cases "tokens delim xs") auto
  show ?case using Cons.IH [of "[]"] Cons.IH [of "cur @ [c]"] by (auto simp: trimmed_eq t)
qed (simp add: trimmed_eq)

lemma parse_loop_eq: "parse_loop delim cur xs = split_list_loop delim False cur xs"
  by (induction xs arbitrary: cur) auto

lemma splitList_eq:
  "splitList xs delim keep = filter (\<lambda>t. keep \<or> t \<noteq> []) (map strip (tokens (actual_delim delim) xs))"
proof -
  obtain t ts where "tokens (actual_delim delim) xs = t # ts"
    using tokens_ne by (cases "tokens (actual_delim delim) xs") auto
  then show ?thesis
    using split_list_loop_eq [of "actual_delim delim" keep "[]" xs] by (auto simp: splitList_def)
qed

lemma parseList_eq: "parseList xs delim = items_of (actual_delim delim) xs"
  using splitList_eq [of xs delim False]
  by (auto simp: parseList_def parse_loop_eq splitList_def items_of_def)

lemma tokens_append: "d \<in> set delim \<Longrightarrow> tokens delim (xs @ d # ys) = tokens delim xs @ tokens delim ys"
  by (induction xs) auto

lemma items_append: "d \<in> set delim \<Longrightarrow> items_of delim (xs @ d # ys) = items_of delim xs @ items_of delim ys"
  by (simp add: items_of_def tokens_append)

lemma items_Nil [simp]: "items_of delim [] = []"
  by (simp add: items_of_def)

text \<open>A text that is one item of a list with these delimiters.\<close>

definition clean :: "bytes \<Rightarrow> bytes \<Rightarrow> bool" where
  "clean delim v \<longleftrightarrow> v \<noteq> [] \<and> strip v = v \<and> set v \<inter> set delim = {}"

lemma tokens_none: "set v \<inter> set delim = {} \<Longrightarrow> tokens delim v = [v]"
  by (induction v) auto

lemma items_clean: "clean delim v \<Longrightarrow> items_of delim v = [v]"
  by (simp add: items_of_def clean_def tokens_none)

lemma tokens_free: "t \<in> set (tokens delim xs) \<Longrightarrow> set t \<inter> set delim = {}"
proof (induction xs arbitrary: t)
  case (Cons c xs)
  obtain u us where u: "tokens delim xs = u # us" using tokens_ne by (cases "tokens delim xs") auto
  have "set u \<inter> set delim = {}" by (rule Cons.IH) (simp add: u)
  moreover have "set t \<inter> set delim = {}" if "t \<in> set us" for t
    using that by (intro Cons.IH) (simp add: u)
  ultimately show ?case using Cons.prems u by (auto split: if_splits)
qed simp

lemma set_dropWhile_sub: "set (dropWhile p xs) \<subseteq> set xs"
  using set_dropWhileD by fast

lemma set_strip: "set (strip t) \<subseteq> set t"
  using set_dropWhile_sub [of is_space t] set_dropWhile_sub [of is_space "rev (dropWhile is_space t)"]
  unfolding strip_def by auto

lemma items_are_clean: "list_all (clean delim) (items_of delim xs)"
  using tokens_free [of _ delim xs] set_strip
  by (fastforce simp: list_all_iff items_of_def clean_def strip_idem)

lemma joinListItems_Cons: "xs \<noteq> [] \<Longrightarrow> joinListItems (x # xs) delim = x @ delim @ joinListItems xs delim"
  by (cases xs) auto

lemma items_join:
  "d \<in> set delim \<Longrightarrow> items_of delim (joinListItems xs [d]) = concat (map (items_of delim) xs)"
proof (induction xs)
  case (Cons x xs)
  then show ?case by (cases "xs = []") (simp_all add: joinListItems_Cons items_append)
qed simp

lemma actual_delim_ne: "actual_delim d \<noteq> []"
  by (simp add: actual_delim_def)

lemma parse_joinList: "parseList (joinList xs d) d = concat (map (\<lambda>x. parseList x d) xs)"
proof -
  obtain c cs where c: "actual_delim d = c # cs" using actual_delim_ne by (cases "actual_delim d") auto
  then have "joinList xs d = joinListItems xs [c]"
    by (auto simp: joinList_def actual_delim_def split: if_splits)
  with items_join [of c "actual_delim d" xs] c show ?thesis by (simp add: parseList_eq)
qed

lemma dropWhile_strip_front: "items_of delim (dropWhile is_space xs) = items_of delim xs"
proof (induction xs)
  case (Cons c xs)
  obtain t ts where t: "tokens delim xs = t # ts" using tokens_ne by (cases "tokens delim xs") auto
  from Cons t show ?case by (auto simp: items_of_def strip_space_Cons)
qed simp

lemma tokens_snoc:
  "c \<notin> set delim \<Longrightarrow> tokens delim (xs @ [c]) = butlast (tokens delim xs) @ [last (tokens delim xs) @ [c]]"
proof (induction xs)
  case (Cons x xs)
  obtain t ts where "tokens delim xs = t # ts" using tokens_ne by (cases "tokens delim xs") auto
  with Cons show ?case by auto
qed simp

lemma items_snoc_space:
  assumes "is_space c" shows "items_of delim (xs @ [c]) = items_of delim xs"
proof (cases "c \<in> set delim")
  case True
  then show ?thesis using items_append [of c delim xs "[]"] by simp
next
  case False
  have "map strip (tokens delim (xs @ [c])) = map strip (butlast (tokens delim xs)) @ [strip (last (tokens delim xs))]"
    by (simp add: tokens_snoc [OF False] strip_space_snoc [OF assms])
  also have "\<dots> = map strip (butlast (tokens delim xs) @ [last (tokens delim xs)])"
    by (simp only: map_append list.map)
  also have "\<dots> = map strip (tokens delim xs)" unfolding append_butlast_last_id [OF tokens_ne] ..
  finally show ?thesis by (simp only: items_of_def)
qed

lemma items_append_spaces: "list_all is_space ys \<Longrightarrow> items_of delim (xs @ ys) = items_of delim xs"
proof (induction ys rule: rev_induct)
  case (snoc y ys)
  then show ?case using items_snoc_space [of y delim "xs @ ys"] by simp
qed simp

lemma items_strip: "items_of delim (strip v) = items_of delim v"
proof -
  let ?d = "dropWhile is_space v"
  have "rev ?d = takeWhile is_space (rev ?d) @ dropWhile is_space (rev ?d)" by simp
  then have "?d = strip v @ rev (takeWhile is_space (rev ?d))"
    unfolding strip_def by (metis rev_append rev_rev_ident)
  moreover have "list_all is_space (rev (takeWhile is_space (rev ?d)))"
    by (auto simp: list_all_iff dest: set_takeWhileD)
  ultimately have "items_of delim ?d = items_of delim (strip v)"
    by (metis items_append_spaces)
  then show ?thesis by (simp add: dropWhile_strip_front)
qed

lemma parseList_Nil [simp]: "parseList [] d = []"
  by (simp add: parseList_def)

lemma splitList_parse: "splitList l d False = parseList l d"
  by (simp add: parseList_eq splitList_eq items_of_def)

lemma parse_strip: "parseList (strip v) d = parseList v d"
  by (simp add: parseList_eq items_strip)

lemma parse_clean: "clean (actual_delim d) v \<Longrightarrow> parseList v d = [v]"
  by (simp add: parseList_eq items_clean)

section \<open>The contract of a list format\<close>

text \<open>
  What the position built-ins rely on: text parses into well-formed items, and well-formed items
  joined parse back into themselves.
\<close>

locale list_format =
  fixes parse :: "bytes \<Rightarrow> 'i list" and join :: "'i list \<Rightarrow> bytes" and ok :: "'i \<Rightarrow> bool"
  assumes parse_ok: "list_all ok (parse s)"
    and parse_join: "list_all ok xs \<Longrightarrow> parse (join xs) = xs"
begin

lemma normal_form: "parse (join (parse s)) = parse s"
  by (rule parse_join [OF parse_ok])

lemma set_item: "ok v \<Longrightarrow> parse (join ((parse s)[i := v])) = (parse s)[i := v]"
  using parse_ok [of s] by (intro parse_join) (auto simp: list_all_iff dest!: set_update_subset_insert [THEN subsetD])

lemma insert_item:
  "ok v \<Longrightarrow> parse (join (take i (parse s) @ v # drop i (parse s))) = take i (parse s) @ v # drop i (parse s)"
  using parse_ok [of s] by (intro parse_join) (auto simp: list_all_iff dest: in_set_takeD in_set_dropD)

lemma delete_item:
  "parse (join (take i (parse s) @ drop j (parse s))) = take i (parse s) @ drop j (parse s)"
  using parse_ok [of s] by (intro parse_join) (auto simp: list_all_iff dest: in_set_takeD in_set_dropD)

lemma rest_item: "parse (join (tl (parse s))) = tl (parse s)"
  using parse_ok [of s] by (intro parse_join) (cases "parse s"; simp)

end

interpretation cflist: list_format "\<lambda>s. parseList s d" "\<lambda>xs. joinList xs d" "clean (actual_delim d)" for d
proof
  fix s :: bytes and xs
  show "list_all (clean (actual_delim d)) (parseList s d)"
    by (simp add: parseList_eq items_are_clean)
  show "list_all (clean (actual_delim d)) xs \<Longrightarrow> parseList (joinList xs d) d = xs"
    by (induction xs) (simp_all add: parse_joinList parse_clean)
qed

subsection \<open>Loops\<close>

lemma find_loop_pure:
  assumes "\<And>x. x \<in> set xs \<Longrightarrow> p x = Inr (q x)"
  shows "find_loop p i xs = Inr (if list_ex q xs then i + 1 + int (length (takeWhile (\<lambda>x. \<not> q x) xs)) else 0)"
  using assms by (induction xs arbitrary: i) auto

lemma count_loop_eq: "count_loop p n xs = n + int (length (filter p xs))"
  by (induction xs arbitrary: n) auto

lemma str_equals_eq [simp]: "str_equals x y \<longleftrightarrow> x = y"
  by (auto simp: str_equals_def)

lemma count_items: "length (filter (\<lambda>x. x = t) xs) = count (mset xs) t"
  by (induction xs) auto

lemma dedup_equal:
  "distinct out \<Longrightarrow> distinct (dedup_loop (=) out xs) \<and>
    set (dedup_loop (=) out xs) = set out \<union> set xs \<and> (\<exists>zs. dedup_loop (=) out xs = out @ zs)"
proof (induction xs arbitrary: out)
  case (Cons x xs)
  from Cons.IH [of out] Cons.IH [of "out @ [x]"] Cons.prems show ?case
    by (auto simp: list_ex_iff)
qed simp

lemma dups_loop_set:
  "set (dups_loop items dups xs) = set dups \<union> {x \<in> set xs. 1 < length (filter (\<lambda>y. y = x) items)} \<and>
   (distinct dups \<longrightarrow> distinct (dups_loop items dups xs))"
  by (induction xs arbitrary: dups) (auto simp: list_ex_iff count_loop_eq)

subsection \<open>Sorting\<close>

fun sorted_lt :: "('a \<Rightarrow> 'a \<Rightarrow> bool) \<Rightarrow> 'a list \<Rightarrow> bool" where
  "sorted_lt lt [] = True"
| "sorted_lt lt (x # xs) = (list_all (\<lambda>y. \<not> lt y x) xs \<and> sorted_lt lt xs)"

lemma sort_insert_mset [simp]: "mset (sort_insert lt x xs) = add_mset x (mset xs)"
  by (induction xs) auto

lemma stable_sort_mset: "mset (stable_sort lt xs) = mset xs"
  by (induction xs) auto

lemma sort_insert_set [simp]: "set (sort_insert lt x xs) = insert x (set xs)"
  by (induction xs) auto

context strict_weak
begin

lemma sort_insert_sorted: "sorted_lt lt xs \<Longrightarrow> sorted_lt lt (sort_insert lt x xs)"
proof (induction xs)
  case (Cons y ys)
  show ?case
  proof (cases "lt y x")
    case True
    with Cons asym show ?thesis by (auto simp: list_all_iff)
  next
    case False
    have "\<not> lt z x" if "z \<in> set ys" for z
    proof
      assume "lt z x"
      have "\<not> lt z y" using Cons.prems that by (auto simp: list_all_iff)
      moreover have "\<not> lt y z" using \<open>lt z x\<close> False trans by blast
      ultimately have "lt y x" using \<open>lt z x\<close> same_lt [of y z x] by (simp add: same_def)
      with False show False ..
    qed
    with Cons False show ?thesis by (auto simp: list_all_iff)
  qed
qed simp

lemma stable_sort_sorted: "sorted_lt lt (stable_sort lt xs)"
  by (induction xs) (simp_all add: sort_insert_sorted)

lemma sort_insert_filter:
  "filter (same k) (sort_insert lt x xs) = (if same k x then x # filter (same k) xs else filter (same k) xs)"
proof (induction xs)
  case (Cons y ys)
  have "\<not> (lt y x \<and> same k x \<and> same k y)" using same_sym same_trans unfolding same_def by blast
  with Cons show ?case by auto
qed simp

lemma stable_sort_stable: "filter (same k) (stable_sort lt xs) = filter (same k) xs"
  by (induction xs) (simp_all add: sort_insert_filter)

lemma not_both_ways: "\<not> both_ways lt xs"
  using asym by (induction xs) (auto simp: list_ex_iff)

end

section \<open>Properties\<close>

lemma setat_items:
  assumes "clean (actual_delim d) (trimmed v)" "1 \<le> i" "i \<le> int (length (parseList l d))"
  shows "\<exists>r. cf_listsetat (Some l) (Some i) (Some v) (Some d) = Inr r \<and>
      parseList r d = (parseList l d)[nat (i - 1) := trimmed v]"
  using assms(2,3) cflist.set_item [OF assms(1)] by (simp add: cf_listsetat_def delim_of_def Let_def)

lemma insertat_items:
  assumes "clean (actual_delim d) (trimmed v)" "1 \<le> i" "i \<le> int (length (parseList l d)) + 1"
  shows "\<exists>r. cf_listinsertat (Some l) (Some i) (Some v) (Some d) = Inr r \<and>
      parseList r d = take (nat (i - 1)) (parseList l d) @ trimmed v # drop (nat (i - 1)) (parseList l d)"
  using assms(2,3) cflist.insert_item [OF assms(1)] by (simp add: cf_listinsertat_def delim_of_def Let_def)

lemma deleteat_items:
  assumes "1 \<le> i" "i \<le> int (length (parseList l d))"
  shows "\<exists>r. cf_listdeleteat (Some l) (Some i) (Some d) = Inr r \<and>
      parseList r d = take (nat (i - 1)) (parseList l d) @ drop (nat i) (parseList l d)"
proof -
  have n: "Suc (nat (i - 1)) = nat i" using assms by simp
  show ?thesis
    using assms cflist.delete_item [of "nat (i - 1)" l d "nat i"]
    by (simp add: cf_listdeleteat_def delim_of_def Let_def n)
qed

lemma rest_items:
  "\<exists>r. cf_listrest (Some l) (Some d) = Inr r \<and> parseList r d = tl (parseList l d)"
proof -
  have "length xs \<le> 1 \<Longrightarrow> tl xs = []" for xs :: "bytes list" by (cases xs) auto
  then show ?thesis
    using cflist.rest_item [of l d] by (auto simp: cf_listrest_def delim_of_def Let_def)
qed

text \<open>the position built-ins edit the list they parse. With a value that is one item,
  \<open>ListSetAt\<close>, \<open>ListInsertAt\<close>, \<open>ListDeleteAt\<close> and \<open>ListRest\<close> return a text whose items are the
  updated items, whatever delimiters, blanks and empty items the input had.\<close>

theorem list_edit_correct:
  assumes "clean (actual_delim d) (trimmed v)" "1 \<le> i" "i \<le> int (length (parseList l d))"
  shows "(\<exists>r. cf_listsetat (Some l) (Some i) (Some v) (Some d) = Inr r \<and>
      parseList r d = (parseList l d)[nat (i - 1) := trimmed v]) \<and>
    (\<exists>r. cf_listinsertat (Some l) (Some i) (Some v) (Some d) = Inr r \<and>
      parseList r d = take (nat (i - 1)) (parseList l d) @ trimmed v # drop (nat (i - 1)) (parseList l d)) \<and>
    (\<exists>r. cf_listdeleteat (Some l) (Some i) (Some d) = Inr r \<and>
      parseList r d = take (nat (i - 1)) (parseList l d) @ drop (nat i) (parseList l d)) \<and>
    (\<exists>r. cf_listrest (Some l) (Some d) = Inr r \<and> parseList r d = tl (parseList l d))"
  using assms by (intro conjI setat_items insertat_items deleteat_items rest_items) simp_all

theorem list_edit_correct_witness:
  "\<exists>r. cf_listsetat (Some ''a, b,,c'') (Some 2) (Some '' x '') (Some '','') = Inr r \<and>
     parseList r '','' = (parseList ''a, b,,c'' '','')[nat (2 - 1) := trimmed '' x '']"
proof -
  have t: "trimmed '' x '' = ''x''" "actual_delim '','' = '',''" "parseList ''a, b,,c'' '','' = [''a'', ''b'', ''c'']"
    by code_simp+
  have c: "clean (actual_delim '','') (trimmed '' x '')"
    unfolding t by (simp add: clean_def strip_def is_space_def less_eq_char_def)
  show ?thesis using list_edit_correct [OF c, of 2 "''a, b,,c''"] by (simp add: t)
qed

text \<open>appending and prepending concatenate item lists for any value, one with delimiters in it
  included; so the length of the result is the sum of the lengths.\<close>

theorem list_append_correct:
  "\<exists>r r'. cf_listappend (Some l) (Some v) (Some d) = Inr r \<and>
     parseList r d = parseList l d @ parseList v d \<and>
     cf_listprepend (Some l) (Some v) (Some d) = Inr r' \<and>
     parseList r' d = parseList v d @ parseList l d \<and>
     cf_listlen (Some r) (Some d) = Inr (int (length (parseList l d)) + int (length (parseList v d)))"
proof -
  have each: "concat (map (\<lambda>x. parseList x d) (parseList l d)) = parseList l d"
    using cflist.normal_form [of l d] by (simp add: parse_joinList)
  have v: "parseList (trimmed v) d = parseList v d" by (simp add: trimmed_eq parse_strip)
  have e: "trimmed v = [] \<Longrightarrow> parseList v d = []" using v by (simp add: parseList_def)
  show ?thesis
    by (auto simp: cf_listappend_def cf_listprepend_def cf_listlen_def delim_of_def Let_def
        parse_joinList each v e)
qed

text \<open>a position outside the list is an error of the three position built-ins and nothing
  else is: they throw exactly when the position is below 1 or beyond the items.\<close>

theorem list_position_errors:
  "(cf_listgetat (Some l) (Some i) delim = Inl e \<longleftrightarrow>
      e = Throw ''ListGetAt: Index out of bounds'' \<and> (i < 1 \<or> int (length (parseList l (delim_of delim))) < i)) \<and>
   (cf_listsetat (Some l) (Some i) (Some v) delim = Inl e \<longleftrightarrow>
      e = Throw ''ListSetAt: Index out of bounds'' \<and> (i < 1 \<or> int (length (parseList l (delim_of delim))) < i)) \<and>
   (cf_listdeleteat (Some l) (Some i) delim = Inl e \<longleftrightarrow>
      e = Throw ''ListDeleteAt: Index out of bounds'' \<and> (i < 1 \<or> int (length (parseList l (delim_of delim))) < i)) \<and>
   (cf_listinsertat (Some l) (Some i) (Some v) delim = Inl e \<longleftrightarrow>
      e = Throw ''ListInsertAt: Index out of bounds'' \<and>
      (i < 1 \<or> int (length (parseList l (delim_of delim))) + 1 < i))"
  by (auto simp: cf_listgetat_def cf_listsetat_def cf_listdeleteat_def cf_listinsertat_def Let_def)

text \<open>\<open>ListFind\<close> returns the position of the first item equal to the value, and 0 when no item
  is; \<open>ListValueCount\<close> counts those items.\<close>

theorem list_find_correct:
  "(\<exists>n. cf_listfind (Some l) (Some t) delim = Inr (int n) \<and>
     (n = 0 \<and> t \<notin> set (parseList l (delim_of delim)) \<or>
      0 < n \<and> n \<le> length (parseList l (delim_of delim)) \<and> parseList l (delim_of delim) ! (n - 1) = t \<and>
      t \<notin> set (take (n - 1) (parseList l (delim_of delim))))) \<and>
   cf_listvaluecount (Some l) (Some t) delim = Inr (int (count (mset (parseList l (delim_of delim))) t))"
proof -
  let ?xs = "parseList l (delim_of delim)" and ?k = "length (takeWhile (\<lambda>x. x \<noteq> t) (parseList l (delim_of delim)))"
  have f: "cf_listfind (Some l) (Some t) delim = Inr (if t \<in> set ?xs then int (?k + 1) else 0)"
    using find_loop_pure [of ?xs "\<lambda>x. Inr (str_equals x t)" "\<lambda>x. x = t" 0]
    by (auto simp: cf_listfind_def list_search_def list_ex_iff)
  have c: "cf_listvaluecount (Some l) (Some t) delim = Inr (int (count (mset ?xs) t))"
    by (simp add: cf_listvaluecount_def count_loop_eq splitList_parse count_items)
  show ?thesis
  proof (cases "t \<in> set ?xs")
    case True
    then have lt: "?k < length ?xs" by (rule takeWhile_less) simp
    moreover have "?xs ! ?k = t" using nth_length_takeWhile [OF lt] by simp
    moreover have "take ?k ?xs = takeWhile (\<lambda>x. x \<noteq> t) ?xs" by (rule takeWhile_eq_take [symmetric])
    then have "t \<notin> set (take ?k ?xs)" by (auto dest: set_takeWhileD)
    ultimately show ?thesis using f c True by (intro conjI exI [of _ "?k + 1"]) simp_all
  next
    case False
    with f c show ?thesis by (intro conjI exI [of _ 0]) simp_all
  qed
qed

text \<open>\<open>ListRemoveDuplicates\<close> keeps one occurrence of each item and \<open>ListGetDuplicates\<close> lists
  exactly the items that occur more than once, each once, in ascending order.\<close>

theorem list_duplicates_correct:
  "(\<exists>xs. cf_listremoveduplicates (Some l) (Some d) None = Inr (joinListItems xs d) \<and>
      distinct xs \<and> set xs = set (parseList l d)) \<and>
   (\<exists>ys. cf_listgetduplicates (Some l) (Some d) = Inr (joinListItems ys d) \<and> distinct ys \<and>
      (\<forall>y. y \<in> set ys \<longleftrightarrow> 1 < count (mset (parseList l d)) y) \<and>
      sorted_lt (\<lambda>a b. compareCaseInsensitive a b < 0) ys)"
proof -
  let ?xs = "parseList l d" and ?lt = "\<lambda>a b. compareCaseInsensitive a b < 0"
  have lt: "?lt = key_less"
    by (auto simp: fun_eq_iff key_less_iff key_of_def compareCaseInsensitive_def strcasecmp_lex)
  have "str_equals = (=)" by (simp add: fun_eq_iff)
  then have "cf_listremoveduplicates (Some l) (Some d) None = Inr (joinListItems (dedup_loop (=) [] ?xs) d)"
    by (simp add: cf_listremoveduplicates_def delim_of_def splitList_parse)
  moreover have "distinct (dedup_loop (=) [] ?xs)" "set (dedup_loop (=) [] ?xs) = set ?xs"
    using dedup_equal [of "[]" ?xs] by auto
  moreover let ?ds = "dups_loop ?xs [] ?xs"
  have "cf_listgetduplicates (Some l) (Some d) = Inr (joinListItems (stable_sort ?lt ?ds) d)"
    by (simp add: cf_listgetduplicates_def delim_of_def splitList_parse Let_def)
  moreover have "distinct (stable_sort ?lt ?ds)"
    using dups_loop_set [of ?xs "[]" ?xs] stable_sort_mset [of ?lt ?ds] by (metis distinct.simps(1) mset_eq_imp_distinct_iff)
  moreover have "y \<in> set (stable_sort ?lt ?ds) \<longleftrightarrow> 1 < count (mset ?xs) y" for y
  proof -
    have "set (stable_sort ?lt ?ds) = set ?ds" using stable_sort_mset by (metis set_mset_mset)
    moreover have "y \<notin> set ?xs \<Longrightarrow> filter (\<lambda>z. z = y) ?xs = []" by (auto simp: filter_empty_conv)
    then have "1 < length (filter (\<lambda>z. z = y) ?xs) \<Longrightarrow> y \<in> set ?xs" by force
    ultimately show ?thesis
      using dups_loop_set [of ?xs "[]" ?xs] by (auto simp: count_items)
  qed
  moreover have "sorted_lt ?lt (stable_sort ?lt ?ds)" unfolding lt by (rule map_key.stable_sort_sorted)
  ultimately show ?thesis by blast
qed

lemma strcmp_strict_weak: "strict_weak (\<lambda>a b. cstr a < cstr b)"
  by unfold_locales auto

text \<open>an ascending \<open>ListSort\<close> (\<open>text\<close> or \<open>textnocase\<close>) is a stable sort: the items are permuted,
  ordered, and items equal in the order keep their sequence.\<close>

theorem list_sort_ascending:
  assumes "map to_upper t = ''TEXT'' \<or> map to_upper t = ''TEXTNOCASE''"
  shows "\<exists>ys. cf_listsort num_less (Some l) (Some t) None (Some d) None = Inr (joinListItems ys d) \<and>
     mset ys = mset (parseList l d) \<and> sorted_lt (sort_less num_less (map to_upper t)) ys \<and>
     (\<forall>k. filter (\<lambda>x. \<not> sort_less num_less (map to_upper t) k x \<and> \<not> sort_less num_less (map to_upper t) x k) ys =
          filter (\<lambda>x. \<not> sort_less num_less (map to_upper t) k x \<and> \<not> sort_less num_less (map to_upper t) x k)
            (parseList l d))"
proof -
  let ?lt = "sort_less num_less (map to_upper t)"
  have "(\<lambda>a b. compareCaseInsensitive a b < 0) = key_less"
    by (auto simp: fun_eq_iff key_less_iff key_of_def compareCaseInsensitive_def strcasecmp_lex)
  then have "?lt = (\<lambda>a b. cstr a < cstr b) \<or> ?lt = key_less"
    using assms by (elim disjE) (simp_all add: sort_less_def fun_eq_iff)
  then have sw: "strict_weak ?lt"
    using strcmp_strict_weak map_key.strict_weak_axioms by metis
  moreover have "cf_listsort num_less (Some l) (Some t) None (Some d) None
      = Inr (joinListItems (stable_sort ?lt (parseList l d)) d)"
    using strict_weak.not_both_ways [OF sw]
    by (simp add: cf_listsort_def delim_of_def splitList_parse Let_def)
  moreover have "strict_weak.same ?lt k = (\<lambda>x. \<not> ?lt k x \<and> \<not> ?lt x k)" for k
    by (simp add: fun_eq_iff strict_weak.same_def [OF sw])
  note strict_weak.stable_sort_stable [OF sw, unfolded this]
  ultimately show ?thesis
    using strict_weak.stable_sort_sorted [OF sw]
    by (intro exI [of _ "stable_sort ?lt (parseList l d)"]) (simp add: stable_sort_mset)
qed

text \<open>a descending \<open>ListSort\<close> of a list with a repeated item is undefined: the comparison it
  passes to \<open>std::stable_sort\<close> is the negation of less-than and holds both ways between equals.\<close>

theorem list_sort_descending_undefined:
  assumes "map to_upper t = ''TEXT'' \<or> map to_upper t = ''TEXTNOCASE''" "map to_upper o1 = ''DESC''"
    "\<not> distinct (parseList l d)"
  shows "cf_listsort num_less (Some l) (Some t) (Some o1) (Some d) None = Inl UB"
proof -
  let ?lt = "\<lambda>a b. \<not> sort_less num_less (map to_upper t) a b"
  have "compareCaseInsensitive x x = 0" for x by (simp add: compareCaseInsensitive_def strcasecmp_lex)
  then have refl: "?lt x x" for x using assms(1) by (auto simp: sort_less_def)
  have "\<not> distinct xs \<Longrightarrow> both_ways ?lt xs" for xs
    using refl by (induction xs) (auto simp: list_ex_iff)
  with assms show ?thesis by (simp add: cf_listsort_def delim_of_def splitList_parse Let_def)
qed

theorem list_sort_descending_undefined_witness:
  "cf_listsort (\<lambda>a b. False) (Some ''b,a,b'') (Some ''text'') (Some ''desc'') (Some '','') None = Inl UB"
proof -
  have "map to_upper ''text'' = ''TEXT''" "map to_upper ''desc'' = ''DESC''"
    "parseList ''b,a,b'' '','' = [''b'', ''a'', ''b'']" by code_simp+
  then show ?thesis by (intro list_sort_descending_undefined) simp_all
qed

theorem list_sort_ascending_witness:
  "\<exists>ys. cf_listsort (\<lambda>a b. False) (Some ''b,a'') (Some ''text'') None (Some '','') None = Inr (joinListItems ys '','') \<and>
     mset ys = mset (parseList ''b,a'' '','')"
proof -
  have "map to_upper ''text'' = ''TEXT''" by code_simp
  from list_sort_ascending [where num_less = "\<lambda>a b. False" and l = "''b,a''" and d = "'',''",
    OF disjI1 [OF this]] show ?thesis by blast
qed

text \<open>\<open>ListContains\<close> with an empty value on a list with an item hands a null pointer to
  \<open>strstr\<close>: undefined behaviour, not a result.\<close>

theorem list_contains_empty_undefined:
  assumes "parseList l (delim_of delim) \<noteq> []"
  shows "cf_listcontains (Some l) (Some []) delim = Inl UB \<and> cf_listcontainsnocase (Some l) (Some []) delim = Inl UB"
proof -
  obtain x xs where x: "parseList l (delim_of delim) = x # xs" using assms by (cases "parseList l (delim_of delim)") auto
  then have "x \<noteq> []" using cflist.parse_ok [of "delim_of delim" l] by (simp add: clean_def)
  with x show ?thesis
    by (simp add: cf_listcontains_def cf_listcontainsnocase_def list_search_def str_contains_def
      str_containsCaseInsensitive_def)
qed

theorem list_contains_empty_undefined_witness:
  "cf_listcontains (Some ''a'') (Some []) None = Inl UB \<and> cf_listcontainsnocase (Some ''a'') (Some []) None = Inl UB"
proof -
  have "parseList ''a'' (delim_of None) = [''a'']" by code_simp
  then show ?thesis by (intro list_contains_empty_undefined) simp
qed

text \<open>\<open>ListReduce\<close> runs the callback over the items in order with their positions, threading
  the accumulator and the state, and stops at the first error.\<close>

theorem list_reduce_fold:
  "cf_listreduce (Some l) (Some cb) v delim (Some False) s =
     foldl (\<lambda>r (i, x). ebind r (\<lambda>(a, s). cb a x i l s)) (Inr (v, s))
       (zip (map int [1..<Suc (length (parseList l (delim_of delim)))]) (parseList l (delim_of delim)))"
proof -
  have inl: "foldl (\<lambda>r (i, x). ebind r (\<lambda>(a, s). cb a x i l s)) (Inl e) ps = Inl e" for e ps
    by (induction ps) auto
  have "reduce_cb cb l (int n) xs v s =
      foldl (\<lambda>r (i, x). ebind r (\<lambda>(a, s). cb a x i l s)) (Inr (v, s))
        (zip (map int [Suc n..<Suc n + length xs]) xs)" for n xs
  proof (induction xs arbitrary: n v s)
    case (Cons x xs)
    have up: "[Suc n..<Suc n + length (x # xs)] = Suc n # [Suc (Suc n)..<Suc (Suc n) + length xs]"
      using upt_conv_Cons [of "Suc n" "Suc n + length (x # xs)"] by (simp del: upt.simps)
    show ?case
    proof (cases "cb v x (int n + 1) l s")
      case (Inl e)
      then show ?thesis unfolding up by (simp add: inl add.commute)
    next
      case (Inr r)
      then show ?thesis unfolding up using Cons.IH [of "Suc n" "fst r" "snd r"]
        by (simp add: split_beta add.commute)
    qed
  qed simp
  from this [of 0 "parseList l (delim_of delim)"] show ?thesis
    by (simp only: cf_listreduce_def splitList_parse option.case prod.case option.inject simp_thms
        of_nat_0 add_0 One_nat_def add_Suc)
qed

end
