(* ===== verification/TemplateReader.thy ===== *)
theory TemplateReader
  imports StringOps
begin

text \<open>
  Reading a template source and finding its encoding (\<open>src/template_reader.cpp\<close>): the byte order mark, the
  \<open>pageEncoding\<close> directives, charset detection and the default, in ColdFusion's order of precedence.

  ICU and the textparser are not part of the repository: the converter, the detector and the tokenizer are
  fields of the record \<open>reader_env\<close>, together with the two settings of \<open>src/config.cpp\<close> the reader uses.
\<close>

section \<open>The environment\<close>

datatype token_kind = StartTag | Variable | SingleString | DoubleString | OtherToken

datatype token = Token (kind: token_kind) (tpos: nat) (tlen: nat) (children: "token list")

text \<open>One call of \<open>ucnv_convert\<close>: the output, \<open>U_BUFFER_OVERFLOW_ERROR\<close>, or another failure.\<close>

datatype conversion = Converted bytes | Overflow | Failed

record reader_env =
  supported :: "bytes \<Rightarrow> bool"
  ucnv_convert :: "bytes \<Rightarrow> int \<Rightarrow> bytes \<Rightarrow> conversion"
  ucsdet_detect :: "bytes \<Rightarrow> (bytes \<times> int) option"
  textparser :: "bytes \<Rightarrow> bytes \<Rightarrow> (token list \<times> (nat \<Rightarrow> nat)) option"
  charsetDetectionMinConfidence :: int
  defaultInputCharset :: bytes

section \<open>Names of encodings\<close>

definition detectBom :: "bytes \<Rightarrow> bytes \<times> nat" where
  "detectBom bs = (if take 3 bs = [CHR 0xEF, CHR 0xBB, CHR 0xBF] then (''UTF8'', 3)
     else if take 2 bs = [CHR 0xFF, CHR 0xFE] then (''UnicodeLittleUnmarked'', 2)
     else if take 2 bs = [CHR 0xFE, CHR 0xFF] then (''UnicodeBigUnmarked'', 2)
     else ([], 0))"

definition icuConverterName :: "bytes \<Rightarrow> bytes" where
  "icuConverterName name = (let up = map (\<lambda>c. if c = CHR ''_'' then CHR ''-'' else c) (map to_upper name);
       noDash = filter (\<lambda>c. c \<noteq> CHR ''-'') up
     in if noDash = ''UTF8'' then ''UTF-8''
        else if noDash = ''UTF16LE'' \<or> name = ''UnicodeLittleUnmarked'' then ''UTF-16LE''
        else if noDash = ''UTF16BE'' \<or> name = ''UnicodeBigUnmarked'' then ''UTF-16BE''
        else name)"

definition no_dash :: "bytes \<Rightarrow> bytes" where
  "no_dash name = filter (\<lambda>c. c \<noteq> CHR ''-'' \<and> c \<noteq> CHR ''_'') (map to_upper name)"

definition not_supported_page :: "bytes \<Rightarrow> err" where
  "not_supported_page name = Throw (''The specified page encoding, '' @ name @ '', is not supported.'')"

definition canonical_alias :: "bytes \<Rightarrow> bytes option" where
  "canonical_alias n = (if n = ''UTF8'' then Some ''UTF8''
     else if n = ''UTF16LE'' then Some ''UnicodeLittleUnmarked''
     else if n = ''UTF16BE'' then Some ''UnicodeBigUnmarked''
     else if n = ''UTF16'' then Some ''UTF-16''
     else if n \<in> {''ISO88591'', ''LATIN1'', ''88591''} then Some ''ISO-8859-1''
     else if n \<in> {''USASCII'', ''ASCII'', ''ISO646US''} then Some ''US-ASCII''
     else if n \<in> {''CP1252'', ''WINDOWS1252''} then Some ''windows-1252''
     else None)"

definition javaCanonicalName :: "reader_env \<Rightarrow> bytes \<Rightarrow> bytes res" where
  "javaCanonicalName env name = (case canonical_alias (no_dash name) of Some c \<Rightarrow> Inr c
     | None \<Rightarrow> if name = [] then Inl (not_supported_page [CHR 0x27, CHR 0x27])
         else if \<not> supported env name then Inl (not_supported_page name)
         else Inr name)"

definition isUtf16Name :: "bytes \<Rightarrow> bool" where
  "isUtf16Name name = (map to_lower name \<in> {''utf16'', ''utf-16''})"

definition encodingIsMatch :: "reader_env \<Rightarrow> bytes \<Rightarrow> bytes \<Rightarrow> bool res" where
  "encodingIsMatch env desired used = ebind (javaCanonicalName env desired) (\<lambda>d.
     ebind (javaCanonicalName env used) (\<lambda>u. Inr (d = u \<or>
       isUtf16Name desired \<and> u \<in> {''UnicodeLittleUnmarked'', ''UnicodeBigUnmarked''})))"

definition pageEncodingError :: "reader_env \<Rightarrow> bytes \<Rightarrow> bytes" where
  "pageEncodingError env name = (case javaCanonicalName env name of Inl (Throw msg) \<Rightarrow> msg | _ \<Rightarrow> [])"

section \<open>Decoding\<close>

text \<open>The output buffer is doubled until the text fits; its size is a 32-bit \<open>int\<close>.\<close>

function decode_loop :: "reader_env \<Rightarrow> bytes \<Rightarrow> bytes \<Rightarrow> int \<Rightarrow> bytes res" where
  "decode_loop env charset bs cap = (if cap \<le> 0 \<or> 2 ^ 31 \<le> cap then Inl UB
     else case ucnv_convert env (icuConverterName charset) cap bs of
       Overflow \<Rightarrow> decode_loop env charset bs (cap * 2)
     | Failed \<Rightarrow> Inl (not_supported_page charset)
     | Converted out \<Rightarrow> Inr out)"
  by pat_completeness auto

termination by (relation "measure (\<lambda>(env, charset, bs, cap). nat (2 ^ 31 - cap))") auto

declare decode_loop.simps [simp del]

definition decodeToUtf8 :: "reader_env \<Rightarrow> bytes \<Rightarrow> bytes \<Rightarrow> bytes res" where
  "decodeToUtf8 env bs charset = (if bs = [] then Inr [] else decode_loop env charset bs (int (length bs) * 4 + 16))"

definition detectCharset :: "reader_env \<Rightarrow> bytes \<Rightarrow> bytes" where
  "detectCharset env bs = (if bs = [] then [] else (case ucsdet_detect env bs of
       None \<Rightarrow> []
     | Some (name, conf) \<Rightarrow> if charsetDetectionMinConfidence env \<le> conf \<and> supported env name then name else []))"

section \<open>The directives\<close>

function find_from :: "bytes \<Rightarrow> bytes \<Rightarrow> nat \<Rightarrow> nat option" where
  "find_from pat s i = (if length s < i + length pat then None
     else if take (length pat) (drop i s) = pat then Some i else find_from pat s (Suc i))"
  by pat_completeness auto

termination by (relation "measure (\<lambda>(pat, s, i). Suc (length s) - i)") auto

declare find_from.simps [simp del]

lemma find_from_bounds: "find_from pat s i = Some p \<Longrightarrow> i \<le> p \<and> p + length pat \<le> length s"
  by (induction pat s i rule: find_from.induct) (subst (asm) (2) find_from.simps, fastforce split: if_splits)

definition word_char :: "char \<Rightarrow> bool" where
  "word_char c \<longleftrightarrow> is_alnum c \<or> c = CHR ''_''"

definition attr_value :: "bytes \<Rightarrow> bytes option" where
  "attr_value s = (case dropWhile (\<lambda>c. c \<in> {CHR ''='', CHR '' '', CHR 0x09}) s of
       [] \<Rightarrow> None
     | q # r \<Rightarrow> if q \<in> {CHR 0x22, CHR 0x27} then (if q \<in> set r then Some (takeWhile (\<lambda>c. c \<noteq> q) r) else None)
         else Some (takeWhile (\<lambda>c. c \<notin> {CHR '' '', CHR 0x09, CHR 0x0D, CHR 0x0A, CHR ''>''}) (q # r)))"

function extract_loop :: "bytes \<Rightarrow> nat \<Rightarrow> bytes option" where
  "extract_loop tag pos = (let low = map to_lower tag in
     case find_from ''pageencoding'' low pos of None \<Rightarrow> None
     | Some p \<Rightarrow> let after = p + 12 in
         if (p = 0 \<or> \<not> word_char (low ! (p - 1))) \<and> (length low \<le> after \<or> \<not> word_char (low ! after))
         then attr_value (drop after tag) else extract_loop tag after)"
  by pat_completeness auto

termination
  by (relation "measure (\<lambda>(tag, pos). Suc (length tag) - pos)") (auto dest!: find_from_bounds)

declare extract_loop.simps [simp del]

definition extractPageEncoding :: "bytes \<Rightarrow> bytes option" where
  "extractPageEncoding tag = extract_loop tag 0"

definition sliceToken :: "token \<Rightarrow> bytes \<Rightarrow> bytes" where
  "sliceToken t text = (if length text \<le> tpos t then [] else take (tlen t) (drop (tpos t) text))"

definition quoted_literal :: "bytes \<Rightarrow> bytes option" where
  "quoted_literal lit = (if 2 \<le> length lit \<and> hd lit \<in> {CHR 0x22, CHR 0x27} \<and> last lit = hd lit
     then Some (take (length lit - 2) (drop 1 lit)) else None)"

text \<open>The value a token contributes; the next sibling is that of the \<open>pageencoding "..."\<close> statement.\<close>

definition directive_of :: "bytes \<Rightarrow> token \<Rightarrow> token list \<Rightarrow> bytes option" where
  "directive_of text t next = (case kind t of
       StartTag \<Rightarrow> let tag = sliceToken t text in
         if find_from ''<cfprocessingdirective'' (map to_lower tag) 0 = Some 0 then extractPageEncoding tag else None
     | Variable \<Rightarrow> if map to_lower (sliceToken t text) = ''pageencoding'' then (case next of [] \<Rightarrow> None
         | sib # _ \<Rightarrow> if kind sib \<in> {SingleString, DoubleString} then quoted_literal (sliceToken sib text) else None)
         else None
     | _ \<Rightarrow> None)"

fun scanDirectiveTokens :: "bytes \<Rightarrow> (nat \<Rightarrow> nat) \<Rightarrow> token list \<Rightarrow> (bytes \<times> nat) list" where
  "scanDirectiveTokens text line_at [] = []"
| "scanDirectiveTokens text line_at (Token k p l ch # next) =
     (case directive_of text (Token k p l ch) next of None \<Rightarrow> [] | Some pe \<Rightarrow> [(pe, line_at p + 1)])
     @ scanDirectiveTokens text line_at ch @ scanDirectiveTokens text line_at next"

definition findPageEncodingDirectives :: "reader_env \<Rightarrow> bytes \<Rightarrow> bytes \<Rightarrow> (bytes \<times> nat) list" where
  "findPageEncodingDirectives env text filename = (if find_from ''pageencoding'' (map to_lower text) 0 = None then []
     else case textparser env text filename of None \<Rightarrow> []
       | Some (tokens, line_at) \<Rightarrow> scanDirectiveTokens text line_at tokens)"

section \<open>Reading\<close>

record read_result =
  utf8Text :: bytes
  usedEncoding :: bytes
  bomEncoding :: bytes
  explicitEncoding :: bool

definition not_constant :: "nat \<Rightarrow> err" where
  "not_constant line = Throw (''Expression at line '' @ number (int line) 10 @ '' has to be constant value.'')"

definition bom_conflict :: "bytes \<Rightarrow> bytes \<Rightarrow> err" where
  "bom_conflict pe bom = Throw (''Cannot use the charset '' @ pe
     @ '' because the file has a Byte Order Mark indicating it uses the charset '' @ bom @ ''.'')"

fun apply_directives :: "reader_env \<Rightarrow> bytes \<Rightarrow> (bytes \<times> nat) list \<Rightarrow> bytes \<Rightarrow> bytes \<Rightarrow> (bytes \<times> bytes) res" where
  "apply_directives env bom [] chosen used = Inr (chosen, used)"
| "apply_directives env bom ((pe, line) # ds) chosen used = (if CHR ''#'' \<in> set pe then Inl (not_constant line)
     else ebind (encodingIsMatch env pe used) (\<lambda>match.
       if match then apply_directives env bom ds chosen used
       else if bom \<noteq> [] then Inl (bom_conflict pe bom)
       else ebind (javaCanonicalName env pe) (\<lambda>u. apply_directives env bom ds pe u)))"

definition provisional_charset :: "reader_env \<Rightarrow> bytes \<Rightarrow> bytes \<Rightarrow> bytes" where
  "provisional_charset env bom body = (if bom \<noteq> [] then bom
     else let detected = detectCharset env body in if detected \<noteq> [] then detected else defaultInputCharset env)"

definition readTemplateBuffer :: "reader_env \<Rightarrow> bytes \<Rightarrow> bytes \<Rightarrow> read_result res" where
  "readTemplateBuffer env bs filename = (let (bom, bomLen) = detectBom bs; body = drop bomLen bs;
       chosen = provisional_charset env bom body in
     ebind (javaCanonicalName env chosen) (\<lambda>used.
     ebind (decodeToUtf8 env body chosen) (\<lambda>provisional.
     ebind (apply_directives env bom (findPageEncodingDirectives env provisional filename) chosen used) (\<lambda>(chosen', used').
     ebind (decodeToUtf8 env body chosen') (\<lambda>text.
       Inr \<lparr>utf8Text = text, usedEncoding = used', bomEncoding = bom, explicitEncoding = (bom \<noteq> [])\<rparr>)))))"

section \<open>Canonical names\<close>

definition icu_knows_java_names :: "reader_env \<Rightarrow> bool" where
  "icu_knows_java_names env \<longleftrightarrow> supported env ''UnicodeLittleUnmarked'' \<and> supported env ''UnicodeBigUnmarked''"

lemma alias_fixed:
  "canonical_alias (no_dash ''UTF8'') = Some ''UTF8''" "canonical_alias (no_dash ''UTF-16'') = Some ''UTF-16''"
  "canonical_alias (no_dash ''ISO-8859-1'') = Some ''ISO-8859-1''" "canonical_alias (no_dash ''US-ASCII'') = Some ''US-ASCII''"
  "canonical_alias (no_dash ''windows-1252'') = Some ''windows-1252''"
  "canonical_alias (no_dash ''UnicodeLittleUnmarked'') = None" "canonical_alias (no_dash ''UnicodeBigUnmarked'') = None"
  by code_simp+

lemma alias_range: "canonical_alias n = Some c \<Longrightarrow> c \<in> {''UTF8'', ''UnicodeLittleUnmarked'', ''UnicodeBigUnmarked'',
    ''UTF-16'', ''ISO-8859-1'', ''US-ASCII'', ''windows-1252''}"
  unfolding canonical_alias_def
  by (simp only: option.inject option.distinct insert_iff simp_thms split: if_split_asm)

lemma canonical_fixed:
  assumes "icu_knows_java_names env" "javaCanonicalName env name = Inr c"
  shows "javaCanonicalName env c = Inr c"
proof (cases "canonical_alias (no_dash name)")
  case None
  with assms(2) show ?thesis by (auto simp: javaCanonicalName_def split: if_splits)
next
  case (Some a)
  with assms(2) have "a = c" by (simp add: javaCanonicalName_def)
  with alias_range [OF Some] have "c \<in> {''UTF8'', ''UTF-16'', ''ISO-8859-1'', ''US-ASCII'', ''windows-1252''}
      \<or> c \<in> {''UnicodeLittleUnmarked'', ''UnicodeBigUnmarked''}"
    by (elim insertE emptyE) (simp_all only: insert_iff simp_thms)
  then show ?thesis
  proof
    assume "c \<in> {''UTF8'', ''UTF-16'', ''ISO-8859-1'', ''US-ASCII'', ''windows-1252''}"
    then show ?thesis by (elim insertE emptyE) (simp_all only: javaCanonicalName_def alias_fixed option.case)
  next
    assume "c \<in> {''UnicodeLittleUnmarked'', ''UnicodeBigUnmarked''}"
    with assms(1) show ?thesis
      by (elim insertE emptyE) (simp_all add: javaCanonicalName_def alias_fixed icu_knows_java_names_def)
  qed
qed

lemma match_own_name:
  "icu_knows_java_names env \<Longrightarrow> javaCanonicalName env pe = Inr u \<Longrightarrow> encodingIsMatch env pe u = Inr True"
  by (simp add: encodingIsMatch_def canonical_fixed)

section \<open>The order of precedence\<close>

text \<open>What a list of directives objects to in a file whose mark names the encoding.\<close>

fun first_objection :: "reader_env \<Rightarrow> bytes \<Rightarrow> bytes \<Rightarrow> (bytes \<times> nat) list \<Rightarrow> err option" where
  "first_objection env bom used [] = None"
| "first_objection env bom used ((pe, line) # ds) = (if CHR ''#'' \<in> set pe then Some (not_constant line)
     else case encodingIsMatch env pe used of Inl e \<Rightarrow> Some e
       | Inr match \<Rightarrow> if match then first_objection env bom used ds else Some (bom_conflict pe bom))"

lemma apply_directives_bom: "bom \<noteq> [] \<Longrightarrow> apply_directives env bom ds chosen used =
    (case first_objection env bom used ds of None \<Rightarrow> Inr (chosen, used) | Some e \<Rightarrow> Inl e)"
  by (induction ds) (auto simp: ebind_def split: sum.split)

lemma apply_directives_last:
  assumes "icu_knows_java_names env"
  shows "apply_directives env [] ds chosen used = Inr (chosen', used') \<Longrightarrow> javaCanonicalName env chosen = Inr used \<Longrightarrow>
    javaCanonicalName env chosen' = Inr used' \<and> (if ds = [] then chosen' = chosen else encodingIsMatch env (fst (last ds)) used' = Inr True)"
proof (induction ds arbitrary: chosen used)
  case (Cons d ds)
  obtain pe line where d: "d = (pe, line)" by fastforce
  from Cons.prems(1) d obtain m where m: "encodingIsMatch env pe used = Inr m" by (auto simp: ebind_eq_Inr split: if_splits)
  from Cons.prems d m obtain c u where cu: "apply_directives env [] ds c u = Inr (chosen', used')" "javaCanonicalName env c = Inr u"
      "encodingIsMatch env pe u = Inr True"
    using match_own_name [OF assms] by (cases m) (auto simp: ebind_eq_Inr split: if_splits)
  from Cons.IH [OF cu(1,2)] cu show ?case by (cases "ds = []") (auto simp: d)
qed auto

lemma detectBom_length: "detectBom bs = ([], n) \<Longrightarrow> n = 0"
  by (auto simp: detectBom_def split: if_splits)

definition example_env :: reader_env where
  "example_env = \<lparr>supported = (\<lambda>_. True), ucnv_convert = (\<lambda>_ _ bs. Converted bs), ucsdet_detect = (\<lambda>_. None),
     textparser = (\<lambda>src _. Some ([Token StartTag 0 (length src) []], \<lambda>_. 0)),
     charsetDetectionMinConfidence = 100, defaultInputCharset = ''UTF-8''\<rparr>"

text \<open>C25: a byte order mark is authoritative. The text is the rest of the file decoded with the encoding of the
  mark and the result reports that encoding, unless a directive objects; then the error is that of the first one
  that does, a value that is not constant, an unknown name, or a name of another encoding.\<close>

theorem bom_authoritative:
  assumes "detectBom bs = (bom, n)" "bom \<noteq> []" "javaCanonicalName env bom = Inr used" "decodeToUtf8 env (drop n bs) bom = Inr text"
  shows "readTemplateBuffer env bs file = (case first_objection env bom used (findPageEncodingDirectives env text file) of
      None \<Rightarrow> Inr \<lparr>utf8Text = text, usedEncoding = used, bomEncoding = bom, explicitEncoding = True\<rparr> | Some e \<Rightarrow> Inl e)"
  using assms by (simp add: readTemplateBuffer_def provisional_charset_def apply_directives_bom split: option.split)

theorem bom_authoritative_witness:
  "readTemplateBuffer example_env ([CHR 0xEF, CHR 0xBB, CHR 0xBF] @ ''<cfprocessingdirective pageencoding=latin1>'') []
    = Inl (bom_conflict ''latin1'' ''UTF8'')"
proof -
  let ?src = "''<cfprocessingdirective pageencoding=latin1>''"
  have "first_objection example_env ''UTF8'' ''UTF8'' (findPageEncodingDirectives example_env ?src []) = Some (bom_conflict ''latin1'' ''UTF8'')"
    by code_simp
  moreover have "detectBom ([CHR 0xEF, CHR 0xBB, CHR 0xBF] @ ?src) = (''UTF8'', 3)" "''UTF8'' \<noteq> []"
    "javaCanonicalName example_env ''UTF8'' = Inr ''UTF8''"
    "decodeToUtf8 example_env (drop 3 ([CHR 0xEF, CHR 0xBB, CHR 0xBF] @ ?src)) ''UTF8'' = Inr ?src" by code_simp+
  ultimately show ?thesis using bom_authoritative [of "[CHR 0xEF, CHR 0xBB, CHR 0xBF] @ ?src" "''UTF8''" 3 example_env "''UTF8''" ?src "[]"]
    by simp
qed

text \<open>C31: without a mark, the text is decoded with an encoding whose canonical name the result reports; when the
  file has directives it is one the last of them names, and otherwise the detected or default one.\<close>

theorem directive_overrides:
  assumes "icu_knows_java_names env" "detectBom bs = ([], n)" "readTemplateBuffer env bs file = Inr r"
  shows "\<exists>chosen text ds. decodeToUtf8 env bs (provisional_charset env [] bs) = Inr text \<and> ds = findPageEncodingDirectives env text file
    \<and> decodeToUtf8 env bs chosen = Inr (utf8Text r) \<and> javaCanonicalName env chosen = Inr (usedEncoding r) \<and> \<not> explicitEncoding r
    \<and> (if ds = [] then chosen = provisional_charset env [] bs else encodingIsMatch env (fst (last ds)) (usedEncoding r) = Inr True)"
proof -
  let ?c = "provisional_charset env [] bs"
  from assms(2) have n: "n = 0" by (rule detectBom_length)
  from assms(3) obtain used prov c u out where r: "javaCanonicalName env ?c = Inr used" "decodeToUtf8 env bs ?c = Inr prov"
      "apply_directives env [] (findPageEncodingDirectives env prov file) ?c used = Inr (c, u)" "decodeToUtf8 env bs c = Inr out"
      "r = \<lparr>utf8Text = out, usedEncoding = u, bomEncoding = [], explicitEncoding = False\<rparr>"
    by (auto simp: readTemplateBuffer_def assms(2) n Let_def ebind_eq_Inr)
  from apply_directives_last [OF assms(1) r(3,1)] r show ?thesis by auto
qed

theorem directive_overrides_witness:
  "\<exists>r. readTemplateBuffer example_env ''<cfprocessingdirective pageencoding=latin1>'' [] = Inr r
    \<and> (\<exists>chosen. javaCanonicalName example_env chosen = Inr (usedEncoding r) \<and> \<not> explicitEncoding r)"
proof -
  let ?src = "''<cfprocessingdirective pageencoding=latin1>''"
  have k: "icu_knows_java_names example_env" and b: "detectBom ?src = ([], 0)"
    and r: "readTemplateBuffer example_env ?src [] = Inr \<lparr>utf8Text = ?src, usedEncoding = ''ISO-8859-1'', bomEncoding = [], explicitEncoding = False\<rparr>"
    by code_simp+
  from directive_overrides [OF k b r] r show ?thesis by metis
qed

section \<open>The attribute\<close>

lemma find_from_first:
  assumes "\<And>i. i < length pre \<Longrightarrow> take (length pat) (drop i (pre @ pat)) \<noteq> pat"
  shows "j \<le> length pre \<Longrightarrow> find_from pat (pre @ pat @ post) j = Some (length pre)"
proof (induction "length pre - j" arbitrary: j)
  case 0
  then have "j = length pre" by simp
  then show ?case by (simp add: find_from.simps [of pat _ "length pre"])
next
  case (Suc k)
  then have j: "j < length pre" by simp
  have "drop j (pre @ pat @ post) = drop j (pre @ pat) @ post" using j by simp
  moreover have "length pat \<le> length (drop j (pre @ pat))" using j by simp
  ultimately have eq: "take (length pat) (drop j (pre @ pat @ post)) = take (length pat) (drop j (pre @ pat))"
    by (simp only: take_append) simp
  have "take (length pat) (drop j (pre @ pat @ post)) \<noteq> pat" unfolding eq by (rule assms [OF j])
  moreover have "find_from pat (pre @ pat @ post) (Suc j) = Some (length pre)" using Suc j by simp
  ultimately show ?case using j by (simp add: find_from.simps [of pat _ j])
qed

text \<open>a quoted \<open>pageEncoding\<close> attribute, in any case, after text that holds no earlier occurrence and ends
  in no word character, is read as the characters between its quotes.\<close>

theorem page_encoding_extracted:
  assumes "map to_lower name = ''pageencoding''" "q \<in> {CHR 0x22, CHR 0x27}" "q \<notin> set v"
    and "pre = [] \<or> \<not> word_char (to_lower (last pre))"
    and "\<And>i. i < length pre \<Longrightarrow> take 12 (drop i (map to_lower pre @ ''pageencoding'')) \<noteq> ''pageencoding''"
  shows "extractPageEncoding (pre @ name @ ''='' @ [q] @ v @ [q] @ post) = Some v"
proof -
  let ?tag = "pre @ name @ ''='' @ [q] @ v @ [q] @ post"
  let ?post = "map to_lower (''='' @ [q] @ v @ [q] @ post)"
  have low: "map to_lower ?tag = map to_lower pre @ ''pageencoding'' @ ?post" using assms(1) by simp
  have len: "length name = 12" using arg_cong [OF assms(1), of length] by simp
  have F: "find_from ''pageencoding'' (map to_lower ?tag) 0 = Some (length (map to_lower pre))"
    unfolding low
  proof (rule find_from_first)
    fix i assume "i < length (map to_lower pre)"
    then have "i < length pre" by simp
    moreover have "length ''pageencoding'' = 12" by simp
    ultimately show "take (length ''pageencoding'') (drop i (map to_lower pre @ ''pageencoding'')) \<noteq> ''pageencoding''"
      using assms(5) by metis
  qed simp
  have "pre = [] \<or> \<not> word_char (map to_lower ?tag ! (length pre - 1))"
    using assms(4) by (cases pre rule: rev_cases) (simp_all add: nth_append)
  moreover have "map to_lower ?tag ! (length pre + 12) = CHR ''=''"
    unfolding low by (simp add: nth_append to_lower_def is_upper_def char_le_nat)
  moreover have "\<not> word_char (CHR ''='')" by code_simp
  ultimately have "(length pre = 0 \<or> \<not> word_char (map to_lower ?tag ! (length pre - 1)))
      \<and> (length (map to_lower ?tag) \<le> length pre + 12 \<or> \<not> word_char (map to_lower ?tag ! (length pre + 12)))"
    by (simp only: length_0_conv simp_thms)
  then have step: "extract_loop ?tag 0 = attr_value (drop (length pre + 12) ?tag)"
    by (subst extract_loop.simps) (simp only: Let_def F option.case length_map if_True simp_thms)
  have "drop (length pre + 12) ?tag = ''='' @ [q] @ v @ [q] @ post" using len by simp
  moreover have "attr_value (''='' @ [q] @ v @ [q] @ post) = Some v"
    using assms(2,3) by (auto simp: attr_value_def takeWhile_tail)
  ultimately show ?thesis unfolding extractPageEncoding_def step by (simp only:)
qed

theorem page_encoding_extracted_witness:
  "extractPageEncoding (''<cfprocessingdirective '' @ ''pageEncoding'' @ ''='' @ [CHR 0x22] @ ''utf-8'' @ [CHR 0x22] @ ''>'') = Some ''utf-8''"
proof (rule page_encoding_extracted)
  have "list_all (\<lambda>i. take 12 (drop i (map to_lower ''<cfprocessingdirective '' @ ''pageencoding'')) \<noteq> ''pageencoding'') [0 ..< 23]"
    by code_simp
  then show "i < length ''<cfprocessingdirective '' \<Longrightarrow> take 12 (drop i (map to_lower ''<cfprocessingdirective '' @ ''pageencoding'')) \<noteq> ''pageencoding''" for i
    by (simp only: list_all_iff set_upt atLeastLessThan_iff) simp
  show "''<cfprocessingdirective '' = [] \<or> \<not> word_char (to_lower (last ''<cfprocessingdirective ''))" by code_simp
qed (code_simp, simp_all)

end
