(* ===== verification/TemplateCache.thy ===== *)
theory TemplateCache
  imports Prelude "HOL-Library.AList"
begin

text \<open>
  The per-worker cache of compiled templates and components (\<open>src/template_cache.cpp\<close>) and the reference counts
  of component definitions (\<open>component_info_retain\<close>, \<open>component_info_release\<close> and the links \<open>cf_component_load\<close> makes, in
  \<open>src/core/core_component.cpp\<close>).

  The file system changes under the cache: a request reads the modification time, compiles, and may read the time
  again, each at its own moment. \<open>snapshot\<close> is the state of the files at one moment, the content of a file and its
  modification time in nanoseconds; a history is a function from moments to snapshots. The
  compiler is a parameter, a function of the path and of the content it reads. A component definition holds a reference
  on each of its parent, its parent interfaces and the interfaces it implements. A \<open>std::map\<close> is an
  association list with distinct keys.
\<close>

section \<open>State\<close>

type_synonym path = bytes

type_synonym snapshot = "path \<Rightarrow> (int \<times> bytes) option"

record 'd component_info =
  refs :: int
  definition_of :: 'd
  parent :: "nat option"
  interfaceParents :: "nat list"
  interfaces :: "nat list"

definition links :: "'d component_info \<Rightarrow> nat list" where
  "links info = (case parent info of None \<Rightarrow> [] | Some p \<Rightarrow> [p]) @ interfaceParents info @ interfaces info"

definition new_component :: "'d \<Rightarrow> 'd component_info" where
  "new_component d = \<lparr>refs = 1, definition_of = d, parent = None, interfaceParents = [], interfaces = []\<rparr>"

record ('f, 'd) template_cache =
  m_templates :: "(path \<times> 'f) list"
  m_timestamps :: "(path \<times> int) list"
  m_components :: "(path \<times> nat) list"
  m_componentTimestamps :: "(path \<times> int) list"
  g_compiledTemplates :: int
  g_compiledComponents :: int
  infos :: "nat \<Rightarrow> 'd component_info option"
  next_info :: nat

definition empty_cache :: "('f, 'd) template_cache" where
  "empty_cache = \<lparr>m_templates = [], m_timestamps = [], m_components = [], m_componentTimestamps = [],
     g_compiledTemplates = 0, g_compiledComponents = 0, infos = Map.empty, next_info = 0\<rparr>"

section \<open>Operations\<close>

text \<open>\<open>st_mtime\<close> is the whole seconds of the modification time.\<close>

definition getFileModTime :: "snapshot \<Rightarrow> path \<Rightarrow> int" where
  "getFileModTime w p = (case w p of Some (t, _) \<Rightarrow> t div 10 ^ 9 | None \<Rightarrow> 0)"

definition component_info_retain :: "nat \<Rightarrow> ('f, 'd) template_cache \<Rightarrow> ('f, 'd) template_cache res" where
  "component_info_retain i st = (case infos st i of None \<Rightarrow> Inl UB
     | Some info \<Rightarrow> Inr (st\<lparr>infos := (infos st)(i \<mapsto> info\<lparr>refs := refs info + 1\<rparr>)\<rparr>))"

text \<open>Releasing the last reference of a definition releases those it holds, its parent's first, and then deletes it. The
  recursion goes no deeper than there are definitions unless the links form a cycle, in which it would not end.\<close>

fun release_depth :: "nat \<Rightarrow> nat \<Rightarrow> ('f, 'd) template_cache \<Rightarrow> ('f, 'd) template_cache res"
  and release_list :: "nat \<Rightarrow> nat list \<Rightarrow> ('f, 'd) template_cache \<Rightarrow> ('f, 'd) template_cache res" where
  "release_depth 0 i st = Inl UB"
| "release_depth (Suc n) i st = (case infos st i of None \<Rightarrow> Inl UB
     | Some info \<Rightarrow> let st1 = st\<lparr>infos := (infos st)(i \<mapsto> info\<lparr>refs := refs info - 1\<rparr>)\<rparr> in
         if 0 < refs info - 1 then Inr st1
         else ebind (release_list n (links info) st1) (\<lambda>st2. Inr (st2\<lparr>infos := (infos st2)(i := None)\<rparr>)))"
| "release_list n [] st = Inr st"
| "release_list n (l # ls) st = ebind (release_depth n l st) (release_list n ls)"

definition component_info_release :: "nat \<Rightarrow> ('f, 'd) template_cache \<Rightarrow> ('f, 'd) template_cache res" where
  "component_info_release i st = release_depth (Suc (next_info st)) i st"

text \<open>The links \<open>cf_component_load\<close> makes: the reference its recursive call returned moves into the definition.\<close>

definition set_link :: "('d component_info \<Rightarrow> 'd component_info) \<Rightarrow> nat \<Rightarrow> ('f, 'd) template_cache \<Rightarrow> ('f, 'd) template_cache res" where
  "set_link u i st = (case infos st i of None \<Rightarrow> Inl UB | Some info \<Rightarrow> Inr (st\<lparr>infos := (infos st)(i \<mapsto> u info)\<rparr>))"

definition set_parent :: "nat \<Rightarrow> nat \<Rightarrow> ('f, 'd) template_cache \<Rightarrow> ('f, 'd) template_cache res" where
  "set_parent i j = set_link (\<lambda>info. info\<lparr>parent := Some j\<rparr>) i"

definition add_interfaceParent :: "nat \<Rightarrow> nat \<Rightarrow> ('f, 'd) template_cache \<Rightarrow> ('f, 'd) template_cache res" where
  "add_interfaceParent i j = set_link (\<lambda>info. info\<lparr>interfaceParents := interfaceParents info @ [j]\<rparr>) i"

definition add_interface :: "nat \<Rightarrow> nat \<Rightarrow> ('f, 'd) template_cache \<Rightarrow> ('f, 'd) template_cache res" where
  "add_interface i j = set_link (\<lambda>info. info\<lparr>interfaces := interfaces info @ [j]\<rparr>) i"

text \<open>What the compiler reads; a missing file is an error of the reader.\<close>

definition compile_at :: "(path \<Rightarrow> bytes \<Rightarrow> 'c res) \<Rightarrow> snapshot \<Rightarrow> path \<Rightarrow> 'c res" where
  "compile_at compile w p = (case w p of None \<Rightarrow> Inl (Throw (''Error opening file for parsing! '' @ p)) | Some (_, src) \<Rightarrow> compile p src)"

text \<open>\<open>get\<close>: \<open>w1\<close> is the snapshot at the first reading of the time, \<open>w2\<close> at the compilation, \<open>w3\<close> at the second
  reading, which follows the compilation.\<close>

definition drop_template :: "path \<Rightarrow> ('f, 'd) template_cache \<Rightarrow> ('f, 'd) template_cache" where
  "drop_template p st = st\<lparr>m_templates := AList.delete p (m_templates st), m_timestamps := AList.delete p (m_timestamps st),
     g_compiledTemplates := g_compiledTemplates st - 1\<rparr>"

definition compile_template :: "(path \<Rightarrow> bytes \<Rightarrow> 'f res) \<Rightarrow> snapshot \<Rightarrow> snapshot \<Rightarrow> path \<Rightarrow> ('f, 'd) template_cache \<Rightarrow> 'f res \<times> ('f, 'd) template_cache" where
  "compile_template compile w2 w3 p st = (case compile_at compile w2 p of Inl e \<Rightarrow> (Inl e, st)
     | Inr f \<Rightarrow> (Inr f, st\<lparr>m_templates := AList.update p f (m_templates st),
         m_timestamps := AList.update p (getFileModTime w3 p) (m_timestamps st), g_compiledTemplates := g_compiledTemplates st + 1\<rparr>))"

definition template_get :: "(path \<Rightarrow> bytes \<Rightarrow> 'f res) \<Rightarrow> snapshot \<Rightarrow> snapshot \<Rightarrow> snapshot \<Rightarrow> path \<Rightarrow> ('f, 'd) template_cache \<Rightarrow> 'f res \<times> ('f, 'd) template_cache" where
  "template_get compile w1 w2 w3 p st = (case map_of (m_templates st) p of
       None \<Rightarrow> compile_template compile w2 w3 p st
     | Some f \<Rightarrow> (case map_of (m_timestamps st) p of
         None \<Rightarrow> (Inl (Throw ''map::at''), st)
       | Some t \<Rightarrow> if getFileModTime w1 p = t then (Inr f, st)
           else compile_template compile w2 w3 p (drop_template p st)))"

definition compile_component :: "(path \<Rightarrow> bytes \<Rightarrow> 'd res) \<Rightarrow> snapshot \<Rightarrow> int \<Rightarrow> path \<Rightarrow> ('f, 'd) template_cache \<Rightarrow> (nat option res \<times> ('f, 'd) template_cache) res" where
  "compile_component compile w2 t p st = (case compile_at compile w2 p of Inl e \<Rightarrow> Inr (Inl e, st)
     | Inr d \<Rightarrow> let i = next_info st in ebind (component_info_retain i (st\<lparr>next_info := i + 1,
           infos := (infos st)(i \<mapsto> new_component d), m_components := AList.update p i (m_components st),
           m_componentTimestamps := AList.update p t (m_componentTimestamps st), g_compiledComponents := g_compiledComponents st + 1\<rparr>))
         (\<lambda>st'. Inr (Inr (Some i), st')))"

definition get_component :: "(path \<Rightarrow> bytes \<Rightarrow> 'd res) \<Rightarrow> snapshot \<Rightarrow> snapshot \<Rightarrow> path \<Rightarrow> ('f, 'd) template_cache \<Rightarrow> (nat option res \<times> ('f, 'd) template_cache) res" where
  "get_component compile w1 w2 p st = (let t = getFileModTime w1 p in
     if t = 0 then Inr (Inr None, st)
     else case map_of (m_components st) p of
       None \<Rightarrow> compile_component compile w2 t p st
     | Some i \<Rightarrow> if map_of (m_componentTimestamps st) p = Some t
         then ebind (component_info_retain i st) (\<lambda>st'. Inr (Inr (Some i), st'))
         else ebind (component_info_release i st) (\<lambda>st'. compile_component compile w2 t p
           (st'\<lparr>m_components := AList.delete p (m_components st'), m_componentTimestamps := AList.delete p (m_componentTimestamps st'),
             g_compiledComponents := g_compiledComponents st' - 1\<rparr>)))"

fun release_all :: "nat list \<Rightarrow> ('f, 'd) template_cache \<Rightarrow> ('f, 'd) template_cache res" where
  "release_all [] st = Inr st"
| "release_all (i # is) st = ebind (component_info_release i st) (release_all is)"

definition template_clear :: "('f, 'd) template_cache \<Rightarrow> ('f, 'd) template_cache res" where
  "template_clear st = ebind (release_all (map snd (m_components st)) st) (\<lambda>st'. Inr (st'\<lparr>m_components := [], m_componentTimestamps := [],
     m_templates := [], m_timestamps := [], g_compiledTemplates := 0, g_compiledComponents := 0\<rparr>))"

section \<open>Histories\<close>

text \<open>
  A worker serves requests at increasing moments of a history \<open>w\<close> of the file system. Every reference a request is
  handed is its own to release; \<open>held\<close> counts those not yet released or moved into a link. An object of a component
  retains the definition for itself. No link closes a cycle: a component that extends itself, directly or through others,
  is loaded without end before any link of it is made.
\<close>

definition link_rel :: "(nat \<Rightarrow> 'd component_info option) \<Rightarrow> (nat \<times> nat) set" where
  "link_rel f = {(i, j). \<exists>info. f i = Some info \<and> j \<in> set (links info)}"

inductive served :: "(path \<Rightarrow> bytes \<Rightarrow> 'f res) \<Rightarrow> (path \<Rightarrow> bytes \<Rightarrow> 'd res) \<Rightarrow> (nat \<Rightarrow> snapshot) \<Rightarrow> nat \<Rightarrow> ('f, 'd) template_cache \<Rightarrow> (nat \<Rightarrow> nat) \<Rightarrow> bool"
  for ct cc w where
  start: "served ct cc w 0 empty_cache (\<lambda>_. 0)"
| wait: "served ct cc w n st held \<Longrightarrow> n \<le> m \<Longrightarrow> served ct cc w m st held"
| template: "served ct cc w n st held \<Longrightarrow> n \<le> j \<Longrightarrow> j \<le> k \<Longrightarrow> template_get ct (w n) (w j) (w k) p st = (r, st') \<Longrightarrow> served ct cc w k st' held"
| component: "served ct cc w n st held \<Longrightarrow> n \<le> j \<Longrightarrow> get_component cc (w n) (w j) p st = Inr (r, st') \<Longrightarrow>
    served ct cc w j st' (case r of Inr (Some i) \<Rightarrow> held(i := held i + 1) | _ \<Rightarrow> held)"
| retain: "served ct cc w n st held \<Longrightarrow> component_info_retain i st = Inr st' \<Longrightarrow> served ct cc w n st' (held(i := held i + 1))"
| release: "served ct cc w n st held \<Longrightarrow> 0 < held i \<Longrightarrow> component_info_release i st = Inr st' \<Longrightarrow> served ct cc w n st' (held(i := held i - 1))"
| extends: "served ct cc w n st held \<Longrightarrow> 0 < held j \<Longrightarrow> infos st i = Some info \<Longrightarrow> parent info = None \<Longrightarrow> (j, i) \<notin> (link_rel (infos st))\<^sup>* \<Longrightarrow>
    set_parent i j st = Inr st' \<Longrightarrow> served ct cc w n st' (held(j := held j - 1))"
| extends_interface: "served ct cc w n st held \<Longrightarrow> 0 < held j \<Longrightarrow> (j, i) \<notin> (link_rel (infos st))\<^sup>* \<Longrightarrow>
    add_interfaceParent i j st = Inr st' \<Longrightarrow> served ct cc w n st' (held(j := held j - 1))"
| implements: "served ct cc w n st held \<Longrightarrow> 0 < held j \<Longrightarrow> (j, i) \<notin> (link_rel (infos st))\<^sup>* \<Longrightarrow>
    add_interface i j st = Inr st' \<Longrightarrow> served ct cc w n st' (held(j := held j - 1))"
| clear: "served ct cc w n st held \<Longrightarrow> template_clear st = Inr st' \<Longrightarrow> served ct cc w n st' held"

text \<open>Two conditions on a history. \<open>file_times\<close>: a file that exists was modified after the first second of the epoch, and one
  that has the same modification time, to the nanosecond, at two moments did not change in between.
  \<open>one_save_per_second\<close>: two versions of a file do not have modification times in the same second, which is all that
  \<open>st_mtime\<close> can tell apart.\<close>

definition file_times :: "(nat \<Rightarrow> snapshot) \<Rightarrow> bool" where
  "file_times w \<longleftrightarrow> (\<forall>p n t src. w n p = Some (t, src) \<longrightarrow> 10 ^ 9 \<le> t)
     \<and> (\<forall>p i j m t x y. i \<le> m \<longrightarrow> m \<le> j \<longrightarrow> w i p = Some (t, x) \<longrightarrow> w j p = Some (t, y) \<longrightarrow> w m p = Some (t, x))"

definition one_save_per_second :: "(nat \<Rightarrow> snapshot) \<Rightarrow> bool" where
  "one_save_per_second w \<longleftrightarrow> (\<forall>p i j t u x y. w i p = Some (t, x) \<longrightarrow> w j p = Some (u, y) \<longrightarrow> t div 10 ^ 9 = u div 10 ^ 9 \<longrightarrow> t = u)"


section \<open>Invariant\<close>










section \<open>Counting references\<close>
































section \<open>The operations keep the invariant\<close>


lemma delete_filter: "AList.delete p al = filter (\<lambda>x. fst x \<noteq> p) al"
  by (auto simp: AList.delete_eq intro: filter_cong)

lemma delete_absent [simp]: "p \<notin> fst ` set (AList.delete p al)"
  by (auto simp: delete_filter)




lemma map_of_keys: "map fst al = map fst bl \<Longrightarrow> map_of al p = None \<longleftrightarrow> map_of bl p = None"
  by (metis list.set_map map_of_eq_None_iff)





























text \<open>A file saved once, seconds after it was written.\<close>

lemma two_versions:
  fixes a b :: bytes
  defines "w \<equiv> \<lambda>n :: nat. \<lambda>q :: path. Some (if n < 2 then (10 ^ 9 :: int, a) else (2 * 10 ^ 9, b))"
  shows "file_times w" "one_save_per_second w"
  unfolding file_times_def one_save_per_second_def w_def by (auto split: if_splits)

section \<open>What requests get\<close>



text \<open>C34: a template is not so lucky. Its time is read after the compilation, so when the file changes in between,
  the old code is kept under the time of the new source and every later request runs it, even when no two versions of a
  file are saved within one second.\<close>

theorem template_cache_stale:
  assumes "ct p old = Inr f"
  shows "\<exists>w st. file_times w \<and> one_save_per_second w \<and> (\<forall>n\<ge>2. w n p = Some (2 * 10 ^ 9, new)) \<and> served ct cc w 2 st (\<lambda>_. 0)
    \<and> (\<forall>n\<ge>2. template_get ct (w n) (w n) (w n) p st = (Inr f, st))"
proof -
  let ?w = "\<lambda>n :: nat. \<lambda>q :: path. Some (if n < 2 then (10 ^ 9, old) else (2 * 10 ^ 9 :: int, new))"
  let ?st = "empty_cache\<lparr>m_templates := [(p, f)], m_timestamps := [(p, 2)], g_compiledTemplates := 1\<rparr>"
  have w: "file_times ?w" "one_save_per_second ?w" by (rule two_versions)+
  have g: "template_get ct (?w 0) (?w 1) (?w 2) p empty_cache = (Inr f, ?st)"
    using assms by (simp add: template_get_def compile_template_def compile_at_def empty_cache_def getFileModTime_def)
  have s: "served ct cc ?w 2 ?st (\<lambda>_. 0)"
    by (rule served.template [OF served.start _ _ g]) simp_all
  have h: "\<forall>n\<ge>2. template_get ct (?w n) (?w n) (?w n) p ?st = (Inr f, ?st)"
    by (intro allI impI) (simp add: template_get_def getFileModTime_def)
  have "\<forall>n\<ge>2. ?w n p = Some (2 * 10 ^ 9, new)" by (intro allI impI) simp
  from conjI [OF w(1) conjI [OF w(2) conjI [OF this conjI [OF s h]]]] show ?thesis by (intro exI)
qed

section \<open>Examples\<close>







theorem template_cache_stale_witness:
  "\<exists>w (st :: (bytes, bytes) template_cache). file_times w \<and> one_save_per_second w \<and> w 5 ''x.cfm'' = Some (2 * 10 ^ 9, ''new'')
    \<and> fst (template_get (\<lambda>_ src. Inr src) (w 5) (w 5) (w 5) ''x.cfm'' st) = Inr ''old''"
proof -
  obtain w and st :: "(bytes, bytes) template_cache" where "file_times w" "one_save_per_second w" "\<forall>n\<ge>2. w n ''x.cfm'' = Some (2 * 10 ^ 9, ''new'')"
      "\<forall>n\<ge>2. template_get (\<lambda>_ src. Inr src) (w n) (w n) (w n) ''x.cfm'' st = (Inr ''old'', st)"
    using template_cache_stale [of "\<lambda>_ src. Inr src" "''x.cfm''" "''old''" "''old''" "''new''" "\<lambda>_ src. Inr src"] by blast
  then show ?thesis by (intro exI [of _ w] exI [of _ st]) simp
qed

end
