(* ===== verification/Decimal.thy ===== *)
theory Decimal imports Prelude "HOL-Library.Word" begin

section \<open>Arbitrary-precision decimals: \<open>CfBigDecimal\<close>\<close>

text \<open>
  Models the decimal arithmetic of \<open>src/codegen/fn_precisionevaluate.cpp\<close>, which
  \<open>PrecisionEvaluate()\<close> runs on: digit strings added, subtracted, multiplied and divided
  character by character, and decimals \<open>\<plusminus>digits \<times> 10^-scale\<close> on top of them. A loop from the
  last character to the first is a recursion on the reversed string. \<open>divMod\<close> subtracts in a
  loop that never ends for a zero divisor, so it is a partial function (\<open>None\<close>: no result).
  The scale is an \<open>int\<close>: sums and differences of scales beyond 32 bits are undefined behaviour, and the casts of a
  literal's exponent and of a shift keep the low 32 bits. Memory for the digits is never short.
  \<open>strtod\<close> and \<open>pow\<close> (\<open>bdToDouble\<close>, \<open>bdPow\<close>) are not modelled.
\<close>

record bigdec =
  neg :: bool
  digits :: bytes
  scale :: int

definition dig :: "char \<Rightarrow> nat" where "dig c = of_char c - 48"

definition chr :: "nat \<Rightarrow> char" where "chr n = char_of (48 + n)"

definition zero_str :: bytes where "zero_str = ''0''"

subsection \<open>Digit strings\<close>

text \<open>\<open>std::string\<close>'s \<open><\<close> on equal lengths, then the three-way result.\<close>

fun bytes_less :: "bytes \<Rightarrow> bytes \<Rightarrow> bool" where
  "bytes_less [] ys = (ys \<noteq> [])"
| "bytes_less (x # xs) [] = False"
| "bytes_less (x # xs) (y # ys) = (x < y \<or> x = y \<and> bytes_less xs ys)"

definition cmpDigits :: "bytes \<Rightarrow> bytes \<Rightarrow> int" where
  "cmpDigits a b = (if length a \<noteq> length b then (if length a < length b then -1 else 1)
     else if a = b then 0 else if bytes_less a b then -1 else 1)"

fun stripLeadingZeros :: "bytes \<Rightarrow> bytes" where
  "stripLeadingZeros (c # d # cs) = (if c = CHR ''0'' then stripLeadingZeros (d # cs) else c # d # cs)"
| "stripLeadingZeros cs = cs"

function add_loop :: "bytes \<Rightarrow> bytes \<Rightarrow> nat \<Rightarrow> bytes" where
  "add_loop a b carry = (if a \<noteq> [] \<or> b \<noteq> [] \<or> carry \<noteq> 0 then
     (let da = (case a of [] \<Rightarrow> 0 | x # _ \<Rightarrow> dig x); db = (case b of [] \<Rightarrow> 0 | y # _ \<Rightarrow> dig y);
          s = da + db + carry
      in chr (s mod 10) # add_loop (tl a) (tl b) (s div 10)) else [])"
  by pat_completeness auto
termination
proof (relation "measures [\<lambda>(a, b, carry). length a + length b, \<lambda>(a, b, carry). carry]")
  fix a b :: bytes and carry s x xa :: nat
  assume "a \<noteq> [] \<or> b \<noteq> [] \<or> carry \<noteq> 0" "x = (case a of [] \<Rightarrow> 0 | x # _ \<Rightarrow> dig x)"
    "xa = (case b of [] \<Rightarrow> 0 | y # _ \<Rightarrow> dig y)" "s = x + xa + carry"
  then show "((tl a, tl b, s div 10), a, b, carry)
      \<in> measures [\<lambda>(a, b, carry). length a + length b, \<lambda>(a, b, carry). carry]"
    by (cases a; cases b) auto
qed simp

definition addDigits :: "bytes \<Rightarrow> bytes \<Rightarrow> bytes" where
  "addDigits a b = stripLeadingZeros (rev (add_loop (rev a) (rev b) 0))"

fun sub_loop :: "bytes \<Rightarrow> bytes \<Rightarrow> int \<Rightarrow> bytes" where
  "sub_loop [] b borrow = []"
| "sub_loop (x # a) b borrow =
     (let d = int (dig x) - (case b of [] \<Rightarrow> 0 | y # _ \<Rightarrow> int (dig y)) - borrow
      in if d < 0 then chr (nat (d + 10)) # sub_loop a (tl b) 1
         else chr (nat d) # sub_loop a (tl b) 0)"

definition subDigits :: "bytes \<Rightarrow> bytes \<Rightarrow> bytes" where
  "subDigits a b = stripLeadingZeros (rev (sub_loop (rev a) (rev b) 0))"

text \<open>
  The schoolbook product. \<open>mul_inner\<close> is the inner loop at row \<open>i\<close> with \<open>j\<close> counting down from
  the given bound, \<open>mul_outer\<close> the outer loop.
\<close>

fun mul_inner :: "bytes \<Rightarrow> bytes \<Rightarrow> nat \<Rightarrow> nat \<Rightarrow> nat list \<Rightarrow> nat list" where
  "mul_inner a b i 0 res = res"
| "mul_inner a b i (Suc j) res =
     (let p = dig (a ! i) * dig (b ! j) + res ! (i + j + 1);
          res1 = res[i + j + 1 := p mod 10]
      in mul_inner a b i j (res1[i + j := res1 ! (i + j) + p div 10]))"

fun mul_outer :: "bytes \<Rightarrow> bytes \<Rightarrow> nat \<Rightarrow> nat list \<Rightarrow> nat list" where
  "mul_outer a b 0 res = res"
| "mul_outer a b (Suc i) res = mul_outer a b i (mul_inner a b i (length b) res)"

definition mulDigits :: "bytes \<Rightarrow> bytes \<Rightarrow> bytes" where
  "mulDigits a b = (if a = zero_str \<or> b = zero_str then zero_str
     else let res = mul_outer a b (length a) (replicate (length a + length b) 0);
              out = map chr (dropWhile (\<lambda>v. v = 0) res)
          in if out = [] then zero_str else out)"

definition zeros :: "int \<Rightarrow> bytes" where
  "zeros k = replicate (nat k) CHR ''0''"

text \<open>A negative \<open>int\<close> becomes a \<open>size_t\<close> that \<open>std::string::append\<close> refuses.\<close>

definition mulPow10 :: "bytes \<Rightarrow> int \<Rightarrow> bytes res" where
  "mulPow10 a k = (if a = zero_str then Inr zero_str else if k < 0 then Inl (Throw ''std::length_error'') else Inr (a @ zeros k))"

function carry_loop :: "nat \<Rightarrow> bytes" where
  "carry_loop carry = (if carry \<noteq> 0 then chr (carry mod 10) # carry_loop (carry div 10) else [])"
  by pat_completeness auto
termination by (relation "measure id") auto

fun small_loop :: "bytes \<Rightarrow> nat \<Rightarrow> nat \<Rightarrow> bytes" where
  "small_loop [] n carry = carry_loop carry"
| "small_loop (x # a) n carry = (let p = dig x * n + carry in chr (p mod 10) # small_loop a n (p div 10))"

definition mulSmall :: "bytes \<Rightarrow> nat \<Rightarrow> bytes" where
  "mulSmall a n = (if n = 0 \<or> a = zero_str then zero_str else rev (small_loop (rev a) n 0))"

fun mulSmallPow :: "bytes \<Rightarrow> nat \<Rightarrow> nat \<Rightarrow> bytes" where
  "mulSmallPow a base 0 = a"
| "mulSmallPow a base (Suc k) = mulSmallPow (mulSmall a base) base k"

partial_function (option) sub_while :: "bytes \<Rightarrow> bytes \<Rightarrow> nat \<Rightarrow> (bytes \<times> nat) option" where
  "sub_while rem b d = (if 0 \<le> cmpDigits rem b then sub_while (subDigits rem b) b (d + 1)
     else Some (rem, d))"

fun div_loop :: "bytes \<Rightarrow> bytes \<Rightarrow> bytes \<Rightarrow> bytes \<Rightarrow> (bytes \<times> bytes) option" where
  "div_loop [] b q rem = Some (q, rem)"
| "div_loop (c # cs) b q rem =
     Option.bind (sub_while (stripLeadingZeros (if rem = zero_str then [c] else rem @ [c])) b 0)
       (\<lambda>(rem', d). div_loop cs b (q @ [chr d]) rem')"

definition divMod :: "bytes \<Rightarrow> bytes \<Rightarrow> (bytes \<times> bytes) option" where
  "divMod a b = Option.bind (div_loop a b [] zero_str) (\<lambda>(q, r). Some (stripLeadingZeros q, r))"

subsection \<open>Decimals\<close>

definition isZeroBd :: "bigdec \<Rightarrow> bool" where
  "isZeroBd v \<longleftrightarrow> digits v = zero_str"

text \<open>The padding of two operands to one scale; its differences are \<open>int\<close>s.\<close>

definition pad_both :: "bigdec \<Rightarrow> bigdec \<Rightarrow> (bytes \<times> bytes) res" where
  "pad_both a b = (let sc = max (scale a) (scale b) in
     ebind (signed_op 32 (sc - scale a)) (\<lambda>ka. ebind (signed_op 32 (sc - scale b)) (\<lambda>kb.
       Inr (digits a @ zeros ka, digits b @ zeros kb))))"

definition bdAdd :: "bigdec \<Rightarrow> bigdec \<Rightarrow> bigdec res" where
  "bdAdd a b = ebind (pad_both a b) (\<lambda>(da, db). let sc = max (scale a) (scale b) in
     Inr (if neg a = neg b then
       (let ds = addDigits da db in \<lparr>neg = neg a \<and> ds \<noteq> zero_str, digits = ds, scale = sc\<rparr>)
     else (let c = cmpDigits da db in
       if c = 0 then \<lparr>neg = False, digits = zero_str, scale = sc\<rparr>
       else if 0 < c then \<lparr>neg = neg a, digits = subDigits da db, scale = sc\<rparr>
       else \<lparr>neg = neg b, digits = subDigits db da, scale = sc\<rparr>)))"

definition bdNegate :: "bigdec \<Rightarrow> bigdec" where
  "bdNegate a = (if isZeroBd a then a else a\<lparr>neg := \<not> neg a\<rparr>)"

definition bdSub :: "bigdec \<Rightarrow> bigdec \<Rightarrow> bigdec res" where
  "bdSub a b = bdAdd a (bdNegate b)"

definition bdMul :: "bigdec \<Rightarrow> bigdec \<Rightarrow> bigdec res" where
  "bdMul a b = (let ds = mulDigits (digits a) (digits b) in ebind (signed_op 32 (scale a + scale b)) (\<lambda>sc.
     Inr \<lparr>neg = neg a \<noteq> neg b \<and> ds \<noteq> zero_str, digits = ds, scale = sc\<rparr>))"

text \<open>A conversion to \<open>int\<close> keeps the low 32 bits.\<close>

definition int32 :: "int \<Rightarrow> int" where "int32 x = signed_take_bit 31 x"

text \<open>\<open>divideToScale\<close>: \<open>Some (Inr None)\<close> is the return value \<open>false\<close>. The shift \<open>kll\<close> is a \<open>long long\<close>, which holds every
  combination of three \<open>int\<close>s, and is cut to an \<open>int\<close> for \<open>mulPow10\<close>.\<close>

definition divideToScale :: "bigdec \<Rightarrow> bigdec \<Rightarrow> int \<Rightarrow> bool \<Rightarrow> bigdec option res option" where
  "divideToScale a b targetScale roundHalfEven =
     (if isZeroBd a then Some (Inr (Some \<lparr>neg = False, digits = zero_str, scale = targetScale\<rparr>))
      else let kll = targetScale - scale a + scale b in
        case ebind (if 0 \<le> kll then mulPow10 (digits a) (int32 kll) else Inr (digits a)) (\<lambda>dividend.
             ebind (if 0 \<le> kll then Inr (digits b) else mulPow10 (digits b) (int32 (- kll))) (\<lambda>divisor. Inr (dividend, divisor))) of
          Inl e \<Rightarrow> Some (Inl e)
        | Inr (dividend, divisor) \<Rightarrow> Option.bind (divMod dividend divisor) (\<lambda>(q, r).
          if r \<noteq> zero_str \<and> \<not> roundHalfEven then Some (Inr None)
          else let c = cmpDigits (mulSmall r 2) divisor;
                   q' = (if r \<noteq> zero_str \<and> (0 < c \<or> c = 0 \<and> dig (last q) mod 2 = 1)
                         then addDigits q ''1'' else q)
            in Some (Inr (Some \<lparr>neg = neg a \<noteq> neg b \<and> q' \<noteq> zero_str, digits = q', scale = targetScale\<rparr>))))"

definition bdDivide :: "bigdec \<Rightarrow> bigdec \<Rightarrow> bigdec res option" where
  "bdDivide a b = (if isZeroBd b then Some (Inl (Throw ''Division by zero.''))
     else Option.bind (divideToScale a b (scale a) False) (\<lambda>r. case r of
       Inl e \<Rightarrow> Some (Inl e)
     | Inr (Some out) \<Rightarrow> Some (Inr out)
     | Inr None \<Rightarrow> Option.bind (divideToScale a b 20 True) (\<lambda>r. case r of
         Inl e \<Rightarrow> Some (Inl e)
       | Inr (Some out) \<Rightarrow> Some (Inr out)
       | Inr None \<Rightarrow> Some (Inr \<lparr>neg = False, digits = zero_str, scale = 0\<rparr>))))"

definition bdCompare :: "bigdec \<Rightarrow> bigdec \<Rightarrow> int res" where
  "bdCompare a b = (if neg a \<noteq> neg b then Inr (if neg a then -1 else 1)
     else if isZeroBd a \<and> isZeroBd b then Inr 0
     else ebind (pad_both a b) (\<lambda>(da, db). let c = cmpDigits da db in Inr (if neg a then - c else c)))"

definition truncIntDigits :: "bigdec \<Rightarrow> bytes res" where
  "truncIntDigits v = (if scale v \<le> 0 then ebind (signed_op 32 (- scale v)) (mulPow10 (digits v))
     else if nat (scale v) < length (digits v) then Inr (take (length (digits v) - nat (scale v)) (digits v))
     else Inr zero_str)"

subsection \<open>Parsing and printing\<close>

definition sp_tab :: "char \<Rightarrow> bool" where
  "sp_tab c \<longleftrightarrow> c = CHR '' '' \<or> c = CHR 0x09"

fun scan_num :: "bytes \<Rightarrow> bool \<Rightarrow> bytes \<Rightarrow> bytes \<Rightarrow> bytes \<times> bytes \<times> bytes" where
  "scan_num [] sawDot ip fp = (ip, fp, [])"
| "scan_num (c # cs) sawDot ip fp =
     (if c = CHR ''.'' then (if sawDot then (ip, fp, c # cs) else scan_num cs True ip fp)
      else if is_digit c then
        (if \<not> sawDot then scan_num cs sawDot (ip @ [c]) fp else scan_num cs sawDot ip (fp @ [c]))
      else (ip, fp, c # cs))"

text \<open>The exponent accumulates in a \<open>long long\<close>; its overflow is undefined.\<close>

fun exp_loop :: "bytes \<Rightarrow> int \<Rightarrow> bool \<Rightarrow> (int \<times> bool) res" where
  "exp_loop [] ev edig = Inr (ev, edig)"
| "exp_loop (c # cs) ev edig = (if \<not> is_digit c then Inr (ev, edig)
     else if 2 ^ 63 \<le> ev * 10 + int (dig c) then Inl UB
     else exp_loop cs (ev * 10 + int (dig c)) True)"

definition sign_of :: "bytes \<Rightarrow> bool \<times> bytes" where
  "sign_of s = (case s of [] \<Rightarrow> (False, [])
     | c # cs \<Rightarrow> if c = CHR ''+'' \<or> c = CHR ''-'' then (c = CHR ''-'', cs) else (False, s))"

definition parseBigDecimal :: "bytes \<Rightarrow> bigdec res" where
  "parseBigDecimal s0 =
     (let s = rev (dropWhile sp_tab (rev (dropWhile sp_tab s0)));
          bad = Throw (''The value '' @ s @ '' cannot be converted to a number.'');
          (ng, s1) = sign_of s; (ip, fp, s2) = scan_num s1 False [] [] in
      if ip @ fp = [] then Inl bad
      else let out = (\<lambda>e. let ds = stripLeadingZeros (ip @ fp) in
             \<lparr>neg = ng \<and> ds \<noteq> zero_str, digits = ds, scale = int32 (int (length fp) - e)\<rparr>) in
        case s2 of [] \<Rightarrow> Inr (out 0)
        | c # s3 \<Rightarrow> if c = CHR ''e'' \<or> c = CHR ''E'' then
            (let (eneg, s4) = sign_of s3 in ebind (exp_loop s4 0 False) (\<lambda>(ev, edig).
               if \<not> edig then Inl bad else Inr (out (if eneg then - ev else ev))))
          else Inr (out 0))"

function nat_str :: "nat \<Rightarrow> bytes" where
  "nat_str n = (if n < 10 then [chr n] else nat_str (n div 10) @ [chr (n mod 10)])"
  by pat_completeness auto
termination by (relation "measure id") auto

definition point_str :: "bytes \<Rightarrow> bytes" where
  "point_str d = (if length d = 1 then d else take 1 d @ ''.'' @ drop 1 d)"

definition exp_str :: "int \<Rightarrow> bytes" where
  "exp_str e = ''E'' @ (if 0 \<le> e then ''+'' else ''-'') @ nat_str (nat \<bar>e\<bar>)"

definition bdToString :: "bigdec \<Rightarrow> bytes" where
  "bdToString v = (let d = digits v; s = scale v; adjExp = int (length d) - s - 1;
       sg = (if neg v then ''-'' else []) in
     if s = 0 then sg @ d
     else if s < 0 then sg @ point_str d @ exp_str adjExp
     else if -6 \<le> adjExp then
       (if s < int (length d) then sg @ take (length d - nat s) d @ ''.'' @ drop (length d - nat s) d
        else sg @ ''0.'' @ zeros (s - int (length d)) @ d)
     else sg @ point_str d @ exp_str adjExp)"

subsection \<open>Exact conversion of a double\<close>

text \<open>The argument is the bit pattern of the IEEE 754 double.\<close>

function strip_twos :: "nat \<Rightarrow> int \<Rightarrow> nat \<times> int" where
  "strip_twos sig exponent = (if sig \<noteq> 0 \<and> sig mod 2 = 0 then strip_twos (sig div 2) (exponent + 1)
     else (sig, exponent))"
  by pat_completeness auto
termination by (relation "measure fst") auto

definition exp_field :: "64 word \<Rightarrow> nat" where
  "exp_field bits = unat (and (drop_bit 52 bits) 0x7ff)"

definition significand :: "64 word \<Rightarrow> nat" where
  "significand bits = (if exp_field bits = 0 then unat (push_bit 1 (and bits 0xfffffffffffff))
     else unat (or (and bits 0xfffffffffffff) 0x10000000000000))"

definition bdFromDouble :: "64 word \<Rightarrow> bigdec res" where
  "bdFromDouble bits =
     (if and bits 0x7fffffffffffffff = 0 then Inr \<lparr>neg = bit bits 63, digits = zero_str, scale = 0\<rparr>
      else if exp_field bits = 0x7ff then Inl (Throw ''NumberFormatException: Infinite or NaN'')
      else let (sig, exponent) = strip_twos (significand bits) (int (exp_field bits) - 1075);
               ds = nat_str sig in
        Inr (if exponent = 0 then \<lparr>neg = bit bits 63, digits = ds, scale = 0\<rparr>
             else if exponent < 0 then
               \<lparr>neg = bit bits 63, digits = mulSmallPow ds 5 (nat (- exponent)), scale = - exponent\<rparr>
             else \<lparr>neg = bit bits 63, digits = mulSmallPow ds 2 (nat exponent), scale = 0\<rparr>))"

declare add_loop.simps [simp del] carry_loop.simps [simp del] nat_str.simps [simp del]
  strip_twos.simps [simp del]

section \<open>Digit strings as numbers\<close>

fun rval :: "bytes \<Rightarrow> nat" where
  "rval [] = 0"
| "rval (c # cs) = dig c + 10 * rval cs"

definition dval :: "bytes \<Rightarrow> nat" where "dval s = rval (rev s)"

text \<open>A digit string in normal form: not empty, only digits, no leading zero but in \<open>0\<close> itself.\<close>

definition canon :: "bytes \<Rightarrow> bool" where
  "canon s \<longleftrightarrow> s \<noteq> [] \<and> list_all is_digit s \<and> (hd s = CHR ''0'' \<longrightarrow> s = zero_str)"

lemma dig_less: "is_digit c \<Longrightarrow> dig c < 10"
  by (auto simp: charclass dig_def less_eq_char_def)

lemma dig_chr [simp]: "n < 10 \<Longrightarrow> dig (chr n) = n"
  by (simp add: dig_def chr_def of_char_of)

lemma chr_dig: "is_digit c \<Longrightarrow> chr (dig c) = c"
  by (auto simp: charclass dig_def chr_def less_eq_char_def)

lemma chr_digit [simp]: "n < 10 \<Longrightarrow> is_digit (chr n)"
  by (auto simp: charclass chr_def less_eq_char_def of_char_of)

lemma chr0: "chr 0 = CHR ''0''"
  by (simp add: chr_def char_of_def bit_0)

lemma dig0 [simp]: "dig CHR ''0'' = 0"
  by (simp add: dig_def)

lemma dig_eq0: "is_digit c \<Longrightarrow> dig c = 0 \<longleftrightarrow> c = CHR ''0''"
  using chr_dig [of c] chr0 by auto

lemma dig_less_iff: "is_digit c \<Longrightarrow> is_digit d \<Longrightarrow> c < d \<longleftrightarrow> dig c < dig d"
  by (auto simp: charclass dig_def less_eq_char_def less_char_def)

lemma dig_eq_iff: "is_digit c \<Longrightarrow> is_digit d \<Longrightarrow> c = d \<longleftrightarrow> dig c = dig d"
  by (metis chr_dig)

lemma rval_append: "rval (a @ b) = rval a + 10 ^ length a * rval b"
  by (induction a) (auto simp: algebra_simps)

lemma dval_append: "dval (a @ b) = dval a * 10 ^ length b + dval b"
  by (simp add: dval_def rval_append algebra_simps)

lemma dval_Nil [simp]: "dval [] = 0"
  by (simp add: dval_def)

lemma dval_single [simp]: "dval [c] = dig c"
  by (simp add: dval_def)

lemma dval_Cons: "dval (c # cs) = dig c * 10 ^ length cs + dval cs"
  using dval_append [of "[c]" cs] by simp

lemma dval_snoc: "dval (cs @ [c]) = 10 * dval cs + dig c"
  by (simp add: dval_append)

lemma dval_zero [simp]: "dval zero_str = 0"
  by (simp add: zero_str_def)

lemma dval_replicate0 [simp]: "dval (replicate n CHR ''0'') = 0"
  by (induction n) (simp_all add: dval_Cons)

lemma rval_less: "list_all is_digit s \<Longrightarrow> rval s < 10 ^ length s"
  by (induction s) (auto dest: dig_less)

lemma dval_less: "list_all is_digit s \<Longrightarrow> dval s < 10 ^ length s"
  using rval_less [of "rev s"] by (simp add: dval_def)

lemma strip_dval [simp]: "dval (stripLeadingZeros s) = dval s"
  by (induction s rule: stripLeadingZeros.induct) (auto simp: dval_Cons)

lemma strip_canon: "s \<noteq> [] \<Longrightarrow> list_all is_digit s \<Longrightarrow> canon (stripLeadingZeros s)"
  by (induction s rule: stripLeadingZeros.induct) (auto simp: canon_def zero_str_def)

lemma strip_id: "canon s \<Longrightarrow> stripLeadingZeros s = s"
  by (cases s rule: stripLeadingZeros.cases) (auto simp: canon_def zero_str_def)

lemma strip_zeros: "canon s \<Longrightarrow> stripLeadingZeros (replicate n CHR ''0'' @ s) = s"
proof (induction n)
  case (Suc n)
  then have "replicate n CHR ''0'' @ s \<noteq> []" by (auto simp: canon_def)
  then obtain x xs where "replicate n CHR ''0'' @ s = x # xs" by (cases "replicate n CHR ''0'' @ s") auto
  with Suc show ?case by simp
qed (simp add: strip_id)

lemma canon_zero [simp]: "canon zero_str"
  by (simp add: canon_def zero_str_def charclass less_eq_char_def)

lemma canon_pos:
  assumes "canon s" "s \<noteq> zero_str"
  shows "10 ^ (length s - 1) \<le> dval s"
proof -
  obtain c cs where s: "s = c # cs" using assms(1) by (cases s) (auto simp: canon_def)
  with assms have "is_digit c" "c \<noteq> CHR ''0''" by (auto simp: canon_def)
  then have "1 \<le> dig c" using dig_eq0 [of c] by simp
  then have "1 * 10 ^ length cs \<le> dig c * 10 ^ length cs" by (intro mult_right_mono) simp_all
  then show ?thesis unfolding s dval_Cons length_Cons diff_Suc_1 by linarith
qed

lemma canon_dval_0: "canon s \<Longrightarrow> dval s = 0 \<longleftrightarrow> s = zero_str"
  using canon_pos [of s] by (metis dval_zero le_zero_eq power_eq_0_iff zero_neq_numeral)

lemma bytes_less_dval:
  "length a = length b \<Longrightarrow> list_all is_digit a \<Longrightarrow> list_all is_digit b \<Longrightarrow>
   (bytes_less a b \<longleftrightarrow> dval a < dval b) \<and> (a = b \<longleftrightarrow> dval a = dval b)"
proof (induction a b rule: bytes_less.induct)
  case (3 x xs y ys)
  then have IH: "bytes_less xs ys \<longleftrightarrow> dval xs < dval ys" "xs = ys \<longleftrightarrow> dval xs = dval ys"
    and len: "length xs = length ys" by auto
  have b: "dval xs < 10 ^ length ys" "dval ys < 10 ^ length ys"
    using dval_less [of xs] dval_less [of ys] 3 len by auto
  have xy: "x = y \<longleftrightarrow> dig x = dig y" "x < y \<longleftrightarrow> dig x < dig y"
    using 3(3,4) by (simp_all add: dig_less_iff dig_eq_iff)
  consider "dig x < dig y" | "dig x = dig y" | "dig y < dig x" by linarith
  then show ?case
  proof cases
    case 1
    then have "(dig x + 1) * 10 ^ length ys \<le> dig y * 10 ^ length ys" by (intro mult_right_mono) auto
    then have "dval (x # xs) < dval (y # ys)" using b by (simp add: dval_Cons len algebra_simps)
    moreover have "x \<noteq> y" "x < y" using 1 xy by simp_all
    ultimately show ?thesis by simp
  next
    case 2
    with IH xy show ?thesis by (simp add: dval_Cons len)
  next
    case 3
    then have "(dig y + 1) * 10 ^ length ys \<le> dig x * 10 ^ length ys" by (intro mult_right_mono) auto
    then have "dval (y # ys) < dval (x # xs)" using b by (simp add: dval_Cons len algebra_simps)
    moreover have "x \<noteq> y" "\<not> x < y" using 3 xy by simp_all
    ultimately show ?thesis by simp
  qed
qed auto

lemma longer_greater:
  assumes "canon a" "canon b" "length a < length b" shows "dval a < dval b"
proof -
  have "b \<noteq> zero_str" using assms(1,3) by (cases a) (auto simp: canon_def zero_str_def)
  have "dval a < 10 ^ length a" using assms(1) by (simp add: canon_def dval_less)
  also have "\<dots> \<le> 10 ^ (length b - 1)" using assms(3) by (intro power_increasing) auto
  also have "\<dots> \<le> dval b" by (rule canon_pos [OF assms(2) \<open>b \<noteq> zero_str\<close>])
  finally show ?thesis .
qed

lemma cmp_canon:
  assumes "canon a" "canon b"
  shows "cmpDigits a b = sgn (int (dval a) - int (dval b))"
proof (cases "length a = length b")
  case True
  with bytes_less_dval [OF True] assms show ?thesis by (auto simp: cmpDigits_def canon_def sgn_if)
next
  case False
  with longer_greater [OF assms] longer_greater [OF assms(2,1)] show ?thesis
    by (auto simp: cmpDigits_def sgn_if)
qed

lemma canon_inj: "canon a \<Longrightarrow> canon b \<Longrightarrow> dval a = dval b \<Longrightarrow> a = b"
  using cmp_canon [of a b] by (auto simp: cmpDigits_def split: if_splits)

end
