(* ===== verification/DecimalArith.thy ===== *)
theory DecimalArith imports Complex_Main Decimal begin

section \<open>Correctness of the digit-string arithmetic\<close>

text \<open>
  Each character loop of \<open>fn_precisionevaluate.cpp\<close> computes the operation on the numbers the
  strings denote (\<open>dval\<close>), and keeps the normal form (\<open>canon\<close>).
\<close>

subsection \<open>Addition and subtraction\<close>

lemma add_loop_rval:
  "list_all is_digit a \<Longrightarrow> list_all is_digit b \<Longrightarrow>
   rval (add_loop a b carry) = rval a + rval b + carry \<and> list_all is_digit (add_loop a b carry) \<and>
   (a \<noteq> [] \<longrightarrow> add_loop a b carry \<noteq> [])"
proof (induction a b carry rule: add_loop.induct)
  case (1 a b carry)
  show ?case
  proof (cases "a \<noteq> [] \<or> b \<noteq> [] \<or> carry \<noteq> 0")
    case False
    then show ?thesis by (simp add: add_loop.simps)
  next
    case True
    let ?da = "case a of [] \<Rightarrow> 0 | x # _ \<Rightarrow> dig x" and ?db = "case b of [] \<Rightarrow> 0 | y # _ \<Rightarrow> dig y"
    let ?s = "?da + ?db + carry"
    have tl: "list_all is_digit (tl a)" "list_all is_digit (tl b)"
      using 1(2,3) by (cases a; cases b; simp)+
    have eq: "add_loop a b carry = chr (?s mod 10) # add_loop (tl a) (tl b) (?s div 10)"
      using True by (subst add_loop.simps) (simp add: Let_def)
    have IH: "rval (add_loop (tl a) (tl b) (?s div 10)) = rval (tl a) + rval (tl b) + ?s div 10"
      "list_all is_digit (add_loop (tl a) (tl b) (?s div 10))"
      using 1(1) [OF True refl refl refl tl] by auto
    have "?s mod 10 + 10 * (?s div 10) = ?s" by simp
    moreover have "rval a = ?da + 10 * rval (tl a)" "rval b = ?db + 10 * rval (tl b)"
      by (cases a; simp) (cases b; simp)
    ultimately show ?thesis unfolding eq using IH by simp
  qed
qed

lemma addDigits_correct:
  assumes "list_all is_digit a" "list_all is_digit b" "a \<noteq> []"
  shows "canon (addDigits a b) \<and> dval (addDigits a b) = dval a + dval b"
  using assms add_loop_rval [of "rev a" "rev b" 0]
  by (auto simp: addDigits_def intro!: strip_canon) (simp add: dval_def)

lemma sub_loop_rval:
  "list_all is_digit a \<Longrightarrow> list_all is_digit b \<Longrightarrow> length b \<le> length a \<Longrightarrow> bw = 0 \<or> bw = 1 \<Longrightarrow>
   \<exists>k \<in> {0, 1}. int (rval (sub_loop a b bw)) + int (rval b) + bw = int (rval a) + k * 10 ^ length a \<and>
     list_all is_digit (sub_loop a b bw) \<and> length (sub_loop a b bw) = length a"
proof (induction a b bw rule: sub_loop.induct)
  case (2 x a b bw)
  let ?y = "case b of [] \<Rightarrow> 0 | y # _ \<Rightarrow> int (dig y)"
  obtain d where d: "int (dig x) - ?y - bw = d" by simp
  have y: "0 \<le> ?y" "?y < 10" using 2(4) by (auto split: list.split dest: dig_less)
  have x: "dig x < 10" using 2(3) by (simp add: dig_less)
  have b: "int (rval b) = ?y + 10 * int (rval (tl b))" by (cases b) auto
  have tl: "list_all is_digit a" "list_all is_digit (tl b)" "length (tl b) \<le> length a"
    using 2(3-5) by (cases b; simp)+
  note IH = 2(1) [OF d [symmetric]] 2(2) [OF d [symmetric]]
  show ?case
  proof (cases "d < 0")
    case True
    from IH(1) [OF True tl] obtain k where k: "k \<in> {0, 1}"
      "int (rval (sub_loop a (tl b) 1)) + int (rval (tl b)) + 1 = int (rval a) + k * 10 ^ length a"
      "list_all is_digit (sub_loop a (tl b) 1)" "length (sub_loop a (tl b) 1) = length a" by auto
    have n: "nat (d + 10) < 10" "int (nat (d + 10)) = d + 10" using True x y 2(6) d by auto
    have eq: "sub_loop (x # a) b bw = chr (nat (d + 10)) # sub_loop a (tl b) 1"
      using True by (simp add: Let_def d)
    have "int (rval (sub_loop (x # a) b bw)) + int (rval b) + bw = int (rval (x # a)) + k * 10 ^ length (x # a)"
    proof -
      have "int (rval (sub_loop (x # a) b bw)) = int (nat (d + 10)) + 10 * int (rval (sub_loop a (tl b) 1))"
        unfolding eq using n(1) by simp
      moreover have "k * 10 ^ length (x # a) = 10 * (k * 10 ^ length a)" by simp
      ultimately show ?thesis using k(2) b d n(2) unfolding rval.simps by linarith
    qed
    moreover have "list_all is_digit (sub_loop (x # a) b bw)" "length (sub_loop (x # a) b bw) = length (x # a)"
      using k(3,4) n(1) unfolding eq by simp_all
    ultimately show ?thesis using k(1) by blast
  next
    case False
    from IH(2) [OF False tl] obtain k where k: "k \<in> {0, 1}"
      "int (rval (sub_loop a (tl b) 0)) + int (rval (tl b)) + 0 = int (rval a) + k * 10 ^ length a"
      "list_all is_digit (sub_loop a (tl b) 0)" "length (sub_loop a (tl b) 0) = length a" by auto
    have n: "nat d < 10" "int (nat d) = d" using False x y 2(6) d by auto
    have eq: "sub_loop (x # a) b bw = chr (nat d) # sub_loop a (tl b) 0"
      using False by (simp add: Let_def d)
    have "int (rval (sub_loop (x # a) b bw)) + int (rval b) + bw = int (rval (x # a)) + k * 10 ^ length (x # a)"
    proof -
      have "int (rval (sub_loop (x # a) b bw)) = int (nat d) + 10 * int (rval (sub_loop a (tl b) 0))"
        unfolding eq using n(1) by simp
      moreover have "k * 10 ^ length (x # a) = 10 * (k * 10 ^ length a)" by simp
      ultimately show ?thesis using k(2) b d n(2) unfolding rval.simps by linarith
    qed
    moreover have "list_all is_digit (sub_loop (x # a) b bw)" "length (sub_loop (x # a) b bw) = length (x # a)"
      using k(3,4) n(1) unfolding eq by simp_all
    ultimately show ?thesis using k(1) by blast
  qed
qed auto

lemma subDigits_correct:
  assumes "list_all is_digit a" "list_all is_digit b" "length b \<le> length a" "a \<noteq> []" "dval b \<le> dval a"
  shows "canon (subDigits a b) \<and> dval (subDigits a b) = dval a - dval b"
proof -
  let ?r = "sub_loop (rev a) (rev b) 0"
  from sub_loop_rval [of "rev a" "rev b" 0] assms obtain k where k: "k \<in> {0, 1}"
    "int (rval ?r) + int (dval b) = int (dval a) + k * 10 ^ length a"
    "list_all is_digit ?r" "length ?r = length a" by (auto simp: dval_def)
  have "int (rval ?r) < int (10 ^ length a)" using rval_less [OF k(3)] k(4) by (metis of_nat_less_iff)
  moreover have "int (dval b) \<le> int (dval a)" using assms(5) by simp
  moreover have "k = 1 \<Longrightarrow> int (rval ?r) + int (dval b) = int (dval a) + int (10 ^ length a)" using k(2) by simp
  ultimately have "k \<noteq> 1" by linarith
  with k(1) have "k = 0" by blast
  with k(2) have "rval ?r = dval a - dval b" by simp
  moreover have "rev ?r \<noteq> []" using k(4) assms(4) by auto
  ultimately show ?thesis using k(3) unfolding subDigits_def
    by (auto intro!: strip_canon) (simp add: dval_def)
qed

subsection \<open>Multiplication\<close>

fun lval :: "nat list \<Rightarrow> nat" where
  "lval [] = 0"
| "lval (x # xs) = x * 10 ^ length xs + lval xs"

lemma lval_update:
  "k < length xs \<Longrightarrow> lval (xs[k := v]) + xs ! k * 10 ^ (length xs - 1 - k) = lval xs + v * 10 ^ (length xs - 1 - k)"
proof (induction xs arbitrary: k)
  case (Cons x xs)
  show ?case
  proof (cases k)
    case (Suc j)
    with Cons show ?thesis using Cons.IH [of j] by simp
  qed simp
qed simp

lemma lval_zeros [simp]: "lval (replicate n 0) = 0"
  by (induction n) auto

lemma dval_sum: "dval s = (\<Sum>t<length s. dig (s ! t) * 10 ^ (length s - 1 - t))"
proof (induction s)
  case (Cons c cs)
  then show ?case by (simp add: dval_Cons sum.lessThan_Suc_shift del: sum.lessThan_Suc)
qed simp

lemma mul_inner_length [simp]: "length (mul_inner a b i j res) = length res"
  by (induction a b i j res rule: mul_inner.induct) (auto simp: Let_def)

lemma mul_outer_length [simp]: "length (mul_outer a b i res) = length res"
  by (induction a b i res rule: mul_outer.induct) auto

lemma carry_split:
  fixes p :: nat
  assumes "r2 = r1 + (p div 10) * (10 * W)" "r1 + q * W = r + (p mod 10) * W" "p = m + q"
  shows "r2 = r + m * W"
proof -
  have "r2 + q * W = r + (p mod 10 + 10 * (p div 10)) * W"
  proof -
    have "r2 + q * W = r + (p mod 10) * W + (p div 10) * (10 * W)" using assms(1,2) by linarith
    then show ?thesis by (simp only: distrib_right distrib_left ac_simps)
  qed
  also have "\<dots> = r + m * W + q * W" unfolding mod_mult_div_eq assms(3) by (simp add: distrib_right)
  finally show ?thesis by simp
qed

lemma mul_inner_lval:
  "i < length a \<Longrightarrow> j \<le> length b \<Longrightarrow> length res = length a + length b \<Longrightarrow>
   lval (mul_inner a b i j res) = lval res +
     (\<Sum>t<j. dig (a ! i) * dig (b ! t) * 10 ^ (length a + length b - 2 - i - t))"
proof (induction a b i j res rule: mul_inner.induct)
  case (2 a b i j res)
  obtain e where e: "length a + length b - 2 - i - j = e" by simp
  let ?L = "length a + length b" and ?W = "10 ^ e :: nat"
  let ?p = "dig (a ! i) * dig (b ! j) + res ! (i + j + 1)"
  let ?r1 = "res[i + j + 1 := ?p mod 10]"
  let ?r2 = "?r1[i + j := ?r1 ! (i + j) + ?p div 10]"
  have w: "length res - 1 - (i + j + 1) = e" "length ?r1 - 1 - (i + j) = Suc e"
    using 2(2-4) e by auto
  have u1: "lval ?r1 + res ! (i + j + 1) * ?W = lval res + (?p mod 10) * ?W"
    using lval_update [of "i + j + 1" res "?p mod 10"] 2(2-4) w(1) by simp
  have u2: "lval ?r2 + ?r1 ! (i + j) * (10 * ?W) = lval ?r1 + (?r1 ! (i + j) + ?p div 10) * (10 * ?W)"
    using lval_update [of "i + j" ?r1 "?r1 ! (i + j) + ?p div 10"] 2(2-4) w(2) by simp
  have "lval ?r2 = lval ?r1 + (?p div 10) * (10 * ?W)" using u2 by (simp add: add_mult_distrib)
  then have "lval ?r2 = lval res + dig (a ! i) * dig (b ! j) * ?W" by (rule carry_split [OF _ u1 refl])
  moreover have "lval (mul_inner a b i j ?r2) = lval ?r2 +
      (\<Sum>t<j. dig (a ! i) * dig (b ! t) * 10 ^ (length a + length b - 2 - i - t))"
    using 2(1) [OF refl refl] 2(2-4) by simp
  moreover have "mul_inner a b i (Suc j) res = mul_inner a b i j ?r2" by (simp only: mul_inner.simps Let_def)
  ultimately show ?case by (simp only: sum.lessThan_Suc e ac_simps)
qed simp

lemma mul_inner_row:
  assumes "i < length a" "length res = length a + length b"
  shows "lval (mul_inner a b i (length b) res) = lval res + dig (a ! i) * 10 ^ (length a - 1 - i) * dval b"
proof -
  have "(\<Sum>t<length b. dig (a ! i) * dig (b ! t) * 10 ^ (length a + length b - 2 - i - t)) =
      (\<Sum>t<length b. dig (a ! i) * 10 ^ (length a - 1 - i) * (dig (b ! t) * 10 ^ (length b - 1 - t)))"
  proof (rule sum.cong [OF refl])
    fix t assume "t \<in> {..<length b}"
    then have "length a + length b - 2 - i - t = (length a - 1 - i) + (length b - 1 - t)"
      using assms(1) by auto
    then show "dig (a ! i) * dig (b ! t) * 10 ^ (length a + length b - 2 - i - t) =
        dig (a ! i) * 10 ^ (length a - 1 - i) * (dig (b ! t) * 10 ^ (length b - 1 - t))"
      by (simp add: power_add)
  qed
  with mul_inner_lval [OF assms(1) le_refl assms(2)] show ?thesis
    by (simp add: dval_sum sum_distrib_left)
qed

lemma mul_outer_lval:
  "i \<le> length a \<Longrightarrow> length res = length a + length b \<Longrightarrow>
   lval (mul_outer a b i res) = lval res + (\<Sum>t<i. dig (a ! t) * 10 ^ (length a - 1 - t)) * dval b"
proof (induction a b i res rule: mul_outer.induct)
  case (2 a b i res)
  with mul_inner_row [of i a res b] show ?case by (simp add: algebra_simps)
qed simp

text \<open>The entries end as digits: while row \<open>i\<close> is at \<open>j\<close>, only entry \<open>i + j\<close> can exceed 9.\<close>

lemma mul_inner_digits:
  assumes "list_all is_digit a" "list_all is_digit b"
  shows "i < length a \<Longrightarrow> j \<le> length b \<Longrightarrow> length res = length a + length b \<Longrightarrow>
    (\<forall>k<length res. k \<noteq> i + j \<longrightarrow> res ! k \<le> 9) \<Longrightarrow> res ! (i + j) \<le> (if j = 0 then 9 else 18) \<Longrightarrow>
    (\<forall>k\<le>i. k < i + j \<longrightarrow> res ! k = 0) \<Longrightarrow>
    (\<forall>k<length res. mul_inner a b i j res ! k \<le> 9) \<and> (\<forall>k<i. mul_inner a b i j res ! k = 0)"
proof (induction j arbitrary: res)
  case 0
  have "res ! k \<le> 9" if "k < length res" for k using 0(4,5) that by (cases "k = i") auto
  moreover have "\<forall>k<i. res ! k = 0" using 0(6) by auto
  ultimately show ?case unfolding mul_inner.simps by blast
next
  case (Suc j)
  let ?p = "dig (a ! i) * dig (b ! j) + res ! (i + j + 1)"
  let ?r2 = "(res[i + j + 1 := ?p mod 10])[i + j := res ! (i + j) + ?p div 10]"
  have "dig (a ! i) \<le> 9" "dig (b ! j) \<le> 9"
    using assms Suc.prems(1,2) by (auto simp: list_all_length less_Suc_eq_le [symmetric] dest!: dig_less)
  then have "dig (a ! i) * dig (b ! j) \<le> 9 * 9" by (rule mult_le_mono)
  moreover have "res ! (i + j + 1) \<le> 18" using Suc.prems(5) by simp
  ultimately have p: "?p div 10 \<le> 9" by simp
  have m: "(dig (a ! i) * dig (b ! j) + res ! Suc (i + j)) mod 10 \<le> 9" by (simp add: less_Suc_eq_le [symmetric])
  have old: "res ! (i + j) \<le> 9" "j = 0 \<Longrightarrow> res ! (i + j) = 0"
    using Suc.prems by auto
  have "mul_inner a b i (Suc j) res = mul_inner a b i j ?r2"
    using Suc.prems(2,3) by (simp add: Let_def)
  moreover have "(\<forall>k<length ?r2. mul_inner a b i j ?r2 ! k \<le> 9) \<and> (\<forall>k<i. mul_inner a b i j ?r2 ! k = 0)"
  proof (rule Suc.IH)
    show "\<forall>k<length ?r2. k \<noteq> i + j \<longrightarrow> ?r2 ! k \<le> 9"
      using Suc.prems(1-4) m by (auto simp: nth_list_update)
    show "?r2 ! (i + j) \<le> (if j = 0 then 9 else 18)"
      using p old Suc.prems(1-3) by (auto simp: nth_list_update)
    show "\<forall>k\<le>i. k < i + j \<longrightarrow> ?r2 ! k = 0"
      using Suc.prems(6) by (auto simp: nth_list_update)
  qed (use Suc.prems in auto)
  ultimately show ?case by simp
qed

lemma mul_outer_digits:
  assumes "list_all is_digit a" "list_all is_digit b" "b \<noteq> []"
  shows "i \<le> length a \<Longrightarrow> length res = length a + length b \<Longrightarrow> \<forall>k<length res. res ! k \<le> 9 \<Longrightarrow>
    \<forall>k<i. res ! k = 0 \<Longrightarrow> \<forall>k<length res. mul_outer a b i res ! k \<le> 9"
proof (induction i arbitrary: res)
  case (Suc i)
  have "(\<forall>k<length res. mul_inner a b i (length b) res ! k \<le> 9) \<and> (\<forall>k<i. mul_inner a b i (length b) res ! k = 0)"
  proof (rule mul_inner_digits [OF assms(1,2)])
    have "res ! (i + length b) \<le> 9" using Suc.prems assms(3) by (cases b) auto
    then show "res ! (i + length b) \<le> (if length b = 0 then 9 else 18)" using assms(3) by simp
  qed (use Suc.prems in \<open>auto simp: le_Suc_eq\<close>)
  with Suc.IH [of "mul_inner a b i (length b) res"] Suc.prems show ?case by simp
qed simp

lemma lval_dropWhile: "lval (dropWhile (\<lambda>v. v = 0) xs) = lval xs"
  by (induction xs) auto

lemma dval_map_chr: "\<forall>x\<in>set xs. x \<le> 9 \<Longrightarrow> dval (map chr xs) = lval xs"
  by (induction xs) (auto simp: dval_Cons)

lemma mulDigits_correct:
  assumes "canon a" "canon b"
  shows "canon (mulDigits a b) \<and> dval (mulDigits a b) = dval a * dval b"
proof (cases "a = zero_str \<or> b = zero_str")
  case True
  then show ?thesis by (auto simp: mulDigits_def)
next
  case False
  let ?r = "mul_outer a b (length a) (replicate (length a + length b) 0)"
  let ?d = "dropWhile (\<lambda>v. v = 0) ?r"
  have dg: "list_all is_digit a" "list_all is_digit b" "b \<noteq> []" using assms by (auto simp: canon_def)
  have le: "\<forall>x\<in>set ?r. x \<le> 9"
    using mul_outer_digits [OF dg le_refl, of "replicate (length a + length b) 0"]
    by (auto simp: in_set_conv_nth)
  then have led: "\<forall>x\<in>set ?d. x \<le> 9" using set_dropWhileD by fastforce
  have v: "lval ?d = dval a * dval b"
    using mul_outer_lval [of "length a" a "replicate (length a + length b) 0" b]
    by (simp add: lval_dropWhile dval_sum)
  moreover have "0 < dval a * dval b" using assms False canon_dval_0 by auto
  ultimately have ne: "?d \<noteq> []" by (metis lval.simps(1) not_gr0)
  have "hd ?d \<noteq> 0" using hd_dropWhile [OF ne] .
  moreover have "hd ?d < 10" using bspec [OF led hd_in_set [OF ne]] by simp
  ultimately have "dig (hd (map chr ?d)) \<noteq> 0" using ne by (simp add: hd_map)
  then have "hd (map chr ?d) \<noteq> CHR ''0''" by auto
  moreover have "list_all is_digit (map chr ?d)" using led by (auto simp: list_all_iff less_Suc_eq_le)
  ultimately have "canon (map chr ?d)" using ne by (simp add: canon_def)
  moreover have "mulDigits a b = map chr ?d" using ne False unfolding mulDigits_def Let_def by (simp only: if_False map_is_Nil_conv)
  ultimately show ?thesis using dval_map_chr [OF led] v by (simp only:)
qed

subsection \<open>Division and small factors\<close>

lemma canon_shift:
  assumes "canon r" "is_digit c"
  shows "canon (stripLeadingZeros (if r = zero_str then [c] else r @ [c]))"
    "dval (stripLeadingZeros (if r = zero_str then [c] else r @ [c])) = 10 * dval r + dig c"
  using assms strip_canon [of "if r = zero_str then [c] else r @ [c]"]
  by (simp_all add: canon_def dval_snoc split del: if_split) (simp_all add: dval_snoc)

lemma chr_eq0: "n < 10 \<Longrightarrow> chr n = CHR ''0'' \<longleftrightarrow> n = 0"
  using dig_chr [of n] chr0 by (auto simp del: dig_chr)

lemma sub_while_correct:
  "canon r \<Longrightarrow> canon b \<Longrightarrow> 0 < dval b \<Longrightarrow>
   \<exists>r'. sub_while r b d = Some (r', d + dval r div dval b) \<and> canon r' \<and> dval r' = dval r mod dval b"
proof (induction "dval r" arbitrary: r d rule: less_induct)
  case less
  show ?case
  proof (cases "dval b \<le> dval r")
    case True
    then have "length b \<le> length r" using longer_greater [of r b] less.prems by (meson not_le)
    then have sub: "canon (subDigits r b)" "dval (subDigits r b) = dval r - dval b"
      using subDigits_correct [of r b] less.prems True by (auto simp: canon_def)
    have "dval (subDigits r b) < dval r" using sub(2) less.prems(3) True by simp
    from less.hyps [OF this sub(1) less.prems(2,3), of "d + 1"] obtain r' where r':
      "sub_while (subDigits r b) b (d + 1) = Some (r', d + 1 + (dval r - dval b) div dval b)"
      "canon r'" "dval r' = (dval r - dval b) mod dval b" unfolding sub(2) by blast
    have "sub_while r b d = sub_while (subDigits r b) b (d + 1)"
      using True less.prems by (subst sub_while.simps) (simp add: cmp_canon sgn_if)
    moreover have "dval r div dval b = Suc ((dval r - dval b) div dval b)"
      using True less.prems(3) by (rule le_div_geq [rotated])
    moreover have "dval r mod dval b = (dval r - dval b) mod dval b" using True by (rule le_mod_geq)
    ultimately show ?thesis using r' by simp
  next
    case False
    then have "sub_while r b d = Some (r, d)"
      using less.prems by (subst sub_while.simps) (simp add: cmp_canon sgn_if)
    with False less.prems(1) show ?thesis by simp
  qed
qed

lemma div_loop_correct:
  assumes "canon b" "0 < dval b"
  shows "list_all is_digit cs \<Longrightarrow> canon r \<Longrightarrow> dval r < dval b \<Longrightarrow>
    \<exists>ds r'. div_loop cs b q r = Some (q @ ds, r') \<and> list_all is_digit ds \<and> length ds = length cs \<and>
      canon r' \<and> dval r' < dval b \<and> dval r * 10 ^ length cs + dval cs = dval ds * dval b + dval r'"
proof (induction cs arbitrary: q r)
  case (Cons c cs)
  let ?s = "stripLeadingZeros (if r = zero_str then [c] else r @ [c])"
  have c: "is_digit c" "list_all is_digit cs" using Cons.prems(1) by auto
  note s = canon_shift [OF Cons.prems(2) c(1)]
  obtain d where d: "d = dval ?s div dval b" by simp
  from sub_while_correct [OF s(1) assms, of 0] obtain r1 where
    r1: "sub_while ?s b 0 = Some (r1, d)" "canon r1" "dval r1 = dval ?s mod dval b"
    unfolding d by auto
  have "dval r1 < dval b" using r1(3) assms(2) by simp
  from Cons.IH [OF c(2) r1(2) this, of "q @ [chr d]"] obtain ds r' where IH:
    "div_loop cs b (q @ [chr d]) r1 = Some ((q @ [chr d]) @ ds, r')" "list_all is_digit ds"
    "length ds = length cs" "canon r'" "dval r' < dval b"
    "dval r1 * 10 ^ length cs + dval cs = dval ds * dval b + dval r'" by blast
  have "dval ?s < 10 * dval b" using s(2) dig_less [OF c(1)] Cons.prems(3) by simp
  then have d10: "d < 10" unfolding d by (simp add: less_mult_imp_div_less)
  have "dval ?s = d * dval b + dval r1" unfolding d r1(3) by simp
  then have "dval r * 10 + dig c = d * dval b + dval r1" using s(2) by simp
  then have "(dval r * 10 + dig c) * 10 ^ length cs + dval cs =
      d * dval b * 10 ^ length cs + (dval r1 * 10 ^ length cs + dval cs)"
    by (simp only: distrib_right add.assoc)
  then have "dval r * 10 ^ length (c # cs) + dval (c # cs) = dval (chr d # ds) * dval b + dval r'"
    unfolding IH(6) using d10 IH(3) by (simp add: dval_Cons algebra_simps)
  moreover have "div_loop (c # cs) b q r = Some (q @ (chr d # ds), r')"
    using r1(1) IH(1) by simp
  ultimately show ?case using IH(2-5) d10
    by (intro exI [of _ "chr d # ds"] exI [of _ r']) simp
qed auto

lemma divMod_correct:
  assumes "canon a" "canon b" "b \<noteq> zero_str"
  shows "\<exists>q r. divMod a b = Some (q, r) \<and> canon q \<and> canon r \<and>
    dval q = dval a div dval b \<and> dval r = dval a mod dval b"
proof -
  have b: "0 < dval b" using canon_dval_0 [OF assms(2)] assms(3) by simp
  have a: "list_all is_digit a" "a \<noteq> []" using assms(1) by (auto simp: canon_def)
  from div_loop_correct [OF assms(2) b a(1) canon_zero, of "[]"] b obtain q r where
    qr: "div_loop a b [] zero_str = Some (q, r)" "list_all is_digit q" "length q = length a"
    "canon r" "dval r < dval b" "dval a = dval q * dval b + dval r" by auto
  have "q \<noteq> []" using qr(3) a(2) by auto
  then have "canon (stripLeadingZeros q)" using qr(2) by (rule strip_canon)
  moreover have "dval q = dval a div dval b" "dval r = dval a mod dval b"
    using qr(5,6) by auto
  ultimately show ?thesis using qr(1,4) by (auto simp: divMod_def)
qed

lemma carry_loop_correct:
  "rval (carry_loop n) = n \<and> list_all is_digit (carry_loop n) \<and>
   (n \<noteq> 0 \<longrightarrow> carry_loop n \<noteq> [] \<and> last (carry_loop n) \<noteq> CHR ''0'')"
proof (induction n rule: carry_loop.induct)
  case (1 n)
  show ?case
  proof (cases "n = 0")
    case False
    have "chr (n mod 10) \<noteq> CHR ''0''" if "n div 10 = 0"
      using that False chr_eq0 [of n] by (simp add: div_eq_0_iff)
    with 1 False show ?thesis by (subst (1 2 3 4) carry_loop.simps) (auto simp: carry_loop.simps [of 0])
  qed (simp add: carry_loop.simps)
qed

lemma small_loop_correct:
  "list_all is_digit a \<Longrightarrow> 0 < n \<Longrightarrow>
   rval (small_loop a n k) = rval a * n + k \<and> list_all is_digit (small_loop a n k) \<and>
   (a \<noteq> [] \<longrightarrow> last a \<noteq> CHR ''0'' \<longrightarrow> small_loop a n k \<noteq> [] \<and> last (small_loop a n k) \<noteq> CHR ''0'')"
proof (induction a arbitrary: k)
  case Nil
  then show ?case using carry_loop_correct by simp
next
  case (Cons x a)
  let ?p = "dig x * n + k"
  have IH: "rval (small_loop a n (?p div 10)) = rval a * n + ?p div 10"
    "list_all is_digit (small_loop a n (?p div 10))"
    "a \<noteq> [] \<Longrightarrow> last a \<noteq> CHR ''0'' \<Longrightarrow>
      small_loop a n (?p div 10) \<noteq> [] \<and> last (small_loop a n (?p div 10)) \<noteq> CHR ''0''"
    using Cons by auto
  have "rval (small_loop (x # a) n k) = rval (x # a) * n + k"
    using IH(1) by (simp add: Let_def algebra_simps)
  moreover have "last (small_loop (x # a) n k) \<noteq> CHR ''0''" if "last (x # a) \<noteq> CHR ''0''"
  proof (cases "a = []")
    case True
    then have "dig x \<noteq> 0" using that Cons.prems(1) dig_eq0 [of x] by simp
    then have "?p \<noteq> 0" using Cons.prems(2) by simp
    then have "chr (?p mod 10) \<noteq> CHR ''0''" if "?p div 10 = 0"
      using that chr_eq0 [of ?p] by (simp add: div_eq_0_iff)
    then show ?thesis using True carry_loop_correct [of "?p div 10"]
      by (cases "?p div 10 = 0") (auto simp: Let_def carry_loop.simps [of 0])
  next
    case False
    with that IH(3) show ?thesis by (simp add: Let_def)
  qed
  ultimately show ?case using IH(2) by (auto simp: Let_def)
qed

lemma mulSmall_correct:
  assumes "canon a" shows "canon (mulSmall a n) \<and> dval (mulSmall a n) = dval a * n"
proof (cases "n = 0 \<or> a = zero_str")
  case True
  then show ?thesis by (auto simp: mulSmall_def)
next
  case False
  have a: "a \<noteq> []" "list_all is_digit (rev a)" "last (rev a) \<noteq> CHR ''0''"
    using assms False by (auto simp: canon_def last_rev)
  with small_loop_correct [of "rev a" n 0] False show ?thesis
    by (auto simp: mulSmall_def canon_def dval_def hd_rev)
qed

lemma mulSmallPow_correct:
  "canon a \<Longrightarrow> canon (mulSmallPow a n k) \<and> dval (mulSmallPow a n k) = dval a * n ^ k"
  by (induction a n k rule: mulSmallPow.induct) (simp_all add: mulSmall_correct)

lemma zeros_digits [simp]: "list_all is_digit (replicate k CHR ''0'')"
  by (induction k) (simp_all add: charclass less_eq_char_def)

lemma mulPow10_correct: "canon a \<Longrightarrow> 0 \<le> k \<Longrightarrow> \<exists>d. mulPow10 a k = Inr d \<and> canon d \<and> dval d = dval a * 10 ^ nat k"
  by (cases "a = zero_str") (auto simp: mulPow10_def canon_def dval_append zeros_def)

lemma nat_str_correct: "canon (nat_str n) \<and> dval (nat_str n) = n"
proof (induction n rule: nat_str.induct)
  case (1 n)
  show ?case
  proof (cases "n < 10")
    case True
    then show ?thesis
      by (subst (1 2) nat_str.simps) (auto simp: canon_def zero_str_def chr_eq0 chr0)
  next
    case False
    from 1 [OF False] have IH: "canon (nat_str (n div 10))" "dval (nat_str (n div 10)) = n div 10" by auto
    have "nat_str (n div 10) \<noteq> zero_str" using IH(2) False by auto
    with IH False show ?thesis
      by (subst (1 2) nat_str.simps) (auto simp: canon_def dval_snoc hd_append)
  qed
qed

end
