(* ===== verification/DecimalSpec.thy ===== *)
theory DecimalSpec imports Complex_Main DecimalArith begin

section \<open>Decimals against the rationals\<close>

text \<open>
  The abstraction of a \<open>CfBigDecimal\<close> is the rational \<open>bdval\<close> it denotes; \<open>bd_ok\<close> is the
  representation invariant (a digit string in normal form, no negative zero) that the parser
  establishes and every operation keeps. Each operation is then a functional refinement of the
  rational operation: exact for \<open>+ - *\<close> and for the comparison, exact or correctly rounded
  half-even at 20 places for the division.
\<close>

subsection \<open>Abstraction and invariant\<close>

definition sint_of :: "bigdec \<Rightarrow> int" where
  "sint_of v = (if neg v then - int (dval (digits v)) else int (dval (digits v)))"

definition bdval :: "bigdec \<Rightarrow> rat" where
  "bdval v = of_int (sint_of v) * 10 powi (- scale v)"

definition bd_ok :: "bigdec \<Rightarrow> bool" where
  "bd_ok v \<longleftrightarrow> canon (digits v) \<and> (neg v \<longrightarrow> digits v \<noteq> zero_str)"

text \<open>
  Padding is harmless when a zero is not the operand with fewer decimals: a padded zero
  \<open>0..0\<close> is no longer in the normal form \<open>cmpDigits\<close> relies on.
\<close>

definition aligned :: "bigdec \<Rightarrow> bigdec \<Rightarrow> bool" where
  "aligned a b \<longleftrightarrow> (isZeroBd a \<longrightarrow> scale b \<le> scale a) \<and> (isZeroBd b \<longrightarrow> scale a \<le> scale b)"

lemma sint_zero: "bd_ok v \<Longrightarrow> sint_of v = 0 \<longleftrightarrow> isZeroBd v"
  by (auto simp: sint_of_def bd_ok_def isZeroBd_def canon_dval_0)

lemma powi_nat: "0 \<le> k \<Longrightarrow> (10 :: rat) powi k = 10 ^ nat k"
  by (simp add: power_int_def)

lemma powi_split: "(10 :: rat) powi k = 10 ^ nat k / 10 ^ nat (- k)"
  by (cases "0 \<le> k") (simp_all add: power_int_def power_inverse field_simps)

lemma bdval_pad:
  assumes "scale v \<le> sc"
  shows "bdval v = of_int (sint_of v * 10 ^ nat (sc - scale v)) * 10 powi (- sc)"
proof -
  have "(10 :: rat) powi (- scale v) = 10 powi ((sc - scale v) + (- sc))" by simp
  also have "\<dots> = 10 powi (sc - scale v) * 10 powi (- sc)" by (rule power_int_add) simp
  also have "(10 :: rat) powi (sc - scale v) = 10 ^ nat (sc - scale v)" using assms by (simp add: powi_nat)
  finally show ?thesis by (simp add: bdval_def)
qed

lemma bdval_zero [simp]: "bdval \<lparr>neg = n, digits = zero_str, scale = s\<rparr> = 0"
  by (simp add: bdval_def sint_of_def)

lemma pad_dval: "dval (d @ zeros k) = dval d * 10 ^ nat k"
  by (simp add: zeros_def dval_append)

lemma pad_digits: "list_all is_digit d \<Longrightarrow> list_all is_digit (d @ zeros k)"
  by (simp add: zeros_def)

lemma pad_canon: "canon d \<Longrightarrow> (d = zero_str \<longrightarrow> k \<le> 0) \<Longrightarrow> canon (d @ zeros k)"
  by (cases "d = zero_str") (auto simp: canon_def zeros_def)

lemma bdval_eq: "bdval v = of_int (sint_of v) * 10 powi (- scale v)"
  by (rule bdval_def)

subsection \<open>Addition, subtraction, multiplication\<close>

definition scales_near :: "bigdec \<Rightarrow> bigdec \<Rightarrow> bool" where
  "scales_near a b \<longleftrightarrow> \<bar>scale a - scale b\<bar> < 2 ^ 31"

lemma pad_both_eq: "pad_both a b = (if scales_near a b then let sc = max (scale a) (scale b) in
    Inr (digits a @ zeros (sc - scale a), digits b @ zeros (sc - scale b)) else Inl UB)"
  by (auto simp: pad_both_def scales_near_def signed_op_def signed_fits_def max_def Let_def)

lemma bdAdd_spec:
  assumes "bd_ok a" "bd_ok b" "aligned a b \<or> neg a = neg b" "scales_near a b"
  shows "\<exists>v. bdAdd a b = Inr v \<and> bd_ok v \<and> bdval v = bdval a + bdval b"
proof -
  obtain sc where sc: "sc = max (scale a) (scale b)" by simp
  obtain ka kb where k: "ka = sc - scale a" "kb = sc - scale b" by simp
  let ?da = "digits a @ zeros ka" and ?db = "digits b @ zeros kb"
  have dg: "list_all is_digit ?da" "list_all is_digit ?db" "?da \<noteq> []" "?db \<noteq> []"
    using assms(1,2) by (auto simp: bd_ok_def canon_def pad_digits zeros_def)
  have sa: "of_int (sint_of a * 10 ^ nat ka) * 10 powi (- sc) = bdval a"
    "of_int (sint_of b * 10 ^ nat kb) * 10 powi (- sc) = bdval b"
    unfolding k by (rule bdval_pad [symmetric]; simp add: sc)+
  have pv: "sint_of a * 10 ^ nat ka = (if neg a then - int (dval ?da) else int (dval ?da))"
    "sint_of b * 10 ^ nat kb = (if neg b then - int (dval ?db) else int (dval ?db))"
    by (simp_all add: sint_of_def pad_dval)
  have goal: "\<exists>v. bdAdd a b = Inr v \<and> bd_ok v \<and> bdval v = bdval a + bdval b"
    if "bdAdd a b = Inr v" "scale v = sc" "bd_ok v" "sint_of v = sint_of a * 10 ^ nat ka + sint_of b * 10 ^ nat kb" for v
    using that by (simp add: bdval_def [of v] sa [symmetric] distrib_right)
  note add_def = bdAdd_def pad_both_eq [of a b] assms(4)
  show ?thesis
  proof (cases "neg a = neg b")
    case True
    note add = addDigits_correct [OF dg(1,2,3)]
    have eq: "bdAdd a b = Inr \<lparr>neg = neg a \<and> addDigits ?da ?db \<noteq> zero_str, digits = addDigits ?da ?db, scale = sc\<rparr>"
      using True by (simp add: add_def Let_def sc k)
    show ?thesis using add True
      by (intro goal [OF eq]) (auto simp: bd_ok_def pv sint_of_def [of "\<lparr>neg = _, digits = _, scale = _\<rparr>"]
        dest: canon_dval_0 arg_cong [where f = dval])
  next
    case False
    have cn: "canon ?da" "canon ?db"
      using assms False by (auto simp: bd_ok_def aligned_def isZeroBd_def sc k intro!: pad_canon)
    note c = cmp_canon [OF cn]
    consider "dval ?da = dval ?db" | "dval ?db < dval ?da" | "dval ?da < dval ?db" by linarith
    then show ?thesis
    proof cases
      case 1
      then have eq: "bdAdd a b = Inr \<lparr>neg = False, digits = zero_str, scale = sc\<rparr>"
        using False c by (simp add: add_def Let_def sc k)
      show ?thesis using False 1
        by (intro goal [OF eq]) (auto simp: bd_ok_def pv sint_of_def [of "\<lparr>neg = _, digits = _, scale = _\<rparr>"])
    next
      case 2
      then have eq: "bdAdd a b = Inr \<lparr>neg = neg a, digits = subDigits ?da ?db, scale = sc\<rparr>"
        using False c by (simp add: add_def Let_def sc k)
      have "length ?db \<le> length ?da" using longer_greater [OF cn] 2 by (meson less_asym not_le)
      note sub = subDigits_correct [OF dg(1,2) this dg(3) less_imp_le [OF 2]]
      have "subDigits ?da ?db \<noteq> zero_str" using sub 2 by (auto dest: arg_cong [where f = dval])
      with sub False 2 show ?thesis
        by (intro goal [OF eq]) (auto simp: bd_ok_def pv sint_of_def [of "\<lparr>neg = _, digits = _, scale = _\<rparr>"])
    next
      case 3
      then have eq: "bdAdd a b = Inr \<lparr>neg = neg b, digits = subDigits ?db ?da, scale = sc\<rparr>"
        using False c by (simp add: add_def Let_def sc k)
      have "length ?da \<le> length ?db" using longer_greater [OF cn(2,1)] 3 by (meson less_asym not_le)
      note sub = subDigits_correct [OF dg(2,1) this dg(4) less_imp_le [OF 3]]
      have "subDigits ?db ?da \<noteq> zero_str" using sub 3 by (auto dest: arg_cong [where f = dval])
      with sub False 3 show ?thesis
        by (intro goal [OF eq]) (auto simp: bd_ok_def pv sint_of_def [of "\<lparr>neg = _, digits = _, scale = _\<rparr>"])
    qed
  qed
qed

lemma bdNegate_spec: "bd_ok a \<Longrightarrow> bd_ok (bdNegate a) \<and> bdval (bdNegate a) = - bdval a"
  by (auto simp: bdNegate_def bd_ok_def isZeroBd_def bdval_def sint_of_def)

lemma bdNegate_scale [simp]: "scale (bdNegate a) = scale a"
  by (simp add: bdNegate_def)

lemma bdMul_spec:
  assumes "bd_ok a" "bd_ok b" "signed_fits 32 (scale a + scale b)"
  shows "\<exists>v. bdMul a b = Inr v \<and> bd_ok v \<and> bdval v = bdval a * bdval b"
proof -
  let ?ds = "mulDigits (digits a) (digits b)"
  let ?v = "\<lparr>neg = neg a \<noteq> neg b \<and> ?ds \<noteq> zero_str, digits = ?ds, scale = scale a + scale b\<rparr>"
  have m: "canon ?ds" "dval ?ds = dval (digits a) * dval (digits b)"
    using mulDigits_correct assms(1,2) by (auto simp: bd_ok_def)
  have s: "sint_of ?v = sint_of a * sint_of b"
    using m by (auto simp: sint_of_def dest: arg_cong [where f = dval])
  have "(10 :: rat) powi (- (scale a + scale b)) = 10 powi (- scale a) * 10 powi (- scale b)"
    by (simp add: power_int_add [symmetric])
  then have "bdval ?v = bdval a * bdval b" unfolding bdval_def s by simp
  moreover have "bd_ok ?v" using m by (auto simp: bd_ok_def)
  ultimately show ?thesis using assms(3) by (intro exI [of _ ?v]) (simp add: bdMul_def Let_def)
qed

subsection \<open>Comparison\<close>

lemma bdval_less_iff:
  assumes "scale a \<le> sc" "scale b \<le> sc"
  shows "sgn (bdval a - bdval b) = of_int (sgn (sint_of a * 10 ^ nat (sc - scale a) - sint_of b * 10 ^ nat (sc - scale b)))"
proof -
  have "bdval a - bdval b = of_int (sint_of a * 10 ^ nat (sc - scale a) - sint_of b * 10 ^ nat (sc - scale b)) * 10 powi (- sc)"
    by (simp add: bdval_pad [OF assms(1)] bdval_pad [OF assms(2)] left_diff_distrib)
  moreover have "sgn ((10 :: rat) powi (- sc)) = 1" by simp
  moreover have "sgn (of_int z :: rat) = of_int (sgn z)" for z by (simp add: sgn_if)
  ultimately show ?thesis by (simp only: sgn_mult mult_1_right)
qed

lemma bdCompare_spec:
  assumes "bd_ok a" "bd_ok b" "aligned a b" "scales_near a b \<or> neg a \<noteq> neg b \<or> (isZeroBd a \<and> isZeroBd b)"
  shows "\<exists>c. bdCompare a b = Inr c \<and> of_int c = sgn (bdval a - bdval b)"
proof -
  obtain sc where sc: "sc = max (scale a) (scale b)" by simp
  obtain ka kb where k: "ka = sc - scale a" "kb = sc - scale b" by simp
  let ?da = "digits a @ zeros ka" and ?db = "digits b @ zeros kb"
  have s: "sgn (bdval a - bdval b) = of_int (sgn (sint_of a * 10 ^ nat ka - sint_of b * 10 ^ nat kb))"
    unfolding k by (rule bdval_less_iff) (simp_all add: sc)
  have pv: "sint_of a * 10 ^ nat ka = (if neg a then - int (dval ?da) else int (dval ?da))"
    "sint_of b * 10 ^ nat kb = (if neg b then - int (dval ?db) else int (dval ?db))"
    by (simp_all add: sint_of_def pad_dval)
  have cn: "canon ?da" "canon ?db"
    using assms by (auto simp: bd_ok_def aligned_def isZeroBd_def sc k intro!: pad_canon)
  have pos: "neg a \<Longrightarrow> 0 < dval ?da" "neg b \<Longrightarrow> 0 < dval ?db"
    using assms(1,2) canon_dval_0 by (auto simp: bd_ok_def pad_dval)
  have "bdCompare a b = Inr (sgn (sint_of a * 10 ^ nat ka - sint_of b * 10 ^ nat kb))"
  proof (cases "neg a = neg b")
    case True
    show ?thesis
    proof (cases "isZeroBd a \<and> isZeroBd b")
      case True
      then have "dval ?da = 0" "dval ?db = 0" by (auto simp: isZeroBd_def pad_dval)
      with True \<open>neg a = neg b\<close> show ?thesis unfolding pv by (simp add: bdCompare_def)
    next
      case False
      have "bdCompare a b = Inr (if neg a then - cmpDigits ?da ?db else cmpDigits ?da ?db)"
        using True False assms(4) by (auto simp: bdCompare_def pad_both_eq Let_def sc k)
      with True show ?thesis unfolding pv cmp_canon [OF cn] by (auto simp: sgn_if)
    qed
  next
    case False
    with pos show ?thesis unfolding pv by (auto simp: bdCompare_def sgn_if)
  qed
  with s show ?thesis by simp
qed

subsection \<open>Division\<close>

lemma last_digit_parity:
  assumes "canon q" shows "dig (last q) mod 2 = dval q mod 2"
proof -
  have "q \<noteq> []" using assms by (simp add: canon_def)
  then have "dval q = 10 * dval (butlast q) + dig (last q)"
    using dval_snoc [of "butlast q" "last q"] by simp
  then show ?thesis by presburger
qed

lemma half_even:
  fixes D V q q' r :: nat
  assumes "0 < V" "q = D div V" "r = D mod V"
    and "q' = (if r \<noteq> 0 \<and> (V < r * 2 \<or> r * 2 = V \<and> q mod 2 = 1) then q + 1 else q)"
  shows "2 * \<bar>int q' * int V - int D\<bar> \<le> int V"
    "2 * \<bar>int q' * int V - int D\<bar> = int V \<Longrightarrow> even q'"
proof -
  have "q * V + r = D" using assms by simp
  then have D: "int D = int q * int V + int r" by (metis of_nat_add of_nat_mult)
  have r: "r < V" using assms by simp
  have *: "int q' * int V - int D = (if q' = q then - int r else int V - int r)"
    using assms(4) by (simp add: D algebra_simps)
  show "2 * \<bar>int q' * int V - int D\<bar> \<le> int V" unfolding * using assms(4) r by (auto split: if_splits)
  show "2 * \<bar>int q' * int V - int D\<bar> = int V \<Longrightarrow> even q'"
    unfolding * using assms(1,4) r by (auto split: if_splits)
qed

lemma quotient_scaled:
  assumes "bd_ok a" "bd_ok b" "\<not> isZeroBd b"
    and "kll = t - scale a + scale b"
    and "D = dval (digits a) * 10 ^ nat kll" "V = dval (digits b) * 10 ^ nat (- kll)"
  shows "bdval a / bdval b = (if neg a \<noteq> neg b then -1 else 1) * of_nat D / of_nat V * 10 powi (- t)"
proof -
  let ?A = "of_nat (dval (digits a)) :: rat" and ?B = "of_nat (dval (digits b)) :: rat"
  have b: "?B \<noteq> 0" using assms(2,3) canon_dval_0 by (auto simp: bd_ok_def isZeroBd_def)
  note k = powi_split [of kll, symmetric]
  have e: "(10 :: rat) powi (- scale a) / 10 powi (- scale b) = 10 powi kll * 10 powi (- t)"
    by (simp add: power_int_diff [symmetric] power_int_add [symmetric] assms(4))
  have "of_nat D / of_nat V * 10 powi (- t) = ?A / ?B * (10 ^ nat kll / 10 ^ nat (- kll)) * 10 powi (- t)"
    by (simp add: assms(5,6))
  also have "\<dots> = ?A / ?B * (10 powi (- scale a) / 10 powi (- scale b))" unfolding k e by simp
  finally have q: "of_nat D / of_nat V * 10 powi (- t) = ?A / ?B * (10 powi (- scale a) / 10 powi (- scale b))" .
  have "bdval a / bdval b = (if neg a \<noteq> neg b then -1 else 1) * (?A / ?B * (10 powi (- scale a) / 10 powi (- scale b)))"
    by (simp add: bdval_def sint_of_def)
  then show ?thesis unfolding q [symmetric] by simp
qed

definition nearest_even :: "bigdec \<Rightarrow> rat \<Rightarrow> bool" where
  "nearest_even v x \<longleftrightarrow> 2 * \<bar>bdval v - x\<bar> \<le> 10 powi (- scale v) \<and>
     (2 * \<bar>bdval v - x\<bar> = 10 powi (- scale v) \<longrightarrow> even (sint_of v))"

lemma nearest_even_intro:
  assumes "0 < V" "q = D div V" "r = D mod V"
    and "q' = (if r \<noteq> 0 \<and> (V < r * 2 \<or> r * 2 = V \<and> q mod 2 = 1) then q + 1 else q)"
    and "bdval v = s * of_nat q' * 10 powi (- scale v)" "x = s * of_nat D / of_nat V * 10 powi (- scale v)"
    and "s = 1 \<or> s = -1" "\<bar>sint_of v\<bar> = int q'"
  shows "nearest_even v x"
proof -
  let ?P = "(10 :: rat) powi (- scale v)" and ?z = "int q' * int V - int D"
  have P: "0 < ?P" by simp
  have "bdval v - x = s * of_int ?z / of_nat V * ?P"
    using assms(1) unfolding assms(5,6) by (simp add: field_simps)
  then have "\<bar>bdval v - x\<bar> = of_int \<bar>?z\<bar> / of_nat V * ?P"
    using assms(7) P by (auto simp: abs_mult)
  then have "2 * \<bar>bdval v - x\<bar> = of_int (2 * \<bar>?z\<bar>) / of_nat V * ?P" by simp
  moreover have "of_int (2 * \<bar>?z\<bar>) / of_nat V * ?P \<le> ?P \<longleftrightarrow> (of_int (2 * \<bar>?z\<bar>) :: rat) \<le> of_int (int V)"
    using assms(1) P by (simp add: field_simps)
  moreover have "of_int (2 * \<bar>?z\<bar>) / of_nat V * ?P = ?P \<longleftrightarrow> (of_int (2 * \<bar>?z\<bar>) :: rat) = of_int (int V)"
    using assms(1) P by (simp add: field_simps)
  moreover have "even (sint_of v) \<longleftrightarrow> even q'" using assms(8) by (metis dvd_abs_iff even_of_nat)
  ultimately show ?thesis
    using half_even [OF assms(1-4)] unfolding nearest_even_def by (simp only: of_int_le_iff of_int_eq_iff) blast
qed

lemma int32_id: "- (2 ^ 31) \<le> x \<Longrightarrow> x < 2 ^ 31 \<Longrightarrow> int32 x = x"
  unfolding int32_def by (rule signed_take_bit_int_eq_self) simp_all

lemma divideToScale_spec:
  assumes "bd_ok a" "bd_ok b" "\<not> isZeroBd b" "\<bar>t - scale a + scale b\<bar> < 2 ^ 31"
  shows "\<exists>r. divideToScale a b t h = Some (Inr r) \<and>
    (case r of None \<Rightarrow> \<not> h
     | Some v \<Rightarrow> bd_ok v \<and> scale v = t \<and> (if h then nearest_even v (bdval a / bdval b) else bdval v = bdval a / bdval b))"
proof (cases "isZeroBd a")
  case True
  then have "bdval a = 0" by (simp add: bdval_def sint_of_def isZeroBd_def)
  with True show ?thesis
    by (simp add: divideToScale_def bd_ok_def nearest_even_def sint_of_def)
next
  case False
  obtain kll where kll: "kll = t - scale a + scale b" by simp
  have kb: "0 \<le> kll \<Longrightarrow> int32 kll = kll" "kll < 0 \<Longrightarrow> int32 (- kll) = - kll"
    using assms(4) unfolding kll by (auto intro!: int32_id)
  have cd: "canon (digits a)" "canon (digits b)" using assms(1,2) by (simp_all add: bd_ok_def)
  obtain D0 where D0: "(if 0 \<le> kll then mulPow10 (digits a) (int32 kll) else Inr (digits a)) = Inr D0"
      "canon D0" "dval D0 = dval (digits a) * 10 ^ nat kll"
    using mulPow10_correct [OF cd(1), of kll] cd(1) kb(1) by (cases "0 \<le> kll") auto
  obtain V0 where V0: "(if 0 \<le> kll then Inr (digits b) else mulPow10 (digits b) (int32 (- kll))) = Inr V0"
      "canon V0" "dval V0 = dval (digits b) * 10 ^ nat (- kll)"
    using mulPow10_correct [OF cd(2), of "- kll"] cd(2) kb(2) by (cases "0 \<le> kll") auto
  note D = D0(2,3) and V = V0(2,3)
  have Vpos: "0 < dval V0" using V(2) assms(2,3) canon_dval_0 by (auto simp: bd_ok_def isZeroBd_def)
  then have "V0 \<noteq> zero_str" by (metis dval_zero less_irrefl)
  from divMod_correct [OF D(1) V(1) this] obtain q r where qr: "divMod D0 V0 = Some (q, r)"
    "canon q" "canon r" "dval q = dval D0 div dval V0" "dval r = dval D0 mod dval V0" by blast
  obtain D V where DV: "D = dval D0" "V = dval V0" by simp
  note x = quotient_scaled [OF assms(1-3) kll, of D V, OF DV(1) [unfolded D(2)] DV(2) [unfolded V(2)]]
  let ?c = "cmpDigits (mulSmall r 2) V0"
  obtain q' where q': "q' = (if r \<noteq> zero_str \<and> (0 < ?c \<or> ?c = 0 \<and> dig (last q) mod 2 = 1) then addDigits q ''1'' else q)"
    by simp
  have one: "list_all is_digit ''1''" "dval ''1'' = 1" by (simp_all add: charclass less_eq_char_def dig_def)
  have c: "?c = sgn (int (dval r * 2) - int V)"
    using cmp_canon [of "mulSmall r 2" V0] mulSmall_correct [OF qr(3), of 2] V(1) DV by simp
  have r0: "r = zero_str \<longleftrightarrow> dval r = 0" using canon_dval_0 [OF qr(3)] by simp
  have add: "canon (addDigits q ''1'')" "dval (addDigits q ''1'') = dval q + 1"
    using addDigits_correct [of q "''1''"] one qr(2) by (auto simp: canon_def)
  have q'c: "canon q'" using add qr(2) by (simp add: q')
  have q'v: "dval q' = (if dval r \<noteq> 0 \<and> (V < dval r * 2 \<or> dval r * 2 = V \<and> dval q mod 2 = 1)
      then dval q + 1 else dval q)"
    using add last_digit_parity [OF qr(2)] unfolding q' c r0 by (auto simp: sgn_if)
  let ?v = "\<lparr>neg = neg a \<noteq> neg b \<and> q' \<noteq> zero_str, digits = q', scale = t\<rparr>"
  obtain s where s: "s = (if neg a \<noteq> neg b then -1 else 1 :: rat)" by simp
  have v: "bdval ?v = s * of_nat (dval q') * 10 powi (- t)" "\<bar>sint_of ?v\<bar> = int (dval q')"
    by (auto simp: bdval_def sint_of_def s)
  have ok: "bd_ok ?v" using q'c by (simp add: bd_ok_def)
  have eq: "divideToScale a b t h = (if dval r \<noteq> 0 \<and> \<not> h then Some (Inr None) else Some (Inr (Some ?v)))"
    using False qr(1) r0 unfolding divideToScale_def Let_def kll [symmetric] D0(1) V0(1) by (simp add: q' del: bigdec.ext_inject)
  have ne: "nearest_even ?v (bdval a / bdval b)"
    by (rule nearest_even_intro [OF _ _ _ q'v, where D = D and s = s]) (use qr(4,5) DV Vpos v s x in auto)
  have ex: "bdval ?v = bdval a / bdval b" if "dval r = 0"
  proof -
    have "D = dval q' * V" using that qr(4,5) DV by (simp add: q'v mod_eq_0_iff_dvd)
    then show ?thesis using Vpos DV unfolding v(1) x s by simp
  qed
  show ?thesis unfolding eq using ok ne ex by auto
qed

lemma bdDivide_spec:
  assumes "bd_ok a" "bd_ok b" "\<not> isZeroBd b" "\<bar>scale b\<bar> < 2 ^ 31" "\<bar>20 - scale a + scale b\<bar> < 2 ^ 31"
  shows "\<exists>v. bdDivide a b = Some (Inr v) \<and> bd_ok v \<and>
    (scale v = scale a \<and> bdval v = bdval a / bdval b \<or>
     scale v = 20 \<and> nearest_even v (bdval a / bdval b))"
proof -
  from divideToScale_spec [OF assms(1-3), of "scale a" False] obtain r where r:
    "divideToScale a b (scale a) False = Some (Inr r)"
    "\<And>v. r = Some v \<Longrightarrow> bd_ok v \<and> scale v = scale a \<and> bdval v = bdval a / bdval b"
    using assms(4) by (auto split: option.splits)
  from divideToScale_spec [OF assms(1-3,5), of True] obtain w where w:
    "divideToScale a b 20 True = Some (Inr (Some w))" "bd_ok w \<and> scale w = 20 \<and> nearest_even w (bdval a / bdval b)"
    by (auto split: option.splits)
  show ?thesis
  proof (cases r)
    case None
    with r(1) w assms(3) show ?thesis by (simp add: bdDivide_def)
  next
    case (Some v)
    with r assms(3) show ?thesis by (simp add: bdDivide_def)
  qed
qed

end
