(* ===== verification/DecimalText.thy ===== *)
theory DecimalText imports DecimalSpec begin

section \<open>Decimals as text and from doubles; the properties of the decimal arithmetic\<close>

text \<open>
  The text form \<open>bdToString\<close> prints is read back by \<open>parseBigDecimal\<close> as the same decimal, and
  \<open>bdFromDouble\<close> is exact. The properties of the component follow.
\<close>

subsection \<open>Reading back\<close>

lemma scan_digits:
  "list_all is_digit ds \<Longrightarrow> scan_num (ds @ rest) dot ip fp =
   (if dot then scan_num rest True ip (fp @ ds) else scan_num rest False (ip @ ds) fp)"
  by (induction ds arbitrary: ip fp) (auto simp: charclass less_eq_char_def)

lemma exp_loop_digits:
  "list_all is_digit ds \<Longrightarrow> 0 \<le> ev \<Longrightarrow> ev * 10 ^ length ds + int (dval ds) < 2 ^ 63 \<Longrightarrow>
   exp_loop ds ev b = Inr (ev * 10 ^ length ds + int (dval ds), b \<or> ds \<noteq> [])"
proof (induction ds arbitrary: ev b)
  case (Cons c cs)
  let ?e = "ev * 10 + int (dig c)"
  have eq: "ev * 10 ^ length (c # cs) + int (dval (c # cs)) = ?e * 10 ^ length cs + int (dval cs)"
    by (simp add: dval_Cons algebra_simps)
  have "?e * 1 \<le> ?e * 10 ^ length cs" using Cons.prems(2) by (intro mult_left_mono) auto
  moreover have "0 \<le> int (dval cs)" by simp
  ultimately have "?e < 2 ^ 63" using Cons.prems(3) unfolding eq mult_1_right by (meson add_increasing2 le_less_trans)
  moreover have "exp_loop cs ?e True = Inr (?e * 10 ^ length cs + int (dval cs), True)"
    using Cons.IH [of ?e True] Cons.prems unfolding eq by simp
  ultimately show ?case unfolding eq using Cons.prems(1) by simp
qed simp

lemma exp_loop_nat_str: "n < 2 ^ 63 \<Longrightarrow> exp_loop (nat_str n) 0 False = Inr (int n, True)"
  using exp_loop_digits [of "nat_str n" 0 False] nat_str_correct [of n] by (auto simp: canon_def)

definition dot_part :: "bytes \<Rightarrow> bytes" where
  "dot_part fp = (if fp = [] then [] else ''.'' @ fp)"

definition sign_str :: "bool \<Rightarrow> bytes" where
  "sign_str n = (if n then ''-'' else [])"

lemma digit_plain: "is_digit c \<Longrightarrow> \<not> sp_tab c \<and> c \<noteq> CHR ''+'' \<and> c \<noteq> CHR ''-'' \<and> c \<noteq> CHR ''.''"
  by (auto simp: sp_tab_def charclass less_eq_char_def)

lemma trim_plain:
  "list_all (\<lambda>c. \<not> sp_tab c) s \<Longrightarrow> rev (dropWhile sp_tab (rev (dropWhile sp_tab s))) = s"
proof -
  assume "list_all (\<lambda>c. \<not> sp_tab c) s"
  then have "\<forall>c \<in> set s. \<not> sp_tab c" "\<forall>c \<in> set (rev s). \<not> sp_tab c" by (simp_all add: list_all_iff)
  then have "dropWhile sp_tab s = s" "dropWhile sp_tab (rev s) = rev s"
    by (metis dropWhile_eq_self_iff hd_in_set)+
  then show ?thesis by simp
qed

lemma digits_plain: "list_all is_digit ds \<Longrightarrow> list_all (\<lambda>c. \<not> sp_tab c) ds"
  by (auto simp: list_all_iff digit_plain)

lemma sign_of_str: "ip \<noteq> [] \<Longrightarrow> list_all is_digit ip \<Longrightarrow> sign_of (sign_str n @ ip @ r) = (n, ip @ r)"
  by (cases ip) (auto simp: sign_of_def sign_str_def digit_plain)

lemma sign_of_exp: "sign_of ((if 0 \<le> (e :: int) then ''+'' else ''-'') @ s) = (e < 0, s)"
  by (auto simp: sign_of_def)

lemma scan_plain:
  assumes "list_all is_digit ip" "list_all is_digit fp" "r = [] \<or> r = CHR ''E'' # r'"
  shows "scan_num (ip @ dot_part fp @ r) False [] [] = (ip, fp, r)"
proof -
  have "scan_num r b ip fp = (ip, fp, r)" for b
    using assms(3) by (auto simp: charclass less_eq_char_def)
  then show ?thesis using assms(1,2) by (cases "fp = []") (simp_all add: dot_part_def scan_digits)
qed

lemma parse_body:
  assumes ip: "ip \<noteq> []" "list_all is_digit ip" and fp: "list_all is_digit fp"
    and e: "ex = [] \<and> e = 0 \<or> ex = exp_str e \<and> \<bar>e\<bar> < 2 ^ 63"
  shows "parseBigDecimal (sign_str n @ ip @ dot_part fp @ ex) =
    Inr \<lparr>neg = n \<and> stripLeadingZeros (ip @ fp) \<noteq> zero_str, digits = stripLeadingZeros (ip @ fp),
         scale = int32 (int (length fp) - e)\<rparr>"
proof -
  have sp: "list_all (\<lambda>c. \<not> sp_tab c) (sign_str n @ ip @ dot_part fp @ ex)"
    using digits_plain [OF ip(2)] digits_plain [OF fp] e digits_plain [of "nat_str (nat \<bar>e\<bar>)"] nat_str_correct
    by (auto simp: sign_str_def dot_part_def exp_str_def canon_def sp_tab_def [of "CHR ''-''"]
        sp_tab_def [of "CHR ''+''"] sp_tab_def [of "CHR ''.''"] sp_tab_def [of "CHR ''E''"])
  have sc: "scan_num (ip @ dot_part fp @ ex) False [] [] = (ip, fp, ex)"
    using e by (intro scan_plain [OF ip(2) fp, of _ "drop 1 ex"]) (auto simp: exp_str_def)
  note head = trim_plain [OF sp] sign_of_str [OF ip, of n] sc
  from e show ?thesis
  proof
    assume "ex = [] \<and> e = 0"
    then show ?thesis using ip(1) head by (simp add: parseBigDecimal_def Let_def)
  next
    assume ex: "ex = exp_str e \<and> \<bar>e\<bar> < 2 ^ 63"
    then obtain r where r: "ex = CHR ''E'' # r" "r = (if 0 \<le> e then ''+'' else ''-'') @ nat_str (nat \<bar>e\<bar>)"
      by (simp add: exp_str_def)
    have "nat \<bar>e\<bar> < 2 ^ 63" using ex by (simp add: nat_less_iff)
    then have x: "exp_loop (nat_str (nat \<bar>e\<bar>)) 0 False = Inr (\<bar>e\<bar>, True)"
      using exp_loop_nat_str [of "nat \<bar>e\<bar>"] by simp
    have sr: "sign_of r = (e < 0, nat_str (nat \<bar>e\<bar>))" unfolding r(2) by (rule sign_of_exp)
    show ?thesis using ip(1) head sr x unfolding parseBigDecimal_def Let_def r(1) by simp
  qed
qed

lemma point_str_eq: "d \<noteq> [] \<Longrightarrow> point_str d = take 1 d @ dot_part (drop 1 d)"
  by (auto simp: point_str_def dot_part_def le_Suc_eq)

lemma print_shape:
  assumes "bd_ok v" "- (2 ^ 31) \<le> scale v" "scale v < 2 ^ 31" "int (length (digits v)) < 2 ^ 62"
  shows "\<exists>ip fp ex e. bdToString v = sign_str (neg v) @ ip @ dot_part fp @ ex \<and>
    ip \<noteq> [] \<and> list_all is_digit ip \<and> list_all is_digit fp \<and>
    (ex = [] \<and> e = 0 \<or> ex = exp_str e \<and> \<bar>e\<bar> < 2 ^ 63) \<and>
    stripLeadingZeros (ip @ fp) = digits v \<and> int (length fp) - e = scale v"
proof -
  let ?d = "digits v" and ?s = "scale v" and ?a = "int (length (digits v)) - scale v - 1"
  have c: "canon ?d" "?d \<noteq> []" "list_all is_digit ?d" using assms(1) by (auto simp: bd_ok_def canon_def)
  have tk: "list_all is_digit (take n ?d)" "list_all is_digit (drop n ?d)" for n
    using c(3) by (auto simp: list_all_iff dest: in_set_takeD in_set_dropD)
  have len: "0 < length ?d" using c(2) by simp
  have len1: "int (length ?d - Suc 0) = int (length ?d) - 1" using len by linarith
  have a: "\<bar>?a\<bar> < 2 ^ 63" using assms(2-4) by simp
  have sg: "(if neg v then ''-'' else []) = sign_str (neg v)" by (simp add: sign_str_def)
  have sci: ?thesis if "bdToString v = sign_str (neg v) @ point_str ?d @ exp_str ?a"
    using that tk [of 1] len a strip_id [OF c(1)] c(2)
    by - (rule exI [of _ "take 1 ?d"], rule exI [of _ "drop 1 ?d"], rule exI [of _ "exp_str ?a"], rule exI [of _ ?a], (simp add: point_str_eq len1))
  consider "?s = 0" | "?s < 0 \<or> 0 < ?s \<and> ?a < -6" | "0 < ?s" "-6 \<le> ?a" "?s < int (length ?d)"
    | "0 < ?s" "-6 \<le> ?a" "int (length ?d) \<le> ?s" by linarith
  then show ?thesis
  proof cases
    case 1
    then show ?thesis using c strip_id [OF c(1)]
      by - (rule exI [of _ ?d], rule exI [of _ "[]"], rule exI [of _ "[]"], rule exI [of _ 0], (simp add: bdToString_def dot_part_def sg))
  next
    case 2
    then have "bdToString v = sign_str (neg v) @ point_str ?d @ exp_str ?a"
      unfolding bdToString_def Let_def sg by auto
    then show ?thesis by (rule sci)
  next
    case 3
    obtain k where k: "k = length ?d - nat ?s" by simp
    then have k': "0 < k" "k < length ?d" "int (length (drop k ?d)) = ?s" using 3 by auto
    have "bdToString v = sign_str (neg v) @ take k ?d @ dot_part (drop k ?d) @ []"
      using 3 k' unfolding bdToString_def Let_def sg k dot_part_def by simp
    then show ?thesis using k' tk strip_id [OF c(1)] len
      by - (rule exI [of _ "take k ?d"], rule exI [of _ "drop k ?d"], rule exI [of _ "[]"], rule exI [of _ 0], simp)
  next
    case 4
    obtain z where z: "z = zeros (?s - int (length ?d))" by simp
    have "bdToString v = sign_str (neg v) @ ''0'' @ dot_part (z @ ?d) @ []"
      using 4 c(2) unfolding bdToString_def Let_def sg z dot_part_def by simp
    moreover have "stripLeadingZeros (''0'' @ z @ ?d) = ?d"
      using strip_zeros [OF c(1), of "Suc (nat (?s - int (length ?d)))"] by (simp add: z zeros_def)
    moreover have "list_all is_digit (z @ ?d)" "int (length (z @ ?d)) = ?s"
      using c(3) 4(3) by (simp_all add: z zeros_def)
    moreover have "list_all is_digit ''0''" by (simp add: charclass less_eq_char_def)
    ultimately show ?thesis
      by - (rule exI [of _ "''0''"], rule exI [of _ "z @ ?d"], rule exI [of _ "[]"], rule exI [of _ 0], simp)
  qed
qed

lemma parse_print:
  assumes "bd_ok v" "- (2 ^ 31) \<le> scale v" "scale v < 2 ^ 31" "int (length (digits v)) < 2 ^ 62"
  shows "parseBigDecimal (bdToString v) = Inr v"
proof -
  from print_shape [OF assms] obtain ip fp ex e where s:
    "bdToString v = sign_str (neg v) @ ip @ dot_part fp @ ex"
    "ip \<noteq> []" "list_all is_digit ip" "list_all is_digit fp"
    "ex = [] \<and> e = 0 \<or> ex = exp_str e \<and> \<bar>e\<bar> < 2 ^ 63"
    "stripLeadingZeros (ip @ fp) = digits v" "int (length fp) - e = scale v" by blast
  have "int32 (scale v) = scale v" using assms(2,3) by (rule int32_id)
  moreover have "(neg v \<and> digits v \<noteq> zero_str) = neg v" using assms(1) by (auto simp: bd_ok_def)
  ultimately show ?thesis unfolding s(1) parse_body [OF s(2-5)] s(6,7) by simp
qed

lemma scan_num_digits:
  "list_all is_digit ip \<Longrightarrow> list_all is_digit fp \<Longrightarrow> scan_num s b ip fp = (ip', fp', r) \<Longrightarrow>
   list_all is_digit ip' \<and> list_all is_digit fp'"
  by (induction s b ip fp rule: scan_num.induct) (auto split: if_splits)

lemma parse_ok:
  assumes "parseBigDecimal s = Inr v" shows "bd_ok v"
proof -
  obtain n s1 where s1: "sign_of (rev (dropWhile sp_tab (rev (dropWhile sp_tab s)))) = (n, s1)"
    by (cases "sign_of (rev (dropWhile sp_tab (rev (dropWhile sp_tab s))))")
  obtain ip fp s2 where s2: "scan_num s1 False [] [] = (ip, fp, s2)"
    by (cases "scan_num s1 False [] []") auto
  have d: "list_all is_digit (ip @ fp)" using scan_num_digits [OF _ _ s2] by simp
  have "ip @ fp \<noteq> []" using assms s1 s2 by (auto simp: parseBigDecimal_def)
  then have "canon (stripLeadingZeros (ip @ fp))" using d by (rule strip_canon)
  moreover have "\<exists>k. v = \<lparr>neg = n \<and> stripLeadingZeros (ip @ fp) \<noteq> zero_str,
      digits = stripLeadingZeros (ip @ fp), scale = k\<rparr>"
    using assms s1 s2 \<open>ip @ fp \<noteq> []\<close>
    by (auto simp: parseBigDecimal_def Let_def ebind_eq_Inr split: list.splits if_splits prod.splits)
  ultimately show ?thesis by (auto simp: bd_ok_def)
qed

subsection \<open>Doubles\<close>

lemma strip_twos_value:
  "strip_twos m e = (m', e') \<Longrightarrow> (of_nat m' :: rat) * 2 powi e' = of_nat m * 2 powi e \<and> (m \<noteq> 0 \<longrightarrow> m' \<noteq> 0)"
proof (induction m e rule: strip_twos.induct)
  case (1 m e)
  show ?case
  proof (cases "m \<noteq> 0 \<and> m mod 2 = 0")
    case True
    then have eq: "strip_twos (m div 2) (e + 1) = (m', e')" using 1(2) by (subst (asm) strip_twos.simps) simp
    have "m = 2 * (m div 2)" using True by presburger
    then have "(of_nat m :: rat) = 2 * of_nat (m div 2)" by (metis of_nat_mult of_nat_numeral)
    moreover have "(2 :: rat) powi (e + 1) = 2 * 2 powi e" by (simp add: power_int_add)
    ultimately show ?thesis using 1(1) [OF True eq] True by (auto simp: ac_simps)
  next
    case False
    then show ?thesis using 1(2) by (subst (asm) strip_twos.simps) auto
  qed
qed

lemma significand_pos:
  assumes "and bits 0x7fffffffffffffff \<noteq> 0" shows "significand bits \<noteq> 0"
proof
  assume z: "significand bits = 0"
  have m: "(0x7fffffffffffffff :: 64 word) = mask 63" "(0xfffffffffffff :: 64 word) = mask 52" "(0x7ff :: 64 word) = mask 11"
    by (simp_all add: mask_eq_exp_minus_1)
  have "\<not> bit bits n" if "n < 63" for n
  proof (cases "exp_field bits = 0")
    case True
    have "push_bit 1 (and bits (mask 52)) = 0" using z True unfolding significand_def m by (simp add: unsigned_eq_0_iff)
    then have "\<not> bit (push_bit 1 (and bits (mask 52))) (Suc n)" by simp
    then have lo: "n < 52 \<Longrightarrow> \<not> bit bits n"
      using that by (simp only: bit_push_bit_iff bit_and_iff bit_mask_iff possible_bit_word) auto
    have "and (drop_bit 52 bits) (mask 11) = 0" using True unfolding exp_field_def m by (simp add: unsigned_eq_0_iff)
    then have "\<not> bit (and (drop_bit 52 bits) (mask 11)) (n - 52)" by simp
    then have "52 \<le> n \<Longrightarrow> \<not> bit bits n" using that by (auto simp: bit_simps)
    with lo show ?thesis by linarith
  next
    case False
    then have "or (and bits 0xfffffffffffff) (0x10000000000000 :: 64 word) = 0"
      using z unfolding significand_def by (simp add: unsigned_eq_0_iff)
    then have "(0x10000000000000 :: 64 word) = 0" by (simp only: or_eq_0_iff)
    then show ?thesis by simp
  qed
  then have "and bits (mask 63) = 0" by (intro bit_word_eqI) (auto simp: bit_simps)
  with assms show False by (simp add: m)
qed

lemma five_powi: "(5 :: rat) ^ k * 10 powi (- int k) = 2 powi (- int k)"
  by (simp add: power_int_minus field_simps power_mult_distrib [symmetric])

lemma fromDouble_exact:
  assumes "and bits 0x7fffffffffffffff \<noteq> 0" "exp_field bits \<noteq> 0x7ff"
  shows "\<exists>v. bdFromDouble bits = Inr v \<and> bd_ok v \<and> bdval v =
    (if bit bits 63 then -1 else 1) * of_nat (significand bits) * 2 powi (int (exp_field bits) - 1075)"
proof -
  obtain m e where st: "strip_twos (significand bits) (int (exp_field bits) - 1075) = (m, e)"
    by (cases "strip_twos (significand bits) (int (exp_field bits) - 1075)")
  note v = strip_twos_value [OF st] significand_pos [OF assms(1)]
  have n: "canon (nat_str m)" "dval (nat_str m) = m" "m \<noteq> 0" using nat_str_correct [of m] v by auto
  obtain ds where def: "ds = (if e = 0 then nat_str m else if e < 0 then mulSmallPow (nat_str m) 5 (nat (- e))
    else mulSmallPow (nat_str m) 2 (nat e))" by simp
  let ?v = "\<lparr>neg = bit bits 63, digits = ds, scale = max 0 (- e)\<rparr>"
  have ds: "canon ds" "dval ds = m * (if e < 0 then 5 ^ nat (- e) else 2 ^ nat e)"
    using mulSmallPow_correct [OF n(1)] n by (auto simp: def)
  then have "dval ds \<noteq> 0" using n(3) by simp
  then have nz: "ds \<noteq> zero_str" by auto
  have "(of_nat (dval ds) :: rat) * 10 powi (- max 0 (- e)) = of_nat m * 2 powi e"
    unfolding ds(2) using five_powi [of "nat (- e)"] by (auto simp: power_int_def max_def)
  then have "bdval ?v = (if bit bits 63 then -1 else 1) * (of_nat m * 2 powi e)"
    by (simp add: bdval_def sint_of_def)
  moreover have "bdFromDouble bits = Inr ?v"
    using assms st by (simp add: bdFromDouble_def max_def def)
  ultimately show ?thesis using v ds(1) nz by (intro exI [of _ ?v]) (simp add: bd_ok_def)
qed

section \<open>Properties\<close>

lemma aligned_negate: "aligned a b \<Longrightarrow> aligned a (bdNegate b)"
  by (simp add: aligned_def bdNegate_def isZeroBd_def)

lemma bd_ok_digits: "bd_ok \<lparr>neg = n, digits = nat_str k, scale = s\<rparr> \<longleftrightarrow> (n \<longrightarrow> k \<noteq> 0)"
  using nat_str_correct [of k] canon_dval_0 [of "nat_str k"] by (auto simp: bd_ok_def)

text \<open>C11: The decimal operations are exact where their scales stay in 32 bits and no zero is padded. For decimals in the
  normal form the parser establishes: \<open>bdMul\<close> computes the product of the rationals they denote when the sum of the
  scales is an \<open>int\<close>, and has undefined behaviour otherwise. When the scales are less than \<open>2 ^ 31\<close> apart, \<open>bdAdd\<close> and
  \<open>bdSub\<close> compute the sum and the difference, provided the operands are aligned, that is, a zero operand is not the one
  with fewer decimals (a zero that has to be padded gives wrong results, such as 9.5 for \<open>0 - 0.5\<close>; operands of one sign
  may be added in any case); with scales further apart they have undefined behaviour. \<open>bdCompare\<close> gives the order of
  aligned operands, and has undefined behaviour exactly when it has to pad operands whose scales are that far apart.
  Every sum, difference and product is in normal form again.\<close>

theorem decimal_ring_exact:
  assumes "bd_ok a" "bd_ok b"
  shows "(if signed_fits 32 (scale a + scale b) then \<exists>p. bdMul a b = Inr p \<and> bd_ok p \<and> bdval p = bdval a * bdval b
      else bdMul a b = Inl UB) \<and>
    (if scales_near a b then
       (aligned a b \<or> neg a = neg b \<longrightarrow> (\<exists>s. bdAdd a b = Inr s \<and> bd_ok s \<and> bdval s = bdval a + bdval b)) \<and>
       (aligned a b \<longrightarrow> (\<exists>d. bdSub a b = Inr d \<and> bd_ok d \<and> bdval d = bdval a - bdval b))
     else bdAdd a b = Inl UB \<and> bdSub a b = Inl UB) \<and>
    (if scales_near a b \<or> neg a \<noteq> neg b \<or> (isZeroBd a \<and> isZeroBd b)
     then aligned a b \<longrightarrow> (\<exists>c. bdCompare a b = Inr c \<and> of_int c = sgn (bdval a - bdval b))
     else bdCompare a b = Inl UB)"
proof (intro conjI)
  have n: "bd_ok (bdNegate b)" "bdval (bdNegate b) = - bdval b" using bdNegate_spec [OF assms(2)] by auto
  show "if signed_fits 32 (scale a + scale b) then \<exists>p. bdMul a b = Inr p \<and> bd_ok p \<and> bdval p = bdval a * bdval b
      else bdMul a b = Inl UB"
    using bdMul_spec [OF assms] by (simp add: bdMul_def Let_def signed_op_def)
  show "if scales_near a b then
       (aligned a b \<or> neg a = neg b \<longrightarrow> (\<exists>s. bdAdd a b = Inr s \<and> bd_ok s \<and> bdval s = bdval a + bdval b)) \<and>
       (aligned a b \<longrightarrow> (\<exists>d. bdSub a b = Inr d \<and> bd_ok d \<and> bdval d = bdval a - bdval b))
     else bdAdd a b = Inl UB \<and> bdSub a b = Inl UB"
  proof (cases "scales_near a b")
    case True
    with bdAdd_spec [OF assms] bdAdd_spec [OF assms(1) n(1)] aligned_negate [of a b] n(2) show ?thesis
      by (auto simp: bdSub_def scales_near_def)
  next
    case False
    then show ?thesis by (simp add: bdSub_def bdAdd_def pad_both_eq) (simp add: scales_near_def)
  qed
  show "if scales_near a b \<or> neg a \<noteq> neg b \<or> (isZeroBd a \<and> isZeroBd b)
     then aligned a b \<longrightarrow> (\<exists>c. bdCompare a b = Inr c \<and> of_int c = sgn (bdval a - bdval b))
     else bdCompare a b = Inl UB"
    using bdCompare_spec [OF assms] by (auto simp: bdCompare_def pad_both_eq)
qed

theorem decimal_ring_exact_witness:
  "(\<exists>d. bdSub \<lparr>neg = False, digits = nat_str 125, scale = 2\<rparr> \<lparr>neg = True, digits = nat_str 5, scale = 1\<rparr> = Inr d \<and>
     bdval d = bdval \<lparr>neg = False, digits = nat_str 125, scale = 2\<rparr> - bdval \<lparr>neg = True, digits = nat_str 5, scale = 1\<rparr>) \<and>
   bdMul \<lparr>neg = False, digits = nat_str 1, scale = - 2147483647\<rparr> \<lparr>neg = False, digits = nat_str 1, scale = - 2\<rparr> = Inl UB"
proof -
  have "nat_str 125 \<noteq> zero_str" "nat_str 5 \<noteq> zero_str"
    using nat_str_correct [of 125] nat_str_correct [of 5] by (auto dest: arg_cong [where f = dval])
  then have "\<exists>d. bdSub \<lparr>neg = False, digits = nat_str 125, scale = 2\<rparr> \<lparr>neg = True, digits = nat_str 5, scale = 1\<rparr> = Inr d \<and>
     bdval d = bdval \<lparr>neg = False, digits = nat_str 125, scale = 2\<rparr> - bdval \<lparr>neg = True, digits = nat_str 5, scale = 1\<rparr>"
    using decimal_ring_exact [of "\<lparr>neg = False, digits = nat_str 125, scale = 2\<rparr>" "\<lparr>neg = True, digits = nat_str 5, scale = 1\<rparr>"]
    by (auto simp: bd_ok_digits aligned_def isZeroBd_def scales_near_def)
  moreover have "bdMul \<lparr>neg = False, digits = nat_str 1, scale = - 2147483647\<rparr> \<lparr>neg = False, digits = nat_str 1, scale = - 2\<rparr> = Inl UB"
    using decimal_ring_exact [of "\<lparr>neg = False, digits = nat_str 1, scale = - 2147483647\<rparr>" "\<lparr>neg = False, digits = nat_str 1, scale = - 2\<rparr>",
      THEN conjunct1] by (simp add: bd_ok_digits signed_fits_def)
  ultimately show ?thesis by blast
qed

text \<open>C22: Division. A zero divisor is the error \<open>Division by zero.\<close>; otherwise, for a dividend and a divisor whose scales keep
  the shifts \<open>scale b\<close> and \<open>20 - scale a + scale b\<close> inside 32 bits, the digit-by-digit
  long division ends, and its result is in normal form and either exact at the scale of the
  dividend or the decimal with 20 places nearest to the quotient, ties going to the even last
  digit.\<close>

theorem decimal_division:
  assumes "bd_ok a" "bd_ok b"
  shows "if isZeroBd b then bdDivide a b = Some (Inl (Throw ''Division by zero.''))
    else \<bar>scale b\<bar> < 2 ^ 31 \<and> \<bar>20 - scale a + scale b\<bar> < 2 ^ 31 \<longrightarrow> (\<exists>v. bdDivide a b = Some (Inr v) \<and> bd_ok v \<and>
      (scale v = scale a \<and> bdval v = bdval a / bdval b \<or>
       scale v = 20 \<and> nearest_even v (bdval a / bdval b)))"
  using bdDivide_spec [OF assms] by (auto simp: bdDivide_def)

theorem decimal_division_witness:
  "\<exists>v. bdDivide \<lparr>neg = False, digits = nat_str 1, scale = 0\<rparr> \<lparr>neg = False, digits = nat_str 3, scale = 0\<rparr> = Some (Inr v) \<and> bd_ok v"
proof -
  have "nat_str 3 \<noteq> zero_str" using nat_str_correct [of 3] by (auto dest: arg_cong [where f = dval])
  then show ?thesis
    using decimal_division [of "\<lparr>neg = False, digits = nat_str 1, scale = 0\<rparr>" "\<lparr>neg = False, digits = nat_str 3, scale = 0\<rparr>"]
    by (auto simp: bd_ok_digits isZeroBd_def)
qed

text \<open>C27: Printing and parsing. What \<open>parseBigDecimal\<close> accepts is in normal form, and it reads
  back exactly the decimal that \<open>bdToString\<close> printed, in plain and in scientific notation, for
  every scale of an \<open>int\<close>.\<close>

theorem decimal_print_parse:
  assumes "bd_ok v" "- (2 ^ 31) \<le> scale v" "scale v < 2 ^ 31" "int (length (digits v)) < 2 ^ 62"
  shows "parseBigDecimal (bdToString v) = Inr v \<and> (\<forall>s w. parseBigDecimal s = Inr w \<longrightarrow> bd_ok w)"
  using parse_print [OF assms] parse_ok by blast

theorem decimal_print_parse_witness:
  "parseBigDecimal (bdToString \<lparr>neg = True, digits = nat_str 15, scale = 9\<rparr>) = Inr \<lparr>neg = True, digits = nat_str 15, scale = 9\<rparr>"
proof -
  have "int (length (nat_str 15)) < 2 ^ 62" by (simp add: nat_str.simps)
  then show ?thesis
    using decimal_print_parse [of "\<lparr>neg = True, digits = nat_str 15, scale = 9\<rparr>"] by (simp add: bd_ok_digits)
qed

text \<open>\<open>bdFromDouble\<close> is exact: for every finite double other than \<open>\<plusminus>0\<close> (subnormal ones
  included), given by its 64 bits, the decimal denotes sign \<open>*\<close> significand \<open>* 2^(exponent - 1075)\<close>
  without rounding and is in normal form; infinities and NaNs are rejected with an error.\<close>

theorem decimal_from_double:
  assumes "and bits 0x7fffffffffffffff \<noteq> 0"
  shows "if exp_field bits = 0x7ff then bdFromDouble bits = Inl (Throw ''NumberFormatException: Infinite or NaN'')
    else \<exists>v. bdFromDouble bits = Inr v \<and> bd_ok v \<and> bdval v =
      (if bit bits 63 then -1 else 1) * of_nat (significand bits) * 2 powi (int (exp_field bits) - 1075)"
  using fromDouble_exact [OF assms] assms by (simp add: bdFromDouble_def)

theorem decimal_from_double_witness:
  "bdFromDouble 0x7ff8000000000000 = Inl (Throw ''NumberFormatException: Infinite or NaN'')"
  using decimal_from_double [where bits = "0x7ff8000000000000 :: 64 word"] by (simp add: exp_field_def)

text \<open>A padded zero breaks the subtraction and the comparison: \<open>bdAdd\<close> and \<open>bdCompare\<close> pad
  the digits \<open>0\<close> of an integer zero to \<open>00\<close>, which \<open>cmpDigits\<close> takes for the larger number
  because it is longer. The literals \<open>0\<close> and \<open>0.d\<close> parse to the decimals below, yet \<open>0 - 0.d\<close> is
  computed as \<open>10 - 0.d\<close> and \<open>0\<close> compares greater than \<open>0.d\<close>, for every digit \<open>d\<close> from 1 to 9.\<close>

theorem decimal_padded_zero_wrong:
  assumes "0 < d" "d < 10"
  shows "parseBigDecimal ''0'' = Inr \<lparr>neg = False, digits = ''0'', scale = 0\<rparr> \<and>
    parseBigDecimal (''0.'' @ [chr d]) = Inr \<lparr>neg = False, digits = [chr d], scale = 1\<rparr> \<and>
    (\<exists>v. bdSub \<lparr>neg = False, digits = ''0'', scale = 0\<rparr> \<lparr>neg = False, digits = [chr d], scale = 1\<rparr> = Inr v \<and>
      bdval v = 10 - bdval \<lparr>neg = False, digits = [chr d], scale = 1\<rparr>) \<and>
    bdCompare \<lparr>neg = False, digits = ''0'', scale = 0\<rparr> \<lparr>neg = False, digits = [chr d], scale = 1\<rparr> = Inr 1"
proof -
  have d: "chr d \<noteq> CHR ''0''" "is_digit (chr d)" "dig (chr d) = d" "is_digit CHR ''0''"
    using assms chr_eq0 [of d] chr_digit [of 0] by (simp_all add: chr0)
  have z: "zeros 1 = ''0''" "zeros 0 = []" by (simp_all add: zeros_def)
  let ?b = "\<lparr>neg = False, digits = [chr d], scale = 1\<rparr>" and ?z = "\<lparr>neg = False, digits = ''0'', scale = 0\<rparr>"
  have nz: "\<not> isZeroBd ?b" using d(1) by (simp add: isZeroBd_def zero_str_def)
  have cmp: "cmpDigits ''00'' [chr d] = 1" by (simp add: cmpDigits_def)
  have "sub_loop (rev ''00'') (rev [chr d]) 0 = [chr (10 - d), chr 9]"
    using assms d(3) by (simp add: Let_def nat_diff_distrib)
  then have sub: "subDigits ''00'' [chr d] = [chr 9, chr (10 - d)]"
    using chr_eq0 [of 9] by (simp add: subDigits_def)
  let ?v = "\<lparr>neg = False, digits = [chr 9, chr (10 - d)], scale = 1\<rparr>"
  have "bdSub ?z ?b = Inr ?v"
    using nz sub by (simp add: bdSub_def bdAdd_def pad_both_eq scales_near_def bdNegate_def z cmp)
  moreover have "dval [chr 9, chr (10 - d)] = 100 - d" using assms by (simp add: dval_Cons)
  moreover have "(of_nat (100 - d) :: rat) = 100 - of_nat d" using assms by (simp add: of_nat_diff)
  ultimately have "\<exists>v. bdSub ?z ?b = Inr v \<and> bdval v = 10 - bdval ?b"
    using d(3) by (simp add: bdval_def sint_of_def power_int_minus divide_simps)
  moreover have "bdCompare ?z ?b = Inr 1"
    using nz cmp by (simp add: bdCompare_def pad_both_eq scales_near_def z)
  moreover have "parseBigDecimal ''0'' = Inr ?z"
    using parse_body [of "''0''" "[]" "[]" 0 False] d(4)
    by (simp add: sign_str_def dot_part_def zero_str_def int32_def)
  moreover have "parseBigDecimal (''0.'' @ [chr d]) = Inr ?b"
    using parse_body [of "''0''" "[chr d]" "[]" 0 False] d
    by (simp add: sign_str_def dot_part_def int32_id)
  ultimately show ?thesis by blast
qed

theorem decimal_padded_zero_wrong_witness:
  "bdCompare \<lparr>neg = False, digits = ''0'', scale = 0\<rparr> \<lparr>neg = False, digits = [chr 5], scale = 1\<rparr> = Inr 1"
  using decimal_padded_zero_wrong [of 5] by simp

end
