(* ===== verification/Tables.thy ===== *)
theory Tables imports Prelude begin

section \<open>Tables with a primary key\<close>

text \<open>
  The two stores of the server keep their state in SQLite tables. SQLite is not part of the
  repository; the models interpret the SQL statements of the source by the four operations
  below, on a table given as the list of its rows, with the documented meaning of \<open>SELECT\<close>,
  \<open>UPDATE\<close>, \<open>DELETE\<close> and \<open>INSERT ... ON CONFLICT\<close>. How a statement ends (it fails to prepare, its
  step fails after some rows, or it completes) is a parameter of every operation: a statement
  that fails changes nothing.
\<close>

datatype outcome = PrepFail | StepFail nat | Done

text \<open>The outcomes of the statements of one operation, and the message of SQLite's last error.\<close>

record 's db_env =
  outcome_of :: "'s \<Rightarrow> outcome"
  errmsg :: bytes

definition ok :: "'s db_env \<Rightarrow> 's \<Rightarrow> bool" where
  "ok env s \<longleftrightarrow> outcome_of env s = Done"

definition all_ok :: "'s db_env \<Rightarrow> bool" where
  "all_ok env \<longleftrightarrow> (\<forall>s. ok env s)"

definition sqlite_ok :: "'s db_env" where
  "sqlite_ok = \<lparr>outcome_of = (\<lambda>_. Done), errmsg = []\<rparr>"

lemma sqlite_ok_simps [simp]: "all_ok sqlite_ok" "ok sqlite_ok s" "outcome_of sqlite_ok s = Done"
  by (simp_all add: sqlite_ok_def all_ok_def ok_def)

definition delete_where :: "('r \<Rightarrow> bool) \<Rightarrow> 'r list \<Rightarrow> 'r list" where
  "delete_where p rows = filter (\<lambda>r. \<not> p r) rows"

definition update_where :: "('r \<Rightarrow> bool) \<Rightarrow> ('r \<Rightarrow> 'r) \<Rightarrow> 'r list \<Rightarrow> 'r list" where
  "update_where p f rows = map (\<lambda>r. if p r then f r else r) rows"

fun upsert :: "('r \<Rightarrow> 'k) \<Rightarrow> 'r \<Rightarrow> ('r \<Rightarrow> 'r) \<Rightarrow> 'r list \<Rightarrow> 'r list" where
  "upsert key new merge [] = [new]"
| "upsert key new merge (r # rs) = (if key r = key new then merge r # rs else r # upsert key new merge rs)"

definition row_of :: "('r \<Rightarrow> 'k) \<Rightarrow> 'k \<Rightarrow> 'r list \<Rightarrow> 'r option" where
  "row_of key k rows = List.find (\<lambda>r. key r = k) rows"

text \<open>The primary key: no two rows have the same key.\<close>

definition unique :: "('r \<Rightarrow> 'k) \<Rightarrow> 'r list \<Rightarrow> bool" where
  "unique key rows \<longleftrightarrow> distinct (map key rows)"

lemma find_SomeD: "List.find P xs = Some x \<Longrightarrow> x \<in> set xs \<and> P x"
  by (induction xs) (auto split: if_splits)

lemma row_of_simps [simp]:
  "row_of key k [] = None"
  "row_of key k (r # rs) = (if key r = k then Some r else row_of key k rs)"
  by (simp_all add: row_of_def)

lemma row_of_mem: "row_of key k rows = Some r \<Longrightarrow> r \<in> set rows \<and> key r = k"
  by (induction rows) (auto split: if_splits)

lemma row_of_none: "row_of key k rows = None \<longleftrightarrow> k \<notin> key ` set rows"
  by (induction rows) auto

lemma row_of_none_iff: "row_of key k rows = None \<longleftrightarrow> (\<forall>r \<in> set rows. key r \<noteq> k)"
  by (induction rows) auto

lemma row_of_eq: "unique key rows \<Longrightarrow> row_of key k rows = Some r \<longleftrightarrow> r \<in> set rows \<and> key r = k"
  by (induction rows) (auto simp: unique_def)

lemma delete_simps [simp]:
  "delete_where p [] = []"
  "delete_where p (r # rs) = (if p r then delete_where p rs else r # delete_where p rs)"
  by (simp_all add: delete_where_def)

lemma set_delete [simp]: "set (delete_where p rows) = {r \<in> set rows. \<not> p r}"
  by (auto simp: delete_where_def)

lemma delete_id: "(\<And>r. r \<in> set rows \<Longrightarrow> \<not> p r) \<Longrightarrow> delete_where p rows = rows"
  by (simp add: delete_where_def)

lemma unique_delete [simp, intro]: "unique key rows \<Longrightarrow> unique key (delete_where p rows)"
  by (simp add: unique_def delete_where_def distinct_map_filter)

lemma row_of_delete:
  "unique key rows \<Longrightarrow> row_of key k (delete_where p rows) =
   (case row_of key k rows of None \<Rightarrow> None | Some r \<Rightarrow> if p r then None else Some r)"
proof (induction rows)
  case (Cons r rs)
  then have "unique key rs" "key r \<notin> key ` set rs" by (auto simp: unique_def)
  with Cons.IH show ?case by (cases "key r = k") (auto simp: row_of_none [symmetric] split: option.splits)
qed simp

lemma unique_update [simp, intro]:
  "unique key rows \<Longrightarrow> (\<And>r. key (f r) = key r) \<Longrightarrow> unique key (update_where p f rows)"
proof -
  assume "unique key rows" "\<And>r. key (f r) = key r"
  moreover have "map key (update_where p f rows) = map key rows"
    using calculation(2) by (simp add: update_where_def)
  ultimately show ?thesis by (simp only: unique_def)
qed

lemma row_of_update:
  "(\<And>r. key (f r) = key r) \<Longrightarrow> row_of key k (update_where p f rows) =
   map_option (\<lambda>r. if p r then f r else r) (row_of key k rows)"
  by (induction rows) (auto simp: update_where_def)

lemma keys_upsert:
  "(\<And>r. key r = key new \<Longrightarrow> key (merge r) = key new) \<Longrightarrow>
   key ` set (upsert key new merge rows) = insert (key new) (key ` set rows)"
  by (induction rows) auto

lemma unique_upsert [intro]:
  "unique key rows \<Longrightarrow> (\<And>r. key r = key new \<Longrightarrow> key (merge r) = key new) \<Longrightarrow>
   unique key (upsert key new merge rows)"
proof (induction rows)
  case (Cons r rs)
  then have "unique key rs" "key r \<notin> key ` set rs" by (auto simp: unique_def)
  with Cons keys_upsert [of key new merge rs] show ?case by (auto simp: unique_def)
qed (simp add: unique_def)

lemma row_of_upsert:
  "(\<And>r. key r = key new \<Longrightarrow> key (merge r) = key new) \<Longrightarrow>
   row_of key k (upsert key new merge rows) =
     (if k = key new then Some (case row_of key k rows of None \<Rightarrow> new | Some r \<Rightarrow> merge r)
      else row_of key k rows)"
  by (induction rows) auto

lemma upsert_all:
  "r \<in> set (upsert key new merge rows) \<Longrightarrow> \<forall>x \<in> set rows. P x \<Longrightarrow> P new \<Longrightarrow> (\<And>x. P x \<Longrightarrow> P (merge x)) \<Longrightarrow> P r"
  by (induction rows) (auto split: if_splits)

end
