(* ===== verification/ScopeStore.thy ===== *)
theory ScopeStore imports StringOps Tables begin

section \<open>The persistent APPLICATION and SESSION scopes: \<open>ScopeStore\<close>\<close>

text \<open>
  Models \<open>src/scope_store.cpp\<close>: the tables \<open>cf_scope\<close>, \<open>cf_seq\<close> and \<open>cf_security\<close>, one
  operation per member function, each a composition of the SQL statements it prepares, in the
  order it runs them. \<open>env\<close> says how each statement ends. A text is bound with length -1, so it
  ends at its first NUL (\<open>cstr\<close>). Out parameters are results. The connection is taken to be
  open; \<open>open_tx\<close> is set while a \<open>BEGIN\<close> has not been committed or rolled back.
\<close>

record scope_row =
  kind :: bytes
  app_name :: bytes
  scope_id :: bytes
  data :: bytes
  expires_at :: int
  last_access :: int
  start_time :: int
  cfc_path :: bytes

record sec_row =
  token :: bytes
  username :: bytes
  password :: bytes
  roles :: bytes
  app_token :: bytes
  max_inactive :: int
  sec_access :: int

record store =
  scopes :: "scope_row list"
  cfid_seq :: "int option"
  security :: "sec_row list"
  lastError :: bytes
  open_tx :: bool

datatype stmt = SelScope | PurgeKey | UpsertScope | DelApp | DelSession | RotateScope | TouchScope
  | MinExpiry | Begin | SelExpired | DelExpired | Commit | SelSeq | UpsertSeq
  | SelSec | SelSecAccess | TouchSec | DelSec | UpsertSec | DelSecApp

type_synonym sqlite = "stmt db_env"

definition failed :: "sqlite \<Rightarrow> store \<Rightarrow> store" where
  "failed env st = st\<lparr>lastError := errmsg env\<rparr>"

subsection \<open>Scope rows\<close>

type_synonym scope_key = "bytes \<times> bytes \<times> bytes"

definition key_of_row :: "scope_row \<Rightarrow> scope_key" where
  "key_of_row r = (kind r, app_name r, scope_id r)"

definition live :: "int \<Rightarrow> scope_row \<Rightarrow> bool" where
  "live now r \<longleftrightarrow> expires_at r = 0 \<or> now < expires_at r"

definition expired :: "int \<Rightarrow> scope_row \<Rightarrow> bool" where
  "expired now r \<longleftrightarrow> 0 < expires_at r \<and> expires_at r \<le> now"

text \<open>The lazy purge of one row, its second statement.\<close>

definition purge_key :: "scope_key \<Rightarrow> int \<Rightarrow> scope_row list \<Rightarrow> scope_row list" where
  "purge_key k now rows = delete_where (\<lambda>r. key_of_row r = k \<and> expired now r) rows"

definition loadRow :: "sqlite \<Rightarrow> bytes \<Rightarrow> bytes \<Rightarrow> bytes \<Rightarrow> int \<Rightarrow> store \<Rightarrow> (bytes \<times> int) option \<times> store" where
  "loadRow env kd appName scopeId now st = (let k = (kd, cstr appName, cstr scopeId) in
     if \<not> ok env SelScope then (None, failed env st)
     else case List.find (\<lambda>r. key_of_row r = k \<and> live now r) (scopes st) of
       Some r \<Rightarrow> (Some (data r, start_time r), st)
     | None \<Rightarrow> (None, if ok env PurgeKey then st\<lparr>scopes := purge_key k now (scopes st)\<rparr> else st))"

definition APPLICATION :: bytes where "APPLICATION = ''APPLICATION''"

definition SESSION :: bytes where "SESSION = ''SESSION''"

definition loadApplication :: "sqlite \<Rightarrow> bytes \<Rightarrow> int \<Rightarrow> store \<Rightarrow> bytes option \<times> store" where
  "loadApplication env appName now st =
     (let (r, st') = loadRow env APPLICATION appName [] now st in (map_option fst r, st'))"

definition loadSession :: "sqlite \<Rightarrow> bytes \<Rightarrow> bytes \<Rightarrow> int \<Rightarrow> store \<Rightarrow> (bytes \<times> int) option \<times> store" where
  "loadSession env appName sessionId now st = loadRow env SESSION appName sessionId now st"

text \<open>\<open>DO UPDATE\<close> keeps the old creation time and component path when the new ones are empty.\<close>

definition merge_row :: "scope_row \<Rightarrow> scope_row \<Rightarrow> scope_row" where
  "merge_row new old = old\<lparr>data := data new, expires_at := expires_at new, last_access := last_access new,
     start_time := (if 0 < start_time new then start_time new else start_time old),
     cfc_path := (if cfc_path new \<noteq> [] then cfc_path new else cfc_path old)\<rparr>"

definition storeRow ::
  "sqlite \<Rightarrow> bytes \<Rightarrow> bytes \<Rightarrow> bytes \<Rightarrow> bytes \<Rightarrow> int \<Rightarrow> int \<Rightarrow> int \<Rightarrow> bytes \<Rightarrow> store \<Rightarrow> bool \<times> store" where
  "storeRow env kd appName scopeId dat expiresAt now startTime cfcPath st =
     (let new = \<lparr>kind = kd, app_name = cstr appName, scope_id = cstr scopeId, data = cstr dat,
        expires_at = expiresAt, last_access = now, start_time = startTime, cfc_path = cstr cfcPath\<rparr> in
      if \<not> ok env UpsertScope then (False, failed env st)
      else (True, st\<lparr>scopes := upsert key_of_row new (merge_row new) (scopes st)\<rparr>))"

definition storeApplication ::
  "sqlite \<Rightarrow> bytes \<Rightarrow> bytes \<Rightarrow> int \<Rightarrow> int \<Rightarrow> bytes \<Rightarrow> store \<Rightarrow> bool \<times> store" where
  "storeApplication env appName dat expiresAt now cfcPath st =
     storeRow env APPLICATION appName [] dat expiresAt now 0 cfcPath st"

definition storeSession ::
  "sqlite \<Rightarrow> bytes \<Rightarrow> bytes \<Rightarrow> bytes \<Rightarrow> int \<Rightarrow> int \<Rightarrow> int \<Rightarrow> bytes \<Rightarrow> store \<Rightarrow> bool \<times> store" where
  "storeSession env appName sessionId dat expiresAt now startTime cfcPath st =
     storeRow env SESSION appName sessionId dat expiresAt now startTime cfcPath st"

definition removeApplication :: "sqlite \<Rightarrow> bytes \<Rightarrow> store \<Rightarrow> bool \<times> store" where
  "removeApplication env appName st = (if \<not> ok env DelApp then (False, failed env st)
     else (True, st\<lparr>scopes := delete_where (\<lambda>r. app_name r = cstr appName) (scopes st)\<rparr>))"

definition removeSession :: "sqlite \<Rightarrow> bytes \<Rightarrow> bytes \<Rightarrow> store \<Rightarrow> bool \<times> store" where
  "removeSession env appName sessionId st = (if \<not> ok env DelSession then (False, failed env st)
     else (True, st\<lparr>scopes := delete_where
       (\<lambda>r. key_of_row r = (SESSION, cstr appName, cstr sessionId)) (scopes st)\<rparr>))"

text \<open>
  The \<open>UPDATE\<close> of the key column violates the primary key when another row has the new id:
  the step fails.
\<close>

definition rotateSession :: "sqlite \<Rightarrow> bytes \<Rightarrow> bytes \<Rightarrow> bytes \<Rightarrow> store \<Rightarrow> bool \<times> store" where
  "rotateSession env appName oldId newId st =
     (let old = (SESSION, cstr appName, cstr oldId); new = (SESSION, cstr appName, cstr newId) in
      if \<not> ok env RotateScope \<or>
         (old \<noteq> new \<and> row_of key_of_row old (scopes st) \<noteq> None \<and> row_of key_of_row new (scopes st) \<noteq> None)
      then (False, failed env st)
      else (True, st\<lparr>scopes := update_where (\<lambda>r. key_of_row r = old)
              (\<lambda>r. r\<lparr>scope_id := cstr newId\<rparr>) (scopes st)\<rparr>))"

definition touchRow :: "sqlite \<Rightarrow> bytes \<Rightarrow> bytes \<Rightarrow> bytes \<Rightarrow> int \<Rightarrow> int \<Rightarrow> store \<Rightarrow> bool \<times> store" where
  "touchRow env kd appName scopeId newExpiresAt now st =
     (let p = (\<lambda>r. key_of_row r = (kd, cstr appName, cstr scopeId) \<and> live now r) in
      if \<not> ok env TouchScope then (False, failed env st)
      else (list_ex p (scopes st),
            st\<lparr>scopes := update_where p (\<lambda>r. r\<lparr>expires_at := newExpiresAt, last_access := now\<rparr>) (scopes st)\<rparr>))"

definition touchApplication :: "sqlite \<Rightarrow> bytes \<Rightarrow> int \<Rightarrow> int \<Rightarrow> store \<Rightarrow> bool \<times> store" where
  "touchApplication env appName newExpiresAt now st = touchRow env APPLICATION appName [] newExpiresAt now st"

definition touchSession :: "sqlite \<Rightarrow> bytes \<Rightarrow> bytes \<Rightarrow> int \<Rightarrow> int \<Rightarrow> store \<Rightarrow> bool \<times> store" where
  "touchSession env appName sessionId newExpiresAt now st = touchRow env SESSION appName sessionId newExpiresAt now st"

fun min_opt :: "int option \<Rightarrow> int \<Rightarrow> int option" where
  "min_opt None x = Some x"
| "min_opt (Some m) x = Some (min m x)"

definition earliestExpiry :: "sqlite \<Rightarrow> store \<Rightarrow> int option \<times> store" where
  "earliestExpiry env st = (case outcome_of env MinExpiry of
     PrepFail \<Rightarrow> (None, failed env st)
   | StepFail _ \<Rightarrow> (None, st)
   | Done \<Rightarrow> (foldl min_opt None (map expires_at (filter (\<lambda>r. 0 < expires_at r) (scopes st))), st))"

text \<open>
  \<open>claimExpired\<close>: one transaction that copies the expired rows and deletes them. The reading
  loop stops when a step does not yield a row, so a step that fails after \<open>n\<close> rows looks like
  the end of the rows. \<open>BEGIN\<close> inside an open transaction fails.
\<close>

definition begin_ok :: "sqlite \<Rightarrow> store \<Rightarrow> bool" where
  "begin_ok env st \<longleftrightarrow> ok env Begin \<and> \<not> open_tx st"

definition claimExpired :: "sqlite \<Rightarrow> int \<Rightarrow> store \<Rightarrow> (bool \<times> scope_row list) \<times> store" where
  "claimExpired env now st =
     (if \<not> begin_ok env st then ((False, []), failed env st)
      else case outcome_of env SelExpired of
        PrepFail \<Rightarrow> ((False, []), failed env st)
      | out \<Rightarrow>
        (let rows = filter (expired now) (scopes st);
             recs = (case out of StepFail n \<Rightarrow> take n rows | _ \<Rightarrow> rows) in
         if recs \<noteq> [] \<and> \<not> ok env DelExpired then ((False, recs), failed env st)
         else let st1 = (if recs \<noteq> [] then st\<lparr>scopes := delete_where (expired now) (scopes st)\<rparr> else st) in
           if \<not> ok env Commit then ((False, recs), failed env (st1\<lparr>open_tx := True\<rparr>))
           else ((True, recs), st1)))"

definition nextCfid :: "sqlite \<Rightarrow> store \<Rightarrow> int option \<times> store" where
  "nextCfid env st =
     (if \<not> begin_ok env st then (None, failed env st)
      else case outcome_of env SelSeq of
        PrepFail \<Rightarrow> (None, failed env (st\<lparr>open_tx := \<not> ok env Commit\<rparr>))
      | out \<Rightarrow>
        (let next = (case (out, cfid_seq st) of (Done, Some n) \<Rightarrow> n | _ \<Rightarrow> 1) in
         if \<not> ok env UpsertSeq then (None, failed env (st\<lparr>open_tx := \<not> ok env Commit\<rparr>))
         else (Some next, st\<lparr>cfid_seq := Some (next + 1), open_tx := \<not> ok env Commit\<rparr>)))"

definition purgeExpired :: "sqlite \<Rightarrow> int \<Rightarrow> store \<Rightarrow> bool \<times> store" where
  "purgeExpired env now st = (if \<not> ok env DelExpired then (False, failed env st)
     else (True, st\<lparr>scopes := delete_where (expired now) (scopes st)\<rparr>))"

subsection \<open>The login pool\<close>

text \<open>
  \<open>loadSecurity\<close> takes the byte count of column 0, the user name, for every column. A column's
  buffer ends with a NUL; a count beyond it reads outside the buffer.
\<close>

definition column_prefix :: "nat \<Rightarrow> bytes \<Rightarrow> bytes res" where
  "column_prefix n col = (if n \<le> length col then Inr (take n col)
     else if n = length col + 1 then Inr (col @ [nul]) else Inl UB)"

definition idle_expired :: "int \<Rightarrow> sec_row \<Rightarrow> int \<Rightarrow> bool" where
  "idle_expired nowMs r lastAccess \<longleftrightarrow> 0 < max_inactive r \<and> max_inactive r < nowMs - lastAccess"

definition loadSecurity :: "sqlite \<Rightarrow> bytes \<Rightarrow> int \<Rightarrow> store \<Rightarrow>
    ((bytes \<times> bytes \<times> bytes \<times> bytes \<times> int) option \<times> store) res" where
  "loadSecurity env tok nowMs st =
     (let del = (if ok env DelSec then st\<lparr>security := delete_where (\<lambda>r. token r = cstr tok) (security st)\<rparr> else st) in
      if \<not> ok env SelSec then Inr (None, failed env st)
      else case row_of token (cstr tok) (security st) of
        None \<Rightarrow> Inr (None, del)
      | Some r \<Rightarrow>
        (let n = length (username r) in
         ebind (column_prefix n (username r)) (\<lambda>un. ebind (column_prefix n (password r)) (\<lambda>pw.
         ebind (column_prefix n (roles r)) (\<lambda>ro. ebind (column_prefix n (app_token r)) (\<lambda>ap.
           let lastAccess = (if ok env SelSecAccess then sec_access r else 0) in
           if idle_expired nowMs r lastAccess then Inr (None, del)
           else Inr (Some (un, pw, ro, ap, max_inactive r),
             if ok env TouchSec then st\<lparr>security := update_where (\<lambda>r. token r = cstr tok)
               (\<lambda>r. r\<lparr>sec_access := nowMs\<rparr>) (security st)\<rparr> else st)))))))"

definition storeSecurity ::
  "sqlite \<Rightarrow> bytes \<Rightarrow> bytes \<Rightarrow> bytes \<Rightarrow> bytes \<Rightarrow> bytes \<Rightarrow> int \<Rightarrow> int \<Rightarrow> store \<Rightarrow> bool \<times> store" where
  "storeSecurity env tok un pw ro ap maxInactiveMs lastAccessMs st =
     (let new = \<lparr>token = cstr tok, username = cstr un, password = cstr pw, roles = cstr ro,
        app_token = cstr ap, max_inactive = maxInactiveMs, sec_access = lastAccessMs\<rparr> in
      if \<not> ok env UpsertSec then (False, failed env st)
      else (True, st\<lparr>security := upsert token new (\<lambda>_. new) (security st)\<rparr>))"

definition removeSecurity :: "sqlite \<Rightarrow> bytes \<Rightarrow> store \<Rightarrow> bool \<times> store" where
  "removeSecurity env tok st = (if \<not> ok env DelSec then (False, failed env st)
     else (True, st\<lparr>security := delete_where (\<lambda>r. token r = cstr tok) (security st)\<rparr>))"

definition removeSecurityByAppToken :: "sqlite \<Rightarrow> bytes \<Rightarrow> store \<Rightarrow> bool \<times> store" where
  "removeSecurityByAppToken env appToken st = (if \<not> ok env DelSecApp then (False, failed env st)
     else (True, st\<lparr>security := delete_where (\<lambda>r. app_token r = cstr appToken) (security st)\<rparr>))"

end
