(* ===== verification/ScopeSpec.thy ===== *)
theory ScopeSpec imports ScopeStore begin

section \<open>The scope store as a map with expiry\<close>

text \<open>
  The abstract store is a map from keys to rows; under statements that complete, each operation
  of \<open>ScopeStore\<close> refines an operation on the map. Safety holds for every outcome of the
  statements: the primary keys stay unique and the sweeping operations keep every live row.
\<close>

subsection \<open>Invariant\<close>

definition row_ok :: "scope_row \<Rightarrow> bool" where
  "row_ok r \<longleftrightarrow> cstr (app_name r) = app_name r \<and> (kind r = APPLICATION \<longrightarrow> scope_id r = [])"

definition store_ok :: "store \<Rightarrow> bool" where
  "store_ok st \<longleftrightarrow> unique key_of_row (scopes st) \<and> unique token (security st) \<and> (\<forall>r \<in> set (scopes st). row_ok r)"

lemma cstr_cstr [simp]: "cstr (cstr x) = cstr x"
  by (simp add: cstr_def)

lemma cstr_Nil [simp]: "cstr [] = []"
  by (simp add: cstr_def)

lemma row_ok_simps [simp]:
  "row_ok (r\<lparr>expires_at := e, last_access := a\<rparr>) = row_ok r"
  "row_ok (merge_row new r) = row_ok r"
  by (simp_all add: row_ok_def merge_row_def)

lemma merge_key: "key_of_row r = key_of_row new \<Longrightarrow> key_of_row (merge_row new r) = key_of_row new"
  by (simp add: merge_row_def key_of_row_def)

lemma touch_key: "key_of_row (r\<lparr>expires_at := e, last_access := a\<rparr>) = key_of_row r"
  by (simp add: key_of_row_def)

lemma row_of_rotate:
  assumes "old = (kd, a, s)" "new = (kd, a, s')" "row_of key_of_row new rows = None" "old \<noteq> new"
  shows "row_of key_of_row k (update_where (\<lambda>r. key_of_row r = old) (\<lambda>r. r\<lparr>scope_id := s'\<rparr>) rows) =
    (if k = new then map_option (\<lambda>r. r\<lparr>scope_id := s'\<rparr>) (row_of key_of_row old rows)
     else if k = old then None else row_of key_of_row k rows)"
  using assms by (induction rows) (auto simp: update_where_def key_of_row_def)

lemma unique_rotate:
  assumes "old = (kd, a, s)" "new = (kd, a, s')" "unique key_of_row rows"
    "row_of key_of_row old rows \<noteq> None \<longrightarrow> old = new \<or> row_of key_of_row new rows = None"
  shows "unique key_of_row (update_where (\<lambda>r. key_of_row r = old) (\<lambda>r. r\<lparr>scope_id := s'\<rparr>) rows)"
proof -
  have keys: "map key_of_row (update_where (\<lambda>r. key_of_row r = old) (\<lambda>r. r\<lparr>scope_id := s'\<rparr>) rows) =
      map (\<lambda>k. if k = old then new else k) (map key_of_row rows)"
    using assms(1,2) by (auto simp: update_where_def key_of_row_def)
  have "distinct ks \<Longrightarrow> old \<in> set ks \<longrightarrow> old = new \<or> new \<notin> set ks \<Longrightarrow>
      distinct (map (\<lambda>k. if k = old then new else k) ks)" for ks
    by (induction ks) auto
  from this [of "map key_of_row rows"] assms(3,4) show ?thesis
    unfolding unique_def keys by (auto simp: row_of_none)
qed

lemma store_ok_storeRow:
  assumes "store_ok st" "kd = APPLICATION \<longrightarrow> cstr s = []"
  shows "store_ok (snd (storeRow env kd a s d e now t c st))"
proof -
  let ?new = "\<lparr>kind = kd, app_name = cstr a, scope_id = cstr s, data = cstr d,
    expires_at = e, last_access = now, start_time = t, cfc_path = cstr c\<rparr>"
  let ?rows = "upsert key_of_row ?new (merge_row ?new) (scopes st)"
  have "row_ok ?new" using assms(2) by (simp add: row_ok_def)
  then have "row_ok r" if "r \<in> set ?rows" for r
    using upsert_all [OF that, of row_ok] assms(1) by (simp add: store_ok_def)
  then show ?thesis
    using assms(1) unique_upsert [where key = key_of_row, OF _ merge_key, of "scopes st"]
    by (auto simp: store_ok_def storeRow_def failed_def Let_def)
qed

lemma store_ok_ops:
  assumes "store_ok st"
  shows "store_ok (snd (loadRow env kd a s now st))"
    "store_ok (snd (removeApplication env a st))" "store_ok (snd (removeSession env a s st))"
    "store_ok (snd (rotateSession env a s s' st))" "store_ok (snd (touchRow env kd a s e now st))"
    "store_ok (snd (claimExpired env now st))" "store_ok (snd (nextCfid env st))"
    "store_ok (snd (purgeExpired env now st))" "store_ok (snd (earliestExpiry env st))"
    "store_ok (snd (storeSecurity env tk un pw ro ap mi la st))" "store_ok (snd (removeSecurity env tk st))"
    "store_ok (snd (removeSecurityByAppToken env tk st))"
    "loadSecurity env tk now st = Inr (r, st') \<Longrightarrow> store_ok st'"
proof -
  show "store_ok (snd (storeSecurity env tk un pw ro ap mi la st))"
    using assms by (auto simp: store_ok_def storeSecurity_def failed_def Let_def intro!: unique_upsert)
  have "row_ok r" if "r \<in> set (update_where (\<lambda>r. key_of_row r = (SESSION, cstr a, cstr s)) (\<lambda>r. r\<lparr>scope_id := cstr s'\<rparr>) (scopes st))" for r
    using that assms by (auto simp: store_ok_def update_where_def row_ok_def key_of_row_def APPLICATION_def SESSION_def)
  then show "store_ok (snd (rotateSession env a s s' st))"
    using assms unique_rotate [OF refl refl, of "scopes st" SESSION "cstr a" "cstr s" "cstr s'"]
    by (auto simp: store_ok_def rotateSession_def failed_def Let_def)
  have "row_ok r" if "r \<in> set (update_where p (\<lambda>r. r\<lparr>expires_at := e, last_access := now\<rparr>) (scopes st))" for p r
    using that assms by (auto simp: store_ok_def update_where_def)
  then show "store_ok (snd (touchRow env kd a s e now st))"
    using assms by (auto simp: store_ok_def touchRow_def failed_def Let_def touch_key)
  show "loadSecurity env tk now st = Inr (r, st') \<Longrightarrow> store_ok st'"
    using assms by (auto simp: store_ok_def loadSecurity_def failed_def Let_def ebind_eq_Inr split: option.splits if_splits)
qed (use assms in \<open>auto simp: store_ok_def loadRow_def purge_key_def removeApplication_def removeSession_def
    claimExpired_def nextCfid_def purgeExpired_def earliestExpiry_def removeSecurity_def
    removeSecurityByAppToken_def failed_def Let_def split: option.splits outcome.splits\<close>)

subsection \<open>Refinement to a map\<close>

type_synonym scope_map = "scope_key \<Rightarrow> scope_row option"

definition tab :: "store \<Rightarrow> scope_map" where
  "tab st = (\<lambda>k. row_of key_of_row k (scopes st))"

definition m_load :: "int \<Rightarrow> scope_key \<Rightarrow> scope_map \<Rightarrow> (bytes \<times> int) option" where
  "m_load now k m = (case m k of Some r \<Rightarrow> if live now r then Some (data r, start_time r) else None | None \<Rightarrow> None)"

definition m_only :: "(scope_row \<Rightarrow> bool) \<Rightarrow> scope_map \<Rightarrow> scope_map" where
  "m_only p m = (\<lambda>k. case m k of Some r \<Rightarrow> if p r then Some r else None | None \<Rightarrow> None)"

definition m_store :: "scope_row \<Rightarrow> scope_map \<Rightarrow> scope_map" where
  "m_store new m = m(key_of_row new \<mapsto> (case m (key_of_row new) of None \<Rightarrow> new | Some old \<Rightarrow> merge_row new old))"

definition m_touch :: "scope_key \<Rightarrow> int \<Rightarrow> int \<Rightarrow> scope_map \<Rightarrow> scope_map" where
  "m_touch k e now m = (case m k of
     Some r \<Rightarrow> if live now r then m(k \<mapsto> r\<lparr>expires_at := e, last_access := now\<rparr>) else m | None \<Rightarrow> m)"

definition m_rotate :: "scope_key \<Rightarrow> bytes \<Rightarrow> scope_map \<Rightarrow> (bool \<times> scope_map)" where
  "m_rotate old s m = (let new = (fst old, fst (snd old), s) in
     if m old = None \<or> old = new then (True, m) else if m new \<noteq> None then (False, m)
     else (True, (m(old := None))(new := map_option (\<lambda>r. r\<lparr>scope_id := s\<rparr>) (m old))))"

lemma live_not_expired: "live now r \<Longrightarrow> \<not> expired now r"
  by (auto simp: live_def expired_def)

lemma find_live:
  "unique key_of_row rows \<Longrightarrow>
   List.find (\<lambda>r. key_of_row r = k \<and> live now r) rows =
     (case row_of key_of_row k rows of None \<Rightarrow> None | Some r \<Rightarrow> if live now r then Some r else None)"
proof (induction rows)
  case (Cons r rs)
  then have "unique key_of_row rs" "key_of_row r \<notin> key_of_row ` set rs" by (auto simp: unique_def)
  with Cons.IH show ?case by (cases "key_of_row r = k") (auto simp: row_of_none [symmetric] split: option.splits)
qed simp

lemma ex_live:
  "unique key_of_row rows \<Longrightarrow> list_ex (\<lambda>r. key_of_row r = k \<and> live now r) rows \<longleftrightarrow>
     (\<exists>r. row_of key_of_row k rows = Some r \<and> live now r)"
  by (auto simp: list_ex_iff row_of_eq)

lemma load_refines:
  assumes "store_ok st" "all_ok env"
  shows "fst (loadRow env kd a s now st) = m_load now (kd, cstr a, cstr s) (tab st)"
    "m_load t k (tab (snd (loadRow env kd a s now st))) = m_load t k (tab st) \<or> t < now"
proof -
  have u: "unique key_of_row (scopes st)" using assms(1) by (simp add: store_ok_def)
  show "fst (loadRow env kd a s now st) = m_load now (kd, cstr a, cstr s) (tab st)"
    using assms(2) by (simp add: loadRow_def Let_def all_ok_def m_load_def tab_def find_live [OF u] split: option.split)
  show "m_load t k (tab (snd (loadRow env kd a s now st))) = m_load t k (tab st) \<or> t < now"
    using assms(2) by (auto simp: loadRow_def Let_def all_ok_def m_load_def tab_def purge_key_def row_of_delete [OF u]
        live_def expired_def split: option.splits)
qed

lemma store_refines:
  assumes "all_ok env"
  shows "tab (snd (storeRow env kd a s d e now t c st)) =
     m_store \<lparr>kind = kd, app_name = cstr a, scope_id = cstr s, data = cstr d, expires_at = e,
       last_access = now, start_time = t, cfc_path = cstr c\<rparr> (tab st)"
  using assms row_of_upsert [where key = key_of_row, OF merge_key]
  by (auto simp: storeRow_def all_ok_def Let_def tab_def m_store_def fun_eq_iff)

lemma touch_refines:
  assumes "store_ok st" "all_ok env"
  shows "fst (touchRow env kd a s e now st) = (m_load now (kd, cstr a, cstr s) (tab st) \<noteq> None)"
    "tab (snd (touchRow env kd a s e now st)) = m_touch (kd, cstr a, cstr s) e now (tab st)"
proof -
  have u: "unique key_of_row (scopes st)" using assms(1) by (simp add: store_ok_def)
  show "fst (touchRow env kd a s e now st) = (m_load now (kd, cstr a, cstr s) (tab st) \<noteq> None)"
    using assms(2) by (auto simp: touchRow_def Let_def all_ok_def ex_live [OF u] m_load_def tab_def split: option.split)
  show "tab (snd (touchRow env kd a s e now st)) = m_touch (kd, cstr a, cstr s) e now (tab st)"
  proof
    fix q
    have "tab (snd (touchRow env kd a s e now st)) q = map_option
        (\<lambda>r. if key_of_row r = (kd, cstr a, cstr s) \<and> live now r then r\<lparr>expires_at := e, last_access := now\<rparr> else r)
        (tab st q)"
      using assms(2) row_of_update [where key = key_of_row, OF touch_key]
      by (simp add: touchRow_def Let_def all_ok_def tab_def)
    moreover have "\<And>r. tab st q = Some r \<Longrightarrow> key_of_row r = q" by (auto simp: tab_def dest: row_of_mem)
    ultimately show "tab (snd (touchRow env kd a s e now st)) q = m_touch (kd, cstr a, cstr s) e now (tab st) q"
      by (cases "tab st q") (auto simp: m_touch_def split: option.split)
  qed
qed

lemma remove_refines:
  assumes "store_ok st" "all_ok env"
  shows "tab (snd (removeSession env a s st)) = (tab st)((SESSION, cstr a, cstr s) := None)"
    "tab (snd (removeApplication env a st)) = m_only (\<lambda>r. app_name r \<noteq> cstr a) (tab st)"
  using assms by (auto simp: removeSession_def removeApplication_def all_ok_def tab_def m_only_def fun_eq_iff
    store_ok_def row_of_delete split: option.split dest: row_of_mem)

lemma rotate_refines:
  assumes "all_ok env"
  shows "(fst (rotateSession env a s s' st), tab (snd (rotateSession env a s s' st))) =
    m_rotate (SESSION, cstr a, cstr s) (cstr s') (tab st)"
proof -
  let ?old = "(SESSION, cstr a, cstr s)" and ?new = "(SESSION, cstr a, cstr s')"
  let ?rows = "update_where (\<lambda>r. key_of_row r = ?old) (\<lambda>r. r\<lparr>scope_id := cstr s'\<rparr>) (scopes st)"
  have same: "?rows = scopes st" if "row_of key_of_row ?old (scopes st) = None \<or> ?old = ?new"
  proof -
    have "r\<lparr>scope_id := cstr s'\<rparr> = r" if "r \<in> set (scopes st)" "key_of_row r = ?old" for r
    proof -
      have "row_of key_of_row ?old (scopes st) \<noteq> None" using that imageI [OF that(1), of key_of_row] by (simp add: row_of_none)
      with \<open>row_of key_of_row ?old (scopes st) = None \<or> ?old = ?new\<close> that(2) show ?thesis
        by (simp add: key_of_row_def)
    qed
    then show ?thesis unfolding update_where_def by (intro map_idI) simp
  qed
  consider "row_of key_of_row ?old (scopes st) = None \<or> ?old = ?new"
    | "row_of key_of_row ?old (scopes st) \<noteq> None" "?old \<noteq> ?new" "row_of key_of_row ?new (scopes st) \<noteq> None"
    | "row_of key_of_row ?old (scopes st) \<noteq> None" "?old \<noteq> ?new" "row_of key_of_row ?new (scopes st) = None"
    by blast
  then show ?thesis
  proof cases
    case 1
    with same assms show ?thesis by (auto simp: rotateSession_def m_rotate_def all_ok_def Let_def tab_def)
  next
    case 2
    with assms show ?thesis by (auto simp: rotateSession_def m_rotate_def all_ok_def Let_def tab_def failed_def)
  next
    case 3
    with assms row_of_rotate [OF refl refl 3(3,2)] show ?thesis
      by (auto simp: rotateSession_def m_rotate_def all_ok_def Let_def tab_def fun_eq_iff)
  qed
qed

lemma claim_exact:
  assumes "all_ok env" "\<not> open_tx st"
  shows "fst (claimExpired env now st) = (True, filter (expired now) (scopes st))"
    "scopes (snd (claimExpired env now st)) = filter (\<lambda>r. \<not> expired now r) (scopes st)"
    "open_tx (snd (claimExpired env now st)) = open_tx st"
proof -
  have o: "outcome_of env s = Done" for s using assms(1) by (simp add: all_ok_def ok_def)
  have "filter (expired now) (scopes st) = [] \<Longrightarrow> filter (\<lambda>r. \<not> expired now r) (scopes st) = scopes st"
    by (auto simp: filter_empty_conv intro: filter_True)
  then show "fst (claimExpired env now st) = (True, filter (expired now) (scopes st))"
    "scopes (snd (claimExpired env now st)) = filter (\<lambda>r. \<not> expired now r) (scopes st)"
    "open_tx (snd (claimExpired env now st)) = open_tx st"
    using assms(2) o by (auto simp: claimExpired_def begin_ok_def ok_def Let_def delete_where_def)
qed

lemma claim_refines:
  assumes "store_ok st" "all_ok env" "\<not> open_tx st"
  shows "tab (snd (claimExpired env now st)) = m_only (\<lambda>r. \<not> expired now r) (tab st)"
    "tab (snd (purgeExpired env now st)) = m_only (\<lambda>r. \<not> expired now r) (tab st)"
proof -
  have u: "unique key_of_row (scopes st)" using assms(1) by (simp add: store_ok_def)
  have "row_of key_of_row k (filter (\<lambda>r. \<not> expired now r) (scopes st)) = m_only (\<lambda>r. \<not> expired now r) (tab st) k" for k
    using row_of_delete [OF u, of k "expired now"]
    by (auto simp: delete_where_def m_only_def tab_def split: option.split)
  then show "tab (snd (claimExpired env now st)) = m_only (\<lambda>r. \<not> expired now r) (tab st)"
    "tab (snd (purgeExpired env now st)) = m_only (\<lambda>r. \<not> expired now r) (tab st)"
    using assms(2) claim_exact(2) [OF assms(2,3)]
    by (auto simp: tab_def fun_eq_iff purgeExpired_def all_ok_def delete_where_def)
qed

subsection \<open>Sequences of operations\<close>

text \<open>
  The workers share the database; SQLite serialises their operations. \<open>apply_op\<close> runs one
  operation and reports the client id it minted, if any; every operation has an outcome of its
  own for the statements.
\<close>

datatype store_op = Load bytes bytes int bool | Store bytes bytes bytes int int int bytes bool
  | RemoveApp bytes | RemoveSession bytes bytes | Rotate bytes bytes bytes
  | Touch bytes bytes int int bool | Claim int | Purge int | Earliest | Cfid
  | LoadSec bytes int | StoreSec bytes bytes bytes bytes bytes int int | RemoveSec bytes | RemoveSecApp bytes

fun apply_op :: "sqlite \<Rightarrow> store_op \<Rightarrow> store \<Rightarrow> int option \<times> store" where
  "apply_op env (Load a s now True) st = (None, snd (loadApplication env a now st))"
| "apply_op env (Load a s now False) st = (None, snd (loadSession env a s now st))"
| "apply_op env (Store a s d e now t c True) st = (None, snd (storeApplication env a d e now c st))"
| "apply_op env (Store a s d e now t c False) st = (None, snd (storeSession env a s d e now t c st))"
| "apply_op env (RemoveApp a) st = (None, snd (removeApplication env a st))"
| "apply_op env (RemoveSession a s) st = (None, snd (removeSession env a s st))"
| "apply_op env (Rotate a s s') st = (None, snd (rotateSession env a s s' st))"
| "apply_op env (Touch a s e now True) st = (None, snd (touchApplication env a e now st))"
| "apply_op env (Touch a s e now False) st = (None, snd (touchSession env a s e now st))"
| "apply_op env (Claim now) st = (None, snd (claimExpired env now st))"
| "apply_op env (Purge now) st = (None, snd (purgeExpired env now st))"
| "apply_op env Earliest st = (None, snd (earliestExpiry env st))"
| "apply_op env Cfid st = nextCfid env st"
| "apply_op env (LoadSec tk now) st = (None, case loadSecurity env tk now st of Inr (r, st') \<Rightarrow> st' | Inl e \<Rightarrow> st)"
| "apply_op env (StoreSec tk un pw ro ap mi la) st = (None, snd (storeSecurity env tk un pw ro ap mi la st))"
| "apply_op env (RemoveSec tk) st = (None, snd (removeSecurity env tk st))"
| "apply_op env (RemoveSecApp tk) st = (None, snd (removeSecurityByAppToken env tk st))"

fun run_ops :: "(sqlite \<times> store_op) list \<Rightarrow> store \<Rightarrow> int list \<times> store" where
  "run_ops [] st = ([], st)"
| "run_ops ((env, op) # ops) st = (let (c, st1) = apply_op env op st; (cs, st2) = run_ops ops st1
     in (case c of None \<Rightarrow> cs | Some n \<Rightarrow> n # cs, st2))"

definition empty_store :: store where
  "empty_store = \<lparr>scopes = [], cfid_seq = None, security = [], lastError = [], open_tx = False\<rparr>"

lemma apply_op_ok: "store_ok st \<Longrightarrow> store_ok (snd (apply_op env op st))"
  by (cases "(env, op, st)" rule: apply_op.cases)
    (auto simp: loadApplication_def loadSession_def storeApplication_def storeSession_def touchApplication_def
      touchSession_def SESSION_def APPLICATION_def split_beta split: sum.split
      intro: store_ok_ops store_ok_storeRow)

lemma run_ops_ok: "store_ok st \<Longrightarrow> store_ok (snd (run_ops ops st))"
proof (induction ops arbitrary: st)
  case (Cons x ops)
  obtain env op where x: "x = (env, op)" by (cases x)
  show ?case using Cons.IH [OF apply_op_ok [OF Cons.prems, of env op]] by (simp add: x split_beta)
qed simp

lemma apply_op_seq:
  "op \<noteq> Cfid \<Longrightarrow> fst (apply_op env op st) = None \<and> cfid_seq (snd (apply_op env op st)) = cfid_seq st"
  by (cases "(env, op, st)" rule: apply_op.cases)
    (auto simp: loadApplication_def loadSession_def storeApplication_def storeSession_def touchApplication_def
      touchSession_def loadRow_def storeRow_def touchRow_def removeApplication_def removeSession_def
      rotateSession_def claimExpired_def purgeExpired_def earliestExpiry_def loadSecurity_def ebind_eq_Inr
      storeSecurity_def removeSecurity_def removeSecurityByAppToken_def failed_def Let_def split_beta
      split: sum.split option.splits outcome.splits prod.splits if_splits)

definition counter :: "store \<Rightarrow> int" where
  "counter st = (case cfid_seq st of None \<Rightarrow> 1 | Some n \<Rightarrow> n)"

definition reads_counter :: "sqlite \<Rightarrow> bool" where
  "reads_counter env \<longleftrightarrow> (case outcome_of env SelSeq of StepFail _ \<Rightarrow> False | _ \<Rightarrow> True)"

lemma nextCfid_counter:
  assumes "reads_counter env"
  shows "case fst (nextCfid env st) of None \<Rightarrow> counter (snd (nextCfid env st)) = counter st
    | Some n \<Rightarrow> n = counter st \<and> counter (snd (nextCfid env st)) = n + 1"
  using assms by (auto simp: nextCfid_def reads_counter_def counter_def failed_def Let_def
    split: outcome.splits option.splits)

lemma run_ops_cfids:
  "list_all (\<lambda>(env, op). reads_counter env) ops \<Longrightarrow>
   sorted_wrt (<) (fst (run_ops ops st)) \<and> (\<forall>n \<in> set (fst (run_ops ops st)). counter st \<le> n)"
proof (induction ops st rule: run_ops.induct)
  case (2 env op ops st)
  obtain c st1 where a: "apply_op env op st = (c, st1)" by (cases "apply_op env op st")
  obtain cs st2 where r: "run_ops ops st1 = (cs, st2)" by (cases "run_ops ops st1")
  have IH: "sorted_wrt (<) cs" "\<forall>n \<in> set cs. counter st1 \<le> n"
    using 2(1) [OF a [symmetric] refl] 2(2) r by (auto simp: a)
  show ?case
  proof (cases "op = Cfid")
    case True
    with a nextCfid_counter [of env st] 2(2) IH r show ?thesis by (cases c) auto
  next
    case False
    with a apply_op_seq [OF False, of env st] IH r show ?thesis by (auto simp: counter_def)
  qed
qed simp

section \<open>Properties\<close>

lemma empty_ok [simp]: "store_ok empty_store" "open_tx empty_store = False"
  by (simp_all add: store_ok_def empty_store_def unique_def)

text \<open>C6: The scope store refines a map from (kind, application, id) to rows with an expiry. When
  the SQL statements complete, a load returns exactly the data and creation time of a live row
  and never those of an expired one; a store overwrites, keeping the creation time and the
  component path it is given none for; a touch extends live rows only and says whether there was
  one; removing an application removes its sessions; rotating moves a session to its new id
  unless that is taken; a claim keeps exactly the rows that have not expired.\<close>

theorem scope_store_refines_map:
  assumes "store_ok st" "all_ok env" "\<not> open_tx st"
  shows "fst (loadRow env kd a s now st) = m_load now (kd, cstr a, cstr s) (tab st) \<and>
    tab (snd (storeRow env kd a s d e now t c st)) =
      m_store \<lparr>kind = kd, app_name = cstr a, scope_id = cstr s, data = cstr d, expires_at = e,
        last_access = now, start_time = t, cfc_path = cstr c\<rparr> (tab st) \<and>
    fst (touchRow env kd a s e now st) = (m_load now (kd, cstr a, cstr s) (tab st) \<noteq> None) \<and>
    tab (snd (touchRow env kd a s e now st)) = m_touch (kd, cstr a, cstr s) e now (tab st) \<and>
    tab (snd (removeSession env a s st)) = (tab st)((SESSION, cstr a, cstr s) := None) \<and>
    tab (snd (removeApplication env a st)) = m_only (\<lambda>r. app_name r \<noteq> cstr a) (tab st) \<and>
    (fst (rotateSession env a s s' st), tab (snd (rotateSession env a s s' st))) =
      m_rotate (SESSION, cstr a, cstr s) (cstr s') (tab st) \<and>
    tab (snd (claimExpired env now st)) = m_only (\<lambda>r. \<not> expired now r) (tab st) \<and>
    tab (snd (purgeExpired env now st)) = m_only (\<lambda>r. \<not> expired now r) (tab st)"
  using load_refines(1) [OF assms(1,2)] store_refines [OF assms(2)] touch_refines [OF assms(1,2)]
    remove_refines [OF assms(1,2)] rotate_refines [OF assms(2)] claim_refines [OF assms]
  by simp

theorem scope_store_refines_map_witness:
  "tab (snd (storeRow sqlite_ok SESSION ''app'' ''id'' ''{}'' 100 10 5 [] empty_store)) =
   m_store \<lparr>kind = SESSION, app_name = cstr ''app'', scope_id = cstr ''id'', data = cstr ''{}'', expires_at = 100,
     last_access = 10, start_time = 5, cfc_path = cstr []\<rparr> (tab empty_store)"
  using scope_store_refines_map [of empty_store sqlite_ok SESSION "''app''" "''id''" 10 "''{}''" 100 5 "[]"] by simp

text \<open>C20: No sweep touches a live row. Whatever happens to their statements, a load, a claim and a
  purge at time \<open>now\<close> keep every row that is live at \<open>now\<close>, in every state; so does the second
  statement of a load on its own, that is, after any operations of other workers between its
  two statements.\<close>

theorem scope_sweeps_keep_live:
  "filter (live now) (scopes (snd (loadRow env kd a s now st))) = filter (live now) (scopes st) \<and>
   filter (live now) (scopes (snd (claimExpired env now st))) = filter (live now) (scopes st) \<and>
   filter (live now) (scopes (snd (purgeExpired env now st))) = filter (live now) (scopes st) \<and>
   filter (live now) (purge_key k now rows) = filter (live now) rows"
proof -
  have p: "filter (live now) (delete_where (expired now) rows) = filter (live now) rows"
    "filter (live now) (purge_key k now rows) = filter (live now) rows" for rows k
    using live_not_expired unfolding delete_where_def purge_key_def filter_filter by (auto intro!: filter_cong)
  show ?thesis
    by (simp add: loadRow_def claimExpired_def purgeExpired_def failed_def Let_def p split: option.split outcome.split)
qed

text \<open>Every sequence of operations of any workers, with any outcomes of their statements, keeps
  the store well formed: primary keys unique in both tables, one row per application.\<close>

theorem scope_store_invariant:
  "store_ok (snd (run_ops ops empty_store))"
  by (simp add: run_ops_ok)

text \<open>The ids minted by \<open>nextCfid\<close> over any sequence of operations of all workers are strictly
  increasing, so no two clients get the same id, provided no step of the counter's \<open>SELECT\<close>
  fails. A step that fails is taken for an empty table: the id is 1 again.\<close>

theorem cfid_increasing:
  assumes "list_all (\<lambda>(env, op). reads_counter env) ops"
  shows "sorted_wrt (<) (fst (run_ops ops st)) \<and> distinct (fst (run_ops ops st)) \<and>
    (begin_ok env st \<and> outcome_of env SelSeq = StepFail n \<and> ok env UpsertSeq \<longrightarrow> fst (nextCfid env st) = Some 1)"
  using run_ops_cfids [OF assms, of st] strict_sorted_iff [of "fst (run_ops ops st)"]
  by (auto simp: nextCfid_def)

theorem cfid_increasing_witness:
  "sorted_wrt (<) (fst (run_ops [(sqlite_ok, Cfid), (sqlite_ok, Claim 5), (sqlite_ok, Cfid)] empty_store))"
  using cfid_increasing [of "[(sqlite_ok, Cfid), (sqlite_ok, Claim 5), (sqlite_ok, Cfid)]" empty_store]
  by (simp add: reads_counter_def)

text \<open>\<open>loadSecurity\<close> does not return what \<open>storeSecurity\<close> stored: the password, the roles and
  the application token come back cut to the length of the user name, and when one of them is
  shorter than the user name by more than one byte the copy reads past its buffer. The login
  round trip holds only when they all have the length of the user name.\<close>

theorem security_columns_cut:
  assumes "all_ok env" "cstr tok = tok" "cstr un = un" "cstr pw = pw" "cstr ro = ro" "cstr ap = ap"
    and "mi \<le> 0 \<or> now - la \<le> mi"
  shows "(length un \<le> length pw \<and> length un \<le> length ro \<and> length un \<le> length ap \<longrightarrow>
      (\<exists>st'. loadSecurity env tok now (snd (storeSecurity env tok un pw ro ap mi la st)) =
        Inr (Some (un, take (length un) pw, take (length un) ro, take (length un) ap, mi), st'))) \<and>
    (length pw + 1 < length un \<longrightarrow>
      loadSecurity env tok now (snd (storeSecurity env tok un pw ro ap mi la st)) = Inl UB)"
proof -
  let ?st = "snd (storeSecurity env tok un pw ro ap mi la st)"
  let ?new = "\<lparr>token = tok, username = un, password = pw, roles = ro, app_token = ap, max_inactive = mi, sec_access = la\<rparr>"
  have o: "\<And>s. ok env s" using assms(1) by (simp add: all_ok_def)
  have "row_of token tok (upsert token ?new (\<lambda>_. ?new) (security st)) = Some ?new"
    by (subst row_of_upsert) (auto split: option.split)
  then have r: "row_of token tok (security ?st) = Some ?new"
    using o assms(2-6) by (simp add: storeSecurity_def Let_def)
  have "\<not> idle_expired now ?new la" using assms(7) by (auto simp: idle_expired_def)
  then show ?thesis using o assms(2) r by (auto simp: loadSecurity_def Let_def column_prefix_def)
qed

theorem security_columns_cut_witness:
  "\<exists>st'. loadSecurity sqlite_ok ''t'' 5 (snd (storeSecurity sqlite_ok ''t'' ''bob'' ''secret'' ''admin'' ''app_1'' 0 1 empty_store)) =
     Inr (Some (''bob'', ''sec'', ''adm'', ''app'', 0), st')"
  using security_columns_cut [of sqlite_ok "''t''" "''bob''" "''secret''" "''admin''" "''app_1''" 0 5 1 empty_store]
  by (simp add: cstr_def nul_def)

text \<open>A read error in \<open>claimExpired\<close> loses records. When the reading loop's step fails after
  \<open>n > 0\<close> of the expired rows, the loop ends as at the end of the rows, the \<open>DELETE\<close> removes all
  expired rows, and the function reports success with the first \<open>n\<close> records only.\<close>

theorem claim_read_error_loses:
  assumes "begin_ok env st" "outcome_of env SelExpired = StepFail n" "ok env DelExpired" "ok env Commit"
    and "0 < n" "filter (expired now) (scopes st) \<noteq> []"
  shows "fst (claimExpired env now st) = (True, take n (filter (expired now) (scopes st))) \<and>
    filter (expired now) (scopes (snd (claimExpired env now st))) = []"
  using assms by (auto simp: claimExpired_def Let_def delete_where_def take_eq_Nil)

theorem claim_read_error_loses_witness:
  "\<exists>env st. length (filter (expired 5) (scopes st)) = 2 \<and> length (snd (fst (claimExpired env 5 st))) = 1 \<and>
     filter (expired 5) (scopes (snd (claimExpired env 5 st))) = []"
proof -
  let ?r = "\<lambda>s. \<lparr>kind = SESSION, app_name = ''a'', scope_id = s, data = ''{}'', expires_at = 3, last_access = 1,
    start_time = 1, cfc_path = ''/Application.cfc''\<rparr>"
  let ?st = "empty_store\<lparr>scopes := [?r ''x'', ?r ''y'']\<rparr>"
  let ?env = "\<lparr>outcome_of = (\<lambda>_. Done)(SelExpired := StepFail 1), errmsg = []\<rparr>"
  have e: "filter (expired 5) (scopes ?st) = [?r ''x'', ?r ''y'']" by (simp add: expired_def)
  have "begin_ok ?env ?st" "ok ?env DelExpired" "ok ?env Commit"
    by (simp_all add: begin_ok_def ok_def)
  from claim_read_error_loses [OF this(1) _ this(2,3), of 1 5] e show ?thesis
    by (intro exI [of _ ?env] exI [of _ ?st]) simp
qed

end
