(* ===== verification/Reaper.thy ===== *)
theory Reaper imports ScopeSpec "HOL-Library.Multiset" begin

section \<open>The reaper process\<close>

text \<open>
  Models \<open>src/reaper.cpp\<close>: \<open>reap_expired_scopes\<close>, which claims the expired scopes and calls
  \<open>onSessionEnd\<close> and \<open>onApplicationEnd\<close>, and the choice the main loop makes of reaping now or
  sleeping until a time. The component loader (a file check and the template cache) is a
  parameter: \<open>Some loader\<close> when there is a template cache. A callback is an \<open>event\<close>; a scope
  argument is given by the JSON text it is deserialised from, \<open>[]\<close> being the empty struct.
\<close>

datatype event = SessionEnd bytes bytes bytes | ApplicationEnd bytes bytes

definition claimed_app :: "scope_row list \<Rightarrow> bytes \<Rightarrow> scope_row option" where
  "claimed_app recs a = List.find (\<lambda>r. kind r = APPLICATION \<and> app_name r = a) (rev recs)"

text \<open>The application scope handed to \<open>onSessionEnd\<close>.\<close>

definition app_scope :: "sqlite \<Rightarrow> int \<Rightarrow> scope_row list \<Rightarrow> bytes \<Rightarrow> store \<Rightarrow> bytes \<times> store" where
  "app_scope env now recs a st = (case claimed_app recs a of
     Some r \<Rightarrow> if data r \<noteq> [] then (data r, st)
       else (case loadApplication env a now st of (j, st') \<Rightarrow> (case j of None \<Rightarrow> [] | Some t \<Rightarrow> t, st'))
   | None \<Rightarrow> (case loadApplication env a now st of (j, st') \<Rightarrow> (case j of None \<Rightarrow> [] | Some t \<Rightarrow> t, st')))"

definition calls :: "(bytes \<Rightarrow> bool) option \<Rightarrow> scope_row \<Rightarrow> bool" where
  "calls templates r \<longleftrightarrow> (case templates of None \<Rightarrow> False | Some loader \<Rightarrow> cfc_path r \<noteq> [] \<and> loader (cfc_path r))"

fun session_loop :: "sqlite \<Rightarrow> (bytes \<Rightarrow> bool) option \<Rightarrow> int \<Rightarrow> scope_row list \<Rightarrow> scope_row list \<Rightarrow> store \<Rightarrow>
    event list \<times> store" where
  "session_loop env templates now recs [] st = ([], st)"
| "session_loop env templates now recs (r # rs) st =
     (if kind r \<noteq> SESSION then session_loop env templates now recs rs st
      else let (app, st1) = app_scope env now recs (app_name r) st;
               (evs, st2) = session_loop env templates now recs rs st1
        in (if calls templates r then SessionEnd (cfc_path r) (data r) app # evs else evs, st2))"

fun app_loop :: "(bytes \<Rightarrow> bool) option \<Rightarrow> scope_row list \<Rightarrow> event list" where
  "app_loop templates [] = []"
| "app_loop templates (r # rs) =
     (if kind r = APPLICATION \<and> calls templates r then ApplicationEnd (cfc_path r) (data r) # app_loop templates rs
      else app_loop templates rs)"

definition reap_expired_scopes ::
  "sqlite \<Rightarrow> (bytes \<Rightarrow> bool) option \<Rightarrow> int \<Rightarrow> store \<Rightarrow> (nat \<times> event list) \<times> store" where
  "reap_expired_scopes env templates now st =
     (case claimExpired env now st of ((b, recs), st1) \<Rightarrow>
        if \<not> b \<or> recs = [] then ((0, []), st1)
        else let (evs, st2) = session_loop env templates now recs recs st1
             in ((length recs, evs @ app_loop templates recs), st2))"


section \<open>Queues of expiring rows\<close>

text \<open>
  What the reaper relies on: a claim hands out exactly the rows that are due and leaves the
  others. Then claims at times that do not decrease hand out every row that has become due
  exactly once, whichever process makes them.
\<close>

fun claim_all :: "(int \<Rightarrow> 's \<Rightarrow> (bool \<times> 'r list) \<times> 's) \<Rightarrow> int list \<Rightarrow> 's \<Rightarrow> 'r list \<times> 's" where
  "claim_all claim [] s = ([], s)"
| "claim_all claim (t # ts) s = (let ((b, rs), s1) = claim t s; (rs', s2) = claim_all claim ts s1
     in (rs @ rs', s2))"

locale expiry_queue =
  fixes claim :: "int \<Rightarrow> 's \<Rightarrow> (bool \<times> 'r list) \<times> 's"
    and rows :: "'s \<Rightarrow> 'r list"
    and due :: "int \<Rightarrow> 'r \<Rightarrow> bool"
    and inv :: "'s \<Rightarrow> bool"
  assumes claim_due: "inv s \<Longrightarrow> fst (claim now s) = (True, filter (due now) (rows s))"
    and claim_rest: "inv s \<Longrightarrow> rows (snd (claim now s)) = filter (\<lambda>r. \<not> due now r) (rows s)"
    and claim_inv: "inv s \<Longrightarrow> inv (snd (claim now s))"
    and due_mono: "due t r \<Longrightarrow> t \<le> t' \<Longrightarrow> due t' r"
begin

lemma claim_all_once:
  "inv s \<Longrightarrow> sorted ts \<Longrightarrow> ts \<noteq> [] \<Longrightarrow>
   mset (fst (claim_all claim ts s)) = mset (filter (due (last ts)) (rows s)) \<and>
   rows (snd (claim_all claim ts s)) = filter (\<lambda>r. \<not> due (last ts) r) (rows s) \<and> inv (snd (claim_all claim ts s))"
proof (induction ts arbitrary: s)
  case (Cons t ts)
  obtain s1 where c: "claim t s = ((True, filter (due t) (rows s)), s1)"
    using claim_due [OF Cons.prems(1), of t] by (cases "claim t s") auto
  have s1: "rows s1 = filter (\<lambda>r. \<not> due t r) (rows s)" "inv s1"
    using claim_rest [OF Cons.prems(1), of t] claim_inv [OF Cons.prems(1), of t] c by auto
  obtain rs s2 where r: "claim_all claim ts s1 = (rs, s2)" by (cases "claim_all claim ts s1")
  show ?case
  proof (cases "ts = []")
    case True
    then show ?thesis using c s1 r by simp
  next
    case False
    from Cons.IH [OF s1(2) _ False] Cons.prems(2) r
    have IH: "mset rs = mset (filter (due (last ts)) (rows s1))"
      "rows s2 = filter (\<lambda>r. \<not> due (last ts) r) (rows s1)" "inv s2" by auto
    have "t \<le> last ts" using Cons.prems(2) False by auto
    then have m: "due t r \<Longrightarrow> due (last ts) r" for r using due_mono by blast
    have "mset (filter (due t) xs) + mset (filter (due (last ts)) (filter (\<lambda>r. \<not> due t r) xs)) =
        mset (filter (due (last ts)) xs)" for xs
      by (rule multiset_eqI) (use m in auto)
    moreover have "filter (\<lambda>r. \<not> due (last ts) r) (filter (\<lambda>r. \<not> due t r) xs) =
        filter (\<lambda>r. \<not> due (last ts) r) xs" for xs
      using m unfolding filter_filter by (intro filter_cong) auto
    ultimately show ?thesis using c r IH [unfolded s1(1)] False by (simp add: split_beta)
  qed
qed simp

lemma claim_all_empty_again:
  "inv s \<Longrightarrow> sorted ts \<Longrightarrow> ts \<noteq> [] \<Longrightarrow> t \<le> last ts \<Longrightarrow>
   snd (fst (claim t (snd (claim_all claim ts s)))) = []"
  using claim_due [of "snd (claim_all claim ts s)" t] claim_all_once [of s ts]
  by (auto simp: filter_empty_conv dest: due_mono)

end

interpretation scope_queue: expiry_queue "claimExpired sqlite_ok" scopes expired "\<lambda>st. \<not> open_tx st"
  by unfold_locales (auto simp: claim_exact expired_def)

section \<open>The reaper\<close>

lemma load_unchanged:
  assumes "\<forall>r \<in> set (scopes st). \<not> expired now r" "all_ok env"
  shows "snd (loadRow env kd a s now st) = st"
  using assms by (auto simp: loadRow_def all_ok_def purge_key_def Let_def delete_id split: option.split)

text \<open>The application scope a session ends with: that of the application's row, expired or live.\<close>

definition app_data :: "int \<Rightarrow> store \<Rightarrow> bytes \<Rightarrow> bytes" where
  "app_data now st a = (case tab st (APPLICATION, a, []) of None \<Rightarrow> []
     | Some r \<Rightarrow> if live now r \<or> expired now r then data r else [])"

lemma claimed_app_row:
  assumes "store_ok st" "recs = filter (expired now) (scopes st)"
  shows "claimed_app recs a = (case tab st (APPLICATION, a, []) of None \<Rightarrow> None
    | Some r \<Rightarrow> if expired now r then Some r else None)"
proof -
  have u: "unique key_of_row (scopes st)" and k: "\<And>r. r \<in> set (scopes st) \<Longrightarrow> kind r = APPLICATION \<Longrightarrow> scope_id r = []"
    using assms(1) by (auto simp: store_ok_def row_ok_def)
  have key: "r \<in> set recs \<and> kind r = APPLICATION \<and> app_name r = a \<longleftrightarrow>
      tab st (APPLICATION, a, []) = Some r \<and> expired now r" for r
    unfolding tab_def row_of_eq [OF u] using k assms(2) by (auto simp: key_of_row_def)
  show ?thesis
  proof (cases "claimed_app recs a")
    case None
    then have "\<not> (r \<in> set recs \<and> kind r = APPLICATION \<and> app_name r = a)" for r
      by (auto simp: claimed_app_def find_None_iff)
    then have "\<not> (tab st (APPLICATION, a, []) = Some r \<and> expired now r)" for r using key by blast
    with None show ?thesis by (cases "tab st (APPLICATION, a, [])") simp_all
  next
    case (Some r)
    then have "r \<in> set recs \<and> kind r = APPLICATION \<and> app_name r = a"
      by (auto simp: claimed_app_def dest: find_SomeD)
    with Some key [of r] show ?thesis by simp
  qed
qed

lemma app_scope_data:
  assumes "store_ok st" "all_ok env" "recs = filter (expired now) (scopes st)"
    and "scopes st1 = filter (\<lambda>r. \<not> expired now r) (scopes st)" "cstr a = a"
  shows "app_scope env now recs a st1 = (app_data now st a, st1)"
proof -
  have u: "unique key_of_row (scopes st)" using assms(1) by (simp add: store_ok_def)
  have t1: "tab st1 (APPLICATION, a, []) = m_only (\<lambda>r. \<not> expired now r) (tab st) (APPLICATION, a, [])"
    using row_of_delete [OF u, of "(APPLICATION, a, [])" "expired now"] assms(4)
    by (auto simp: tab_def delete_where_def m_only_def split: option.splits)
  have u1: "unique key_of_row (scopes st1)"
    using unique_delete [OF u, of "expired now"] assms(4) by (simp add: delete_where_def)
  have "\<forall>r \<in> set (scopes st1). \<not> expired now r" using assms(4) by auto
  note same = load_unchanged [OF this assms(2)]
  have load: "loadApplication env a now st1 = (map_option fst (m_load now (APPLICATION, a, []) (tab st1)), st1)"
    using assms(2,5) same [of APPLICATION a "[]"]
    by (simp add: loadApplication_def loadRow_def Let_def all_ok_def m_load_def tab_def find_live [OF u1]
        split: option.splits if_splits)
  show ?thesis
    using t1 live_not_expired unfolding app_scope_def claimed_app_row [OF assms(1,3)] load
    by (auto simp: app_data_def m_load_def m_only_def split: option.splits)
qed

lemma session_loop_events:
  assumes "store_ok st" "all_ok env" "recs = filter (expired now) (scopes st)"
    and "scopes st1 = filter (\<lambda>r. \<not> expired now r) (scopes st)"
  shows "\<forall>r \<in> set rs. cstr (app_name r) = app_name r \<Longrightarrow> session_loop env templates now recs rs st1 =
    (map (\<lambda>r. SessionEnd (cfc_path r) (data r) (app_data now st (app_name r)))
       (filter (\<lambda>r. kind r = SESSION \<and> calls templates r) rs), st1)"
  using app_scope_data [OF assms] by (induction rs) (auto simp: Let_def)

lemma app_loop_events:
  "app_loop templates rs = map (\<lambda>r. ApplicationEnd (cfc_path r) (data r))
     (filter (\<lambda>r. kind r = APPLICATION \<and> calls templates r) rs)"
  by (induction rs) auto




section \<open>Properties\<close>

text \<open>C23: One reaping round. With statements that complete, \<open>reap_expired_scopes\<close> reports as many
  scopes as had expired, calls \<open>onSessionEnd\<close> once for each expired session whose component
  loads, with its own data and that of its application (claimed in the same round or still
  live), then \<open>onApplicationEnd\<close> once for each expired application, after all the sessions; it
  removes exactly the expired rows.\<close>

theorem reap_round:
  assumes "store_ok st" "all_ok env" "\<not> open_tx st"
  shows "fst (reap_expired_scopes env templates now st) =
      (length (filter (expired now) (scopes st)),
       map (\<lambda>r. SessionEnd (cfc_path r) (data r) (app_data now st (app_name r)))
         (filter (\<lambda>r. kind r = SESSION \<and> calls templates r) (filter (expired now) (scopes st))) @
       map (\<lambda>r. ApplicationEnd (cfc_path r) (data r))
         (filter (\<lambda>r. kind r = APPLICATION \<and> calls templates r) (filter (expired now) (scopes st)))) \<and>
    scopes (snd (reap_expired_scopes env templates now st)) = filter (\<lambda>r. \<not> expired now r) (scopes st)"
proof -
  let ?recs = "filter (expired now) (scopes st)"
  note c = claim_exact [OF assms(2,3), of now]
  obtain st1 where st1: "claimExpired env now st = ((True, ?recs), st1)"
    "scopes st1 = filter (\<lambda>r. \<not> expired now r) (scopes st)"
    using c by (cases "claimExpired env now st") auto
  have "\<forall>r \<in> set ?recs. cstr (app_name r) = app_name r" using assms(1) by (auto simp: store_ok_def row_ok_def)
  note ev = session_loop_events [OF assms(1,2) refl st1(2) this, of templates]
  show ?thesis
  proof (cases "?recs = []")
    case True
    with st1 show ?thesis by (simp add: reap_expired_scopes_def)
  next
    case False
    then show ?thesis unfolding reap_expired_scopes_def st1(1) using st1(2)
      by (simp add: ev app_loop_events del: filter_filter)
  qed
qed

theorem reap_round_witness:
  "snd (fst (reap_expired_scopes sqlite_ok (Some (\<lambda>_. True)) 50
     (snd (storeSession sqlite_ok ''a'' ''s'' ''{}'' 40 10 5 ''/A.cfc'' empty_store)))) = [SessionEnd ''/A.cfc'' ''{}'' []]"
proof -
  let ?st = "snd (storeSession sqlite_ok ''a'' ''s'' ''{}'' 40 10 5 ''/A.cfc'' empty_store)"
  have st: "?st = empty_store\<lparr>scopes := [\<lparr>kind = SESSION, app_name = ''a'', scope_id = ''s'', data = ''{}'',
      expires_at = 40, last_access = 10, start_time = 5, cfc_path = ''/A.cfc''\<rparr>]\<rparr>"
    by (simp add: storeSession_def storeRow_def Let_def cstr_def nul_def empty_store_def)
  have "store_ok ?st" unfolding st
    by (simp add: store_ok_def empty_store_def unique_def row_ok_def SESSION_def APPLICATION_def cstr_def nul_def)
  from reap_round [OF this sqlite_ok_simps(1), of "Some (\<lambda>_. True)" 50] show ?thesis
    unfolding st by (simp add: expired_def calls_def app_data_def tab_def key_of_row_def SESSION_def APPLICATION_def empty_store_def)
qed

text \<open>Exactly once. However the reapers' claims are spread over time, by the last of them every
  row that has expired has been handed out exactly once, and a later claim for the same time
  finds none.\<close>

theorem expired_scopes_claimed_once:
  assumes "\<not> open_tx st" "sorted ts" "ts \<noteq> []"
  shows "mset (fst (claim_all (claimExpired sqlite_ok) ts st)) = mset (filter (expired (last ts)) (scopes st)) \<and>
    snd (fst (claimExpired sqlite_ok (last ts) (snd (claim_all (claimExpired sqlite_ok) ts st)))) = []"
  using scope_queue.claim_all_once [OF assms] scope_queue.claim_all_empty_again [OF assms order_refl] by blast

theorem expired_scopes_claimed_once_witness:
  "snd (fst (claimExpired sqlite_ok 9 (snd (claim_all (claimExpired sqlite_ok) [3, 9] empty_store)))) = []"
  using expired_scopes_claimed_once [of empty_store "[3, 9]"] by simp



end
