(* ===== verification/CacheStore.thy ===== *)
theory CacheStore imports StringOps Tables begin

section \<open>The shared object cache: \<open>CacheStore\<close>\<close>

text \<open>
  Models \<open>src/cache_store.cpp\<close>: the tables \<open>cf_cache_region\<close> and \<open>cf_cache\<close>, one operation per
  member function on an open connection, as in \<open>ScopeStore\<close>. Times and intervals are in milliseconds. An entry
  expires when its time to live or its time to idle has run out; a zero interval never does.
  Reads add a time and an interval as C++ \<open>int64_t\<close>s, where an overflow is undefined behaviour;
  the SQL statements leave the sum to SQLite, which goes over to a floating-point number instead.
\<close>

record cache_row =
  region :: bytes
  entry_id :: bytes
  cvalue :: bytes
  timetolive :: int
  timetoidle :: int
  created :: int
  lastaccess :: int
  lastupdate :: int
  hits :: int

record region_row =
  rname :: bytes
  props :: bytes

record cache =
  entries :: "cache_row list"
  regions :: "region_row list"
  cacheError :: bytes

datatype cstmt = SelRegion | InsRegion | DelRegion | DelRegionEntries | ListRegions | SelProps | UpsertProps
  | AddRegion | UpsertEntry | SelEntry | HitEntry | PurgeEntry | DelEntry | DelAll | SelIds | SelMeta

type_synonym cdb = "cstmt db_env"

definition cfail :: "cdb \<Rightarrow> cache \<Rightarrow> cache" where
  "cfail env st = st\<lparr>cacheError := errmsg env\<rparr>"

text \<open>The size test comes first, so \<open>TEMPLATE\<close> with its eight letters is never standard.\<close>

definition isStandardRegion :: "bytes \<Rightarrow> bool" where
  "isStandardRegion r \<longleftrightarrow> (if length r \<noteq> 6 \<and> length r \<noteq> 5 then False
     else r = ''OBJECT'' \<or> r = ''QUERY'' \<or> r = ''TEMPLATE'')"

subsection \<open>Regions\<close>

definition has_region :: "bytes \<Rightarrow> cache \<Rightarrow> bool" where
  "has_region r st \<longleftrightarrow> list_ex (\<lambda>x. rname x = r) (regions st)"

definition regionExists :: "cdb \<Rightarrow> bytes \<Rightarrow> cache \<Rightarrow> bool \<times> cache" where
  "regionExists env r st = (if outcome_of env SelRegion = PrepFail then (False, cfail env st)
     else (ok env SelRegion \<and> has_region (cstr r) st, st))"

definition createRegion :: "cdb \<Rightarrow> bytes \<Rightarrow> cache \<Rightarrow> bool \<times> cache" where
  "createRegion env r st = (case regionExists env r st of (b, st1) \<Rightarrow>
     if b then (False, st1)
     else if \<not> ok env InsRegion \<or> has_region (cstr r) st1 then (False, cfail env st1)
     else (True, st1\<lparr>regions := regions st1 @ [\<lparr>rname = cstr r, props = ''{}''\<rparr>]\<rparr>))"

definition removeRegion :: "cdb \<Rightarrow> bytes \<Rightarrow> cache \<Rightarrow> bool \<times> cache" where
  "removeRegion env r st = (case regionExists env r st of (b, st1) \<Rightarrow>
     if \<not> b then (False, st1)
     else if outcome_of env DelRegion = PrepFail then (False, cfail env st1)
     else let st2 = (if ok env DelRegion then st1\<lparr>regions := delete_where (\<lambda>x. rname x = cstr r) (regions st1)\<rparr> else st1);
              st3 = (if ok env DelRegionEntries then st2\<lparr>entries := delete_where (\<lambda>x. region x = cstr r) (entries st2)\<rparr> else st2)
          in (True, st3))"

text \<open>A reading loop that ends at a failing step has the rows before it.\<close>

definition read_rows :: "outcome \<Rightarrow> 'r list \<Rightarrow> 'r list" where
  "read_rows out rows = (case out of PrepFail \<Rightarrow> [] | StepFail n \<Rightarrow> take n rows | Done \<Rightarrow> rows)"

definition regionList :: "cdb \<Rightarrow> cache \<Rightarrow> bytes list \<times> cache" where
  "regionList env st = (if outcome_of env ListRegions = PrepFail then ([], cfail env st)
     else (read_rows (outcome_of env ListRegions) (sort (map rname (regions st))), st))"

definition regionProperties :: "cdb \<Rightarrow> bytes \<Rightarrow> cache \<Rightarrow> bytes" where
  "regionProperties env r st = (if \<not> ok env SelProps then ''{}''
     else case row_of rname (cstr r) (regions st) of None \<Rightarrow> ''{}'' | Some x \<Rightarrow> props x)"

definition setRegionProperties :: "cdb \<Rightarrow> bytes \<Rightarrow> bytes \<Rightarrow> cache \<Rightarrow> cache" where
  "setRegionProperties env r propsJson st = (if outcome_of env UpsertProps = PrepFail then cfail env st
     else if \<not> ok env UpsertProps then st
     else st\<lparr>regions := upsert rname \<lparr>rname = cstr r, props = cstr propsJson\<rparr>
            (\<lambda>x. x\<lparr>props := cstr propsJson\<rparr>) (regions st)\<rparr>)"

subsection \<open>Entries\<close>

definition ckey :: "cache_row \<Rightarrow> bytes \<times> bytes" where
  "ckey x = (region x, entry_id x)"

definition int64_add :: "int \<Rightarrow> int \<Rightarrow> int res" where
  "int64_add a b = signed_op 64 (a + b)"

text \<open>The test of \<open>get\<close> and \<open>metadata\<close>: the second sum is formed only when the first did not decide.\<close>

definition interval_over :: "int \<Rightarrow> int \<Rightarrow> int \<Rightarrow> bool res" where
  "interval_over start interval nowMs = (if 0 < interval then ebind (int64_add start interval) (\<lambda>t. Inr (t \<le> nowMs)) else Inr False)"

definition entry_expired :: "int \<Rightarrow> cache_row \<Rightarrow> bool res" where
  "entry_expired nowMs x = ebind (interval_over (created x) (timetolive x) nowMs) (\<lambda>b.
     if b then Inr True else interval_over (lastaccess x) (timetoidle x) nowMs)"

text \<open>The test of the SQL statements. A sum beyond the 64-bit range is a floating-point number there, and greater
  than every time, as the exact sum is.\<close>

definition sql_expired :: "int \<Rightarrow> cache_row \<Rightarrow> bool" where
  "sql_expired nowMs x \<longleftrightarrow> (0 < timetolive x \<and> created x + timetolive x \<le> nowMs) \<or>
     (0 < timetoidle x \<and> lastaccess x + timetoidle x \<le> nowMs)"

definition overflows :: "int \<Rightarrow> cache_row \<Rightarrow> bool" where
  "overflows nowMs x \<longleftrightarrow> entry_expired nowMs x = Inl UB"

lemma expired_cases: "entry_expired nowMs x = (if overflows nowMs x then Inl UB else Inr (sql_expired nowMs x))"
  by (auto simp: overflows_def entry_expired_def interval_over_def int64_add_def signed_op_def sql_expired_def)

lemma overflows_iff: "overflows nowMs x \<longleftrightarrow> (0 < timetolive x \<and> \<not> signed_fits 64 (created x + timetolive x)) \<or>
    (\<not> (0 < timetolive x \<and> created x + timetolive x \<le> nowMs) \<and> 0 < timetoidle x \<and> \<not> signed_fits 64 (lastaccess x + timetoidle x))"
  by (auto simp: overflows_def entry_expired_def interval_over_def int64_add_def signed_op_def)

definition add_region :: "cdb \<Rightarrow> bytes \<Rightarrow> cache \<Rightarrow> cache" where
  "add_region env r st = (if ok env AddRegion \<and> \<not> has_region (cstr r) st
     then st\<lparr>regions := regions st @ [\<lparr>rname = cstr r, props = ''{}''\<rparr>]\<rparr> else st)"

definition new_entry :: "bytes \<Rightarrow> bytes \<Rightarrow> bytes \<Rightarrow> int \<Rightarrow> int \<Rightarrow> int \<Rightarrow> cache_row" where
  "new_entry r i valueJson ttl idle nowMs = \<lparr>region = cstr r, entry_id = cstr i, cvalue = cstr valueJson,
     timetolive = ttl, timetoidle = idle, created = nowMs, lastaccess = nowMs, lastupdate = nowMs, hits = 0\<rparr>"

definition put :: "cdb \<Rightarrow> bytes \<Rightarrow> bytes \<Rightarrow> bytes \<Rightarrow> int \<Rightarrow> int \<Rightarrow> int \<Rightarrow> cache \<Rightarrow> bool \<times> cache" where
  "put env r i valueJson ttl idle nowMs st =
     (if outcome_of env AddRegion = PrepFail then (False, cfail env st)
      else let st1 = add_region env r st; new = new_entry r i valueJson ttl idle nowMs in
        if \<not> ok env UpsertEntry then (False, cfail env st1)
        else (True, st1\<lparr>entries := upsert ckey new (\<lambda>_. new) (entries st1)\<rparr>))"

definition purge :: "cdb \<Rightarrow> bytes \<Rightarrow> bytes \<Rightarrow> int \<Rightarrow> cache \<Rightarrow> cache" where
  "purge env r i nowMs st = (if ok env PurgeEntry then st\<lparr>entries := delete_where
     (\<lambda>y. ckey y = (cstr r, cstr i) \<and> sql_expired nowMs y) (entries st)\<rparr> else st)"

definition get :: "cdb \<Rightarrow> bytes \<Rightarrow> bytes \<Rightarrow> int \<Rightarrow> bool \<Rightarrow> cache \<Rightarrow> (bytes option \<times> cache) res" where
  "get env r i nowMs quiet st =
     (if outcome_of env SelEntry = PrepFail then Inr (None, cfail env st)
      else case (if ok env SelEntry then row_of ckey (cstr r, cstr i) (entries st) else None) of
        Some x \<Rightarrow> ebind (entry_expired nowMs x) (\<lambda>expired. Inr (if expired then (None, purge env r i nowMs st)
          else (Some (cvalue x), if \<not> quiet \<and> ok env HitEntry then st\<lparr>entries := update_where
               (\<lambda>y. ckey y = (cstr r, cstr i)) (\<lambda>y. y\<lparr>hits := hits y + 1, lastaccess := nowMs\<rparr>) (entries st)\<rparr> else st)))
      | None \<Rightarrow> Inr (None, purge env r i nowMs st))"

definition idExists :: "cdb \<Rightarrow> bytes \<Rightarrow> bytes \<Rightarrow> int \<Rightarrow> cache \<Rightarrow> (bool \<times> cache) res" where
  "idExists env r i nowMs st = ebind (get env r i nowMs True st) (\<lambda>(v, st1). Inr (v \<noteq> None, st1))"

definition remove :: "cdb \<Rightarrow> bytes \<Rightarrow> bytes \<Rightarrow> cache \<Rightarrow> bool \<times> cache" where
  "remove env r i st = (if \<not> ok env DelEntry then (False, cfail env st)
     else (True, st\<lparr>entries := delete_where (\<lambda>y. ckey y = (cstr r, cstr i)) (entries st)\<rparr>))"

definition removeAll :: "cdb \<Rightarrow> bytes \<Rightarrow> cache \<Rightarrow> cache" where
  "removeAll env r st = (if outcome_of env DelAll = PrepFail then cfail env st
     else if ok env DelAll then st\<lparr>entries := delete_where (\<lambda>y. region y = cstr r) (entries st)\<rparr> else st)"

text \<open>SQLite does not say in which order rows created at the same time come; the model keeps theirs.\<close>

definition getAllIds :: "cdb \<Rightarrow> bytes \<Rightarrow> int \<Rightarrow> bool \<Rightarrow> cache \<Rightarrow> bytes list \<times> cache" where
  "getAllIds env r nowMs includeExpired st =
     (if outcome_of env SelIds = PrepFail then ([], cfail env st)
      else (read_rows (outcome_of env SelIds) (map entry_id (sort_key created
        (filter (\<lambda>y. region y = cstr r \<and> (includeExpired \<or> \<not> sql_expired nowMs y)) (entries st)))), st))"

record entry_meta =
  found :: bool
  mname :: bytes
  mtimetolive :: int
  mtimetoidle :: int
  mhits :: int
  createdMs :: int
  lastAccessMs :: int
  lastUpdateMs :: int
  msize :: int

definition no_meta :: "bytes \<Rightarrow> entry_meta" where
  "no_meta r = \<lparr>found = False, mname = r, mtimetolive = 0, mtimetoidle = 0, mhits = 0, createdMs = 0,
     lastAccessMs = 0, lastUpdateMs = 0, msize = 0\<rparr>"

definition seconds :: "int \<Rightarrow> int" where
  "seconds ms = sgn ms * (\<bar>ms\<bar> div 1000)"

definition metadata :: "cdb \<Rightarrow> bytes \<Rightarrow> bytes \<Rightarrow> int \<Rightarrow> cache \<Rightarrow> entry_meta res" where
  "metadata env r i nowMs st =
     (case (if ok env SelMeta then row_of ckey (cstr r, cstr i) (entries st) else None) of
        None \<Rightarrow> Inr (no_meta r)
      | Some x \<Rightarrow> ebind (entry_expired nowMs x) (\<lambda>expired. Inr (if expired then no_meta r
        else \<lparr>found = True, mname = r, mtimetolive = seconds (timetolive x), mtimetoidle = seconds (timetoidle x),
          mhits = hits x, createdMs = created x, lastAccessMs = lastaccess x, lastUpdateMs = lastupdate x,
          msize = int (length (cvalue x))\<rparr>)))"

section \<open>The cache as a map\<close>

definition cache_ok :: "cache \<Rightarrow> bool" where
  "cache_ok st \<longleftrightarrow> unique ckey (entries st) \<and> unique rname (regions st) \<and>
     (\<forall>x \<in> set (entries st). has_region (region x) st)"

definition ctab :: "cache \<Rightarrow> (bytes \<times> bytes \<Rightarrow> cache_row option)" where
  "ctab st = (\<lambda>k. row_of ckey k (entries st))"

definition c_get :: "int \<Rightarrow> bytes \<times> bytes \<Rightarrow> (bytes \<times> bytes \<Rightarrow> cache_row option) \<Rightarrow> bytes option" where
  "c_get now k m = (case m k of Some x \<Rightarrow> if sql_expired now x then None else Some (cvalue x) | None \<Rightarrow> None)"

text \<open>A successful read that is not quiet restarts the idle interval; an expired entry goes.\<close>

definition c_access :: "int \<Rightarrow> bool \<Rightarrow> bytes \<times> bytes \<Rightarrow> (bytes \<times> bytes \<Rightarrow> cache_row option) \<Rightarrow>
    (bytes \<times> bytes \<Rightarrow> cache_row option)" where
  "c_access now quiet k m = (case m k of None \<Rightarrow> m
     | Some x \<Rightarrow> if sql_expired now x then m(k := None)
       else if quiet then m else m(k \<mapsto> x\<lparr>hits := hits x + 1, lastaccess := now\<rparr>))"

text \<open>The entry under a key on whose times the read overflows.\<close>

definition c_overflows :: "int \<Rightarrow> bytes \<times> bytes \<Rightarrow> (bytes \<times> bytes \<Rightarrow> cache_row option) \<Rightarrow> bool" where
  "c_overflows now k m = (case m k of None \<Rightarrow> False | Some x \<Rightarrow> overflows now x)"

lemma has_region_simps [simp]:
  "has_region r (st\<lparr>entries := es\<rparr>) = has_region r st"
  "has_region r (st\<lparr>cacheError := m\<rparr>) = has_region r st"
  by (simp_all add: has_region_def)

lemma has_region_row: "has_region r st \<longleftrightarrow> r \<in> rname ` set (regions st)"
  by (auto simp: has_region_def list_ex_iff)

lemma hit_key: "ckey (y\<lparr>hits := h, lastaccess := a\<rparr>) = ckey y"
  by (simp add: ckey_def)

lemma get_refines:
  assumes "cache_ok st" "all_ok env"
  shows "case get env r i now quiet st of
      Inl e \<Rightarrow> e = UB \<and> c_overflows now (cstr r, cstr i) (ctab st)
    | Inr (v, st') \<Rightarrow> \<not> c_overflows now (cstr r, cstr i) (ctab st) \<and> v = c_get now (cstr r, cstr i) (ctab st)
        \<and> ctab st' = c_access now quiet (cstr r, cstr i) (ctab st)"
proof -
  let ?k = "(cstr r, cstr i)"
  have u: "unique ckey (entries st)" using assms(1) by (simp add: cache_ok_def)
  have o: "outcome_of env s = Done" "ok env s" for s using assms(2) by (simp_all add: all_ok_def ok_def)
  have upd: "row_of ckey q (update_where (\<lambda>y. ckey y = ?k) (\<lambda>y. y\<lparr>hits := hits y + 1, lastaccess := now\<rparr>) (entries st)) =
      map_option (\<lambda>y. if ckey y = ?k then y\<lparr>hits := hits y + 1, lastaccess := now\<rparr> else y) (row_of ckey q (entries st))" for q
    by (rule row_of_update) (simp add: ckey_def)
  have keyed: "row_of ckey q (entries st) = Some y \<Longrightarrow> ckey y = q" for q y by (auto dest: row_of_mem)
  show ?thesis
  proof (cases "row_of ckey ?k (entries st)")
    case None
    have "delete_where (\<lambda>y. ckey y = ?k \<and> sql_expired now y) (entries st) = entries st"
      using None by (intro delete_id) (auto simp: row_of_none_iff)
    with None show ?thesis by (simp add: get_def o purge_def c_get_def c_access_def c_overflows_def ctab_def)
  next
    case (Some x)
    let ?hit = "st\<lparr>entries := update_where (\<lambda>y. ckey y = ?k) (\<lambda>y. y\<lparr>hits := hits y + 1, lastaccess := now\<rparr>) (entries st)\<rparr>"
    have "ctab (if sql_expired now x then purge env r i now st else if quiet then st else ?hit) q = c_access now quiet ?k (ctab st) q" for q
      using Some keyed [of q]
      by (cases "row_of ckey q (entries st)") (auto simp: purge_def o c_access_def ctab_def upd row_of_delete [OF u] keyed)
    then show ?thesis using Some by (auto simp: get_def o c_get_def c_overflows_def ctab_def expired_cases)
  qed
qed

lemma put_refines:
  assumes "all_ok env"
  shows "fst (put env r i v ttl idle now st) \<and>
    ctab (snd (put env r i v ttl idle now st)) = (ctab st)((cstr r, cstr i) \<mapsto> new_entry r i v ttl idle now)"
proof -
  have o: "outcome_of env s = Done" "ok env s" for s using assms by (simp_all add: all_ok_def ok_def)
  have "entries (add_region env r st) = entries st" by (simp add: add_region_def)
  moreover have "ckey (new_entry r i v ttl idle now) = (cstr r, cstr i)" by (simp add: ckey_def new_entry_def)
  ultimately show ?thesis
    by (auto simp: put_def o Let_def ctab_def fun_eq_iff row_of_upsert split: option.split)
qed

lemma cache_remove_refines:
  assumes "cache_ok st" "all_ok env"
  shows "ctab (snd (remove env r i st)) = (ctab st)((cstr r, cstr i) := None)"
    "ctab (removeAll env r st) = (\<lambda>k. if fst k = cstr r then None else ctab st k)"
  using assms by (auto simp: remove_def removeAll_def ctab_def fun_eq_iff cache_ok_def all_ok_def ok_def row_of_delete ckey_def
      split: option.split dest: row_of_mem)

lemma metadata_spec:
  "all_ok env \<Longrightarrow> case metadata env r i now st of
      Inl e \<Rightarrow> e = UB \<and> c_overflows now (cstr r, cstr i) (ctab st)
    | Inr md \<Rightarrow> \<not> c_overflows now (cstr r, cstr i) (ctab st) \<and> found md = (c_get now (cstr r, cstr i) (ctab st) \<noteq> None)"
  by (auto simp: metadata_def no_meta_def c_get_def c_overflows_def ctab_def all_ok_def expired_cases split: option.split)

section \<open>Sequences of operations\<close>

datatype cache_op = NewRegion bytes | DropRegion bytes | SetProps bytes bytes
  | Put bytes bytes bytes int int int | Get bytes bytes int bool | Remove bytes bytes | RemoveAll bytes

fun cache_step :: "cdb \<Rightarrow> cache_op \<Rightarrow> cache \<Rightarrow> cache res" where
  "cache_step env (NewRegion r) st = Inr (snd (createRegion env r st))"
| "cache_step env (DropRegion r) st = Inr (snd (removeRegion env r st))"
| "cache_step env (SetProps r p) st = Inr (setRegionProperties env r p st)"
| "cache_step env (Put r i v ttl idle now) st = Inr (snd (put env r i v ttl idle now st))"
| "cache_step env (Get r i now quiet) st = ebind (get env r i now quiet st) (\<lambda>(v, st1). Inr st1)"
| "cache_step env (Remove r i) st = Inr (snd (remove env r i st))"
| "cache_step env (RemoveAll r) st = Inr (removeAll env r st)"

fun cache_run :: "cdb \<Rightarrow> cache_op list \<Rightarrow> cache \<Rightarrow> cache res" where
  "cache_run env [] st = Inr st"
| "cache_run env (op # ops) st = ebind (cache_step env op st) (cache_run env ops)"

definition std_regions :: "region_row list" where
  "std_regions = map (\<lambda>r. \<lparr>rname = r, props = ''{}''\<rparr>) [''OBJECT'', ''TEMPLATE'', ''QUERY'']"

text \<open>The store as \<open>open\<close> leaves a fresh database.\<close>

definition new_cache :: cache where
  "new_cache = \<lparr>entries = [], regions = std_regions, cacheError = []\<rparr>"

lemma new_cache_ok: "cache_ok new_cache"
  by (simp add: cache_ok_def new_cache_def std_regions_def unique_def)

lemma unique_add_region:
  "unique rname (regions st) \<Longrightarrow> \<not> has_region r st \<Longrightarrow> unique rname (regions st @ [\<lparr>rname = r, props = p\<rparr>])"
  by (auto simp: unique_def has_region_row)

lemma cache_ok_add_region:
  assumes "cache_ok st" shows "cache_ok (add_region env r st)"
  using assms unique_add_region [of st "cstr r"] by (auto simp: cache_ok_def add_region_def has_region_row)

lemma add_region_has: "ok env AddRegion \<Longrightarrow> has_region (cstr r) (add_region env r st)"
  by (auto simp: add_region_def has_region_def)

lemma cache_ok_put:
  assumes "cache_ok st" "all_ok env" shows "cache_ok (snd (put env r i v ttl idle now st))"
proof -
  let ?st = "add_region env r st" and ?new = "new_entry r i v ttl idle now"
  have ok: "cache_ok ?st" by (rule cache_ok_add_region [OF assms(1)])
  have h: "has_region (region ?new) ?st" using assms(2) by (simp add: new_entry_def add_region_has all_ok_def)
  have "has_region (region x) ?st" if "x \<in> set (upsert ckey ?new (\<lambda>_. ?new) (entries ?st))" for x
    using upsert_all [OF that, of "\<lambda>x. has_region (region x) ?st"] ok h by (auto simp: cache_ok_def)
  moreover have "unique ckey (upsert ckey ?new (\<lambda>_. ?new) (entries ?st))"
    using ok by (auto simp: cache_ok_def)
  ultimately show ?thesis using ok assms(2)
    by (auto simp: cache_ok_def put_def all_ok_def ok_def Let_def)
qed

lemma cache_ok_fewer:
  assumes "cache_ok st" shows "cache_ok (st\<lparr>entries := delete_where p (entries st)\<rparr>)"
  using assms by (auto simp: cache_ok_def)

lemma cache_ok_purge: "cache_ok st \<Longrightarrow> cache_ok (purge env r i now st)"
  using cache_ok_fewer by (simp add: purge_def)

lemma cache_ok_get:
  assumes "cache_ok st" "all_ok env" "get env r i now quiet st = Inr (v, st')" shows "cache_ok st'"
proof -
  have "cache_ok (st\<lparr>entries := update_where p (\<lambda>y. y\<lparr>hits := hits y + 1, lastaccess := now\<rparr>) (entries st)\<rparr>)" for p
    using assms(1) by (auto simp: cache_ok_def update_where_def [of _ _ "entries st"] hit_key
        intro: unique_update [of ckey "entries st", unfolded update_where_def])
  then show ?thesis using assms cache_ok_purge
    by (auto simp: get_def all_ok_def ok_def ebind_eq_Inr split: option.splits if_splits)
qed

lemma cache_ok_step:
  assumes "cache_ok st" "all_ok env" "cache_step env op st = Inr st'" shows "cache_ok st'"
proof -
  have o: "outcome_of env s = Done" "ok env s" for s using assms(2) by (simp_all add: all_ok_def ok_def)
  show ?thesis
  proof (cases op)
    case (NewRegion r)
    then show ?thesis using assms(1,3) unique_add_region [of st "cstr r"]
      by (auto simp: createRegion_def regionExists_def o cache_ok_def has_region_row split: if_splits)
  next
    case (DropRegion r)
    have "cache_ok (snd (removeRegion env r st))" using assms(1)
      by (auto simp: removeRegion_def regionExists_def o Let_def cache_ok_def has_region_row)
    with DropRegion assms(3) show ?thesis by auto
  next
    case (SetProps r p)
    have "rname ` set (upsert rname \<lparr>rname = cstr r, props = cstr p\<rparr> (\<lambda>x. x\<lparr>props := cstr p\<rparr>) (regions st)) =
        insert (cstr r) (rname ` set (regions st))"
      by (subst keys_upsert) auto
    with SetProps show ?thesis using assms by (auto simp: setRegionProperties_def o cache_ok_def has_region_row
          intro!: unique_upsert)
  next
    case (Get r i now quiet)
    then show ?thesis using assms cache_ok_get by (auto simp: ebind_eq_Inr)
  qed (use assms cache_ok_put cache_ok_fewer in \<open>auto simp: remove_def removeAll_def all_ok_def ok_def\<close>)
qed

lemma cache_ok_run: "cache_ok st \<Longrightarrow> all_ok env \<Longrightarrow> cache_run env ops st = Inr st' \<Longrightarrow> cache_ok st'"
  by (induction ops arbitrary: st) (auto simp: ebind_eq_Inr dest: cache_ok_step)

text \<open>Reads of one entry at given times.\<close>

fun reads :: "cdb \<Rightarrow> bytes \<Rightarrow> bytes \<Rightarrow> int list \<Rightarrow> cache \<Rightarrow> (bytes option list \<times> cache) res" where
  "reads env r i [] st = Inr ([], st)"
| "reads env r i (t # ts) st = ebind (get env r i t False st) (\<lambda>(v, st1).
     ebind (reads env r i ts st1) (\<lambda>(vs, st2). Inr (v # vs, st2)))"

definition in_interval :: "int \<Rightarrow> int \<Rightarrow> int \<Rightarrow> bool" where
  "in_interval start interval t \<longleftrightarrow> (if 0 < interval then t < start + interval \<and> signed_fits 64 (start + interval) else True)"

fun within :: "int \<Rightarrow> int \<Rightarrow> int \<Rightarrow> int \<Rightarrow> int list \<Rightarrow> bool" where
  "within ttl idle start prev [] = in_interval prev idle prev"
| "within ttl idle start prev (t # ts) = (in_interval start ttl t \<and> in_interval prev idle t \<and> within ttl idle start t ts)"

lemma in_interval_alive:
  "in_interval (created x) (timetolive x) t \<Longrightarrow> in_interval (lastaccess x) (timetoidle x) t \<Longrightarrow> entry_expired t x = Inr False"
  by (auto simp: in_interval_def entry_expired_def interval_over_def int64_add_def signed_op_def split: if_splits)

lemma reads_alive:
  "cache_ok st \<Longrightarrow> all_ok env \<Longrightarrow> ctab st (cstr r, cstr i) = Some x \<Longrightarrow>
   within (timetolive x) (timetoidle x) (created x) (lastaccess x) ts \<Longrightarrow>
   \<exists>st'. reads env r i ts st = Inr (map (\<lambda>_. Some (cvalue x)) ts, st') \<and>
   ctab st' (cstr r, cstr i) = Some (x\<lparr>hits := hits x + int (length ts), lastaccess := last (lastaccess x # ts)\<rparr>)"
proof (induction ts arbitrary: st x)
  case (Cons t ts)
  let ?k = "(cstr r, cstr i)" and ?x = "x\<lparr>hits := hits x + 1, lastaccess := t\<rparr>"
  have e: "entry_expired t x = Inr False" using Cons.prems(4) by (auto intro: in_interval_alive)
  then have alive: "\<not> sql_expired t x" "\<not> overflows t x" using expired_cases [of t x] by (auto split: if_splits)
  with get_refines [OF Cons.prems(1,2), where r = r and i = i and now = t and quiet = False] Cons.prems(3) obtain st1
    where v: "get env r i t False st = Inr (Some (cvalue x), st1)" "ctab st1 ?k = Some ?x"
    by (cases "get env r i t False st") (auto simp: c_get_def c_access_def c_overflows_def)
  have ok1: "cache_ok st1" by (rule cache_ok_get [OF Cons.prems(1,2) v(1)])
  have "within (timetolive ?x) (timetoidle ?x) (created ?x) (lastaccess ?x) ts" using Cons.prems(4) by simp
  from Cons.IH [OF ok1 Cons.prems(2) v(2) this] v(1) show ?case by (auto simp: cache_row.defs)
qed simp

section \<open>Properties\<close>

text \<open>C12: The cache refines a map from (region, id) to entries. When the SQL statements complete, a
  put replaces the entry and restarts its statistics, a get returns the value of an entry whose
  time to live and time to idle, both in milliseconds and counted from its creation and its last access,
  have not run out and otherwise nothing, where an interval of zero never runs out; a get that is not quiet
  counts a hit and restarts the idle interval, an expired entry is dropped by the get that meets
  it, and the metadata are found exactly when a get would find a value. Exactly when a time plus its interval
  is beyond 64 bits the get and the metadata have undefined behaviour. Removing reports success
  for an absent entry too.\<close>

theorem cache_refines_map:
  assumes "cache_ok st" "all_ok env"
  shows "(case get env r i now quiet st of
        Inl e \<Rightarrow> e = UB \<and> c_overflows now (cstr r, cstr i) (ctab st)
      | Inr (w, st') \<Rightarrow> \<not> c_overflows now (cstr r, cstr i) (ctab st) \<and> w = c_get now (cstr r, cstr i) (ctab st)
          \<and> ctab st' = c_access now quiet (cstr r, cstr i) (ctab st)) \<and>
    fst (put env r i v ttl idle now st) \<and>
    ctab (snd (put env r i v ttl idle now st)) = (ctab st)((cstr r, cstr i) \<mapsto> new_entry r i v ttl idle now) \<and>
    fst (remove env r i st) \<and> ctab (snd (remove env r i st)) = (ctab st)((cstr r, cstr i) := None) \<and>
    ctab (removeAll env r st) = (\<lambda>k. if fst k = cstr r then None else ctab st k) \<and>
    (case metadata env r i now st of
        Inl e \<Rightarrow> e = UB \<and> c_overflows now (cstr r, cstr i) (ctab st)
      | Inr md \<Rightarrow> \<not> c_overflows now (cstr r, cstr i) (ctab st) \<and> found md = (c_get now (cstr r, cstr i) (ctab st) \<noteq> None))"
  using get_refines [OF assms] put_refines [OF assms(2)] cache_remove_refines [OF assms] metadata_spec [OF assms(2)] assms(2)
  by (simp add: remove_def all_ok_def)

text \<open>An entry that lives for 5 milliseconds, read in time and too late, and one whose interval overflows.\<close>

definition sample_cache :: "int \<Rightarrow> cache" where
  "sample_cache ttl = snd (put sqlite_ok ''OBJECT'' ''k'' ''1'' ttl 0 10 new_cache)"

lemma sample_cache_ok: "cache_ok (sample_cache ttl)"
  unfolding sample_cache_def by (rule cache_ok_put [OF new_cache_ok sqlite_ok_simps(1)])

theorem cache_refines_map_witness:
  "(case get sqlite_ok ''OBJECT'' ''k'' 14 True (sample_cache 5) of Inl _ \<Rightarrow> False | Inr (v, _) \<Rightarrow> v = Some ''1'') \<and>
   (case get sqlite_ok ''OBJECT'' ''k'' 15 True (sample_cache 5) of Inl _ \<Rightarrow> False | Inr (v, _) \<Rightarrow> v = None) \<and>
   get sqlite_ok ''OBJECT'' ''k'' 15 True (sample_cache (2 ^ 63 - 1)) = Inl UB"
proof -
  have t: "\<not> c_overflows 14 (cstr ''OBJECT'', cstr ''k'') (ctab (sample_cache 5))" "\<not> c_overflows 15 (cstr ''OBJECT'', cstr ''k'') (ctab (sample_cache 5))"
      "c_overflows 15 (cstr ''OBJECT'', cstr ''k'') (ctab (sample_cache (2 ^ 63 - 1)))"
      "c_get 14 (cstr ''OBJECT'', cstr ''k'') (ctab (sample_cache 5)) = Some ''1''" "c_get 15 (cstr ''OBJECT'', cstr ''k'') (ctab (sample_cache 5)) = None"
    by code_simp+
  show ?thesis
    using cache_refines_map [OF sample_cache_ok [of 5] sqlite_ok_simps(1), where r = "''OBJECT''" and i = "''k''" and now = 14 and quiet = True, THEN conjunct1]
      cache_refines_map [OF sample_cache_ok [of 5] sqlite_ok_simps(1), where r = "''OBJECT''" and i = "''k''" and now = 15 and quiet = True, THEN conjunct1]
      cache_refines_map [OF sample_cache_ok [of "2 ^ 63 - 1"] sqlite_ok_simps(1), where r = "''OBJECT''" and i = "''k''" and now = 15 and quiet = True, THEN conjunct1]
    by (simp only: t simp_thms split: sum.splits prod.splits) auto
qed

text \<open>Every sequence of cache operations on a fresh database keeps the primary keys unique and
  every entry in a region that exists, so removing a region leaves no orphan.\<close>

theorem cache_invariant:
  "case cache_run sqlite_ok ops new_cache of Inl e \<Rightarrow> True | Inr st \<Rightarrow> cache_ok st"
  using cache_ok_run [OF new_cache_ok sqlite_ok_simps(1)] by (simp split: sum.split)

text \<open>Sliding expiry. An entry put at time \<open>t0\<close> and read at times each less than the idle
  interval after the one before, all within the time to live, is returned every time, and its
  metadata then report one hit per read and the time of the last one; a zero interval puts no
  bound.\<close>

theorem cache_idle_window:
  assumes "cache_ok st" "all_ok env" "within ttl idle t0 t0 ts" "ts \<noteq> []"
  shows "\<exists>st' md. reads env r i ts (snd (put env r i v ttl idle t0 st)) = Inr (map (\<lambda>_. Some (cstr v)) ts, st') \<and>
    metadata env r i (last ts) st' = Inr md \<and> mhits md = int (length ts) \<and> lastAccessMs md = last ts"
proof -
  let ?st = "snd (put env r i v ttl idle t0 st)" and ?x = "new_entry r i v ttl idle t0"
  have x: "ctab ?st (cstr r, cstr i) = Some ?x" using put_refines [OF assms(2)] by simp
  have "within (timetolive ?x) (timetoidle ?x) (created ?x) (lastaccess ?x) ts"
    using assms(3) by (simp add: new_entry_def)
  from reads_alive [OF cache_ok_put [OF assms(1,2)] assms(2) x this] obtain st' where R:
      "reads env r i ts ?st = Inr (map (\<lambda>_. Some (cvalue ?x)) ts, st')"
      "ctab st' (cstr r, cstr i) = Some (?x\<lparr>hits := hits ?x + int (length ts), lastaccess := last (lastaccess ?x # ts)\<rparr>)" by blast
  have W: "within ttl idle s p ts \<Longrightarrow> ts \<noteq> [] \<Longrightarrow> in_interval s ttl (last ts) \<and> in_interval (last ts) idle (last ts)" for s p
    by (induction ts arbitrary: p) (auto split: if_splits)
  have "entry_expired (last ts) (?x\<lparr>hits := hits ?x + int (length ts), lastaccess := last (lastaccess ?x # ts)\<rparr>) = Inr False"
    using W [OF assms(3,4)] assms(4) by (intro in_interval_alive) (auto simp: new_entry_def)
  with R assms(2,4) show ?thesis
    by (simp add: metadata_def ctab_def all_ok_def new_entry_def)
qed

theorem cache_idle_window_witness:
  "\<exists>st'. reads sqlite_ok ''OBJECT'' ''k'' [5, 9, 14] (snd (put sqlite_ok ''OBJECT'' ''k'' ''1'' 100 6 0 new_cache)) =
     Inr ([Some (cstr ''1''), Some (cstr ''1''), Some (cstr ''1'')], st')"
  using cache_idle_window [OF new_cache_ok sqlite_ok_simps(1), of 100 6 0 "[5, 9, 14]" "''OBJECT''" "''k''" "''1''"]
  by (auto simp: in_interval_def signed_fits_def)

end
