(* ===== verification/StructMap.thy ===== *)
theory StructMap
  imports StringOps ListFuns "HOL-Library.Word"
begin

section \<open>The payload of a struct value\<close>

text \<open>
  A struct owns a \<open>StructData\<close> (\<open>src/include/webstrada/cfvariant.h\<close>): a \<open>std::map\<close> from keys to values
  ordered by \<open>CiLess\<close>, the vector of keys in insertion order, and a generation counter. This theory
  models the payload and the operations on one struct: \<open>structSet\<close>, \<open>set\<close>, \<open>operator[]\<close>
  (\<open>src/cfvariant.cpp\<close>), the \<open>Struct*\<close> built-ins (\<open>src/cffunctions/fn_struct*.cpp\<close>), iteration by
  \<open>for (k in s)\<close> (\<open>src/core/core_eh.cpp\<close>) and the key order of \<open>SerializeJSON\<close>
  (\<open>src/cffunctions/common.cpp\<close>). Sharing of payloads between values is the subject of \<open>StructHeap\<close>.

  The map is the list of its entries in iteration order; values are a type parameter.
\<close>

subsection \<open>The ordered map\<close>

definition ciLess :: "bytes \<Rightarrow> bytes \<Rightarrow> bool" where
  "ciLess a b = (if a = [] then b \<noteq> [] else if b = [] then False else strcasecmp (cstr a) (cstr b) < 0)"

fun map_find :: "bytes \<Rightarrow> (bytes \<times> 'v) list \<Rightarrow> 'v option" where
  "map_find k [] = None"
| "map_find k ((k', v) # m) = (if ciLess k' k then map_find k m else if ciLess k k' then None else Some v)"

fun insert_or_assign :: "bytes \<Rightarrow> 'v \<Rightarrow> (bytes \<times> 'v) list \<Rightarrow> (bytes \<times> 'v) list" where
  "insert_or_assign k v [] = [(k, v)]"
| "insert_or_assign k v ((k', v') # m) =
     (if ciLess k' k then (k', v') # insert_or_assign k v m
      else if ciLess k k' then (k, v) # (k', v') # m else (k', v) # m)"

fun map_erase :: "bytes \<Rightarrow> (bytes \<times> 'v) list \<Rightarrow> (bytes \<times> 'v) list" where
  "map_erase k [] = []"
| "map_erase k ((k', v') # m) =
     (if ciLess k' k then (k', v') # map_erase k m else if ciLess k k' then (k', v') # m else m)"

definition map_contains :: "bytes \<Rightarrow> (bytes \<times> 'v) list \<Rightarrow> bool" where
  "map_contains k m = (map_find k m \<noteq> None)"

definition map_at :: "bytes \<Rightarrow> (bytes \<times> 'v) list \<Rightarrow> 'v res" where
  "map_at k m = (case map_find k m of None \<Rightarrow> Inl (Throw ''map::at'') | Some v \<Rightarrow> Inr v)"

subsection \<open>The payload and its primitive operations\<close>

record 'v struct_data =
  smap :: "(bytes \<times> 'v) list"
  insertOrder :: "bytes list"
  generation :: nat

definition new_struct :: "'v struct_data" where
  "new_struct = \<lparr>smap = [], insertOrder = [], generation = 0\<rparr>"

definition structSet :: "bytes \<Rightarrow> 'v \<Rightarrow> 'v struct_data \<Rightarrow> 'v struct_data" where
  "structSet k v s = (let fresh = \<not> map_contains k (smap s); s1 = s\<lparr>smap := insert_or_assign k v (smap s)\<rparr>
     in if fresh then s1\<lparr>insertOrder := insertOrder s1 @ [k]\<rparr> else s1)"

text \<open>
  \<open>set\<close> (both string overloads) makes the entry when it is missing, with the default value; the
  result is the entry's value. \<open>operator[]\<close> does so only on a variant that creates on access, and
  throws otherwise.
\<close>

definition variant_set :: "'v \<Rightarrow> bytes \<Rightarrow> 'v struct_data \<Rightarrow> ('v \<times> 'v struct_data) res" where
  "variant_set dflt k s = (let s1 = (if map_contains k (smap s) then s
       else s\<lparr>smap := insert_or_assign k dflt (smap s), insertOrder := insertOrder s @ [k]\<rparr>)
     in ebind (map_at k (smap s1)) (\<lambda>v. Inr (v, s1)))"

definition variant_index :: "bool \<Rightarrow> 'v \<Rightarrow> bytes \<Rightarrow> 'v struct_data \<Rightarrow> ('v \<times> 'v struct_data) res" where
  "variant_index autocreate dflt k s = (let s1 = (if autocreate \<and> \<not> map_contains k (smap s)
       then s\<lparr>smap := insert_or_assign k dflt (smap s), insertOrder := insertOrder s @ [k]\<rparr> else s)
     in ebind (map_at k (smap s1)) (\<lambda>v. Inr (v, s1)))"

definition struct_data_bump :: "'v struct_data \<Rightarrow> 'v struct_data" where
  "struct_data_bump s = s\<lparr>generation := generation s + 1\<rparr>"

definition structOrderedKeys :: "'v struct_data \<Rightarrow> bytes list" where
  "structOrderedKeys s = insertOrder s"

subsection \<open>The built-ins\<close>

text \<open>
  An argument is \<open>None\<close> when the caller passes a null pointer. The struct argument of a call is a
  struct (the code checks its type first and throws otherwise).
\<close>

definition upcase :: "bytes \<Rightarrow> bytes" where
  "upcase k = map to_upper k"

definition cf_structdelete :: "'v struct_data \<Rightarrow> bytes \<Rightarrow> bool option \<Rightarrow> bool \<times> 'v struct_data" where
  "cf_structdelete s key indicate = (let k = upcase key; existed = map_contains k (smap s);
       s1 = (if existed then (let b = struct_data_bump s in b\<lparr>smap := map_erase k (smap b)\<rparr>) else s);
       ind = (case indicate of None \<Rightarrow> False | Some b \<Rightarrow> b)
     in (if ind then existed else True, s1))"

definition cf_structclear :: "'v struct_data \<Rightarrow> bool \<times> 'v struct_data" where
  "cf_structclear s = (True, (struct_data_bump s)\<lparr>smap := []\<rparr>)"

definition cf_structinsert :: "'v struct_data \<Rightarrow> bytes \<Rightarrow> 'v \<Rightarrow> bool option \<Rightarrow> (bool \<times> 'v struct_data) res" where
  "cf_structinsert s k v allow = (let overwrite = (case allow of None \<Rightarrow> False | Some b \<Rightarrow> b)
     in if \<not> overwrite \<and> map_contains k (smap s)
        then Inl (Throw (''StructInsert: Key '' @ [CHR 0x27] @ k @ [CHR 0x27] @ '' already exists''))
        else Inr (True, structSet k v s))"

definition cf_structupdate :: "'v struct_data \<Rightarrow> bytes \<Rightarrow> 'v \<Rightarrow> (bool \<times> 'v struct_data) res" where
  "cf_structupdate s k v = (if \<not> map_contains k (smap s)
     then Inl (Throw (''StructUpdate: Key '' @ [CHR 0x27] @ k @ [CHR 0x27] @ '' does not exist''))
     else Inr (True, structSet k v s))"

definition cf_structfind :: "'v struct_data \<Rightarrow> bytes \<Rightarrow> 'v res" where
  "cf_structfind s key = (let k = upcase key in case map_find k (smap s) of
     None \<Rightarrow> Inl (Throw (''StructFind: Key '' @ [CHR 0x27] @ k @ [CHR 0x27] @ '' not found'')) | Some v \<Rightarrow> Inr v)"

definition cf_structkeyexists :: "'v struct_data \<Rightarrow> bytes \<Rightarrow> bool" where
  "cf_structkeyexists s k = map_contains k (smap s)"

definition cf_structcount :: "'v struct_data \<Rightarrow> int" where
  "cf_structcount s = int (length (smap s))"

definition cf_structisempty :: "'v struct_data \<Rightarrow> bool" where
  "cf_structisempty s = (smap s = [])"

fun key_list_loop :: "bytes \<Rightarrow> bool \<Rightarrow> bytes list \<Rightarrow> bytes \<Rightarrow> bytes" where
  "key_list_loop d first [] acc = acc"
| "key_list_loop d first (k # ks) acc = key_list_loop d False ks ((if first then acc else acc @ d) @ k)"

definition cf_structkeylist :: "'v struct_data \<Rightarrow> bytes option \<Rightarrow> bytes" where
  "cf_structkeylist s delim = key_list_loop (case delim of None \<Rightarrow> '','' | Some d \<Rightarrow> d) True (map fst (smap s)) []"

definition cf_structkeyarray :: "'v struct_data \<Rightarrow> bytes list" where
  "cf_structkeyarray s = map fst (smap s)"

definition cf_structvaluearray :: "'v struct_data \<Rightarrow> 'v list" where
  "cf_structvaluearray s = map snd (smap s)"

text \<open>\<open>StructAppend\<close> walks the source's insertion order and reads each key with \<open>at\<close>.\<close>

fun append_loop :: "bool \<Rightarrow> 'v struct_data \<Rightarrow> bytes list \<Rightarrow> 'v struct_data \<Rightarrow> 'v struct_data res" where
  "append_loop overwrite src [] dest = Inr dest"
| "append_loop overwrite src (k # ks) dest = ebind (map_at k (smap src)) (\<lambda>v.
     append_loop overwrite src ks
       (if overwrite \<or> \<not> map_contains k (smap dest) then structSet k v dest else dest))"

definition cf_structappend :: "'v struct_data \<Rightarrow> 'v struct_data \<Rightarrow> bool option \<Rightarrow> (bool \<times> 'v struct_data) res" where
  "cf_structappend dest src flag = ebind
     (append_loop (case flag of None \<Rightarrow> True | Some b \<Rightarrow> b) src (structOrderedKeys src) dest)
     (\<lambda>d. Inr (True, d))"

subsection \<open>Iteration\<close>

definition cfforInLength :: "'v struct_data \<Rightarrow> int" where
  "cfforInLength s = int (length (insertOrder s))"

definition cfforInItem :: "'v struct_data \<Rightarrow> int \<Rightarrow> bytes res" where
  "cfforInItem s index = (let keys = insertOrder s
     in if keys = [] \<or> index < 1 \<or> int (length keys) < index then Inl (Throw ''Struct index out of bounds'')
        else Inr (keys ! nat (index - 1)))"

text \<open>
  The callback built-ins take the keys once, then read each value with \<open>at\<close> from the struct as it is
  when its turn comes: a callback may have changed it. \<open>rd\<close> reads the struct from the program's state.
\<close>

fun each_loop :: "('s \<Rightarrow> 'v struct_data) \<Rightarrow> (bytes \<Rightarrow> 'v \<Rightarrow> 's \<Rightarrow> ('r \<times> 's) res) \<Rightarrow> bytes list \<Rightarrow> 's \<Rightarrow> 's res" where
  "each_loop rd cb [] s = Inr s"
| "each_loop rd cb (k # ks) s = ebind (map_at k (smap (rd s))) (\<lambda>v.
     ebind (cb k v s) (\<lambda>(r, s1). each_loop rd cb ks s1))"

definition cf_structeach ::
    "('s \<Rightarrow> 'v struct_data) \<Rightarrow> (bytes \<Rightarrow> 'v \<Rightarrow> 's \<Rightarrow> ('r \<times> 's) res) \<Rightarrow> 's \<Rightarrow> 's res" where
  "cf_structeach rd cb s = each_loop rd cb (structOrderedKeys (rd s)) s"

fun filter_loop ::
    "('s \<Rightarrow> 'v struct_data) \<Rightarrow> (bytes \<Rightarrow> 'v \<Rightarrow> 's \<Rightarrow> (bool \<times> 's) res) \<Rightarrow> bytes list \<Rightarrow> 'v struct_data \<Rightarrow> 's
     \<Rightarrow> ('v struct_data \<times> 's) res" where
  "filter_loop rd cb [] acc s = Inr (acc, s)"
| "filter_loop rd cb (k # ks) acc s = ebind (map_at k (smap (rd s))) (\<lambda>v.
     ebind (cb k v s) (\<lambda>(keep, s1). filter_loop rd cb ks (if keep then structSet k v acc else acc) s1))"

definition cf_structfilter ::
    "('s \<Rightarrow> 'v struct_data) \<Rightarrow> (bytes \<Rightarrow> 'v \<Rightarrow> 's \<Rightarrow> (bool \<times> 's) res) \<Rightarrow> 's \<Rightarrow> ('v struct_data \<times> 's) res" where
  "cf_structfilter rd cb s = filter_loop rd cb (structOrderedKeys (rd s)) new_struct s"

fun map_loop ::
    "('s \<Rightarrow> 'v struct_data) \<Rightarrow> (bytes \<Rightarrow> 'v \<Rightarrow> 's \<Rightarrow> ('w \<times> 's) res) \<Rightarrow> bytes list \<Rightarrow> 'w struct_data \<Rightarrow> 's
     \<Rightarrow> ('w struct_data \<times> 's) res" where
  "map_loop rd cb [] acc s = Inr (acc, s)"
| "map_loop rd cb (k # ks) acc s = ebind (map_at k (smap (rd s))) (\<lambda>v.
     ebind (cb k v s) (\<lambda>(w, s1). map_loop rd cb ks (structSet k w acc) s1))"

definition cf_structmap ::
    "('s \<Rightarrow> 'v struct_data) \<Rightarrow> (bytes \<Rightarrow> 'v \<Rightarrow> 's \<Rightarrow> ('w \<times> 's) res) \<Rightarrow> 's \<Rightarrow> ('w struct_data \<times> 's) res" where
  "cf_structmap rd cb s = map_loop rd cb (structOrderedKeys (rd s)) new_struct s"

fun reduce_loop ::
    "('s \<Rightarrow> 'v struct_data) \<Rightarrow> ('a \<Rightarrow> bytes \<Rightarrow> 'v \<Rightarrow> 's \<Rightarrow> ('a \<times> 's) res) \<Rightarrow> bytes list \<Rightarrow> 'a \<Rightarrow> 's
     \<Rightarrow> ('a \<times> 's) res" where
  "reduce_loop rd cb [] acc s = Inr (acc, s)"
| "reduce_loop rd cb (k # ks) acc s = ebind (map_at k (smap (rd s))) (\<lambda>v.
     ebind (cb acc k v s) (\<lambda>(acc1, s1). reduce_loop rd cb ks acc1 s1))"

definition cf_structreduce ::
    "('s \<Rightarrow> 'v struct_data) \<Rightarrow> ('a \<Rightarrow> bytes \<Rightarrow> 'v \<Rightarrow> 's \<Rightarrow> ('a \<times> 's) res) \<Rightarrow> 'a \<Rightarrow> 's \<Rightarrow> ('a \<times> 's) res" where
  "cf_structreduce rd cb init s = reduce_loop rd cb (structOrderedKeys (rd s)) init s"

text \<open>
  The sorted forms without a callback. \<open>StructSort\<close> compares values, reading both with \<open>at\<close>; a
  missing key throws. With one key nothing is compared. \<open>vless\<close> is the comparison of the sort type;
  descending order passes its negation, as \<open>ListSort\<close> does, so equal values compare both ways.
\<close>

definition sort_values :: "('v \<Rightarrow> 'v \<Rightarrow> bool) \<Rightarrow> bool \<Rightarrow> 'v struct_data \<Rightarrow> bytes \<Rightarrow> bytes \<Rightarrow> bool" where
  "sort_values vless asc s a b = (case (map_find a (smap s), map_find b (smap s)) of
     (Some va, Some vb) \<Rightarrow> if asc then vless va vb else \<not> vless va vb | _ \<Rightarrow> False)"

definition cf_structsort :: "('v \<Rightarrow> 'v \<Rightarrow> bool) \<Rightarrow> 'v struct_data \<Rightarrow> bytes option \<Rightarrow> bytes list res" where
  "cf_structsort vless s order = (let keys = structOrderedKeys s;
       asc = (case order of None \<Rightarrow> True | Some w \<Rightarrow> \<not> str_equals (upcase w) ''DESC'')
     in if 2 \<le> length keys \<and> \<not> list_all (\<lambda>k. map_contains k (smap s)) keys then Inl (Throw ''map::at'')
        else if both_ways (sort_values vless asc s) keys then Inl UB
        else Inr (stable_sort (sort_values vless asc s) keys))"

fun rebuild :: "'v struct_data \<Rightarrow> bytes list \<Rightarrow> 'v struct_data \<Rightarrow> 'v struct_data res" where
  "rebuild src [] acc = Inr acc"
| "rebuild src (k # ks) acc = ebind (map_at k (smap src)) (\<lambda>v. rebuild src ks (structSet k v acc))"

definition cf_structtosorted :: "'v struct_data \<Rightarrow> bytes option \<Rightarrow> 'v struct_data res" where
  "cf_structtosorted s order = (let
       asc = (case order of None \<Rightarrow> True | Some w \<Rightarrow> \<not> str_equals (upcase w) ''DESC'');
       lt = (\<lambda>a b. if asc then compareCaseInsensitive a b < 0 else 0 < compareCaseInsensitive a b)
     in rebuild s (stable_sort lt (structOrderedKeys s)) new_struct)"

subsection \<open>The key order of \<open>SerializeJSON\<close>\<close>

fun java_hash_loop :: "32 word \<Rightarrow> bytes \<Rightarrow> 32 word" where
  "java_hash_loop h [] = h"
| "java_hash_loop h (c # cs) = java_hash_loop (h * 31 + of_nat (of_char c)) cs"

definition javaStringHash :: "bytes \<Rightarrow> 32 word" where
  "javaStringHash s = java_hash_loop 0 (cstr s)"

definition javaHashMapBucket :: "bytes \<Rightarrow> 32 word \<Rightarrow> 32 word" where
  "javaHashMapBucket key cap = (let h = javaStringHash (map to_upper (cstr key)); h1 = xor h (drop_bit 16 h)
     in and h1 (cap - 1))"

text \<open>The capacity loop on the mathematical integers; the code's \<open>int\<close> holds it while \<open>size < 2 ^ 29\<close>.\<close>

function capacity_loop :: "nat \<Rightarrow> nat \<Rightarrow> nat" where
  "capacity_loop n cap = (if cap = 0 \<or> n \<le> cap * 3 div 4 then cap else capacity_loop n (cap * 2))"
  by pat_completeness auto

termination
  by (relation "measure (\<lambda>(n, cap). 2 * n - cap)") (auto simp: not_le)

declare capacity_loop.simps [simp del]

definition javaHashMapCapacity :: "nat \<Rightarrow> nat" where
  "javaHashMapCapacity n = capacity_loop n 16"

fun index_of :: "bytes list \<Rightarrow> bytes \<Rightarrow> nat option" where
  "index_of [] k = None"
| "index_of (x # xs) k = (if x \<noteq> [] \<and> cstr x = k then Some 0 else map_option Suc (index_of xs k))"

text \<open>
  A key without an entry in the order map ranks last (\<open>(size_t)-1\<close>). An empty key has no buffer, and
  building a \<open>std::string\<close> from a null pointer throws.
\<close>

definition json_less :: "'v struct_data \<Rightarrow> bytes \<Rightarrow> bytes \<Rightarrow> bool" where
  "json_less s a b = (let cap = of_nat (javaHashMapCapacity (length (smap s)));
       ba = javaHashMapBucket a cap; bb = javaHashMapBucket b cap;
       rank = (\<lambda>k. case index_of (insertOrder s) k of Some i \<Rightarrow> i | None \<Rightarrow> length (insertOrder s))
     in if ba \<noteq> bb then ba < bb
        else if rank a \<noteq> rank b then rank a < rank b
        else a < b)"

definition json_keys :: "'v struct_data \<Rightarrow> bytes list res" where
  "json_keys s = (if [] \<in> set (map fst (smap s)) then Inl (Throw ''basic_string: construction from null is not valid'')
     else Inr (stable_sort (json_less s) (map (cstr \<circ> fst) (smap s))))"


section \<open>The map of a payload\<close>

text \<open>
  \<open>CiLess\<close> is the order of \<open>key_of\<close>: ASCII case and everything from the first NUL are ignored. A
  payload stands for the map from such keys to values; its entries are strictly ascending.
\<close>

definition entry_map :: "(bytes \<times> 'v) list \<Rightarrow> (bytes option \<Rightarrow> 'v option)" where
  "entry_map m = map_of (map (\<lambda>(k, v). (key_of k, v)) m)"

definition map_ok :: "(bytes \<times> 'v) list \<Rightarrow> bool" where
  "map_ok m = sorted_wrt (\<lambda>p q. key_of (fst p) < key_of (fst q)) m"

definition order_ok :: "'v struct_data \<Rightarrow> bool" where
  "order_ok s \<longleftrightarrow> distinct (map key_of (insertOrder s)) \<and>
     set (map key_of (insertOrder s)) = dom (entry_map (smap s))"

lemma ciLess_iff [simp]: "ciLess a b \<longleftrightarrow> key_of a < key_of b"
  by (auto simp: ciLess_def key_of_def strcasecmp_lex)

lemma entry_map_simps [simp]:
  "entry_map [] = Map.empty"
  "entry_map ((k, v) # m) = (entry_map m)(key_of k \<mapsto> v)"
  by (auto simp: entry_map_def)

lemma map_ok_simps [simp]:
  "map_ok []"
  "map_ok ((k, v) # m) \<longleftrightarrow> (\<forall>p\<in>set m. key_of k < key_of (fst p)) \<and> map_ok m"
  by (auto simp: map_ok_def)

lemma entry_map_dom: "dom (entry_map m) = (key_of \<circ> fst) ` set m"
  by (force simp: entry_map_def dom_map_of_conv_image_fst)

lemma entry_map_below: "\<forall>p\<in>set m. a < key_of (fst p) \<Longrightarrow> entry_map m a = None"
  by (induction m) auto

lemma map_find_eq: "map_ok m \<Longrightarrow> map_find k m = entry_map m (key_of k)"
proof (induction k m rule: map_find.induct)
  case (2 k k' v m)
  show ?case
  proof (cases "key_of k < key_of k'")
    case True
    with 2 have "entry_map m (key_of k) = None"
      by (intro entry_map_below) (auto intro: order.strict_trans)
    with True show ?thesis by auto
  next
    case False
    with 2 show ?thesis by (cases "key_of k' < key_of k") auto
  qed
qed simp

lemma insert_or_assign_keys: "key_of ` fst ` set (insert_or_assign k v m) \<subseteq> insert (key_of k) (key_of ` fst ` set m)"
  by (induction k v m rule: insert_or_assign.induct) auto

lemma insert_or_assign_ok: "map_ok m \<Longrightarrow> map_ok (insert_or_assign k v m)"
proof (induction k v m rule: insert_or_assign.induct)
  case (2 k v k' v' m)
  have "key_of k' < key_of (fst p)" if "p \<in> set (insert_or_assign k v m)" "key_of k' < key_of k" for p
    using insert_or_assign_keys [of k v m] that 2(2) by fastforce
  with 2 show ?case by (auto intro: order.strict_trans)
qed simp

lemma insert_or_assign_map: "map_ok m \<Longrightarrow> entry_map (insert_or_assign k v m) = (entry_map m)(key_of k \<mapsto> v)"
proof (induction k v m rule: insert_or_assign.induct)
  case (2 k v k' v' m)
  then show ?case by (cases "key_of k' < key_of k"; cases "key_of k < key_of k'") (auto simp: fun_eq_iff)
qed simp

lemma map_erase_subset: "set (map_erase k m) \<subseteq> set m"
  by (induction k m rule: map_erase.induct) auto

lemma map_erase_ok: "map_ok m \<Longrightarrow> map_ok (map_erase k m)"
  by (induction k m rule: map_erase.induct) (auto dest: subsetD [OF map_erase_subset])

lemma map_erase_map: "map_ok m \<Longrightarrow> entry_map (map_erase k m) = (entry_map m)(key_of k := None)"
proof (induction k m rule: map_erase.induct)
  case (2 k k' v m)
  show ?case
  proof (cases "key_of k' < key_of k")
    case True
    with 2 show ?thesis by (auto simp: fun_eq_iff)
  next
    case False
    show ?thesis
    proof (cases "key_of k < key_of k'")
      case True
      with 2 have "entry_map ((k', v) # m) (key_of k) = None"
        by (intro entry_map_below) (auto intro: order.strict_trans)
      with True show ?thesis by (auto simp: fun_eq_iff)
    next
      case False
      with \<open>\<not> key_of k' < key_of k\<close> have "key_of k = key_of k'" by auto
      with 2 show ?thesis by (auto simp: entry_map_below fun_eq_iff)
    qed
  qed
qed simp

lemma map_contains_iff: "map_ok m \<Longrightarrow> map_contains k m \<longleftrightarrow> key_of k \<in> dom (entry_map m)"
  by (auto simp: map_contains_def map_find_eq)

lemma map_ok_distinct: "map_ok m \<Longrightarrow> distinct (map (key_of \<circ> fst) m)"
  by (induction m) (auto, metis less_irrefl fst_conv)

lemma map_ok_length: "map_ok m \<Longrightarrow> length m = card (dom (entry_map m))"
  using distinct_card [OF map_ok_distinct [of m]] by (simp add: entry_map_dom)

lemma to_upper_nul: "to_upper c = nul \<longleftrightarrow> c = nul"
proof (cases "is_lower c")
  case True
  then have "(of_char (to_upper c) :: nat) = of_char c - 32" "(97 :: nat) \<le> of_char c"
    by (auto simp: to_upper_def is_lower_def char_le_nat intro!: mod_less less_imp_diff_less)
  then have "(of_char (to_upper c) :: nat) \<noteq> 0" "(of_char c :: nat) \<noteq> 0" by linarith+
  then show ?thesis by (auto simp: nul_def)
qed (simp add: to_upper_def)

lemma to_lower_upper: "to_lower (to_upper c) = to_lower c"
  by (auto simp: to_upper_def to_lower_def is_lower_def is_upper_def char_le_nat)

lemma cstr_upcase: "cstr (upcase k) = map to_upper (cstr k)"
  by (induction k) (auto simp: cstr_def upcase_def to_upper_nul)

lemma key_of_upcase [simp]: "key_of (upcase k) = key_of k"
  by (simp add: key_of_def cstr_upcase to_lower_upper comp_def) (simp add: upcase_def)


section \<open>Refinement\<close>

text \<open>
  The operations that change one payload, as the code performs them, and what they do to the map: a
  failed \<open>StructInsert\<close> or \<open>StructUpdate\<close> leaves the struct as it was.
\<close>

datatype 'v struct_op = SSet bytes 'v | SInsert bytes 'v "bool option" | SUpdate bytes 'v
  | SDelete bytes "bool option" | SClear | SAccess bool 'v bytes

fun struct_step :: "'v struct_op \<Rightarrow> 'v struct_data \<Rightarrow> 'v struct_data" where
  "struct_step (SSet k v) s = structSet k v s"
| "struct_step (SInsert k v ow) s = (case cf_structinsert s k v ow of Inl e \<Rightarrow> s | Inr (b, s') \<Rightarrow> s')"
| "struct_step (SUpdate k v) s = (case cf_structupdate s k v of Inl e \<Rightarrow> s | Inr (b, s') \<Rightarrow> s')"
| "struct_step (SDelete k ind) s = snd (cf_structdelete s k ind)"
| "struct_step SClear s = snd (cf_structclear s)"
| "struct_step (SAccess create v k) s = (case variant_index create v k s of Inl e \<Rightarrow> s | Inr (w, s') \<Rightarrow> s')"

fun map_step :: "'v struct_op \<Rightarrow> (bytes option \<Rightarrow> 'v option) \<Rightarrow> (bytes option \<Rightarrow> 'v option)" where
  "map_step (SSet k v) m = m(key_of k \<mapsto> v)"
| "map_step (SInsert k v ow) m = (if key_of k \<in> dom m \<and> ow \<noteq> Some True then m else m(key_of k \<mapsto> v))"
| "map_step (SUpdate k v) m = (if key_of k \<in> dom m then m(key_of k \<mapsto> v) else m)"
| "map_step (SDelete k ind) m = m(key_of k := None)"
| "map_step SClear m = Map.empty"
| "map_step (SAccess create v k) m = (if create \<and> key_of k \<notin> dom m then m(key_of k \<mapsto> v) else m)"

definition run_struct :: "'v struct_op list \<Rightarrow> 'v struct_data \<Rightarrow> 'v struct_data" where
  "run_struct ops s = fold struct_step ops s"

lemma structSet_map: "map_ok (smap s) \<Longrightarrow> map_ok (smap (structSet k v s)) \<and>
    entry_map (smap (structSet k v s)) = (entry_map (smap s))(key_of k \<mapsto> v)"
  by (simp add: structSet_def Let_def insert_or_assign_ok insert_or_assign_map)

lemma variant_index_map: "map_ok (smap s) \<Longrightarrow> variant_index create v k s = Inr (w, s') \<Longrightarrow>
    map_ok (smap s') \<and> entry_map (smap s') = map_step (SAccess create v k) (entry_map (smap s))"
  by (auto simp: variant_index_def Let_def ebind_eq_Inr map_contains_iff insert_or_assign_ok
      insert_or_assign_map split: if_splits)

lemma variant_index_throws: "map_ok (smap s) \<Longrightarrow> variant_index create v k s = Inl e \<Longrightarrow>
    \<not> create"
  by (auto simp: variant_index_def Let_def ebind_eq_Inl map_at_def map_contains_iff map_find_eq
      insert_or_assign_ok insert_or_assign_map split: if_splits option.splits)

lemma struct_step_map:
  assumes "map_ok (smap s)"
  shows "map_ok (smap (struct_step x s)) \<and> entry_map (smap (struct_step x s)) = map_step x (entry_map (smap s))"
proof (cases x)
  case (SAccess create v k)
  show ?thesis
  proof (cases "variant_index create v k s")
    case (Inl e)
    with SAccess assms show ?thesis by (simp add: variant_index_throws [OF assms Inl])
  next
    case (Inr p)
    with SAccess assms show ?thesis by (cases p) (simp add: variant_index_map)
  qed
next
  case (SDelete k ind)
  then show ?thesis using assms
    by (auto simp: cf_structdelete_def Let_def struct_data_bump_def map_erase_ok map_erase_map map_contains_iff
        fun_eq_iff)
qed (use assms in \<open>auto simp: structSet_map [OF assms] cf_structinsert_def cf_structupdate_def cf_structclear_def
      Let_def map_contains_iff struct_data_bump_def split: option.splits\<close>)

lemma run_struct_map:
  "map_ok (smap s) \<Longrightarrow> map_ok (smap (run_struct ops s)) \<and>
   entry_map (smap (run_struct ops s)) = fold map_step ops (entry_map (smap s))"
  by (induction ops arbitrary: s) (simp_all add: run_struct_def struct_step_map)

lemma new_struct_ok [simp]: "map_ok (smap new_struct)" "entry_map (smap new_struct) = Map.empty" "order_ok new_struct"
  by (simp_all add: new_struct_def order_ok_def)

subsection \<open>Insertion order\<close>

definition keeps_keys :: "'v struct_op \<Rightarrow> bool" where
  "keeps_keys x = (case x of SDelete k ind \<Rightarrow> False | SClear \<Rightarrow> False | _ \<Rightarrow> True)"

lemma structSet_order: "map_ok (smap s) \<Longrightarrow> order_ok s \<Longrightarrow> order_ok (structSet k v s)"
  by (auto simp: order_ok_def structSet_def Let_def map_contains_iff insert_or_assign_map)

lemma variant_index_structSet: "variant_index create v k s = Inr (w, s') \<Longrightarrow> s' = s \<or> s' = structSet k v s"
  by (auto simp: variant_index_def structSet_def Let_def ebind_eq_Inr split: if_splits)

lemma variant_index_order: "map_ok (smap s) \<Longrightarrow> order_ok s \<Longrightarrow> variant_index create v k s = Inr (w, s') \<Longrightarrow> order_ok s'"
  by (auto simp: structSet_order dest: variant_index_structSet)

lemma struct_step_order: "map_ok (smap s) \<Longrightarrow> order_ok s \<Longrightarrow> keeps_keys x \<Longrightarrow> order_ok (struct_step x s)"
  by (cases x) (auto simp: structSet_order keeps_keys_def cf_structinsert_def cf_structupdate_def Let_def
      split: sum.splits intro: variant_index_order)

lemma run_struct_order:
  "map_ok (smap s) \<Longrightarrow> order_ok s \<Longrightarrow> list_all keeps_keys ops \<Longrightarrow> order_ok (run_struct ops s)"
  by (induction ops arbitrary: s) (simp_all add: run_struct_def struct_step_order struct_step_map)

lemma rebuild_throws: "k \<in> set ks \<Longrightarrow> \<not> map_contains k (smap src) \<Longrightarrow> rebuild src ks acc = Inl (Throw ''map::at'')"
  by (induction ks arbitrary: acc) (auto simp: map_at_def map_contains_def split: option.splits)

lemma append_loop_throws:
  "k \<in> set ks \<Longrightarrow> \<not> map_contains k (smap src) \<Longrightarrow> append_loop ow src ks dest = Inl (Throw ''map::at'')"
  by (induction ks arbitrary: dest) (auto simp: map_at_def map_contains_def split: option.splits)

lemma order_count:
  assumes "map_ok (smap s)" "order_ok s"
  shows "cfforInLength s = cf_structcount s"
proof -
  have "length (insertOrder s) = card (set (map key_of (insertOrder s)))"
    using assms(2) by (metis distinct_card length_map order_ok_def)
  also have "\<dots> = length (smap s)" using assms by (simp add: order_ok_def map_ok_length del: set_map)
  finally show ?thesis by (simp add: cfforInLength_def cf_structcount_def)
qed

lemma forIn_nth: "i < length (insertOrder s) \<Longrightarrow> cfforInItem s (int i + 1) = Inr (insertOrder s ! i)"
  by (auto simp: cfforInItem_def Let_def)

lemma forIn_Inr: "cfforInItem s i = Inr k \<Longrightarrow> 1 \<le> i \<and> nat (i - 1) < length (insertOrder s) \<and> k = insertOrder s ! nat (i - 1)"
  by (auto simp: cfforInItem_def Let_def split: if_splits)

subsection \<open>The hash order\<close>

lemma capacity_loop_props:
  "0 < cap \<Longrightarrow> cap dvd capacity_loop n cap \<and> n \<le> capacity_loop n cap * 3 div 4 \<and>
     (\<exists>i. capacity_loop n cap = cap * 2 ^ i) \<and>
     (capacity_loop n cap = cap \<or> capacity_loop n cap div 2 * 3 div 4 < n)"
proof (induction n cap rule: capacity_loop.induct)
  case (1 n cap)
  show ?case
  proof (cases "n \<le> cap * 3 div 4")
    case True
    have "\<exists>i. cap = cap * 2 ^ i" by (rule exI [of _ 0]) simp
    with True show ?thesis by (subst (1 2 3 4 5) capacity_loop.simps) simp
  next
    case False
    with 1 obtain i where ih: "n \<le> capacity_loop n (cap * 2) * 3 div 4" "capacity_loop n (cap * 2) = cap * 2 * 2 ^ i"
       "capacity_loop n (cap * 2) = cap * 2 \<or> capacity_loop n (cap * 2) div 2 * 3 div 4 < n" by auto
    have "capacity_loop n cap = capacity_loop n (cap * 2)"
      using False "1.prems" by (subst capacity_loop.simps) simp
    moreover have "capacity_loop n (cap * 2) = cap * 2 ^ Suc i" using ih(2) by simp
    ultimately show ?thesis using ih False by (auto intro!: exI [of _ "Suc i"])
  qed
qed

lemma json_less_sw: "strict_weak (json_less s)"
  by unfold_locales (auto simp: json_less_def Let_def split: if_splits)

section \<open>Properties\<close>

text \<open>C14: A struct is a map from case-insensitive keys: after any sequence of \<open>structSet\<close>, \<open>StructInsert\<close>,
  \<open>StructUpdate\<close>, \<open>StructDelete\<close>, \<open>StructClear\<close> and \<open>operator[]\<close>, lookups, \<open>StructKeyExists\<close>,
  \<open>StructFind\<close> and \<open>StructCount\<close> answer as the map does, and \<open>StructKeyArray\<close> lists exactly its keys
  in strictly ascending order.\<close>

theorem struct_refines_map:
  fixes ops :: "'v struct_op list"
  defines "s \<equiv> run_struct ops new_struct" and "m \<equiv> fold map_step ops Map.empty"
  shows "map_find k (smap s) = m (key_of k) \<and> (cf_structkeyexists s k \<longleftrightarrow> key_of k \<in> dom m) \<and>
    (\<forall>v. cf_structfind s k = Inr v \<longleftrightarrow> m (key_of k) = Some v) \<and>
    cf_structcount s = int (card (dom m)) \<and> key_of ` set (cf_structkeyarray s) = dom m \<and>
    sorted_wrt (\<lambda>a b. key_of a < key_of b) (cf_structkeyarray s)"
proof -
  have ok: "map_ok (smap s)" and m: "entry_map (smap s) = m"
    using run_struct_map [of new_struct ops] by (simp_all add: s_def m_def)
  have "sorted_wrt (\<lambda>a b. key_of a < key_of b) (cf_structkeyarray s)"
    using ok by (simp add: map_ok_def cf_structkeyarray_def sorted_wrt_map)
  moreover have "key_of ` set (cf_structkeyarray s) = dom m"
    by (simp add: cf_structkeyarray_def m [symmetric] entry_map_dom image_comp)
  ultimately show ?thesis
    using map_ok_length [OF ok] map_contains_iff [OF ok, of k]
    by (simp add: m map_find_eq [OF ok] cf_structkeyexists_def cf_structfind_def cf_structcount_def Let_def
        split: option.splits)
qed

text \<open>C35: \<open>for (k in s)\<close> on a struct built without \<open>StructDelete\<close> and \<open>StructClear\<close> runs once per key: as
  many rounds as keys, and for each key exactly one round yields it.\<close>

theorem for_in_each_key_once:
  assumes "list_all keeps_keys ops" "s = run_struct ops new_struct"
  shows "cfforInLength s = cf_structcount s \<and>
    (cf_structkeyexists s k \<longrightarrow> (\<exists>!i. \<exists>k'. cfforInItem s i = Inr k' \<and> key_of k' = key_of k)) \<and>
    (\<forall>i k'. cfforInItem s i = Inr k' \<longrightarrow> cf_structkeyexists s k')"
proof -
  have ok: "map_ok (smap s)" and ord: "order_ok s"
    using assms run_struct_map [of new_struct ops] run_struct_order [of new_struct ops] by simp_all
  let ?ks = "insertOrder s"
  have "\<exists>!i. \<exists>k'. cfforInItem s i = Inr k' \<and> key_of k' = key_of k" if "cf_structkeyexists s k"
  proof -
    have "key_of k \<in> set (map key_of ?ks)"
      using that ok ord by (simp add: cf_structkeyexists_def map_contains_iff order_ok_def)
    then obtain n where n: "n < length ?ks" "key_of (?ks ! n) = key_of k" by (auto simp: in_set_conv_nth)
    show ?thesis
    proof (rule ex1I)
      show "\<exists>k'. cfforInItem s (int n + 1) = Inr k' \<and> key_of k' = key_of k" using n by (simp add: forIn_nth)
      fix i assume "\<exists>k'. cfforInItem s i = Inr k' \<and> key_of k' = key_of k"
      then have i: "1 \<le> i" "nat (i - 1) < length ?ks" "key_of (?ks ! nat (i - 1)) = key_of (?ks ! n)"
        using n by (auto dest: forIn_Inr)
      then have "nat (i - 1) = n"
        using n(1) ord nth_eq_iff_index_eq [of "map key_of ?ks" "nat (i - 1)" n] by (simp add: order_ok_def)
      with i show "i = int n + 1" by simp
    qed
  qed
  moreover have "cf_structkeyexists s k'" if "cfforInItem s i = Inr k'" for i k'
  proof -
    have "key_of k' \<in> set (map key_of ?ks)" using forIn_Inr [OF that] by simp
    with ok ord show ?thesis by (simp add: cf_structkeyexists_def map_contains_iff order_ok_def del: set_map)
  qed
  ultimately show ?thesis using order_count [OF ok ord] by blast
qed

theorem for_in_each_key_once_witness:
  "cfforInLength (run_struct [SSet ''b'' (1 :: nat), SSet ''A'' 2, SSet ''B'' 3] new_struct) = 2"
  using for_in_each_key_once [of "[SSet ''b'' (1 :: nat), SSet ''A'' 2, SSet ''B'' 3]", OF _ refl]
  by (simp add: keeps_keys_def run_struct_def cf_structcount_def structSet_def new_struct_def map_contains_def
      ciLess_def cstr_def nul_def to_lower_def is_upper_def less_eq_char_def less_char_def char_of_def bit_0 del: ciLess_iff)

text \<open>\<open>StructDelete\<close> does not take the key out of the insertion order: \<open>for (k in s)\<close> still yields the
  deleted key, \<open>StructToSorted\<close> and \<open>StructAppend\<close> from the struct throw, \<open>StructSort\<close> throws when two
  keys were ever inserted, and after the key is set again \<open>for\<close> runs one round too many.\<close>

theorem struct_delete_stale_order:
  assumes "list_all keeps_keys ops" "s = run_struct ops new_struct" "cf_structkeyexists s k"
    "s' = snd (cf_structdelete s k ind)"
  shows "(\<exists>i k'. cfforInItem s' i = Inr k' \<and> key_of k' = key_of k) \<and> \<not> cf_structkeyexists s' k \<and>
    cfforInLength s' = cf_structcount s' + 1 \<and>
    cf_structtosorted s' ord = Inl (Throw ''map::at'') \<and>
    cf_structappend d s' flag = Inl (Throw ''map::at'') \<and>
    (2 \<le> cfforInLength s' \<longrightarrow> cf_structsort vless s' ord = Inl (Throw ''map::at'')) \<and>
    cfforInLength (structSet k v s') = cf_structcount (structSet k v s') + 1"
proof -
  have ok: "map_ok (smap s)" and ord: "order_ok s"
    using assms run_struct_map [of new_struct ops] run_struct_order [of new_struct ops] by simp_all
  have "map_contains (upcase k) (smap s)"
    using assms(3) ok by (simp add: cf_structkeyexists_def map_contains_iff)
  then have s': "s' = s\<lparr>generation := generation s + 1, smap := map_erase (upcase k) (smap s)\<rparr>"
    by (simp add: assms(4) cf_structdelete_def Let_def struct_data_bump_def)
  have ok': "map_ok (smap s')" and m': "entry_map (smap s') = (entry_map (smap s))(key_of k := None)"
    using ok by (simp_all add: s' map_erase_ok map_erase_map)
  have gone: "\<not> map_contains k' (smap s')" if "key_of k' = key_of k" for k'
    using that ok' by (simp add: map_contains_iff m')
  have "key_of k \<in> set (map key_of (insertOrder s))"
    using assms(3) ok ord by (simp add: cf_structkeyexists_def map_contains_iff order_ok_def del: set_map)
  then obtain n where n: "n < length (insertOrder s)" "key_of (insertOrder s ! n) = key_of k"
    by (auto simp: in_set_conv_nth)
  let ?k = "insertOrder s ! n"
  have k: "?k \<in> set (insertOrder s')" "\<not> map_contains ?k (smap s')" using n gone by (simp_all add: s')
  have it: "cfforInItem s' (int n + 1) = Inr ?k" using n by (subst forIn_nth) (simp_all add: s')
  have dom: "key_of k \<in> dom (entry_map (smap s))" using assms(3) ok by (simp add: cf_structkeyexists_def map_contains_iff)
  have fin: "finite (dom (entry_map (smap s)))" by (simp add: entry_map_dom)
  have c': "cf_structcount s' = cf_structcount s - 1"
    using dom fin by (simp add: cf_structcount_def map_ok_length [OF ok] map_ok_length [OF ok'] m'
        card_Diff_singleton of_nat_diff card_gt_0_iff Suc_le_eq) (metis card_gt_0_iff domI empty_iff of_nat_diff Suc_leI of_nat_1 One_nat_def)
  have ins: "insertOrder s' = insertOrder s" by (simp add: s')
  have n': "cfforInLength s' = cf_structcount s' + 1"
    using order_count [OF ok ord] by (simp add: c' cfforInLength_def ins)
  have again: "cf_structcount (structSet k v s') = cf_structcount s' + 1 \<and> cfforInLength (structSet k v s') = cfforInLength s' + 1"
  proof -
    have "finite (dom (entry_map (smap s')))" "key_of k \<notin> dom (entry_map (smap s'))" using fin by (simp_all add: m')
    with structSet_map [OF ok', of k v] show ?thesis
      using gone [OF refl] by (simp add: cf_structcount_def map_ok_length [OF ok'] map_ok_length)
        (simp add: cfforInLength_def structSet_def Let_def)
  qed
  have "cf_structtosorted s' ord = Inl (Throw ''map::at'')"
    using k by (auto simp: cf_structtosorted_def Let_def structOrderedKeys_def intro!: rebuild_throws [of ?k]
        simp del: set_mset_mset simp: set_mset_mset [symmetric] stable_sort_mset)
  moreover have "cf_structappend d s' flag = Inl (Throw ''map::at'')"
    using append_loop_throws [OF k] by (simp add: cf_structappend_def structOrderedKeys_def)
  moreover have "cf_structsort vless s' ord = Inl (Throw ''map::at'')" if "2 \<le> cfforInLength s'"
    using k that by (auto simp: cf_structsort_def Let_def structOrderedKeys_def cfforInLength_def list_all_iff)
  ultimately show ?thesis using it n(2) gone [OF refl] n' again by (auto simp: cf_structkeyexists_def)
qed

theorem struct_delete_stale_order_witness:
  "cf_structsort (\<lambda>a b :: nat. a < b) (snd (cf_structdelete
     (run_struct [SSet ''a'' 1, SSet ''b'' 2] new_struct) ''A'' None)) None = Inl (Throw ''map::at'')"
proof -
  let ?ops = "[SSet ''a'' (1 :: nat), SSet ''b'' 2]"
  have "cf_structkeyexists (run_struct ?ops new_struct) ''A''"
    "2 \<le> cfforInLength (snd (cf_structdelete (run_struct ?ops new_struct) ''A'' None))"
    by code_simp+
  then show ?thesis
    using struct_delete_stale_order [of ?ops "run_struct ?ops new_struct" "''A''"
        "snd (cf_structdelete (run_struct ?ops new_struct) ''A'' None)" None None]
    by (simp add: keeps_keys_def)
qed

text \<open>\<open>SerializeJSON\<close> writes the keys of a struct in the order of a Java hash map with the smallest
  capacity, a power of two from 16 up, that holds them at three quarters: each key's bucket lies
  below the capacity, and the keys are a permutation of the map's, sorted by bucket, then by
  insertion.\<close>

theorem json_key_order:
  fixes s :: "'v struct_data"
  defines "cap \<equiv> javaHashMapCapacity (length (smap s))"
  shows "(\<exists>i. cap = 16 * 2 ^ i) \<and> length (smap s) \<le> cap * 3 div 4 \<and>
    (cap = 16 \<or> cap div 2 * 3 div 4 < length (smap s)) \<and>
    (cap < 2 ^ 32 \<longrightarrow> unat (javaHashMapBucket k (of_nat cap)) < cap) \<and>
    (\<forall>ks. json_keys s = Inr ks \<longrightarrow> mset ks = mset (map (cstr \<circ> fst) (smap s)) \<and> sorted_lt (json_less s) ks)"
proof -
  have cap: "(\<exists>i. cap = 16 * 2 ^ i) \<and> length (smap s) \<le> cap * 3 div 4 \<and>
      (cap = 16 \<or> cap div 2 * 3 div 4 < length (smap s))"
    unfolding cap_def javaHashMapCapacity_def using capacity_loop_props [of 16 "length (smap s)"] by simp
  have "unat (javaHashMapBucket k (of_nat cap)) < cap" if "cap < 2 ^ 32"
  proof -
    have "0 < cap" using cap by auto
    then have "of_nat cap - 1 = (of_nat (cap - 1) :: 32 word)" by simp
    then have "unat (of_nat cap - 1 :: 32 word) = cap - 1"
      using that by (simp only: unat_of_nat) (simp add: take_bit_nat_eq_self)
    moreover have "javaHashMapBucket k (of_nat cap) \<le> of_nat cap - 1"
      by (simp add: javaHashMapBucket_def Let_def word_and_le1)
    ultimately show ?thesis using \<open>0 < cap\<close> by (simp add: word_le_nat_alt)
  qed
  moreover have "mset ks = mset (map (cstr \<circ> fst) (smap s)) \<and> sorted_lt (json_less s) ks" if "json_keys s = Inr ks" for ks
    using that strict_weak.stable_sort_sorted [OF json_less_sw]
    by (auto simp: json_keys_def stable_sort_mset split: if_splits)
  ultimately show ?thesis using cap by blast
qed

theorem json_key_order_witness:
  "unat (javaHashMapBucket ''name'' (of_nat (javaHashMapCapacity (length (smap (new_struct :: nat struct_data)))))) < 16"
proof -
  have "javaHashMapCapacity (length (smap (new_struct :: nat struct_data))) = 16" by code_simp
  then show ?thesis using json_key_order [of "new_struct :: nat struct_data" "''name''"] by simp
qed

end
