(* ===== verification/StructHeap.thy ===== *)
theory StructHeap
  imports StructMap "HOL-Library.Multiset"
begin

section \<open>Shared struct payloads and the cycle collector\<close>

text \<open>
  Struct values are references: every copy of a \<open>cfvariant\<close> of type Struct holds the same
  \<open>StructData\<close>, which counts its references. Reference counting alone never frees a cycle, so
  \<open>struct_data_release\<close> (\<open>src/cfvariant.cpp\<close>) runs \<open>tryCollectCycles\<close> from each payload whose count
  stays positive. This theory models the payloads as a heap, with the copy, assignment and
  destruction of variants, and the built-ins that change a shared struct.

  The heap is the list of all blocks ever allocated, \<open>None\<close> once freed; an address is never reused.
  Touching a freed block is \<open>UB\<close>. Arrays are held by value: the references in an array are those of
  its elements. Values of the other types hold no struct (queries, functions and component
  instances, which can, are outside this model).

  Destroying a \<open>std::map\<close> entry by entry (\<open>map.clear()\<close>) leaves the container unusable while the
  destructors of the values run: the model marks the payload \<open>busy\<close> and reading its map then is \<open>UB\<close>.
  The order in which a container destroys its elements is the order of its list here; in the code
  it depends on the shape of the tree. The results do not depend on it.
\<close>

subsection \<open>Values, payloads, heaps\<close>

datatype cval = Plain bytes | StructV nat | ArrayV "cval list"

record node =
  refs :: int
  payload :: "cval struct_data"
  meta :: "cval option"
  busy :: bool

type_synonym heap = "node option list"

definition deref :: "heap \<Rightarrow> nat \<Rightarrow> node option" where
  "deref h n = (if n < length h then h ! n else None)"

fun collectStructChildren :: "cval \<Rightarrow> nat list" where
  "collectStructChildren (Plain t) = []"
| "collectStructChildren (StructV n) = [n]"
| "collectStructChildren (ArrayV vs) = concat (map collectStructChildren vs)"

definition getStructDataChildren :: "node \<Rightarrow> nat list" where
  "getStructDataChildren nd = concat (map (\<lambda>p. collectStructChildren (snd p)) (smap (payload nd)))"

definition meta_children :: "node \<Rightarrow> nat list" where
  "meta_children nd = (case meta nd of None \<Rightarrow> [] | Some v \<Rightarrow> collectStructChildren v)"

subsection \<open>The two graph walks\<close>

text \<open>
  Both loops pop the back of a vector and push the children not seen before; the list's head is the
  vector's back. The result is the set of nodes seen, in the order they were inserted, and the nodes
  processed. Each round processes another block, so as many rounds as blocks suffice.
\<close>

fun push_unseen :: "nat list \<Rightarrow> nat list \<times> nat list \<Rightarrow> nat list \<times> nat list" where
  "push_unseen [] (work, seen) = (work, seen)"
| "push_unseen (c # cs) (work, seen) =
     push_unseen cs (if c \<in> set seen then (work, seen) else (c # work, seen @ [c]))"

fun walk :: "nat \<Rightarrow> heap \<Rightarrow> nat list \<Rightarrow> nat list \<Rightarrow> nat list \<Rightarrow> (nat list \<times> nat list) res" where
  "walk f h [] seen nodes = Inr (seen, nodes)"
| "walk 0 h (c # work) seen nodes = Inl (Throw ''out of fuel'')"
| "walk (Suc f) h (c # work) seen nodes = (case deref h c of None \<Rightarrow> Inl UB
   | Some nd \<Rightarrow> if busy nd then Inl UB
       else (let (work', seen') = push_unseen (getStructDataChildren nd) (work, seen)
             in walk f h work' seen' (nodes @ [c])))"

subsection \<open>Releasing references\<close>

text \<open>
  \<open>drop_refs\<close> is \<open>struct_data_release\<close> on each reference of a list, with the recursion through the
  destructors as an explicit stack: deleting a block puts the references of its metadata and of its
  map in front. \<open>collect\<close> is what \<open>tryCollectCycles\<close> does at that moment: the collector, or nothing
  while \<open>in_cycle_collection\<close> is set. Every round uses up one reference count.
\<close>

definition total_refs :: "heap \<Rightarrow> nat" where
  "total_refs h = sum_list (map (\<lambda>b. case b of None \<Rightarrow> 0 | Some nd \<Rightarrow> nat (refs nd)) h)"

fun drop_refs :: "(heap \<Rightarrow> nat \<Rightarrow> heap res) \<Rightarrow> nat \<Rightarrow> heap \<Rightarrow> nat list \<Rightarrow> heap res" where
  "drop_refs collect f h [] = Inr h"
| "drop_refs collect 0 h (n # ns) = Inl (Throw ''out of fuel'')"
| "drop_refs collect (Suc f) h (n # ns) = (case deref h n of None \<Rightarrow> Inl UB
   | Some nd \<Rightarrow> (let r = refs nd - 1 in
       if r \<le> 0 then drop_refs collect f (h[n := None]) (meta_children nd @ getStructDataChildren nd @ ns)
       else ebind (collect (h[n := Some (nd\<lparr>refs := r\<rparr>)]) n) (\<lambda>h'. drop_refs collect f h' ns)))"

definition release_refs :: "(heap \<Rightarrow> nat \<Rightarrow> heap res) \<Rightarrow> heap \<Rightarrow> nat list \<Rightarrow> heap res" where
  "release_refs collect h ns = drop_refs collect (total_refs h) h ns"

text \<open>
  \<open>map.clear()\<close>, followed by the insertion order when the collector empties a dead block. While the
  values are destroyed the map must not be looked at; what it still holds does not matter.
\<close>

definition clear_map :: "(heap \<Rightarrow> nat \<Rightarrow> heap res) \<Rightarrow> bool \<Rightarrow> heap \<Rightarrow> nat \<Rightarrow> heap res" where
  "clear_map collect also_order h n = (case deref h n of None \<Rightarrow> Inl UB | Some nd \<Rightarrow>
     if busy nd then Inl UB else
     ebind (release_refs collect (h[n := Some (nd\<lparr>payload := (payload nd)\<lparr>smap := []\<rparr>, busy := True\<rparr>)]) (getStructDataChildren nd))
       (\<lambda>h1. case deref h1 n of None \<Rightarrow> Inl UB | Some nd1 \<Rightarrow>
         let p = (if also_order then (payload nd1)\<lparr>insertOrder := []\<rparr> else payload nd1)
         in Inr (h1[n := Some (nd1\<lparr>payload := p, busy := False\<rparr>)])))"

subsection \<open>The collector\<close>

definition no_collect :: "heap \<Rightarrow> nat \<Rightarrow> heap res" where
  "no_collect h n = Inr h"

text \<open>The pending counts: the stored count less the references from the gathered nodes.\<close>

fun children_of :: "heap \<Rightarrow> nat list \<Rightarrow> nat list res" where
  "children_of h [] = Inr []"
| "children_of h (n # ns) = (case deref h n of None \<Rightarrow> Inl UB | Some nd \<Rightarrow>
     if busy nd then Inl UB else ebind (children_of h ns) (\<lambda>cs. Inr (getStructDataChildren nd @ cs)))"

definition refs_of :: "heap \<Rightarrow> nat \<Rightarrow> int" where
  "refs_of h n = (case deref h n of None \<Rightarrow> 0 | Some nd \<Rightarrow> refs nd)"

definition pending :: "heap \<Rightarrow> nat list \<Rightarrow> nat \<Rightarrow> int" where
  "pending h internal n = refs_of h n - int (count_list internal n)"

text \<open>\<open>dead->refs++\<close> and \<open>dead->refs--\<close>.\<close>

fun add_refs :: "int \<Rightarrow> heap \<Rightarrow> nat list \<Rightarrow> heap res" where
  "add_refs d h [] = Inr h"
| "add_refs d h (n # ns) = (case deref h n of None \<Rightarrow> Inl UB | Some nd \<Rightarrow>
     add_refs d (h[n := Some (nd\<lparr>refs := refs nd + d\<rparr>)]) ns)"

fun clear_all :: "heap \<Rightarrow> nat list \<Rightarrow> heap res" where
  "clear_all h [] = Inr h"
| "clear_all h (n # ns) = ebind (clear_map no_collect True h n) (\<lambda>h'. clear_all h' ns)"

fun delete_all :: "heap \<Rightarrow> nat list \<Rightarrow> heap res" where
  "delete_all h [] = Inr h"
| "delete_all h (n # ns) = (case deref h n of None \<Rightarrow> Inl UB | Some nd \<Rightarrow>
     if refs nd \<le> 0
     then ebind (release_refs no_collect (h[n := None]) (meta_children nd @ getStructDataChildren nd)) (\<lambda>h'. delete_all h' ns)
     else delete_all h ns)"

definition tryCollectCycles :: "heap \<Rightarrow> nat \<Rightarrow> heap res" where
  "tryCollectCycles h root = (case deref h root of None \<Rightarrow> Inl UB | Some rd \<Rightarrow>
     if refs rd \<le> 0 then Inr h else
     ebind (walk (Suc (length h)) h [root] [root] []) (\<lambda>(seen, nodes).
     ebind (children_of h nodes) (\<lambda>internal.
       let ext = filter (\<lambda>n. 0 < pending h internal n) nodes in
       ebind (walk (Suc (length h)) h (rev ext) ext []) (\<lambda>(alive, marked).
         let dead = filter (\<lambda>n. n \<notin> set alive) nodes in
         if dead = [] then Inr h else
         ebind (add_refs 1 h dead) (\<lambda>h1.
         ebind (clear_all h1 dead) (\<lambda>h2.
         ebind (add_refs (-1) h2 dead) (\<lambda>h3.
           delete_all h3 dead)))))))"

definition struct_data_release :: "heap \<Rightarrow> nat \<Rightarrow> heap res" where
  "struct_data_release h n = release_refs tryCollectCycles h [n]"

fun struct_data_retain :: "heap \<Rightarrow> nat list \<Rightarrow> heap res" where
  "struct_data_retain h [] = Inr h"
| "struct_data_retain h (n # ns) = (case deref h n of None \<Rightarrow> Inl UB | Some nd \<Rightarrow>
     struct_data_retain (h[n := Some (nd\<lparr>refs := refs nd + 1\<rparr>)]) ns)"

section \<open>Programs over variables\<close>

text \<open>
  The variables of a page hold values; an operation names variables by number and works as the code
  does: a copy retains (the copy constructor), an assignment copies, swaps and destroys the old value,
  \<open>erase\<close> unlinks the entry before its value is destroyed. On a missing key or a value of the wrong
  type the code throws before it changes anything: the step leaves the world as it is.
\<close>

record world =
  heap :: heap
  vars :: "cval list"

datatype heap_op =
    NewStruct nat                     \<comment> \<open>\<open>x = {}\<close>\<close>
  | CopyVar nat nat                   \<comment> \<open>\<open>x = y\<close>\<close>
  | MakeArray nat "nat list"          \<comment> \<open>\<open>x = [y, ...]\<close>\<close>
  | GetElem nat nat nat               \<comment> \<open>\<open>x = y[i]\<close>\<close>
  | GetKey nat nat bytes              \<comment> \<open>\<open>x = y.k\<close>\<close>
  | SetKey nat bytes nat              \<comment> \<open>\<open>x.k = y\<close>\<close>
  | AppendKey nat bytes nat           \<comment> \<open>\<open>ArrayAppend(x.k, y)\<close>\<close>
  | DeleteKey nat bytes               \<comment> \<open>\<open>StructDelete(x, k)\<close>\<close>
  | DropVar nat                       \<comment> \<open>the variable goes out of scope\<close>
  | ClearStruct nat "bytes list"      \<comment> \<open>\<open>StructClear(x.k. ...)\<close>\<close>
  | ClearArray nat "bytes list" bytes \<comment> \<open>\<open>ArrayClear(x. ... .k)\<close>\<close>

definition new_node :: node where
  "new_node = \<lparr>refs = 1, payload = new_struct, meta = None, busy = False\<rparr>"

definition copy_variant :: "heap \<Rightarrow> cval \<Rightarrow> heap res" where
  "copy_variant h v = struct_data_retain h (collectStructChildren v)"

definition destroy :: "heap \<Rightarrow> cval \<Rightarrow> heap res" where
  "destroy h v = release_refs tryCollectCycles h (collectStructChildren v)"

text \<open>Move assignment to a variable: the old value leaves with the temporary.\<close>

definition move_var :: "world \<Rightarrow> nat \<Rightarrow> cval \<Rightarrow> heap \<Rightarrow> world res" where
  "move_var w x v h = ebind (destroy h (vars w ! x)) (\<lambda>h'. Inr \<lparr>heap = h', vars = (vars w)[x := v]\<rparr>)"

definition copy_to_var :: "world \<Rightarrow> nat \<Rightarrow> cval \<Rightarrow> world res" where
  "copy_to_var w x v = ebind (copy_variant (heap w) v) (move_var w x v)"

definition set_payload :: "(cval struct_data \<Rightarrow> cval struct_data) \<Rightarrow> heap \<Rightarrow> nat \<Rightarrow> heap res" where
  "set_payload g h n = (case deref h n of None \<Rightarrow> Inl UB
     | Some nd \<Rightarrow> Inr (h[n := Some (nd\<lparr>payload := g (payload nd)\<rparr>)]))"

definition old_value :: "node \<Rightarrow> bytes \<Rightarrow> cval" where
  "old_value nd k = (case map_find k (smap (payload nd)) of None \<Rightarrow> Plain [] | Some v \<Rightarrow> v)"

definition assign_key :: "heap \<Rightarrow> nat \<Rightarrow> bytes \<Rightarrow> cval \<Rightarrow> heap res" where
  "assign_key h n k v = ebind (copy_variant h v) (\<lambda>h1. case deref h1 n of None \<Rightarrow> Inl UB | Some nd \<Rightarrow>
     ebind (set_payload (structSet k v) h1 n) (\<lambda>h2. destroy h2 (old_value nd k)))"

definition append_key :: "heap \<Rightarrow> nat \<Rightarrow> bytes \<Rightarrow> cval list \<Rightarrow> cval \<Rightarrow> heap res" where
  "append_key h n k vs v = ebind (copy_variant h v) (\<lambda>h1.
     set_payload (\<lambda>p. p\<lparr>smap := insert_or_assign k (ArrayV (vs @ [v])) (smap p)\<rparr>) h1 n)"

definition delete_key :: "heap \<Rightarrow> nat \<Rightarrow> bytes \<Rightarrow> heap res" where
  "delete_key h n k = (case deref h n of None \<Rightarrow> Inl UB | Some nd \<Rightarrow>
     ebind (set_payload (\<lambda>p. snd (cf_structdelete p k None)) h n) (\<lambda>h1. destroy h1 (old_value nd k)))"

text \<open>
  \<open>ArrayClear\<close> destroys the elements in place, one after another: a destroyed element is not set, the
  rest of the array is still there, and so is the element whose destructor is running.
\<close>

fun clear_elems :: "heap \<Rightarrow> nat \<Rightarrow> bytes \<Rightarrow> nat \<Rightarrow> cval list \<Rightarrow> heap res" where
  "clear_elems h n k i [] = set_payload (\<lambda>p. p\<lparr>smap := insert_or_assign k (ArrayV []) (smap p)\<rparr>) h n"
| "clear_elems h n k i (v # vs) =
     ebind (set_payload (\<lambda>p. p\<lparr>smap := insert_or_assign k (ArrayV (replicate i (Plain []) @ v # vs)) (smap p)\<rparr>) h n)
       (\<lambda>h1. ebind (destroy h1 v) (\<lambda>h2. clear_elems h2 n k (Suc i) vs))"

fun follow :: "heap \<Rightarrow> cval \<Rightarrow> bytes list \<Rightarrow> nat option" where
  "follow h (StructV n) [] = (if deref h n = None then None else Some n)"
| "follow h (StructV n) (k # ks) = (case deref h n of None \<Rightarrow> None
     | Some nd \<Rightarrow> (case map_find k (smap (payload nd)) of None \<Rightarrow> None | Some v \<Rightarrow> follow h v ks))"
| "follow h v ks = None"

definition var_ok :: "world \<Rightarrow> nat \<Rightarrow> bool" where
  "var_ok w x \<longleftrightarrow> x < length (vars w)"

definition field_of :: "world \<Rightarrow> nat \<Rightarrow> bytes \<Rightarrow> cval option" where
  "field_of w x k = (case vars w ! x of StructV n \<Rightarrow>
     (case deref (heap w) n of None \<Rightarrow> None | Some nd \<Rightarrow> map_find k (smap (payload nd))) | _ \<Rightarrow> None)"

definition with_heap :: "world \<Rightarrow> heap res \<Rightarrow> world res" where
  "with_heap w r = ebind r (\<lambda>h. Inr (w\<lparr>heap := h\<rparr>))"

fun heap_step :: "heap_op \<Rightarrow> world \<Rightarrow> world res" where
  "heap_step (NewStruct x) w = (if \<not> var_ok w x then Inr w
     else move_var w x (StructV (length (heap w))) (heap w @ [Some new_node]))"
| "heap_step (CopyVar x y) w = (if \<not> var_ok w x \<or> \<not> var_ok w y then Inr w else copy_to_var w x (vars w ! y))"
| "heap_step (MakeArray x ys) w = (if \<not> var_ok w x \<or> \<not> list_all (var_ok w) ys then Inr w
     else copy_to_var w x (ArrayV (map (\<lambda>y. vars w ! y) ys)))"
| "heap_step (GetElem x y i) w = (if \<not> var_ok w x \<or> \<not> var_ok w y then Inr w else
     (case vars w ! y of ArrayV vs \<Rightarrow> if i < length vs then copy_to_var w x (vs ! i) else Inr w | _ \<Rightarrow> Inr w))"
| "heap_step (GetKey x y k) w = (if \<not> var_ok w x \<or> \<not> var_ok w y then Inr w else
     (case field_of w y k of Some v \<Rightarrow> copy_to_var w x v | None \<Rightarrow> Inr w))"
| "heap_step (SetKey x k y) w = (if \<not> var_ok w x \<or> \<not> var_ok w y then Inr w else
     (case vars w ! x of StructV n \<Rightarrow> with_heap w (assign_key (heap w) n k (vars w ! y)) | _ \<Rightarrow> Inr w))"
| "heap_step (AppendKey x k y) w = (if \<not> var_ok w x \<or> \<not> var_ok w y then Inr w else
     (case (vars w ! x, field_of w x k) of
        (StructV n, Some (ArrayV vs)) \<Rightarrow> with_heap w (append_key (heap w) n k vs (vars w ! y)) | _ \<Rightarrow> Inr w))"
| "heap_step (DeleteKey x k) w = (if \<not> var_ok w x then Inr w else
     (case vars w ! x of StructV n \<Rightarrow> with_heap w (delete_key (heap w) n k) | _ \<Rightarrow> Inr w))"
| "heap_step (DropVar x) w = (if \<not> var_ok w x then Inr w else move_var w x (Plain []) (heap w))"
| "heap_step (ClearStruct x ks) w = (if \<not> var_ok w x then Inr w else
     (case follow (heap w) (vars w ! x) ks of None \<Rightarrow> Inr w
      | Some n \<Rightarrow> with_heap w (ebind (set_payload struct_data_bump (heap w) n) (\<lambda>h. clear_map tryCollectCycles False h n))))"
| "heap_step (ClearArray x ks k) w = (if \<not> var_ok w x then Inr w else
     (case follow (heap w) (vars w ! x) ks of None \<Rightarrow> Inr w
      | Some n \<Rightarrow> (case deref (heap w) n of None \<Rightarrow> Inl UB | Some nd \<Rightarrow>
          (case old_value nd k of ArrayV vs \<Rightarrow> with_heap w (clear_elems (heap w) n k 0 vs) | _ \<Rightarrow> Inr w))))"

fun run_heap :: "heap_op list \<Rightarrow> world \<Rightarrow> world res" where
  "run_heap [] w = Inr w"
| "run_heap (x # xs) w = ebind (heap_step x w) (run_heap xs)"

definition start :: "nat \<Rightarrow> world" where
  "start k = \<lparr>heap = [], vars = replicate k (Plain [])\<rparr>"

end
