(* ===== verification/CycleCollector.thy ===== *)
theory CycleCollector
  imports StructHeap
begin

text \<open>
  The proof that the release of struct references and the cycle collector of \<open>StructHeap\<close> are safe and
  exact: consistency of a heap with the references held from outside, reachability, the walks, and
  the contract of the collector as a locale, met by the collector and by its suspension.
\<close>

section \<open>Heaps as multisets of references\<close>

text \<open>
  The references the blocks hold, with multiplicity: those of their maps and of their metadata. A
  heap is consistent with the references \<open>E\<close> held from outside when every count is the number of
  references to its block and no reference is dangling.
\<close>

definition all_children :: "node \<Rightarrow> nat list" where
  "all_children nd = getStructDataChildren nd @ meta_children nd"

definition block_refs :: "node option \<Rightarrow> nat multiset" where
  "block_refs b = (case b of None \<Rightarrow> {#} | Some nd \<Rightarrow> mset (all_children nd))"

definition inner :: "heap \<Rightarrow> nat multiset" where
  "inner h = sum_list (map block_refs h)"

definition consistent :: "nat multiset \<Rightarrow> heap \<Rightarrow> bool" where
  "consistent E h \<longleftrightarrow> (\<forall>n nd. deref h n = Some nd \<longrightarrow> refs nd = int (count (E + inner h) n)) \<and>
     (\<forall>n. n \<in># E + inner h \<longrightarrow> deref h n \<noteq> None)"

text \<open>What a release may do to the other blocks: free them or lower their counts.\<close>

definition shrinks :: "heap \<Rightarrow> heap \<Rightarrow> bool" where
  "shrinks h h' \<longleftrightarrow> length h' = length h \<and>
     (\<forall>n nd'. deref h' n = Some nd' \<longrightarrow> (\<exists>nd. deref h n = Some nd \<and> nd' = nd\<lparr>refs := refs nd'\<rparr> \<and> refs nd' \<le> refs nd))"

definition keeps_zero :: "heap \<Rightarrow> heap \<Rightarrow> bool" where
  "keeps_zero h h' \<longleftrightarrow> (\<forall>n nd. deref h n = Some nd \<and> refs nd = 0 \<longrightarrow> deref h' n = Some nd)"

lemma all_children_refs [simp]:
  "getStructDataChildren (nd\<lparr>refs := r\<rparr>) = getStructDataChildren nd"
  "getStructDataChildren (nd\<lparr>busy := b\<rparr>) = getStructDataChildren nd"
  "meta_children (nd\<lparr>refs := r\<rparr>) = meta_children nd"
  "meta_children (nd\<lparr>busy := b\<rparr>) = meta_children nd"
  "meta_children (nd\<lparr>payload := p\<rparr>) = meta_children nd"
  "all_children (nd\<lparr>refs := r\<rparr>) = all_children nd"
  "all_children (nd\<lparr>busy := b\<rparr>) = all_children nd"
  by (simp_all add: getStructDataChildren_def meta_children_def all_children_def)

lemma deref_update: "deref (h[n := b]) m = (if m = n \<and> n < length h then b else deref h m)"
  by (auto simp: deref_def)

lemma deref_length: "deref h n = Some nd \<Longrightarrow> n < length h"
  by (auto simp: deref_def split: if_splits)

lemma deref_nth: "deref h n = Some nd \<Longrightarrow> h ! n = Some nd"
  by (auto simp: deref_def split: if_splits)

lemma heap_eqI: "length h = length h' \<Longrightarrow> (\<And>n. deref h n = deref h' n) \<Longrightarrow> h = h'"
  by (rule nth_equalityI, assumption) (metis deref_def)

lemma sum_list_update_cancel:
  fixes f :: "'a \<Rightarrow> 'b :: cancel_comm_monoid_add"
  shows "n < length xs \<Longrightarrow> sum_list (map f (xs[n := x])) + f (xs ! n) = sum_list (map f xs) + f x"
proof (induction xs arbitrary: n)
  case (Cons y ys)
  then show ?case by (cases n) (simp_all add: ac_simps)
qed simp

lemma inner_update: "deref h n = Some nd \<Longrightarrow> inner (h[n := b]) + mset (all_children nd) = inner h + block_refs b"
  using sum_list_update_cancel [of n h block_refs b] by (simp add: inner_def deref_length deref_nth block_refs_def)

lemma inner_same: "deref h n = Some nd \<Longrightarrow> all_children nd' = all_children nd \<Longrightarrow> inner (h[n := Some nd']) = inner h"
  using inner_update [of h n nd "Some nd'"] by (simp add: block_refs_def)

lemma inner_free: "deref h n = Some nd \<Longrightarrow> inner h = inner (h[n := None]) + mset (all_children nd)"
  using inner_update [of h n nd None] by (simp add: block_refs_def)

lemma total_refs_update:
  "deref h n = Some nd \<Longrightarrow> total_refs (h[n := b]) + nat (refs nd)
     = total_refs h + (case b of None \<Rightarrow> 0 | Some nd' \<Rightarrow> nat (refs nd'))"
  using sum_list_update_cancel [of n h "\<lambda>b. case b of None \<Rightarrow> 0 | Some nd \<Rightarrow> nat (refs nd)" b]
  by (simp add: total_refs_def deref_length deref_nth)

lemma children_inner: "deref h n = Some nd \<Longrightarrow> c \<in> set (all_children nd) \<Longrightarrow> c \<in># inner h"
  using inner_free [of h n nd] by simp

lemma consistent_refs: "consistent E h \<Longrightarrow> deref h n = Some nd \<Longrightarrow> refs nd = int (count (E + inner h) n)"
  by (simp add: consistent_def)

lemma consistent_live: "consistent E h \<Longrightarrow> n \<in># E + inner h \<Longrightarrow> \<exists>nd. deref h n = Some nd"
  by (auto simp: consistent_def)

lemma consistent_child: "consistent E h \<Longrightarrow> deref h n = Some nd \<Longrightarrow> c \<in> set (all_children nd) \<Longrightarrow> \<exists>nd'. deref h c = Some nd'"
  using consistent_live children_inner by (metis union_iff)

lemma shrinks_refl [simp]: "shrinks h h"
  by (auto simp: shrinks_def)

lemma shrinks_trans: "shrinks h1 h2 \<Longrightarrow> shrinks h2 h3 \<Longrightarrow> shrinks h1 h3"
  unfolding shrinks_def
proof (intro conjI allI impI)
  fix n nd3
  assume a: "length h2 = length h1 \<and> (\<forall>n nd'. deref h2 n = Some nd' \<longrightarrow>
        (\<exists>nd. deref h1 n = Some nd \<and> nd' = nd\<lparr>refs := refs nd'\<rparr> \<and> refs nd' \<le> refs nd))"
    and b: "length h3 = length h2 \<and> (\<forall>n nd'. deref h3 n = Some nd' \<longrightarrow>
        (\<exists>nd. deref h2 n = Some nd \<and> nd' = nd\<lparr>refs := refs nd'\<rparr> \<and> refs nd' \<le> refs nd))"
    and n: "deref h3 n = Some nd3"
  obtain nd2 where nd2: "deref h2 n = Some nd2" "nd3 = nd2\<lparr>refs := refs nd3\<rparr>" "refs nd3 \<le> refs nd2"
    using b n by blast
  obtain nd1 where nd1: "deref h1 n = Some nd1" "nd2 = nd1\<lparr>refs := refs nd2\<rparr>" "refs nd2 \<le> refs nd1"
    using a nd2 by blast
  have "nd3 = nd1\<lparr>refs := refs nd3\<rparr>"
    by (subst nd2(2), subst nd1(2)) simp
  then show "\<exists>nd. deref h1 n = Some nd \<and> nd3 = nd\<lparr>refs := refs nd3\<rparr> \<and> refs nd3 \<le> refs nd"
    using nd1 nd2 by (intro exI [of _ nd1]) auto
qed auto

lemma shrinks_free: "shrinks h (h[n := None])"
  by (auto simp: shrinks_def deref_update)

lemma shrinks_lower: "deref h n = Some nd \<Longrightarrow> r \<le> refs nd \<Longrightarrow> shrinks h (h[n := Some (nd\<lparr>refs := r\<rparr>)])"
  by (auto simp: shrinks_def deref_update)

lemma shrinks_children: "shrinks h h' \<Longrightarrow> deref h' n = Some nd' \<Longrightarrow>
    \<exists>nd. deref h n = Some nd \<and> all_children nd' = all_children nd \<and> getStructDataChildren nd' = getStructDataChildren nd \<and> busy nd' = busy nd"
  unfolding shrinks_def by (metis all_children_refs(1,6) node.select_convs(4) node.surjective node.update_convs(1))

lemma shrinks_total: "shrinks h h' \<Longrightarrow> total_refs h' \<le> total_refs h"
proof -
  assume s: "shrinks h h'"
  then have l: "length h' = length h" by (simp add: shrinks_def)
  let ?w = "\<lambda>b. case b of None \<Rightarrow> 0 | Some nd \<Rightarrow> nat (refs nd)"
  have "?w (h' ! i) \<le> ?w (h ! i)" if "i < length h" for i
  proof (cases "h' ! i")
    case (Some nd')
    then have "deref h' i = Some nd'" using that l by (simp add: deref_def)
    then obtain nd where "deref h i = Some nd" "refs nd' \<le> refs nd" using s unfolding shrinks_def by blast
    then show ?thesis using Some by (auto dest: deref_nth)
  qed simp
  then have "list_all2 (\<le>) (map ?w h') (map ?w h)" using l by (simp add: list_all2_conv_all_nth)
  then show ?thesis unfolding total_refs_def by (induction rule: list_all2_induct) auto
qed

lemma keeps_zero_refl [simp]: "keeps_zero h h"
  by (simp add: keeps_zero_def)

lemma keeps_zero_trans: "keeps_zero h1 h2 \<Longrightarrow> keeps_zero h2 h3 \<Longrightarrow> keeps_zero h1 h3"
  by (simp add: keeps_zero_def)

lemma keeps_zero_update: "deref h n = Some nd \<Longrightarrow> refs nd \<noteq> 0 \<Longrightarrow> keeps_zero h (h[n := b])"
  by (auto simp: keeps_zero_def deref_update)


subsection \<open>The walks compute reachability\<close>

definition edge :: "heap \<Rightarrow> (nat \<times> nat) set" where
  "edge h = {(m, c). \<exists>nd. deref h m = Some nd \<and> c \<in> set (getStructDataChildren nd)}"

definition reach :: "heap \<Rightarrow> nat set \<Rightarrow> nat set" where
  "reach h S = (edge h)\<^sup>* `` S"

text \<open>Every block of \<open>Q\<close> can be walked: it is live, no map under destruction, and its children are in \<open>Q\<close>.\<close>

definition walkable :: "heap \<Rightarrow> nat set \<Rightarrow> bool" where
  "walkable h Q \<longleftrightarrow> (\<forall>m\<in>Q. \<exists>nd. deref h m = Some nd \<and> \<not> busy nd \<and> set (getStructDataChildren nd) \<subseteq> Q)"

lemma walkableD: "walkable h Q \<Longrightarrow> m \<in> Q \<Longrightarrow> \<exists>nd. deref h m = Some nd \<and> \<not> busy nd"
  by (auto simp: walkable_def)

lemma walkable_child: "walkable h Q \<Longrightarrow> m \<in> Q \<Longrightarrow> deref h m = Some nd \<Longrightarrow> set (getStructDataChildren nd) \<subseteq> Q"
  by (force simp: walkable_def)

lemma reach_base: "S \<subseteq> reach h S"
  by (auto simp: reach_def)

lemma reach_step: "m \<in> reach h S \<Longrightarrow> deref h m = Some nd \<Longrightarrow> c \<in> set (getStructDataChildren nd) \<Longrightarrow> c \<in> reach h S"
  unfolding reach_def edge_def by (auto intro: rtrancl_into_rtrancl)

lemma reach_induct [consumes 1, case_names base step]:
  assumes "n \<in> reach h S" "\<And>n. n \<in> S \<Longrightarrow> P n"
    "\<And>m nd c. m \<in> reach h S \<Longrightarrow> P m \<Longrightarrow> deref h m = Some nd \<Longrightarrow> c \<in> set (getStructDataChildren nd) \<Longrightarrow> P c"
  shows "P n"
proof -
  obtain s where s: "s \<in> S" "(s, n) \<in> (edge h)\<^sup>*" using assms(1) by (auto simp: reach_def)
  from s(2) show ?thesis
  proof (induction rule: rtrancl_induct)
    case base
    with s assms(2) show ?case by simp
  next
    case (step y z)
    then have "y \<in> reach h S" using s by (auto simp: reach_def)
    with step assms(3) show ?case by (auto simp: edge_def)
  qed
qed

lemma reach_least: "S \<subseteq> Q \<Longrightarrow> walkable h Q \<Longrightarrow> reach h S \<subseteq> Q"
proof
  fix n assume "S \<subseteq> Q" "walkable h Q" "n \<in> reach h S"
  from this(3,1,2) show "n \<in> Q"
    by (induction rule: reach_induct) (force simp: walkable_def)+
qed

lemma reach_mono: "S \<subseteq> T \<Longrightarrow> reach h S \<subseteq> reach h T"
  by (auto simp: reach_def)

lemma push_unseen_props:
  assumes "push_unseen cs (work, seen) = (work', seen')" "distinct work" "set work \<subseteq> set seen" "distinct seen"
  shows "set seen' = set seen \<union> set cs \<and> set work' = set work \<union> (set cs - set seen) \<and>
    distinct work' \<and> distinct seen' \<and> set work' \<subseteq> set seen'"
  using assms
proof (induction cs arbitrary: work seen)
  case (Cons c cs)
  show ?case
  proof (cases "c \<in> set seen")
    case True
    with Cons.prems Cons.IH [of work seen] show ?thesis by auto
  next
    case False
    then have "c \<notin> set work" using Cons.prems(3) by auto
    have eq: "push_unseen cs (c # work, seen @ [c]) = (work', seen')" using Cons.prems(1) False by simp
    have "distinct (c # work)" "set (c # work) \<subseteq> set (seen @ [c])" "distinct (seen @ [c])"
      using Cons.prems \<open>c \<notin> set work\<close> False by auto
    from Cons.IH [OF eq this] False \<open>c \<notin> set work\<close> Cons.prems(3) show ?thesis by auto
  qed
qed simp

text \<open>The invariant of the walk: the processed and the waiting blocks make up the seen ones.\<close>

definition walk_inv :: "heap \<Rightarrow> nat set \<Rightarrow> nat set \<Rightarrow> nat list \<Rightarrow> nat list \<Rightarrow> nat list \<Rightarrow> bool" where
  "walk_inv h Q S work seen nodes \<longleftrightarrow> distinct (work @ nodes) \<and> set work \<union> set nodes = set seen \<and> distinct seen \<and>
     S \<subseteq> set seen \<and> set seen \<subseteq> reach h S \<and> set seen \<subseteq> Q \<and>
     (\<forall>m\<in>set nodes. \<forall>nd. deref h m = Some nd \<longrightarrow> set (getStructDataChildren nd) \<subseteq> set seen)"

lemma walk_inv_step:
  assumes "walk_inv h Q S (c # work) seen nodes" "walkable h Q" "deref h c = Some nd"
    "push_unseen (getStructDataChildren nd) (work, seen) = (work', seen')"
  shows "walk_inv h Q S work' seen' (nodes @ [c])"
proof -
  note i = assms(1) [unfolded walk_inv_def]
  have p: "set seen' = set seen \<union> set (getStructDataChildren nd)" "set work' = set work \<union> (set (getStructDataChildren nd) - set seen)"
    "distinct work'" "distinct seen'"
    using push_unseen_props [OF assms(4)] i by auto
  have c: "c \<in> reach h S" "c \<in> Q" "c \<in> set seen" using i by auto
  have "set (getStructDataChildren nd) \<subseteq> reach h S \<inter> Q"
    using reach_step [OF c(1) assms(3)] walkable_child [OF assms(2) c(2) assms(3)] by auto
  moreover have "\<forall>m\<in>set (nodes @ [c]). \<forall>nd. deref h m = Some nd \<longrightarrow> set (getStructDataChildren nd) \<subseteq> set seen'"
    using i p(1) assms(3) by auto blast
  ultimately show ?thesis using i p c(3) unfolding walk_inv_def by (intro conjI) auto
qed

lemma walk_done:
  assumes "walk_inv h Q S [] seen nodes" "walkable h Q"
  shows "set seen = reach h S \<and> set nodes = reach h S \<and> distinct nodes \<and> distinct seen"
proof -
  have "walkable h (set seen)" using assms unfolding walk_inv_def walkable_def by (metis list.set(1) subset_eq sup_bot_left)
  then have "reach h S \<subseteq> set seen" using assms by (intro reach_least) (auto simp: walk_inv_def)
  with assms(1) show ?thesis by (auto simp: walk_inv_def)
qed

lemma walk_ok:
  assumes "walk_inv h Q S work seen nodes" "walkable h Q" "length h \<le> f + length nodes"
  shows "\<exists>seen' nodes'. walk f h work seen nodes = Inr (seen', nodes') \<and> set seen' = reach h S \<and>
    set nodes' = reach h S \<and> distinct nodes' \<and> distinct seen'"
  using assms
proof (induction f arbitrary: work seen nodes)
  case 0
  show ?case
  proof (cases work)
    case Nil
    then show ?thesis using walk_done [OF "0.prems"(1) [unfolded Nil] "0.prems"(2)] by simp
  next
    case (Cons c work')
    have "c \<in> Q" "c \<notin> set nodes" "distinct nodes" "set nodes \<subseteq> Q" using "0.prems"(1) Cons by (auto simp: walk_inv_def)
    then have "set (c # nodes) \<subseteq> {..<length h}" "distinct (c # nodes)"
      using "0.prems"(2) by (auto simp: walkable_def dest: deref_length)
    then have "Suc (length nodes) \<le> length h" by (metis card_lessThan card_mono distinct_card finite_lessThan length_Cons)
    with "0.prems"(3) show ?thesis by simp
  qed
next
  case (Suc f)
  show ?case
  proof (cases work)
    case Nil
    then show ?thesis using walk_done [OF Suc.prems(1) [unfolded Nil] Suc.prems(2)] by simp
  next
    case (Cons c work')
    have "c \<in> Q" using Suc.prems(1) Cons by (auto simp: walk_inv_def)
    then obtain nd where nd: "deref h c = Some nd" "\<not> busy nd"
      using walkableD [OF Suc.prems(2)] by auto
    obtain w s where p: "push_unseen (getStructDataChildren nd) (work', seen) = (w, s)" by fastforce
    have "walk_inv h Q S w s (nodes @ [c])" by (rule walk_inv_step [OF Suc.prems(1) [unfolded Cons] Suc.prems(2) nd(1) p])
    from Suc.IH [OF this Suc.prems(2)] Suc.prems(3) show ?thesis by (simp add: Cons nd p)
  qed
qed


lemma reach_union: "reach h (S \<union> T) = reach h S \<union> reach h T"
  by (auto simp: reach_def)

lemma reach_idem: "S \<subseteq> reach h T \<Longrightarrow> reach h S \<subseteq> reach h T"
  by (rule subsetI, erule reach_induct) (auto intro: reach_step)

subsection \<open>Releasing keeps a heap consistent\<close>

text \<open>
  A heap is tidy for the references \<open>E\<close> when no block has metadata and every block can be reached from
  \<open>E\<close> through the maps. Consistency carries reachability over to what a release leaves.
\<close>

definition tidy :: "nat multiset \<Rightarrow> heap \<Rightarrow> bool" where
  "tidy E h \<longleftrightarrow> (\<forall>n nd. deref h n = Some nd \<longrightarrow> meta nd = None) \<and>
     (\<forall>n. deref h n \<noteq> None \<longrightarrow> n \<in> reach h (set_mset E))"

lemma reach_live: "consistent E h \<Longrightarrow> n \<in> reach h (set_mset E) \<Longrightarrow> \<exists>nd. deref h n = Some nd"
proof -
  assume c: "consistent E h" and n: "n \<in> reach h (set_mset E)"
  from n show ?thesis
  proof (induction rule: reach_induct)
    case (step m nd x)
    then show ?case using consistent_child [OF c, of m nd x] by (simp add: all_children_def)
  qed (use consistent_live [OF c] in auto)
qed

lemma reach_shrinks:
  assumes c: "consistent E h'" and s: "shrinks h h'" and S: "S \<subseteq> set_mset E" and n: "n \<in> reach h S"
  shows "n \<in> reach h' S"
  using n
proof (induction rule: reach_induct)
  case (base n)
  then show ?case using reach_base [of S h'] by auto
next
  case (step m nd x)
  then have "m \<in> reach h' (set_mset E)" using reach_mono [OF S] by auto
  then obtain nd' where nd': "deref h' m = Some nd'" using reach_live [OF c] by auto
  with shrinks_children [OF s nd'] step.hyps have "x \<in> set (getStructDataChildren nd')" by auto
  with step.IH nd' show ?case by (rule reach_step)
qed

lemma shrinks_meta: "shrinks h h' \<Longrightarrow> deref h' n = Some nd' \<Longrightarrow> \<exists>nd. deref h n = Some nd \<and> meta nd' = meta nd"
  unfolding shrinks_def by (metis node.select_convs(3) node.surjective node.update_convs(1))

lemma reach_delete:
  assumes "deref h n = Some nd" "m \<in> reach h (insert n S)"
  shows "m = n \<or> m \<in> reach (h[n := None]) (set (all_children nd) \<union> S)"
  using assms(2)
proof (induction rule: reach_induct)
  case (base m)
  then show ?case using reach_base [of "set (all_children nd) \<union> S" "h[n := None]"] by auto
next
  case (step m md c)
  show ?case
  proof (cases "m = n")
    case True
    then have "c \<in> set (all_children nd)" using step assms(1) by (auto simp: all_children_def)
    then show ?thesis using reach_base [of "set (all_children nd) \<union> S" "h[n := None]"] by blast
  next
    case False
    then have "deref (h[n := None]) m = Some md" using step by (simp add: deref_update)
    then show ?thesis using reach_step [of m "h[n := None]" _ md c] step False by blast
  qed
qed

lemma tidy_delete:
  assumes "tidy (E + mset (n # ns)) h" "deref h n = Some nd"
  shows "tidy (E + mset (all_children nd @ ns)) (h[n := None])"
proof -
  let ?h1 = "h[n := None]"
  have d: "deref ?h1 m = (if m = n then None else deref h m)" for m
    using deref_length [OF assms(2)] by (simp add: deref_update)
  have S: "set_mset (E + mset (n # ns)) = insert n (set_mset E \<union> set ns)"
    "set_mset (E + mset (all_children nd @ ns)) = set (all_children nd) \<union> (set_mset E \<union> set ns)" by auto
  show ?thesis
    unfolding tidy_def
  proof (intro conjI allI impI)
    fix m md assume "deref ?h1 m = Some md"
    then show "meta md = None" using assms(1) by (auto simp: tidy_def d split: if_splits)
  next
    fix m assume m: "deref ?h1 m \<noteq> None"
    then have "m \<in> reach h (insert n (set_mset E \<union> set ns))" using assms(1) d [of m] S(1) unfolding tidy_def by metis
    moreover have "m \<noteq> n" using m d [of m] by metis
    ultimately show "m \<in> reach ?h1 (set_mset (E + mset (all_children nd @ ns)))"
      using reach_delete [OF assms(2)] S(2) by metis
  qed
qed

lemma tidy_lower:
  assumes "tidy E h" "deref h n = Some nd"
  shows "tidy E (h[n := Some (nd\<lparr>refs := r\<rparr>)])"
proof -
  let ?h1 = "h[n := Some (nd\<lparr>refs := r\<rparr>)]"
  have d: "deref ?h1 m = (if m = n then Some (nd\<lparr>refs := r\<rparr>) else deref h m)" for m
    using deref_length [OF assms(2)] by (simp add: deref_update)
  have "edge ?h1 = edge h" by (auto simp: edge_def d assms(2) split: if_splits)
  then show ?thesis using assms unfolding tidy_def reach_def by (auto simp: d)
qed

text \<open>
  What a release relies on is the contract of the collector it calls: from a consistent heap, on a
  live block from which no map under destruction can be reached, it succeeds, leaves the heap
  consistent, only frees blocks or lowers counts, and does not touch a block with count 0 (one that
  is itself being deleted). A full collector also leaves a tidy heap tidy.
\<close>

definition closed :: "heap \<Rightarrow> nat set \<Rightarrow> bool" where
  "closed h Q \<longleftrightarrow> (\<forall>m\<in>Q. \<forall>nd. deref h m = Some nd \<longrightarrow> \<not> busy nd \<and> set (all_children nd) \<subseteq> Q)"

definition safe :: "heap \<Rightarrow> nat \<Rightarrow> bool" where
  "safe h n \<longleftrightarrow> (\<exists>Q. n \<in> Q \<and> closed h Q)"

lemma closed_shrinks: "shrinks h h' \<Longrightarrow> closed h Q \<Longrightarrow> closed h' Q"
  unfolding closed_def by (metis shrinks_children)

lemma safe_shrinks: "shrinks h h' \<Longrightarrow> safe h n \<Longrightarrow> safe h' n"
  unfolding safe_def using closed_shrinks by blast

lemma safe_child: "safe h n \<Longrightarrow> deref h n = Some nd \<Longrightarrow> c \<in> set (all_children nd) \<Longrightarrow> safe h c"
  unfolding safe_def closed_def by blast

locale collector =
  fixes collect :: "heap \<Rightarrow> nat \<Rightarrow> heap res" and guarded :: "heap \<Rightarrow> nat \<Rightarrow> bool" and full :: bool
  assumes works: "consistent E h \<Longrightarrow> deref h n = Some nd \<Longrightarrow> 0 < refs nd \<Longrightarrow> guarded h n \<Longrightarrow>
      \<exists>h'. collect h n = Inr h' \<and> consistent E h' \<and> shrinks h h' \<and> keeps_zero h h' \<and>
        (full \<longrightarrow> tidy (add_mset n E) h \<longrightarrow> tidy E h')"
    and guarded_shrinks: "shrinks h h' \<Longrightarrow> guarded h n \<Longrightarrow> guarded h' n"
    and guarded_child: "guarded h n \<Longrightarrow> deref h n = Some nd \<Longrightarrow> c \<in> set (all_children nd) \<Longrightarrow> guarded h c"
begin

lemma drop_delete:
  assumes "consistent (E + mset (n # ns)) h" "deref h n = Some nd" "refs nd \<le> 1"
  shows "consistent (E + mset (all_children nd @ ns)) (h[n := None]) \<and> total_refs (h[n := None]) < total_refs h \<and> refs nd = 1"
proof -
  note i = inner_free [OF assms(2)]
  have one: "refs nd = 1" and n: "count (E + mset ns + inner h) n = 0"
  proof -
    have "count (E + mset (n # ns) + inner h) n = Suc (count (E + mset ns + inner h) n)" by simp
    then have "refs nd = int (Suc (count (E + mset ns + inner h) n))"
      using consistent_refs [OF assms(1,2)] by (simp only:)
    then show "refs nd = 1" "count (E + mset ns + inner h) n = 0" using assms(3) by linarith+
  qed
  have "consistent (E + mset (all_children nd @ ns)) (h[n := None])"
    unfolding consistent_def
  proof (intro conjI allI impI)
    fix m md assume "deref (h[n := None]) m = Some md"
    then have "deref h m = Some md" "m \<noteq> n" using deref_length [OF assms(2)] by (auto simp: deref_update split: if_splits)
    then show "refs md = int (count (E + mset (all_children nd @ ns) + inner (h[n := None])) m)"
      using consistent_refs [OF assms(1)] i by simp
  next
    fix m assume m: "m \<in># E + mset (all_children nd @ ns) + inner (h[n := None])"
    then have "m \<in># E + mset ns + inner h" using i by auto
    moreover from this have "m \<noteq> n" using n by (metis not_in_iff)
    ultimately show "deref (h[n := None]) m \<noteq> None"
      using assms(1) by (auto simp: deref_update consistent_def)
  qed
  moreover have "total_refs (h[n := None]) < total_refs h"
    using total_refs_update [OF assms(2), of None] one by simp
  ultimately show ?thesis using one by simp
qed

lemma drop_lower:
  assumes "consistent (E + mset (n # ns)) h" "deref h n = Some nd" "1 < refs nd"
    "h1 = h[n := Some (nd\<lparr>refs := refs nd - 1\<rparr>)]"
  shows "consistent (E + mset ns) h1 \<and> total_refs h1 < total_refs h \<and> deref h1 n = Some (nd\<lparr>refs := refs nd - 1\<rparr>)"
proof -
  have i: "inner h1 = inner h" using inner_same [OF assms(2)] by (simp add: assms(4))
  have d: "deref h1 m = (if m = n then Some (nd\<lparr>refs := refs nd - 1\<rparr>) else deref h m)" for m
    using deref_length [OF assms(2)] by (simp add: assms(4) deref_update)
  have "consistent (E + mset ns) h1"
    unfolding consistent_def
  proof (intro conjI allI impI)
    fix m md assume "deref h1 m = Some md"
    then show "refs md = int (count (E + mset ns + inner h1) m)"
      using consistent_refs [OF assms(1), of m] consistent_refs [OF assms(1,2)]
      by (cases "m = n") (auto simp: i d)
  next
    fix m assume "m \<in># E + mset ns + inner h1"
    then have "m \<in># E + mset (n # ns) + inner h" by (auto simp: i)
    then show "deref h1 m \<noteq> None" using assms(1) by (auto simp: consistent_def d)
  qed
  moreover have "total_refs h1 < total_refs h"
    using total_refs_update [OF assms(2), of "Some (nd\<lparr>refs := refs nd - 1\<rparr>)"] assms(3,4) by simp
  ultimately show ?thesis by (simp add: d)
qed

lemma drop_refs_ok:
  assumes "consistent (E + mset ns) h" "\<forall>n\<in>set ns. guarded h n" "total_refs h \<le> f"
  shows "\<exists>h'. drop_refs collect f h ns = Inr h' \<and> consistent E h' \<and> shrinks h h' \<and> keeps_zero h h' \<and>
    (full \<longrightarrow> tidy (E + mset ns) h \<longrightarrow> tidy E h')"
  using assms
proof (induction f arbitrary: h ns rule: less_induct)
  case (less f)
  show ?case
  proof (cases ns)
    case Nil
    with less.prems show ?thesis by simp
  next
    case (Cons n ns')
    obtain nd where nd: "deref h n = Some nd"
      using consistent_live [OF less.prems(1), of n] Cons by auto
    have pos: "0 < refs nd" using consistent_refs [OF less.prems(1) nd] Cons by simp
    have "0 < total_refs h" using total_refs_update [OF nd, of None] pos by simp
    then obtain f' where f: "f = Suc f'" using less.prems(3) by (cases f) auto
    note c = less.prems(1) [unfolded Cons]
    show ?thesis
    proof (cases "refs nd \<le> 1")
      case True
      let ?h1 = "h[n := None]" and ?ks = "meta_children nd @ getStructDataChildren nd @ ns'"
      have d: "consistent (E + mset ?ks) ?h1" "total_refs ?h1 < total_refs h" "refs nd = 1"
        using drop_delete [OF c nd True] by (simp_all add: all_children_def union_ac)
      have "\<forall>m\<in>set ?ks. guarded ?h1 m"
        using less.prems(2) Cons guarded_child [OF _ nd] guarded_shrinks [OF shrinks_free] by (auto simp: all_children_def)
      then obtain h' where h': "drop_refs collect f' ?h1 ?ks = Inr h'" "consistent E h'" "shrinks ?h1 h'" "keeps_zero ?h1 h'"
          "full \<longrightarrow> tidy (E + mset ?ks) ?h1 \<longrightarrow> tidy E h'"
        using less.IH [of f' ?ks ?h1] d less.prems(3) f by auto
      have "keeps_zero h h'" using keeps_zero_trans [OF keeps_zero_update h'(4)] nd d(3) by simp
      moreover have "drop_refs collect f h ns = Inr h'" using h'(1) True by (simp add: Cons f nd Let_def)
      moreover have "tidy (E + mset ns) h \<Longrightarrow> tidy (E + mset ?ks) ?h1"
        using tidy_delete [OF _ nd, of E ns'] by (simp add: Cons all_children_def union_ac)
      ultimately show ?thesis using h' shrinks_trans [OF shrinks_free h'(3)] by blast
    next
      case False
      define h1 where "h1 = h[n := Some (nd\<lparr>refs := refs nd - 1\<rparr>)]"
      have l: "consistent (E + mset ns') h1" "total_refs h1 < total_refs h" "deref h1 n = Some (nd\<lparr>refs := refs nd - 1\<rparr>)"
        using drop_lower [OF c nd _ h1_def] False by auto
      have s1: "shrinks h h1" using shrinks_lower [OF nd] by (simp add: h1_def)
      have "\<exists>h2. collect h1 n = Inr h2 \<and> consistent (E + mset ns') h2 \<and> shrinks h1 h2 \<and> keeps_zero h1 h2 \<and>
          (full \<longrightarrow> tidy (add_mset n (E + mset ns')) h1 \<longrightarrow> tidy (E + mset ns') h2)"
        using works [OF l(1,3)] False less.prems(2) Cons guarded_shrinks [OF s1] by simp
      then obtain h2 where h2: "collect h1 n = Inr h2" "consistent (E + mset ns') h2" "shrinks h1 h2" "keeps_zero h1 h2"
          "full \<longrightarrow> tidy (E + mset ns) h1 \<longrightarrow> tidy (E + mset ns') h2"
        by (auto simp: Cons)
      have g: "\<forall>m\<in>set ns'. guarded h2 m"
        using less.prems(2) Cons guarded_shrinks [OF shrinks_trans [OF s1 h2(3)]] by simp
      have t: "total_refs h2 \<le> f'" using shrinks_total [OF h2(3)] l(2) less.prems(3) f by linarith
      obtain h' where h': "drop_refs collect f' h2 ns' = Inr h'" "consistent E h'" "shrinks h2 h'" "keeps_zero h2 h'"
          "full \<longrightarrow> tidy (E + mset ns') h2 \<longrightarrow> tidy E h'"
        using less.IH [OF _ h2(2) g t] f by auto
      have "keeps_zero h h'"
        using keeps_zero_trans [OF keeps_zero_update [OF nd] keeps_zero_trans [OF h2(4) h'(4), unfolded h1_def]] pos by simp
      moreover have "drop_refs collect f h ns = Inr h'" using h'(1) h2(1) False by (simp add: Cons f nd Let_def h1_def)
      moreover have "tidy (E + mset ns) h \<Longrightarrow> tidy (E + mset ns) h1" unfolding h1_def by (rule tidy_lower [OF _ nd])
      ultimately show ?thesis using h' h2(5) shrinks_trans [OF s1 shrinks_trans [OF h2(3) h'(3)]] by blast
    qed
  qed
qed

lemma release_refs_ok:
  assumes "consistent (E + mset ns) h" "\<forall>n\<in>set ns. guarded h n"
  shows "\<exists>h'. release_refs collect h ns = Inr h' \<and> consistent E h' \<and> shrinks h h' \<and> keeps_zero h h' \<and>
    (full \<longrightarrow> tidy (E + mset ns) h \<longrightarrow> tidy E h')"
  using drop_refs_ok [OF assms order_refl] by (simp add: release_refs_def)

end

interpretation suspended: collector no_collect "\<lambda>h n. True" False
  by unfold_locales (auto simp: no_collect_def)


subsection \<open>Heaps under uniform changes\<close>

definition shift :: "(nat \<Rightarrow> int) \<Rightarrow> heap \<Rightarrow> heap" where
  "shift g h = map (\<lambda>n. map_option (\<lambda>nd. nd\<lparr>refs := refs nd + g n\<rparr>) (h ! n)) [0..<length h]"

definition emptied :: "node \<Rightarrow> node" where
  "emptied nd = nd\<lparr>payload := (payload nd)\<lparr>smap := [], insertOrder := []\<rparr>, busy := False\<rparr>"

definition empty_at :: "nat set \<Rightarrow> heap \<Rightarrow> heap" where
  "empty_at D h = map (\<lambda>n. map_option (\<lambda>nd. if n \<in> D then emptied nd else nd) (h ! n)) [0..<length h]"

lemma length_shift [simp]: "length (shift g h) = length h" "length (empty_at D h) = length h"
  by (simp_all add: shift_def empty_at_def)

lemma deref_shift [simp]: "deref (shift g h) n = map_option (\<lambda>nd. nd\<lparr>refs := refs nd + g n\<rparr>) (deref h n)"
  by (simp add: deref_def shift_def)

lemma deref_empty_at [simp]: "deref (empty_at D h) n = map_option (\<lambda>nd. if n \<in> D then emptied nd else nd) (deref h n)"
  by (simp add: deref_def empty_at_def)

lemma emptied_simps [simp]:
  "refs (emptied nd) = refs nd" "getStructDataChildren (emptied nd) = []" "meta_children (emptied nd) = meta_children nd"
  "busy (emptied nd) = False" "emptied (nd\<lparr>refs := r\<rparr>) = (emptied nd)\<lparr>refs := r\<rparr>"
  by (simp_all add: emptied_def getStructDataChildren_def meta_children_def)

lemma emptied_twice [simp]: "emptied (emptied nd) = emptied nd"
  by (simp add: emptied_def)

lemma shift_shift: "shift f (shift g h) = shift (\<lambda>n. g n + f n) h"
  by (rule heap_eqI) (simp_all add: option.map_comp comp_def add.assoc)

lemma shift_empty_at: "shift f (empty_at D h) = empty_at D (shift f h)"
  by (rule heap_eqI) (auto simp: option.map_comp comp_def intro!: map_option_cong)

lemma shift_0: "(\<And>n. g n = 0) \<Longrightarrow> shift g h = h"
  by (rule heap_eqI) (simp_all add: option.map_ident)

lemma empty_at_none [simp]: "empty_at {} h = h"
  by (rule heap_eqI) (simp_all add: option.map_ident)

lemma shift_cong: "(\<And>n. deref h n \<noteq> None \<Longrightarrow> f n = g n) \<Longrightarrow> shift f h = shift g h"
  by (rule heap_eqI) (auto intro!: map_option_cong)

lemma update_shift: "deref h n = Some nd \<Longrightarrow> h[n := Some (nd\<lparr>refs := refs nd + d\<rparr>)] = shift (\<lambda>m. if m = n then d else 0) h"
  by (rule heap_eqI) (auto simp: deref_update option.map_ident dest: deref_length)

lemma add_refs_eq: "\<forall>n\<in>set ns. deref h n \<noteq> None \<Longrightarrow> add_refs d h ns = Inr (shift (\<lambda>m. d * int (count_list ns m)) h)"
proof (induction ns arbitrary: h)
  case (Cons n ns)
  then obtain nd where nd: "deref h n = Some nd" by auto
  show ?case
    using Cons.prems by (simp add: nd update_shift Cons.IH shift_shift) (rule shift_cong, simp add: algebra_simps)
qed (simp add: shift_0)

lemma drop_refs_lowers:
  assumes "\<forall>n\<in>set ks. \<exists>nd. deref h n = Some nd \<and> int (count_list ks n) < refs nd" "total_refs h \<le> f"
  shows "drop_refs no_collect f h ks = Inr (shift (\<lambda>m. - int (count_list ks m)) h)"
  using assms
proof (induction f arbitrary: h ks)
  case 0
  show ?case
  proof (cases ks)
    case (Cons n ns)
    then obtain nd where "deref h n = Some nd" "0 < refs nd" using 0(1) by fastforce
    then show ?thesis using total_refs_update [of h n nd None] 0(2) by simp
  qed (simp add: shift_0)
next
  case (Suc f)
  show ?case
  proof (cases ks)
    case (Cons n ns)
    then obtain nd where nd: "deref h n = Some nd" "int (count_list ks n) < refs nd" using Suc.prems(1) by fastforce
    then have big: "1 < refs nd" using Cons by simp
    let ?h1 = "h[n := Some (nd\<lparr>refs := refs nd + - 1\<rparr>)]"
    have d: "deref ?h1 m = map_option (\<lambda>md. md\<lparr>refs := refs md + (if m = n then -1 else 0)\<rparr>) (deref h m)" for m
      using deref_length [OF nd(1)] by (auto simp: deref_update nd(1) option.map_ident)
    have "\<forall>m\<in>set ns. \<exists>md. deref ?h1 m = Some md \<and> int (count_list ns m) < refs md"
    proof
      fix m assume "m \<in> set ns"
      then obtain md where "deref h m = Some md" "int (count_list ks m) < refs md" using Suc.prems(1) Cons by fastforce
      then show "\<exists>md. deref ?h1 m = Some md \<and> int (count_list ns m) < refs md"
        unfolding d using Cons by auto
    qed
    moreover have "total_refs ?h1 \<le> f" using total_refs_update [OF nd(1), of "Some (nd\<lparr>refs := refs nd + - 1\<rparr>)"] big Suc.prems(2) by simp
    ultimately have "drop_refs no_collect f ?h1 ns = Inr (shift (\<lambda>m. - int (count_list ns m)) ?h1)" by (rule Suc.IH)
    moreover have "shift (\<lambda>m. - int (count_list ns m)) ?h1 = shift (\<lambda>m. - int (count_list ks m)) h"
      unfolding update_shift [OF nd(1)] shift_shift by (rule shift_cong) (simp add: Cons)
    moreover have "no_collect ?h1 n = Inr ?h1" by (simp only: no_collect_def)
    ultimately show ?thesis using big by (simp add: Cons nd(1) Let_def)
  qed (simp add: shift_0)
qed

lemma clear_map_dead:
  assumes "deref h n = Some nd" "\<not> busy nd"
    "\<forall>m\<in>set (getStructDataChildren nd). \<exists>md. deref h m = Some md \<and> int (count_list (getStructDataChildren nd) m) < refs md"
  shows "clear_map no_collect True h n = Inr (empty_at {n} (shift (\<lambda>m. - int (count_list (getStructDataChildren nd) m)) h))"
proof -
  let ?ks = "getStructDataChildren nd"
  let ?h1 = "h[n := Some (nd\<lparr>payload := (payload nd)\<lparr>smap := []\<rparr>, busy := True\<rparr>)]"
  let ?h2 = "shift (\<lambda>m. - int (count_list ?ks m)) ?h1"
  have l: "n < length h" by (rule deref_length [OF assms(1)])
  have "release_refs no_collect ?h1 ?ks = Inr ?h2"
    unfolding release_refs_def
  proof (rule drop_refs_lowers)
    show "\<forall>m\<in>set ?ks. \<exists>md. deref ?h1 m = Some md \<and> int (count_list ?ks m) < refs md"
    proof
      fix m assume "m \<in> set ?ks"
      with assms(3) obtain md where "deref h m = Some md" "int (count_list ?ks m) < refs md" by blast
      then show "\<exists>md. deref ?h1 m = Some md \<and> int (count_list ?ks m) < refs md"
        using l assms(1) by (cases "m = n") (auto simp: deref_update)
    qed
  qed simp
  then show ?thesis using assms(1,2) l
    by (auto simp: clear_map_def deref_update Let_def emptied_def option.map_ident intro!: heap_eqI)
qed


definition kids :: "heap \<Rightarrow> nat list \<Rightarrow> nat list" where
  "kids h ns = concat (map (\<lambda>n. case deref h n of None \<Rightarrow> [] | Some nd \<Rightarrow> getStructDataChildren nd) ns)"

lemma kids_simps [simp]: "kids h [] = []"
  "kids h (n # ns) = (case deref h n of None \<Rightarrow> [] | Some nd \<Rightarrow> getStructDataChildren nd) @ kids h ns"
  by (simp_all add: kids_def)

lemma kids_cong: "(\<And>n. n \<in> set ns \<Longrightarrow> (case deref h n of None \<Rightarrow> [] | Some nd \<Rightarrow> getStructDataChildren nd)
     = (case deref h' n of None \<Rightarrow> [] | Some nd \<Rightarrow> getStructDataChildren nd)) \<Longrightarrow> kids h ns = kids h' ns"
  by (auto simp: kids_def intro!: arg_cong [of _ _ concat] map_cong)

lemma children_of_eq: "\<forall>n\<in>set ns. \<exists>nd. deref h n = Some nd \<and> \<not> busy nd \<Longrightarrow> children_of h ns = Inr (kids h ns)"
  by (induction ns) auto

lemma clear_all_dead:
  assumes "distinct ns" "\<forall>n\<in>set ns. \<exists>nd. deref h n = Some nd \<and> \<not> busy nd"
    "\<forall>m\<in>set (kids h ns). \<exists>md. deref h m = Some md \<and> int (count_list (kids h ns) m) < refs md"
  shows "clear_all h ns = Inr (empty_at (set ns) (shift (\<lambda>m. - int (count_list (kids h ns) m)) h))"
  using assms
proof (induction ns arbitrary: h)
  case (Cons n ns)
  obtain nd where nd: "deref h n = Some nd" "\<not> busy nd" using Cons.prems(2) by auto
  let ?ks = "getStructDataChildren nd"
  let ?h1 = "empty_at {n} (shift (\<lambda>m. - int (count_list ?ks m)) h)"
  have ks: "kids h (n # ns) = ?ks @ kids h ns" by (simp add: nd)
  have "clear_map no_collect True h n = Inr ?h1"
  proof (rule clear_map_dead [OF nd], intro ballI)
    fix m assume "m \<in> set ?ks"
    then obtain md where "deref h m = Some md" "int (count_list (?ks @ kids h ns) m) < refs md"
      using Cons.prems(3) unfolding ks by auto
    then show "\<exists>md. deref h m = Some md \<and> int (count_list ?ks m) < refs md" by auto
  qed
  moreover have k1: "kids ?h1 ns = kids h ns"
    using Cons.prems(1) by (intro kids_cong) (auto split: option.splits)
  moreover have "clear_all ?h1 ns = Inr (empty_at (set ns) (shift (\<lambda>m. - int (count_list (kids ?h1 ns) m)) ?h1))"
  proof (rule Cons.IH)
    show "distinct ns" using Cons.prems(1) by simp
    show "\<forall>n\<in>set ns. \<exists>nd. deref ?h1 n = Some nd \<and> \<not> busy nd"
    proof
      fix m assume "m \<in> set ns"
      then obtain md where "deref h m = Some md" "\<not> busy md" using Cons.prems(2) by auto
      then show "\<exists>nd. deref ?h1 m = Some nd \<and> \<not> busy nd" by simp
    qed
    show "\<forall>m\<in>set (kids ?h1 ns). \<exists>md. deref ?h1 m = Some md \<and> int (count_list (kids ?h1 ns) m) < refs md"
    proof
      fix m assume "m \<in> set (kids ?h1 ns)"
      then obtain md where "deref h m = Some md" "int (count_list (?ks @ kids h ns) m) < refs md"
        using Cons.prems(3) unfolding ks k1 by auto
      then show "\<exists>md. deref ?h1 m = Some md \<and> int (count_list (kids ?h1 ns) m) < refs md" unfolding k1 by auto
    qed
  qed
  moreover have "empty_at (set ns) (shift (\<lambda>m. - int (count_list (kids h ns) m)) ?h1)
      = empty_at (set (n # ns)) (shift (\<lambda>m. - int (count_list (kids h (n # ns)) m)) h)"
    unfolding ks by (rule heap_eqI) (auto simp: option.map_comp comp_def emptied_twice intro!: map_option_cong)
  ultimately show ?case by (simp add: ebind_Inr)
qed (simp add: shift_0)

text \<open>Deleting blocks nothing refers to, which hold at most the references of their metadata.\<close>

lemma delete_all_ok:
  assumes "consistent E h" "distinct ns"
    "\<forall>n\<in>set ns. \<exists>nd. deref h n = Some nd \<and> refs nd = 0 \<and> getStructDataChildren nd = []"
  shows "\<exists>h'. delete_all h ns = Inr h' \<and> consistent E h' \<and> shrinks h h' \<and> (\<forall>n\<in>set ns. deref h' n = None) \<and>
    (\<forall>n nd. n \<notin> set ns \<longrightarrow> deref h n = Some nd \<and> refs nd = 0 \<longrightarrow> deref h' n = Some nd) \<and>
    ((\<forall>n nd. deref h n = Some nd \<longrightarrow> meta nd = None) \<longrightarrow> (\<forall>n. n \<notin> set ns \<longrightarrow> deref h' n = deref h n))"
  using assms
proof (induction ns arbitrary: h)
  case (Cons n ns)
  obtain nd where nd: "deref h n = Some nd" "refs nd = 0" "getStructDataChildren nd = []" using Cons.prems(3) by auto
  let ?h1 = "h[n := None]" and ?ms = "meta_children nd @ getStructDataChildren nd"
  note i = inner_free [OF nd(1)]
  have z: "count (E + inner h) n = 0" using consistent_refs [OF Cons.prems(1) nd(1)] nd(2) by simp
  have d1: "deref ?h1 m = (if m = n then None else deref h m)" for m
    using deref_length [OF nd(1)] by (simp add: deref_update)
  have "consistent (E + mset ?ms) ?h1"
    unfolding consistent_def
  proof (intro conjI allI impI)
    fix m md assume "deref ?h1 m = Some md"
    then show "refs md = int (count (E + mset ?ms + inner ?h1) m)"
      using consistent_refs [OF Cons.prems(1)] i by (simp add: d1 all_children_def nd(3) split: if_splits)
  next
    fix m assume "m \<in># E + mset ?ms + inner ?h1"
    then have "m \<in># E + inner h" unfolding i by (auto simp: all_children_def)
    moreover from this have "m \<noteq> n" using z by (metis not_in_iff)
    ultimately show "deref ?h1 m \<noteq> None" using consistent_live [OF Cons.prems(1), of m] by (auto simp: d1)
  qed
  then obtain h2 where h2: "release_refs no_collect ?h1 ?ms = Inr h2" "consistent E h2" "shrinks ?h1 h2" "keeps_zero ?h1 h2"
    using suspended.release_refs_ok by blast
  have h2m: "h2 = ?h1" if "meta nd = None"
    using h2(1) nd(3) that by (simp add: meta_children_def release_refs_def)
  have kept: "deref h2 m = Some md" if "deref h m = Some md" "refs md = 0" "m \<noteq> n" for m md
    using h2(4) that unfolding keeps_zero_def by (simp add: d1)
  have n2: "deref h2 n = None"
    using h2(3) unfolding shrinks_def by (metis d1 not_Some_eq)
  have "\<forall>m\<in>set ns. \<exists>md. deref h2 m = Some md \<and> refs md = 0 \<and> getStructDataChildren md = []"
    using Cons.prems(2,3) kept by fastforce
  then obtain h' where h': "delete_all h2 ns = Inr h'" "consistent E h'" "shrinks h2 h'" "\<forall>n\<in>set ns. deref h' n = None"
      "\<forall>n nd. n \<notin> set ns \<longrightarrow> deref h2 n = Some nd \<and> refs nd = 0 \<longrightarrow> deref h' n = Some nd"
      "(\<forall>n nd. deref h2 n = Some nd \<longrightarrow> meta nd = None) \<longrightarrow> (\<forall>n. n \<notin> set ns \<longrightarrow> deref h' n = deref h2 n)"
    using Cons.IH [OF h2(2)] Cons.prems(2) by auto
  have "deref h' n = None" using h'(3) n2 unfolding shrinks_def by (metis not_Some_eq)
  moreover have "shrinks h h'" using shrinks_trans [OF shrinks_free shrinks_trans [OF h2(3) h'(3)]] .
  moreover have "delete_all h (n # ns) = Inr h'" using h2(1) h'(1) nd by simp
  moreover have "\<forall>m. m \<notin> set (n # ns) \<longrightarrow> deref h' m = deref h m" if "\<forall>n nd. deref h n = Some nd \<longrightarrow> meta nd = None"
    using h'(6) h2m that nd(1) by (auto simp: d1 split: if_splits)
  ultimately show ?case using h'(2,4,5) kept by auto
qed simp


lemma inner_shift [simp]: "inner (shift g h) = inner h"
proof -
  have "map block_refs (shift g h) = map block_refs h"
    by (rule nth_equalityI) (auto simp: shift_def block_refs_def split: option.splits)
  then show ?thesis by (simp add: inner_def)
qed

lemma kids_inner: "distinct ns \<Longrightarrow> mset (kids h ns) \<subseteq># inner h"
proof (induction ns arbitrary: h)
  case (Cons n ns)
  show ?case
  proof (cases "deref h n")
    case None
    with Cons show ?thesis by simp
  next
    case (Some nd)
    have "kids (h[n := None]) ns = kids h ns" using Cons.prems by (intro kids_cong) (auto simp: deref_update)
    with Cons have "mset (kids h ns) \<subseteq># inner (h[n := None])" by (metis distinct.simps(2))
    then have "mset (kids h ns) \<subseteq># mset (meta_children nd) + inner (h[n := None])"
      by (rule subset_mset.order_trans [OF _ mset_subset_eq_add_right])
    then show ?thesis using inner_free [OF Some] Some by (simp add: all_children_def ac_simps)
  qed
qed simp

lemma inner_empty_at: "distinct ds \<Longrightarrow> inner (empty_at (set ds) h) + mset (kids h ds) = inner h"
proof (induction ds)
  case (Cons n ds)
  show ?case
  proof (cases "deref h n")
    case None
    then have "empty_at (set (n # ds)) h = empty_at (set ds) h"
      by (intro heap_eqI) (auto intro!: map_option_cong)
    with Cons None show ?thesis by simp
  next
    case (Some nd)
    have d: "deref (empty_at (set ds) h) n = Some nd" using Cons.prems Some by simp
    have "empty_at (set (n # ds)) h = (empty_at (set ds) h)[n := Some (emptied nd)]"
      using deref_length [OF Some] by (intro heap_eqI) (auto simp: deref_update Some intro!: map_option_cong)
    then have "inner (empty_at (set (n # ds)) h) + mset (all_children nd) = inner (empty_at (set ds) h) + mset (meta_children nd)"
      using inner_update [OF d, of "Some (emptied nd)"] by (simp add: block_refs_def all_children_def)
    then have "inner (empty_at (set (n # ds)) h) + mset (getStructDataChildren nd) = inner (empty_at (set ds) h)"
      by (simp add: all_children_def)
    moreover have "inner (empty_at (set ds) h) + mset (kids h ds) = inner h" using Cons by simp
    ultimately show ?thesis using Some by (simp add: union_assoc [symmetric])
  qed
qed simp

lemma kids_split: "mset (kids h (filter P ns)) + mset (kids h (filter (\<lambda>n. \<not> P n) ns)) = mset (kids h ns)"
  by (induction ns) (auto split: option.splits simp: ac_simps)

lemma in_kids: "c \<in> set (kids h ns) \<longleftrightarrow> (\<exists>n\<in>set ns. \<exists>nd. deref h n = Some nd \<and> c \<in> set (getStructDataChildren nd))"
  by (induction ns) (auto split: option.splits)

lemma safe_walkable:
  assumes "consistent E h" "deref h root = Some rd" "safe h root"
  shows "walkable h (reach h {root})"
proof -
  obtain Q where Q: "root \<in> Q" "closed h Q" using assms(3) by (auto simp: safe_def)
  have "m \<in> Q \<and> (\<exists>nd. deref h m = Some nd)" if "m \<in> reach h {root}" for m
    using that
  proof (induction rule: reach_induct)
    case (base n)
    with Q assms show ?case by simp
  next
    case (step m nd c)
    then have "c \<in> set (all_children nd)" by (simp add: all_children_def)
    with step Q show ?case using consistent_child [OF assms(1)] unfolding closed_def by blast
  qed
  then show ?thesis unfolding walkable_def using Q(2) reach_step unfolding closed_def by blast
qed

text \<open>
  The situation of a collection: the gathered blocks \<open>N\<close>, the references to them from elsewhere, the
  blocks alive because of those, and the dead rest.
\<close>

lemma pending_count:
  assumes "consistent E h" "distinct nodes" "deref h n = Some nd"
  shows "pending h (kids h nodes) n = int (count (E + (inner h - mset (kids h nodes))) n)"
proof -
  have "count (mset (kids h nodes)) n \<le> count (inner h) n" using kids_inner [OF assms(2)] by (rule mset_subset_eq_count)
  then show ?thesis using consistent_refs [OF assms(1,3)]
    by (simp add: pending_def refs_of_def assms(3) of_nat_diff count_mset)
qed

lemma dead_counts:
  assumes c: "consistent E h" and w: "walkable h N" and nodes: "set nodes = N" "distinct nodes"
    and ext: "ext = filter (\<lambda>n. 0 < pending h (kids h nodes) n) nodes"
    and alive: "A = reach h (set ext)" and dead: "dead = filter (\<lambda>n. n \<notin> A) nodes"
  shows "\<forall>n\<in>set dead. \<exists>nd. deref h n = Some nd \<and> refs nd = int (count_list (kids h dead) n)"
    and "\<forall>n\<in>set (kids h dead). n \<notin> set dead \<longrightarrow> (\<exists>nd. deref h n = Some nd \<and> int (count_list (kids h dead) n) < refs nd)"
proof -
  define X where "X = E + (inner h - mset (kids h nodes))"
  let ?KA = "mset (kids h (filter (\<lambda>n. n \<in> A) nodes))"
  have K: "?KA + mset (kids h dead) = mset (kids h nodes)" unfolding dead by (rule kids_split)
  have all: "E + inner h = X + mset (kids h nodes)"
    unfolding X_def union_assoc subset_mset.diff_add [OF kids_inner [OF nodes(2), of h]] ..
  have tot: "refs nd = int (count X n + count ?KA n + count_list (kids h dead) n)" if "deref h n = Some nd" for n nd
    using consistent_refs [OF c that] unfolding all K [symmetric] by (simp only: count_union count_mset add.assoc)
  have live: "\<exists>nd. deref h n = Some nd" if "n \<in> N" for n using walkableD [OF w that] by auto
  have extX: "set ext = {n \<in> N. n \<in># X}"
  proof -
    have "0 < pending h (kids h nodes) n \<longleftrightarrow> n \<in># X" if "n \<in> N" for n
      using live [OF that] pending_count [OF c nodes(2)] by (auto simp: X_def [symmetric] simp del: count_greater_zero_iff
          simp: count_greater_zero_iff [symmetric])
    then show ?thesis using nodes(1) by (auto simp: ext)
  qed
  have AN: "A \<subseteq> N" unfolding alive using reach_least [OF _ w] extX by blast
  have Achild: "set (kids h (filter (\<lambda>n. n \<in> A) nodes)) \<subseteq> A"
    using reach_step unfolding alive by (auto simp: in_kids)
  show "\<forall>n\<in>set dead. \<exists>nd. deref h n = Some nd \<and> refs nd = int (count_list (kids h dead) n)"
  proof
    fix n assume "n \<in> set dead"
    then have n: "n \<in> N" "n \<notin> A" using nodes by (auto simp: dead)
    obtain nd where nd: "deref h n = Some nd" using live [OF n(1)] by auto
    have "count X n = 0" using n extX reach_base [of "set ext" h] by (auto simp: alive not_in_iff)
    moreover have "count ?KA n = 0" using Achild n(2) by (auto simp: not_in_iff [symmetric])
    ultimately show "\<exists>nd. deref h n = Some nd \<and> refs nd = int (count_list (kids h dead) n)" using tot [OF nd] nd by simp
  qed
  show "\<forall>n\<in>set (kids h dead). n \<notin> set dead \<longrightarrow> (\<exists>nd. deref h n = Some nd \<and> int (count_list (kids h dead) n) < refs nd)"
  proof (intro ballI impI)
    fix n assume "n \<in> set (kids h dead)" "n \<notin> set dead"
    then have "n \<in> N" using walkable_child [OF w] nodes(1) by (fastforce simp: in_kids dead)
    with \<open>n \<notin> set dead\<close> have nA: "n \<in> A" using nodes(1) by (auto simp: dead)
    obtain nd where nd: "deref h n = Some nd" using live [OF \<open>n \<in> N\<close>] by auto
    from nA have "n \<in> reach h (set ext)" unfolding alive .
    then have "0 < count X n + count ?KA n"
    proof (induction rule: reach_induct)
      case (base n)
      then show ?case using extX by simp
    next
      case (step m md c)
      then have "m \<in> A" "m \<in> N" using AN by (auto simp: alive)
      then have "c \<in> set (kids h (filter (\<lambda>n. n \<in> A) nodes))" using step nodes(1) by (auto simp: in_kids)
      then show ?case by (metis add_gr_0 count_greater_zero_iff set_mset_mset)
    qed
    then have "int (count_list (kids h dead) n) < refs nd" using tot [OF nd] by linarith
    with nd show "\<exists>nd. deref h n = Some nd \<and> int (count_list (kids h dead) n) < refs nd" by simp
  qed
qed


lemma inner_member: "x \<in># inner h \<Longrightarrow> \<exists>m nd. deref h m = Some nd \<and> x \<in> set (all_children nd)"
proof -
  assume "x \<in># inner h"
  then obtain b where "b \<in> set h" "x \<in># block_refs b" by (auto simp: inner_def)
  then show ?thesis by (auto simp: block_refs_def in_set_conv_nth deref_def split: option.splits)
qed

lemma outside_member:
  "distinct ns \<Longrightarrow> x \<in># inner h - mset (kids h ns) \<Longrightarrow>
   \<exists>m nd. deref h m = Some nd \<and> (m \<notin> set ns \<and> x \<in> set (all_children nd) \<or> x \<in> set (meta_children nd))"
proof (induction ns arbitrary: h)
  case Nil
  then show ?case using inner_member [of x h] by auto
next
  case (Cons n ns)
  show ?case
  proof (cases "deref h n")
    case None
    then have "x \<in># inner h - mset (kids h ns)" using Cons.prems(2) by simp
    from Cons.IH [OF _ this] Cons.prems(1)
    obtain m nd where "deref h m = Some nd" "m \<notin> set ns \<and> x \<in> set (all_children nd) \<or> x \<in> set (meta_children nd)"
      by auto
    with None show ?thesis by (intro exI [of _ m] exI [of _ nd]) auto
  next
    case (Some nd)
    let ?h1 = "h[n := None]"
    have k: "kids ?h1 ns = kids h ns" using Cons.prems by (intro kids_cong) (auto simp: deref_update)
    have "mset (kids h ns) \<subseteq># inner ?h1" using kids_inner [of ns ?h1] Cons.prems(1) k by simp
    then have "inner h - mset (kids h (n # ns)) = mset (meta_children nd) + (inner ?h1 - mset (kids h ns))"
      using inner_free [OF Some] by (simp add: Some all_children_def multiset_eq_iff subseteq_mset_def) (simp add: add.commute)
    with Cons.prems(2) have "x \<in> set (meta_children nd) \<or> x \<in># inner ?h1 - mset (kids h ns)" by auto
    then show ?thesis
    proof
      assume "x \<in># inner ?h1 - mset (kids h ns)"
      then obtain m md where m: "deref ?h1 m = Some md" "m \<notin> set ns \<and> x \<in> set (all_children md) \<or> x \<in> set (meta_children md)"
        using Cons.IH [of ?h1] Cons.prems(1) k by auto
      then have "deref h m = Some md" "m \<noteq> n" using deref_length [OF Some] by (auto simp: deref_update split: if_splits)
      with m show ?thesis by (intro exI [of _ m] exI [of _ md]) auto
    qed (use Some in blast)
  qed
qed

text \<open>The collector meets its contract, and without metadata leaves no garbage it could reach.\<close>

lemma tryCollectCycles_ok:
  assumes c: "consistent E h" and root: "deref h root = Some rd" "0 < refs rd" and safe: "safe h root"
  shows "\<exists>h'. tryCollectCycles h root = Inr h' \<and> consistent E h' \<and> shrinks h h' \<and> keeps_zero h h' \<and>
    (tidy (add_mset root E) h \<longrightarrow> tidy E h')"
proof -
  define N where "N = reach h {root}"
  have w: "walkable h N" unfolding N_def by (rule safe_walkable [OF c root(1) safe])
  have rN: "root \<in> N" using reach_base [of "{root}" h] by (simp add: N_def)
  have "walk_inv h N {root} [root] [root] []" using rN by (auto simp: walk_inv_def N_def)
  then obtain seen nodes where walk1: "walk (Suc (length h)) h [root] [root] [] = Inr (seen, nodes)"
      and nodes: "set nodes = N" "distinct nodes"
    using walk_ok [of h N "{root}" "[root]" "[root]" "[]" "Suc (length h)"] w by (auto simp: N_def)
  have live: "\<exists>nd. deref h n = Some nd \<and> \<not> busy nd" if "n \<in> N" for n using walkableD [OF w that] .
  have internal: "children_of h nodes = Inr (kids h nodes)" using live nodes(1) by (intro children_of_eq) auto
  define ext where "ext = filter (\<lambda>n. 0 < pending h (kids h nodes) n) nodes"
  define A where "A = reach h (set ext)"
  have ext: "set ext \<subseteq> N" "distinct ext" using nodes by (auto simp: ext_def)
  have "walk_inv h N (set ext) (rev ext) ext []"
    using ext reach_base [of "set ext" h] by (auto simp: walk_inv_def)
  then obtain alive marked where walk2: "walk (Suc (length h)) h (rev ext) ext [] = Inr (alive, marked)" "set alive = A"
    using walk_ok [of h N "set ext" "rev ext" ext "[]" "Suc (length h)"] w by (auto simp: A_def)
  define dead where "dead = filter (\<lambda>n. n \<notin> set alive) nodes"
  have dead': "dead = filter (\<lambda>n. n \<notin> A) nodes" by (simp add: dead_def walk2(2))
  have dN: "set dead \<subseteq> N" "distinct dead" using nodes by (auto simp: dead')
  note counts = dead_counts [OF c w nodes ext_def A_def dead']
  let ?D = "set dead" and ?k = "\<lambda>m. int (count_list (kids h dead) m)"
  define h1 where "h1 = shift (\<lambda>m. 1 * int (count_list dead m)) h"
  define h2 where "h2 = empty_at ?D (shift (\<lambda>m. - ?k m) h1)"
  define h3 where "h3 = empty_at ?D (shift (\<lambda>m. - ?k m) h)"
  have a1: "add_refs 1 h dead = Inr h1" unfolding h1_def using live dN by (intro add_refs_eq) force
  have k1: "kids h1 dead = kids h dead" unfolding h1_def by (intro kids_cong) (auto split: option.splits)
  have one: "count_list dead m = 1" if "m \<in> ?D" for m using that dN(2) by (metis count_mset distinct_count_atmost_1)
  have a2: "clear_all h1 dead = Inr h2"
    unfolding h2_def k1 [symmetric]
  proof (rule clear_all_dead)
    show "\<forall>n\<in>?D. \<exists>nd. deref h1 n = Some nd \<and> \<not> busy nd" using live dN(1) unfolding h1_def by fastforce
    show "\<forall>m\<in>set (kids h1 dead). \<exists>md. deref h1 m = Some md \<and> int (count_list (kids h1 dead) m) < refs md"
      unfolding k1
    proof
      fix m assume m: "m \<in> set (kids h dead)"
      show "\<exists>md. deref h1 m = Some md \<and> ?k m < refs md"
      proof (cases "m \<in> ?D")
        case True
        with counts(1) show ?thesis using one [OF True] by (fastforce simp: h1_def)
      next
        case False
        with counts(2) m show ?thesis by (fastforce simp: h1_def)
      qed
    qed
  qed (rule dN(2))
  have a3: "add_refs (-1) h2 dead = Inr h3"
  proof -
    have "add_refs (-1) h2 dead = Inr (shift (\<lambda>m. (-1) * int (count_list dead m)) h2)"
      using live dN(1) by (intro add_refs_eq) (force simp: h2_def h1_def)
    also have "shift (\<lambda>m. (-1) * int (count_list dead m)) h2 = h3"
      unfolding h2_def h1_def h3_def shift_empty_at shift_shift by (rule arg_cong [of _ _ "empty_at ?D"], rule shift_cong) simp
    finally show ?thesis .
  qed
  have i3: "inner h3 + mset (kids h dead) = inner h"
  proof -
    have "kids (shift (\<lambda>m. - ?k m) h) dead = kids h dead" by (intro kids_cong) (auto split: option.splits)
    then show ?thesis using inner_empty_at [OF dN(2), of "shift (\<lambda>m. - ?k m) h"] by (simp add: h3_def)
  qed
  have d3: "deref h3 n = map_option (\<lambda>nd. let nd' = nd\<lparr>refs := refs nd - ?k n\<rparr> in if n \<in> ?D then emptied nd' else nd') (deref h n)" for n
    by (simp add: h3_def option.map_comp comp_def Let_def)
  have c3: "consistent E h3"
    unfolding consistent_def
  proof (intro conjI allI impI)
    fix n nd assume "deref h3 n = Some nd"
    then obtain md where md: "deref h n = Some md" "refs nd = refs md - ?k n" by (auto simp: d3 Let_def split: if_splits)
    show "refs nd = int (count (E + inner h3) n)"
      using consistent_refs [OF c md(1)] md(2) by (simp add: i3 [symmetric] count_mset)
  next
    fix n assume "n \<in># E + inner h3"
    then have "n \<in># E + inner h" using i3 [symmetric] by auto
    then show "deref h3 n \<noteq> None" using consistent_live [OF c] by (auto simp: d3)
  qed
  have z3: "\<forall>n\<in>?D. \<exists>nd. deref h3 n = Some nd \<and> refs nd = 0 \<and> getStructDataChildren nd = []"
    using counts(1) by (fastforce simp: d3 Let_def)
  obtain h4 where h4: "delete_all h3 dead = Inr h4" "consistent E h4" "shrinks h3 h4" "\<forall>n\<in>?D. deref h4 n = None"
      "\<forall>n nd. n \<notin> ?D \<longrightarrow> deref h3 n = Some nd \<and> refs nd = 0 \<longrightarrow> deref h4 n = Some nd"
      "(\<forall>n nd. deref h3 n = Some nd \<longrightarrow> meta nd = None) \<longrightarrow> (\<forall>n. n \<notin> ?D \<longrightarrow> deref h4 n = deref h3 n)"
    using delete_all_ok [OF c3 dN(2) z3] by blast
  have res: "tryCollectCycles h root = Inr h4"
  proof (cases "dead = []")
    case True
    then have "h4 = h" using h4(1) by (simp add: h3_def shift_0)
    then show ?thesis using True root walk1 internal walk2(1)
      by (simp add: tryCollectCycles_def Let_def dead_def [symmetric] ext_def [symmetric])
  next
    case False
    then show ?thesis using root walk1 internal walk2(1) a1 a2 a3 h4(1)
      by (simp add: tryCollectCycles_def Let_def dead_def [symmetric] ext_def [symmetric])
  qed
  have sh: "shrinks h h4"
    unfolding shrinks_def
  proof (intro conjI allI impI)
    show "length h4 = length h" using h4(3) by (simp add: shrinks_def h3_def)
    fix n nd4 assume n: "deref h4 n = Some nd4"
    then have "n \<notin> ?D" using h4(4) by auto
    obtain nd3 where nd3: "deref h3 n = Some nd3" "nd4 = nd3\<lparr>refs := refs nd4\<rparr>" "refs nd4 \<le> refs nd3"
      using h4(3) n unfolding shrinks_def by blast
    obtain nd where nd: "deref h n = Some nd" "nd3 = nd\<lparr>refs := refs nd - ?k n\<rparr>"
      using nd3(1) \<open>n \<notin> ?D\<close> by (auto simp: d3)
    have "nd4 = nd\<lparr>refs := refs nd4\<rparr>" by (subst nd3(2), subst nd(2)) simp
    then show "\<exists>nd. deref h n = Some nd \<and> nd4 = nd\<lparr>refs := refs nd4\<rparr> \<and> refs nd4 \<le> refs nd"
      using nd nd3(3) by (intro exI [of _ nd]) simp
  qed
  have pos: "0 < refs nd" if "n \<in> N" "deref h n = Some nd" for n nd
    using that unfolding N_def
  proof (induction arbitrary: nd rule: reach_induct)
    case (step m md c)
    then have "c \<in># inner h" using children_inner [of h m md c] by (simp add: all_children_def)
    then have "0 < count (E + inner h) c" by simp
    then show ?case using consistent_refs [OF c step(5)] by linarith
  qed (use root in simp)
  have kz: "keeps_zero h h4"
    unfolding keeps_zero_def
  proof (intro allI impI)
    fix n nd assume n: "deref h n = Some nd \<and> refs nd = 0"
    then have "n \<notin> N" using pos by fastforce
    have "count (inner h) n = 0" using consistent_refs [OF c] n by fastforce
    then have "?k n = 0" by (simp add: i3 [symmetric] count_mset)
    then have "deref h3 n = Some nd" using n \<open>n \<notin> N\<close> dN(1) by (auto simp: d3)
    then show "deref h4 n = Some nd" using h4(5) n \<open>n \<notin> N\<close> dN(1) by auto
  qed
  have "n \<in> reach h (set_mset E)" if "\<forall>n nd. deref h n = Some nd \<longrightarrow> meta nd = None"
      "\<forall>n. deref h n \<noteq> None \<longrightarrow> n \<in> reach h (insert root (set_mset E))" "deref h4 n \<noteq> None" for n
  proof -
    have split: "m \<in> N \<or> m \<in> reach h (set_mset E)" if "deref h m \<noteq> None" for m
      using \<open>\<forall>n. deref h n \<noteq> None \<longrightarrow> _\<close> that reach_union [of h "{root}" "set_mset E"] by (auto simp: N_def)
    have "set ext \<subseteq> reach h (set_mset E)"
    proof
      fix p assume p: "p \<in> set ext"
      then obtain pd where pd: "deref h p = Some pd" using live ext by blast
      have "p \<in># E + (inner h - mset (kids h nodes))"
        using p pending_count [OF c nodes(2) pd] by (auto simp: ext_def simp del: count_greater_zero_iff
            simp: count_greater_zero_iff [symmetric])
      then consider "p \<in># E" | "p \<in># inner h - mset (kids h nodes)" by auto
      then show "p \<in> reach h (set_mset E)"
      proof cases
        case 1
        then show ?thesis using reach_base [of "set_mset E" h] by auto
      next
        case 2
        then obtain m md where m: "deref h m = Some md" "m \<notin> N \<and> p \<in> set (all_children md) \<or> p \<in> set (meta_children md)"
          using outside_member [OF nodes(2)] nodes(1) by blast
        then have "m \<notin> N" "p \<in> set (getStructDataChildren md)"
          using that(1) by (auto simp: all_children_def meta_children_def)
        with split [of m] m(1) show ?thesis by (auto intro: reach_step)
      qed
    qed
    then have "A \<subseteq> reach h (set_mset E)" unfolding A_def by (rule reach_idem)
    moreover have "n \<notin> ?D" using that(3) h4(4) by auto
    moreover have "deref h n \<noteq> None" using that(3) sh unfolding shrinks_def by (metis not_Some_eq)
    ultimately show ?thesis using split [of n] nodes(1) by (auto simp: dead')
  qed
  note swept = this
  have "tidy E h4" if t: "tidy (add_mset root E) h"
    unfolding tidy_def
  proof (intro conjI allI impI)
    fix n nd assume "deref h4 n = Some nd"
    then show "meta nd = None" using shrinks_meta [OF sh] t unfolding tidy_def by metis
  next
    fix n assume "deref h4 n \<noteq> None"
    then have "n \<in> reach h (set_mset E)" using swept t unfolding tidy_def by simp
    then show "n \<in> reach h4 (set_mset E)" by (rule reach_shrinks [OF h4(2) sh order_refl])
  qed
  with res h4(2) sh kz show ?thesis by blast
qed

interpretation cycles: collector tryCollectCycles safe True
proof
  show "shrinks h h' \<Longrightarrow> safe h n \<Longrightarrow> safe h' n" for h h' n by (rule safe_shrinks)
  show "safe h n \<Longrightarrow> deref h n = Some nd \<Longrightarrow> c \<in> set (all_children nd) \<Longrightarrow> safe h c" for h n nd c by (rule safe_child)
qed (use tryCollectCycles_ok in blast)

end
