(* ===== verification/StructPrograms.thy ===== *)
theory StructPrograms
  imports CycleCollector
begin

text \<open>
  Programs over struct variables: what they compute is what they would compute with memory that is
  never freed, and the heap holds exactly the blocks the variables can reach. \<open>StructClear\<close> and
  \<open>ArrayClear\<close> are the exceptions: they run destructors while the container is being emptied.
\<close>

section \<open>Programs with memory that is never freed\<close>

record aworld =
  blocks :: "cval struct_data list"
  avars :: "cval list"

definition afield :: "aworld \<Rightarrow> nat \<Rightarrow> bytes \<Rightarrow> cval option" where
  "afield a y k = (case avars a ! y of StructV n \<Rightarrow> map_find k (smap (blocks a ! n)) | _ \<Rightarrow> None)"

definition aset :: "aworld \<Rightarrow> nat \<Rightarrow> cval \<Rightarrow> aworld" where
  "aset a x v = a\<lparr>avars := (avars a)[x := v]\<rparr>"

definition aupd :: "aworld \<Rightarrow> nat \<Rightarrow> (cval struct_data \<Rightarrow> cval struct_data) \<Rightarrow> aworld" where
  "aupd a n g = a\<lparr>blocks := (blocks a)[n := g (blocks a ! n)]\<rparr>"

definition avar_ok :: "aworld \<Rightarrow> nat \<Rightarrow> bool" where
  "avar_ok a x \<longleftrightarrow> x < length (avars a)"

fun astep :: "heap_op \<Rightarrow> aworld \<Rightarrow> aworld" where
  "astep (NewStruct x) a = (if \<not> avar_ok a x then a
     else \<lparr>blocks = blocks a @ [new_struct], avars = (avars a)[x := StructV (length (blocks a))]\<rparr>)"
| "astep (CopyVar x y) a = (if \<not> avar_ok a x \<or> \<not> avar_ok a y then a else aset a x (avars a ! y))"
| "astep (MakeArray x ys) a = (if \<not> avar_ok a x \<or> \<not> list_all (avar_ok a) ys then a
     else aset a x (ArrayV (map (\<lambda>y. avars a ! y) ys)))"
| "astep (GetElem x y i) a = (if \<not> avar_ok a x \<or> \<not> avar_ok a y then a else
     (case avars a ! y of ArrayV vs \<Rightarrow> if i < length vs then aset a x (vs ! i) else a | _ \<Rightarrow> a))"
| "astep (GetKey x y k) a = (if \<not> avar_ok a x \<or> \<not> avar_ok a y then a else
     (case afield a y k of Some v \<Rightarrow> aset a x v | None \<Rightarrow> a))"
| "astep (SetKey x k y) a = (if \<not> avar_ok a x \<or> \<not> avar_ok a y then a else
     (case avars a ! x of StructV n \<Rightarrow> aupd a n (structSet k (avars a ! y)) | _ \<Rightarrow> a))"
| "astep (AppendKey x k y) a = (if \<not> avar_ok a x \<or> \<not> avar_ok a y then a else
     (case (avars a ! x, afield a x k) of
        (StructV n, Some (ArrayV vs)) \<Rightarrow>
          aupd a n (\<lambda>p. p\<lparr>smap := insert_or_assign k (ArrayV (vs @ [avars a ! y])) (smap p)\<rparr>) | _ \<Rightarrow> a))"
| "astep (DeleteKey x k) a = (if \<not> avar_ok a x then a else
     (case avars a ! x of StructV n \<Rightarrow> aupd a n (\<lambda>p. snd (cf_structdelete p k None)) | _ \<Rightarrow> a))"
| "astep (DropVar x) a = (if \<not> avar_ok a x then a else aset a x (Plain []))"
| "astep (ClearStruct x ks) a = a"
| "astep (ClearArray x ks k) a = a"

definition arun :: "heap_op list \<Rightarrow> aworld \<Rightarrow> aworld" where
  "arun ops a = fold astep ops a"

definition astart :: "nat \<Rightarrow> aworld" where
  "astart k = \<lparr>blocks = [], avars = replicate k (Plain [])\<rparr>"

definition no_clear :: "heap_op \<Rightarrow> bool" where
  "no_clear x = (case x of ClearStruct y ks \<Rightarrow> False | ClearArray y ks k \<Rightarrow> False | _ \<Rightarrow> True)"

section \<open>The steps keep the heap exact\<close>

definition vrefs :: "cval list \<Rightarrow> nat multiset" where
  "vrefs vs = sum_list (map (\<lambda>v. mset (collectStructChildren v)) vs)"

definition quiet :: "heap \<Rightarrow> bool" where
  "quiet h \<longleftrightarrow> (\<forall>n nd. deref h n = Some nd \<longrightarrow> \<not> busy nd)"

definition heap_ok :: "nat multiset \<Rightarrow> heap \<Rightarrow> bool" where
  "heap_ok E h \<longleftrightarrow> consistent E h \<and> tidy E h \<and> quiet h"

definition agrees :: "heap \<Rightarrow> cval struct_data list \<Rightarrow> bool" where
  "agrees h bs \<longleftrightarrow> length h = length bs \<and> (\<forall>n nd. deref h n = Some nd \<longrightarrow> payload nd = bs ! n)"

definition related :: "world \<Rightarrow> aworld \<Rightarrow> bool" where
  "related w a \<longleftrightarrow> heap_ok (vrefs (vars w)) (heap w) \<and> vars w = avars a \<and> agrees (heap w) (blocks a)"

lemma quiet_safe: "quiet h \<Longrightarrow> safe h n"
  unfolding safe_def closed_def quiet_def by (intro exI [of _ UNIV]) simp

lemma agrees_shrinks: "shrinks h h' \<Longrightarrow> agrees h bs \<Longrightarrow> agrees h' bs"
  unfolding shrinks_def agrees_def by (metis node.select_convs(2) node.surjective node.update_convs(1))

lemma quiet_shrinks: "shrinks h h' \<Longrightarrow> quiet h \<Longrightarrow> quiet h'"
  unfolding quiet_def by (metis shrinks_children)

lemma vrefs_update: "x < length vs \<Longrightarrow> vrefs (vs[x := v]) + mset (collectStructChildren (vs ! x))
    = vrefs vs + mset (collectStructChildren v)"
  unfolding vrefs_def by (rule sum_list_update_cancel)

lemma vrefs_member: "y < length vs \<Longrightarrow> mset (collectStructChildren (vs ! y)) \<subseteq># vrefs vs"
  using vrefs_update [of y vs "Plain []"] mset_subset_eq_add_right [of "mset (collectStructChildren (vs ! y))" "vrefs (vs[y := Plain []])"]
  by simp

lemma destroy_ok:
  assumes "heap_ok (E + mset (collectStructChildren v)) h" "agrees h bs"
  shows "\<exists>h'. destroy h v = Inr h' \<and> heap_ok E h' \<and> agrees h' bs"
proof -
  have "\<exists>h'. release_refs tryCollectCycles h (collectStructChildren v) = Inr h' \<and> consistent E h' \<and> shrinks h h' \<and>
      keeps_zero h h' \<and> (True \<longrightarrow> tidy (E + mset (collectStructChildren v)) h \<longrightarrow> tidy E h')"
    using assms(1) quiet_safe by (intro cycles.release_refs_ok) (auto simp: heap_ok_def)
  then show ?thesis using assms quiet_shrinks agrees_shrinks unfolding heap_ok_def destroy_def by blast
qed

lemma tidy_mono: "tidy E h \<Longrightarrow> tidy (E + F) h"
  unfolding tidy_def by (metis reach_mono set_mset_union subsetD sup_ge1)

lemma tidy_shift: "tidy E h \<Longrightarrow> tidy E (shift g h)"
proof -
  assume "tidy E h"
  moreover have "edge (shift g h) = edge h" by (auto simp: edge_def)
  ultimately show ?thesis by (auto simp: tidy_def reach_def)
qed

lemma retain_eq: "\<forall>n\<in>set ns. deref h n \<noteq> None \<Longrightarrow> struct_data_retain h ns = Inr (shift (\<lambda>m. int (count_list ns m)) h)"
proof -
  have "struct_data_retain h ns = add_refs 1 h ns" by (induction ns arbitrary: h) (auto split: option.splits)
  then show "\<forall>n\<in>set ns. deref h n \<noteq> None \<Longrightarrow> ?thesis" by (simp add: add_refs_eq)
qed

lemma copy_variant_ok:
  assumes "heap_ok E h" "agrees h bs" "\<forall>n\<in>set (collectStructChildren v). deref h n \<noteq> None"
  shows "\<exists>h'. copy_variant h v = Inr h' \<and> heap_ok (E + mset (collectStructChildren v)) h' \<and> agrees h' bs \<and>
    (\<forall>n nd. deref h n = Some nd \<longrightarrow> (\<exists>r. deref h' n = Some (nd\<lparr>refs := r\<rparr>)))"
proof -
  let ?ks = "collectStructChildren v" and ?h = "shift (\<lambda>m. int (count_list (collectStructChildren v) m)) h"
  have "consistent (E + mset ?ks) ?h"
    unfolding consistent_def
  proof (intro conjI allI impI)
    fix n nd assume "deref ?h n = Some nd"
    then show "refs nd = int (count (E + mset ?ks + inner ?h) n)"
      using assms(1) by (auto simp: heap_ok_def consistent_def count_mset)
  next
    fix n assume "n \<in># E + mset ?ks + inner ?h"
    then show "deref ?h n \<noteq> None" using assms(1,3) consistent_live [of E h n] by (auto simp: heap_ok_def)
  qed
  moreover have "tidy (E + mset ?ks) ?h" using assms(1) by (simp add: heap_ok_def tidy_mono tidy_shift)
  moreover have "quiet ?h" using assms(1) by (auto simp: heap_ok_def quiet_def)
  moreover have "agrees ?h bs" using assms(2) by (auto simp: agrees_def)
  ultimately show ?thesis using retain_eq [OF assms(3)] by (auto simp: copy_variant_def heap_ok_def)
qed


definition pk :: "cval struct_data \<Rightarrow> nat list" where
  "pk p = concat (map (\<lambda>p. collectStructChildren (snd p)) (smap p))"

lemma pk_children: "getStructDataChildren nd = pk (payload nd)"
  by (simp add: getStructDataChildren_def pk_def)

text \<open>
  Changing the map of a block the variables hold: \<open>vs\<close> are the references it takes over, \<open>os\<close> those
  it gives up.
\<close>

lemma block_change:
  assumes h: "heap_ok (E + mset vs) h" "agrees h bs" and n: "n \<in> reach h (set_mset E)"
    and bal: "mset (pk (g (bs ! n))) + mset os = mset (pk (bs ! n)) + mset vs"
  shows "\<exists>h'. set_payload g h n = Inr h' \<and> heap_ok (E + mset os) h' \<and> agrees h' (bs[n := g (bs ! n)])"
proof -
  note c = h(1) [unfolded heap_ok_def, THEN conjunct1] and t = h(1) [unfolded heap_ok_def, THEN conjunct2, THEN conjunct1]
  have "n \<in> reach h (set_mset (E + mset vs))" using n reach_mono [of "set_mset E" "set_mset (E + mset vs)" h] by auto
  then obtain nd where nd: "deref h n = Some nd" using reach_live [OF c] by auto
  have p: "payload nd = bs ! n" using h(2) nd by (auto simp: agrees_def)
  let ?nd = "nd\<lparr>payload := g (payload nd)\<rparr>"
  let ?h = "h[n := Some ?nd]"
  have d: "deref ?h m = (if m = n then Some ?nd else deref h m)" for m
    using deref_length [OF nd] by (simp add: deref_update)
  have i: "inner ?h + mset os = inner h + mset vs"
  proof -
    have "inner ?h + mset (all_children nd) = inner h + mset (all_children ?nd)"
      using inner_update [OF nd, of "Some ?nd"] by (simp add: block_refs_def)
    then have "inner ?h + mset (pk (bs ! n)) = inner h + mset (pk (g (bs ! n)))"
      by (simp add: all_children_def p pk_children)
    then have "inner ?h + mset os + mset (pk (bs ! n)) = inner h + (mset (pk (g (bs ! n))) + mset os)"
      by (simp add: ac_simps)
    then show ?thesis unfolding bal by (simp add: ac_simps)
  qed
  have all: "E + mset os + inner ?h = E + mset vs + inner h"
    using i by (simp add: union_assoc union_commute [of "mset _" "inner _"])
  have "consistent (E + mset os) ?h"
    unfolding consistent_def all
  proof (intro conjI allI impI)
    fix m md assume "deref ?h m = Some md"
    then show "refs md = int (count (E + mset vs + inner h) m)"
      using consistent_refs [OF c, of m] nd by (auto simp: d split: if_splits)
  next
    fix m assume "m \<in># E + mset vs + inner h"
    then show "deref ?h m \<noteq> None" using consistent_live [OF c, of m] by (auto simp: d)
  qed
  moreover have "tidy (E + mset os) ?h"
    unfolding tidy_def
  proof (intro conjI allI impI)
    fix m md assume "deref ?h m = Some md"
    then show "meta md = None" using t nd by (auto simp: tidy_def d split: if_splits)
  next
    let ?S = "set_mset (E + mset os)"
    have sub: "set (pk (bs ! n)) \<union> set vs \<subseteq> set (pk (g (bs ! n))) \<union> set os"
      using arg_cong [OF bal, of set_mset] by auto
    have "m \<in> reach ?h ?S \<or> n \<in> reach ?h ?S" if "m \<in> reach h (set_mset E)" for m
      using that
    proof (induction rule: reach_induct)
      case (base m)
      then show ?case using reach_base [of ?S ?h] by auto
    next
      case (step m md x)
      then show ?case using reach_step [of m ?h ?S md x] d [of m] by (cases "m = n") auto
    qed
    then have n': "n \<in> reach ?h ?S" using n by blast
    have new: "c \<in> reach ?h ?S" if "c \<in> set (pk (bs ! n)) \<union> set vs" for c
    proof -
      have "c \<in> set (pk (g (bs ! n))) \<union> set os" using that sub by blast
      then show ?thesis
      proof
        assume "c \<in> set (pk (g (bs ! n)))"
        then show ?thesis using reach_step [OF n', of ?nd c] d [of n] by (simp add: p pk_children)
      qed (use reach_base [of ?S ?h] in auto)
    qed
    fix m assume "deref ?h m \<noteq> None"
    then have "m \<in> reach h (set_mset (E + mset vs))" using t nd by (auto simp: tidy_def d split: if_splits)
    then show "m \<in> reach ?h ?S"
    proof (induction rule: reach_induct)
      case (base m)
      then show ?case using new [of m] reach_base [of ?S ?h] by auto
    next
      case (step m md c)
      show ?case
      proof (cases "m = n")
        case True
        then show ?thesis using step nd new [of c] p by (simp add: pk_children)
      next
        case False
        with step show ?thesis using reach_step [OF step.IH, of md c] by (simp add: d)
      qed
    qed
  qed
  moreover have "quiet ?h" using h(1) nd by (auto simp: heap_ok_def quiet_def d split: if_splits)
  moreover have "agrees ?h (bs[n := g (bs ! n)])"
    unfolding agrees_def
  proof (intro conjI allI impI)
    show "length ?h = length (bs[n := g (bs ! n)])" using h(2) by (simp add: agrees_def)
    fix m md assume m: "deref ?h m = Some md"
    have n: "n < length bs" using h(2) deref_length [OF nd] by (simp add: agrees_def)
    show "payload md = bs[n := g (bs ! n)] ! m"
    proof (cases "m = n")
      case True
      with m n show ?thesis unfolding d by (auto simp: p)
    next
      case False
      with m h(2) show ?thesis unfolding d by (auto simp: agrees_def)
    qed
  qed
  ultimately show ?thesis by (simp add: set_payload_def nd heap_ok_def)
qed

definition val_refs :: "cval option \<Rightarrow> nat multiset" where
  "val_refs v = (case v of None \<Rightarrow> {#} | Some v \<Rightarrow> mset (collectStructChildren v))"

definition entry_refs :: "(bytes \<times> cval) list \<Rightarrow> nat multiset" where
  "entry_refs m = sum_list (map (\<lambda>p. mset (collectStructChildren (snd p))) m)"

lemma mset_pk: "mset (pk p) = entry_refs (smap p)"
  by (simp add: pk_def entry_refs_def mset_concat comp_def)

lemma insert_refs: "entry_refs (insert_or_assign k v m) + val_refs (map_find k m) = entry_refs m + mset (collectStructChildren v)"
  by (induction k v m rule: insert_or_assign.induct) (auto simp: entry_refs_def val_refs_def ac_simps)

lemma erase_refs: "entry_refs (map_erase k m) + val_refs (map_find k m) = entry_refs m"
  by (induction k m rule: map_erase.induct) (auto simp: entry_refs_def val_refs_def ac_simps)

lemma find_upcase: "map_find (upcase k) m = map_find k m"
  by (induction k m rule: map_find.induct) auto

lemma find_refs: "map_find k m = Some v \<Longrightarrow> set (collectStructChildren v) \<subseteq> set_mset (entry_refs m)"
  by (induction k m rule: map_find.induct) (auto simp: entry_refs_def split: if_splits)


text \<open>Each kind of step in turn.\<close>

lemma move_var_ok:
  assumes "heap_ok (vrefs (vars w) + mset (collectStructChildren v)) h" "agrees h bs" "x < length (vars w)"
  shows "\<exists>w'. move_var w x v h = Inr w' \<and> related w' \<lparr>blocks = bs, avars = (vars w)[x := v]\<rparr>"
proof -
  have "heap_ok (vrefs ((vars w)[x := v]) + mset (collectStructChildren (vars w ! x))) h"
    using assms(1) vrefs_update [OF assms(3), of v] by simp
  from destroy_ok [OF this assms(2)] show ?thesis by (auto simp: move_var_def related_def)
qed

lemma copy_to_var_ok:
  assumes "related w a" "x < length (vars w)" "\<forall>n\<in>set (collectStructChildren v). deref (heap w) n \<noteq> None"
  shows "\<exists>w'. copy_to_var w x v = Inr w' \<and> related w' (aset a x v)"
proof -
  obtain h' where h': "copy_variant (heap w) v = Inr h'"
      "heap_ok (vrefs (vars w) + mset (collectStructChildren v)) h'" "agrees h' (blocks a)"
    using copy_variant_ok [of "vrefs (vars w)" "heap w" "blocks a" v] assms by (auto simp: related_def)
  from move_var_ok [OF h'(2,3) assms(2)] show ?thesis using h'(1) assms(1)
    by (auto simp: copy_to_var_def aset_def related_def)
qed

lemma var_live:
  assumes "related w a" "y < length (vars w)" "n \<in> set (collectStructChildren (vars w ! y))"
  shows "\<exists>nd. deref (heap w) n = Some nd \<and> payload nd = blocks a ! n" "n \<in># vrefs (vars w)"
proof -
  show "n \<in># vrefs (vars w)" using vrefs_member [OF assms(2)] assms(3) by (metis mset_subset_eqD set_mset_mset)
  then have "\<exists>nd. deref (heap w) n = Some nd"
    using assms(1) consistent_live [of "vrefs (vars w)" "heap w" n] by (auto simp: related_def heap_ok_def)
  then show "\<exists>nd. deref (heap w) n = Some nd \<and> payload nd = blocks a ! n"
    using assms(1) by (auto simp: related_def agrees_def)
qed

lemma field_live:
  assumes "related w a" "y < length (vars w)"
  shows "field_of w y k = afield a y k \<and>
    (\<forall>v. field_of w y k = Some v \<longrightarrow> (\<forall>n\<in>set (collectStructChildren v). deref (heap w) n \<noteq> None))"
proof (cases "vars w ! y")
  case (StructV m)
  then obtain nd where nd: "deref (heap w) m = Some nd" "payload nd = blocks a ! m"
    using var_live [OF assms, of m] by auto
  have "deref (heap w) n \<noteq> None" if "map_find k (smap (payload nd)) = Some v" "n \<in> set (collectStructChildren v)" for v n
  proof -
    have "n \<in> set (getStructDataChildren nd)"
      using find_refs [OF that(1)] that(2) pk_children [of nd] mset_pk [of "payload nd"] by (metis set_mset_mset subsetD)
    then show ?thesis
      using consistent_child [of "vrefs (vars w)" "heap w" m nd n] assms(1) nd(1)
      by (auto simp: related_def heap_ok_def all_children_def)
  qed
  then show ?thesis using StructV nd assms(1) by (auto simp: field_of_def afield_def related_def)
qed (use assms(1) in \<open>auto simp: field_of_def afield_def related_def\<close>)

lemma with_heap_ok:
  "\<exists>h. r = Inr h \<and> heap_ok (vrefs (vars w)) h \<and> agrees h (blocks a) \<Longrightarrow> vars w = avars a \<Longrightarrow>
   \<exists>w'. with_heap w r = Inr w' \<and> related w' a"
  by (auto simp: with_heap_def related_def)

lemma old_value_refs: "mset (collectStructChildren (old_value nd k)) = val_refs (map_find k (smap (payload nd)))"
  by (auto simp: old_value_def val_refs_def split: option.splits)

lemma assign_key_ok:
  assumes "related w a" "x < length (vars w)" "y < length (vars w)" "vars w ! x = StructV n"
  shows "\<exists>h. assign_key (heap w) n k (vars w ! y) = Inr h \<and> heap_ok (vrefs (vars w)) h \<and>
    agrees h (blocks (aupd a n (structSet k (vars w ! y))))"
proof -
  let ?v = "vars w ! y" and ?E = "vrefs (vars w)"
  have n: "n \<in># ?E" using var_live(2) [OF assms(1,2)] assms(4) by simp
  then have nr: "n \<in> reach h (set_mset ?E)" for h using reach_base [of "set_mset ?E" h] by auto
  obtain h1 where h1: "copy_variant (heap w) ?v = Inr h1" "heap_ok (?E + mset (collectStructChildren ?v)) h1" "agrees h1 (blocks a)"
    using copy_variant_ok [of ?E "heap w" "blocks a" ?v] var_live(1) [OF assms(1,3)] assms(1) by (fastforce simp: related_def)
  obtain nd where nd: "deref h1 n = Some nd" "payload nd = blocks a ! n"
    using h1(2,3) n consistent_live [of "?E + mset (collectStructChildren ?v)" h1 n] by (auto simp: heap_ok_def agrees_def)
  let ?o = "collectStructChildren (old_value nd k)"
  have bal: "mset (pk (structSet k ?v (blocks a ! n))) + mset ?o = mset (pk (blocks a ! n)) + mset (collectStructChildren ?v)"
    using insert_refs [of k ?v "smap (payload nd)"] by (simp add: mset_pk old_value_refs nd(2) structSet_def Let_def)
  obtain h2 where h2: "set_payload (structSet k ?v) h1 n = Inr h2" "heap_ok (?E + mset ?o) h2"
      "agrees h2 ((blocks a)[n := structSet k ?v (blocks a ! n)])"
    using block_change [where g = "structSet k ?v", OF h1(2,3) nr bal] by blast
  from destroy_ok [OF h2(2,3)] show ?thesis using h1(1) h2(1) nd(1)
    by (auto simp: assign_key_def aupd_def)
qed

lemma append_key_ok:
  assumes "related w a" "x < length (vars w)" "y < length (vars w)" "vars w ! x = StructV n" "field_of w x k = Some (ArrayV vs)"
  shows "\<exists>h. append_key (heap w) n k vs (vars w ! y) = Inr h \<and> heap_ok (vrefs (vars w)) h \<and>
    agrees h (blocks (aupd a n (\<lambda>p. p\<lparr>smap := insert_or_assign k (ArrayV (vs @ [vars w ! y])) (smap p)\<rparr>)))"
proof -
  let ?v = "vars w ! y" and ?E = "vrefs (vars w)"
  let ?g = "\<lambda>p. p\<lparr>smap := insert_or_assign k (ArrayV (vs @ [?v])) (smap p)\<rparr> :: cval struct_data"
  have n: "n \<in># ?E" using var_live(2) [OF assms(1,2)] assms(4) by simp
  then have nr: "n \<in> reach h (set_mset ?E)" for h using reach_base [of "set_mset ?E" h] by auto
  obtain h1 where h1: "copy_variant (heap w) ?v = Inr h1" "heap_ok (?E + mset (collectStructChildren ?v)) h1" "agrees h1 (blocks a)"
    using copy_variant_ok [of ?E "heap w" "blocks a" ?v] var_live(1) [OF assms(1,3)] assms(1) by (fastforce simp: related_def)
  have "map_find k (smap (blocks a ! n)) = Some (ArrayV vs)"
    using field_live [OF assms(1,2), of k] assms(1,4,5) by (auto simp: afield_def related_def)
  then have bal: "mset (pk (?g (blocks a ! n))) + mset [] = mset (pk (blocks a ! n)) + mset (collectStructChildren ?v)"
    using insert_refs [of k "ArrayV (vs @ [?v])" "smap (blocks a ! n)"] by (simp add: mset_pk val_refs_def)
  from block_change [where g = ?g, OF h1(2,3) nr bal] show ?thesis
    using h1(1) by (auto simp: append_key_def aupd_def)
qed

lemma delete_key_ok:
  assumes "related w a" "x < length (vars w)" "vars w ! x = StructV n"
  shows "\<exists>h. delete_key (heap w) n k = Inr h \<and> heap_ok (vrefs (vars w)) h \<and>
    agrees h (blocks (aupd a n (\<lambda>p. snd (cf_structdelete p k None))))"
proof -
  let ?E = "vrefs (vars w)" and ?g = "\<lambda>p :: cval struct_data. snd (cf_structdelete p k None)"
  obtain nd where nd: "deref (heap w) n = Some nd" "payload nd = blocks a ! n" and n: "n \<in># ?E"
    using var_live [OF assms(1,2), of n] assms(3) by auto
  have nr: "n \<in> reach (heap w) (set_mset ?E)" using n reach_base [of "set_mset ?E" "heap w"] by auto
  let ?o = "collectStructChildren (old_value nd k)"
  have h: "heap_ok (?E + mset []) (heap w)" "agrees (heap w) (blocks a)" using assms(1) unfolding related_def by auto
  have bal: "mset (pk (?g (blocks a ! n))) + mset ?o = mset (pk (blocks a ! n)) + mset []"
    using erase_refs [of "upcase k" "smap (payload nd)"]
    by (auto simp: mset_pk old_value_refs nd(2) cf_structdelete_def Let_def map_contains_def find_upcase val_refs_def struct_data_bump_def)
  obtain h2 where h2: "set_payload ?g (heap w) n = Inr h2" "heap_ok (?E + mset ?o) h2" "agrees h2 ((blocks a)[n := ?g (blocks a ! n)])"
    using block_change [where g = ?g, OF h nr bal] by blast
  from destroy_ok [OF h2(2,3)] show ?thesis using h2(1) nd(1) by (auto simp: delete_key_def aupd_def)
qed


lemma new_struct_step_ok:
  assumes "related w a" "x < length (vars w)"
  shows "\<exists>w'. heap_step (NewStruct x) w = Inr w' \<and> related w' (astep (NewStruct x) a)"
proof -
  let ?h = "heap w @ [Some new_node]" and ?E = "vrefs (vars w)" and ?n = "length (heap w)"
  note r = assms(1) [unfolded related_def heap_ok_def]
  have d: "deref ?h m = (if m = ?n then Some new_node else deref (heap w) m)" for m
    by (auto simp: deref_def nth_append)
  have kids: "all_children new_node = []" by (simp add: all_children_def getStructDataChildren_def meta_children_def new_node_def new_struct_def)
  then have i: "inner ?h = inner (heap w)" by (simp add: inner_def block_refs_def)
  have dead: "deref (heap w) ?n = None" by (simp add: deref_def)
  have z: "count (?E + inner (heap w)) ?n = 0"
    using r dead consistent_live [of ?E "heap w" ?n] by (auto simp: not_in_iff [symmetric])
  have "consistent (?E + {#?n#}) ?h"
    unfolding consistent_def i
  proof (intro conjI allI impI)
    fix m md assume m: "deref ?h m = Some md"
    show "refs md = int (count (?E + {#?n#} + inner (heap w)) m)"
    proof (cases "m = ?n")
      case True
      then have "md = new_node" using m d [of m] by simp
      with True z show ?thesis by (simp add: new_node_def)
    next
      case False
      with m show ?thesis using r consistent_refs [of ?E "heap w" m md] by (auto simp: d)
    qed
  next
    fix m assume "m \<in># ?E + {#?n#} + inner (heap w)"
    then show "deref ?h m \<noteq> None" using r consistent_live [of ?E "heap w" m] by (auto simp: d)
  qed
  moreover have "tidy (?E + {#?n#}) ?h"
  proof -
    have e: "edge (heap w) \<subseteq> edge ?h"
      using dead by (auto simp: edge_def d)
    have "m \<in> reach ?h (set_mset (?E + {#?n#}))" if "deref ?h m \<noteq> None" for m
    proof (cases "m = ?n")
      case True
      then show ?thesis using reach_base [of "set_mset (?E + {#?n#})" ?h] by auto
    next
      case False
      then have "m \<in> reach (heap w) (set_mset ?E)" using that r by (auto simp: tidy_def d)
      then show ?thesis unfolding reach_def using rtrancl_mono [OF e] by auto
    qed
    moreover have "meta md = None" if "deref ?h m = Some md" for m md
    proof (cases "m = ?n")
      case True
      then have "md = new_node" using that d [of m] by simp
      then show ?thesis by (simp add: new_node_def)
    next
      case False
      then show ?thesis using that r d [of m] by (auto simp: tidy_def)
    qed
    ultimately show ?thesis unfolding tidy_def by blast
  qed
  moreover have "quiet ?h"
    unfolding quiet_def
  proof (intro allI impI)
    fix m md assume "deref ?h m = Some md"
    then have "md = new_node \<or> deref (heap w) m = Some md" using d [of m] by (auto split: if_splits)
    then show "\<not> busy md" using r by (auto simp: quiet_def new_node_def)
  qed
  ultimately have ok: "heap_ok (?E + mset (collectStructChildren (StructV ?n))) ?h" by (simp add: heap_ok_def)
  have ag: "agrees ?h (blocks a @ [new_struct])"
    unfolding agrees_def
  proof (intro conjI allI impI)
    show "length ?h = length (blocks a @ [new_struct])" using r by (simp add: agrees_def)
    fix m md assume m: "deref ?h m = Some md"
    show "payload md = (blocks a @ [new_struct]) ! m"
    proof (cases "m = ?n")
      case True
      then have "md = new_node" using m d [of m] by simp
      then show ?thesis using r True by (simp add: new_node_def agrees_def nth_append)
    next
      case False
      then have "deref (heap w) m = Some md" using m d [of m] by simp
      then show ?thesis using r deref_length [of "heap w" m md] by (auto simp: agrees_def nth_append)
    qed
  qed
  show ?thesis using move_var_ok [OF ok ag assms(2)] assms r
    by (auto simp: var_ok_def avar_ok_def agrees_def)
qed

lemma aset_eq: "aset a x v = \<lparr>blocks = blocks a, avars = (avars a)[x := v]\<rparr>"
  by (cases a) (simp add: aset_def)

lemma heap_step_ok:
  assumes "related w a" "no_clear x"
  shows "\<exists>w'. heap_step x w = Inr w' \<and> related w' (astep x a)"
proof -
  have v: "vars w = avars a" and ok: "var_ok w = avar_ok a"
    using assms(1) by (auto simp: related_def var_ok_def avar_ok_def fun_eq_iff)
  have live: "\<forall>n\<in>set (collectStructChildren (vars w ! y)). deref (heap w) n \<noteq> None" if "var_ok w y" for y
    using var_live(1) [OF assms(1), of y] that by (fastforce simp: var_ok_def)
  show ?thesis
  proof (cases x)
    case (NewStruct y)
    then show ?thesis using new_struct_step_ok [OF assms(1), of y] assms(1) v
      by (cases "y < length (vars w)") (auto simp: var_ok_def avar_ok_def)
  next
    case (CopyVar y z)
    then show ?thesis using copy_to_var_ok [OF assms(1), of y "vars w ! z"] live [of z] assms(1) v ok
      by (cases "var_ok w y \<and> var_ok w z") (auto simp: var_ok_def avar_ok_def)
  next
    case (MakeArray y zs)
    have "\<forall>n\<in>set (collectStructChildren (ArrayV (map (\<lambda>z. vars w ! z) zs))). deref (heap w) n \<noteq> None" if "list_all (var_ok w) zs"
      using that live by (auto simp: list_all_iff)
    then show ?thesis using copy_to_var_ok [OF assms(1), of y "ArrayV (map (\<lambda>z. vars w ! z) zs)"] assms(1) v ok MakeArray
      by (cases "var_ok w y \<and> list_all (var_ok w) zs") (auto simp: var_ok_def avar_ok_def)
  next
    case (GetElem y z i)
    have "\<forall>n\<in>set (collectStructChildren (vs ! i)). deref (heap w) n \<noteq> None" if "var_ok w z" "vars w ! z = ArrayV vs" "i < length vs" for vs
      using live [OF that(1)] that nth_mem [OF that(3)] by auto
    then show ?thesis using copy_to_var_ok [OF assms(1), of y] assms(1) v ok GetElem
      by (cases "var_ok w y \<and> var_ok w z"; cases "vars w ! z") (auto simp: var_ok_def avar_ok_def)
  next
    case (GetKey y z k)
    show ?thesis
    proof (cases "var_ok w y \<and> var_ok w z")
      case True
      then have "field_of w z k = afield a z k" "\<forall>v. afield a z k = Some v \<longrightarrow> (\<forall>n\<in>set (collectStructChildren v). deref (heap w) n \<noteq> None)"
        using field_live [OF assms(1), of z k] by (auto simp: var_ok_def avar_ok_def)
      then show ?thesis using copy_to_var_ok [OF assms(1), of y] True assms(1) v ok GetKey
        by (cases "afield a z k") (auto simp: var_ok_def avar_ok_def)
    next
      case False
      then show ?thesis using assms(1) ok GetKey by auto
    qed
  next
    case (SetKey y k z)
    then show ?thesis using assign_key_ok [OF assms(1), of y z _ k] assms(1) v ok with_heap_ok
      by (cases "var_ok w y \<and> var_ok w z"; cases "vars w ! y") (auto simp: var_ok_def avar_ok_def aupd_def intro!: with_heap_ok)
  next
    case (AppendKey y k z)
    show ?thesis
    proof (cases "var_ok w y \<and> var_ok w z \<and> (\<exists>n vs. vars w ! y = StructV n \<and> field_of w y k = Some (ArrayV vs))")
      case True
      then obtain n vs where t: "var_ok w y" "var_ok w z" "vars w ! y = StructV n" "field_of w y k = Some (ArrayV vs)" by auto
      then have "afield a y k = Some (ArrayV vs)" using field_live [OF assms(1), of y k] by (simp add: var_ok_def)
      then show ?thesis using append_key_ok [OF assms(1) _ _ t(3,4), of z] t v ok AppendKey
        by (auto simp: var_ok_def avar_ok_def aupd_def intro!: with_heap_ok)
    next
      case False
      then show ?thesis using assms(1) ok v field_live [OF assms(1), of y k] AppendKey
        by (auto simp: var_ok_def avar_ok_def split: cval.splits option.splits)
    qed
  next
    case (DeleteKey y k)
    then show ?thesis using delete_key_ok [OF assms(1), of y _ k] assms(1) v ok
      by (cases "var_ok w y"; cases "vars w ! y") (auto simp: var_ok_def avar_ok_def aupd_def intro!: with_heap_ok)
  next
    case (DropVar y)
    have "heap_ok (vrefs (vars w) + mset (collectStructChildren (Plain []))) (heap w)" "agrees (heap w) (blocks a)"
      using assms(1) by (auto simp: related_def)
    from move_var_ok [OF this, of y] show ?thesis using assms(1) v ok DropVar
      by (cases "var_ok w y") (auto simp: var_ok_def avar_ok_def aset_eq)
  qed (use assms(2) in \<open>simp_all add: no_clear_def\<close>)
qed


lemma run_heap_ok:
  "related w a \<Longrightarrow> list_all no_clear ops \<Longrightarrow> \<exists>w'. run_heap ops w = Inr w' \<and> related w' (arun ops a)"
proof (induction ops arbitrary: w a)
  case (Cons x xs)
  then obtain w1 where w1: "heap_step x w = Inr w1" "related w1 (astep x a)" using heap_step_ok [of w a x] by auto
  with Cons.IH [OF w1(2)] Cons.prems show ?case by (simp add: arun_def)
qed (simp add: arun_def)

lemma start_related: "related (start k) (astart k)"
proof -
  have "inner [] = {#}" "vrefs (replicate k (Plain [])) = {#}"
    by (induction k) (simp_all add: inner_def vrefs_def)
  then show ?thesis
    by (simp add: related_def start_def astart_def agrees_def heap_ok_def consistent_def tidy_def quiet_def deref_def)
qed

section \<open>Clearing a container\<close>

lemma walk_finishes:
  assumes "walk f h work seen nodes = Inr (seen', nodes')" "set work \<union> set nodes = set seen"
    "\<forall>m\<in>set nodes. \<exists>nd. deref h m = Some nd \<and> \<not> busy nd \<and> set (getStructDataChildren nd) \<subseteq> set seen"
    "distinct work" "distinct seen"
  shows "set seen \<subseteq> set seen' \<and> walkable h (set seen')"
  using assms
proof (induction f h work seen nodes rule: walk.induct)
  case (1 f h seen nodes)
  then show ?case by (auto simp: walkable_def)
next
  case (3 f h c work seen nodes)
  obtain nd where nd: "deref h c = Some nd" "\<not> busy nd" using 3(2) by (auto split: option.splits if_splits)
  obtain w s where p: "push_unseen (getStructDataChildren nd) (work, seen) = (w, s)" by fastforce
  have sub: "set work \<subseteq> set seen" "distinct work" using 3(3,5) by auto
  have ps: "set s = set seen \<union> set (getStructDataChildren nd)" "set w = set work \<union> (set (getStructDataChildren nd) - set seen)"
      "distinct w" "distinct s"
    using push_unseen_props [OF p sub(2,1) 3(6)] by auto
  have "walk f h w s (nodes @ [c]) = Inr (seen', nodes')" using 3(2) nd p by simp
  moreover have "set w \<union> set (nodes @ [c]) = set s" using 3(3) ps by auto
  moreover have "\<forall>m\<in>set (nodes @ [c]). \<exists>nd. deref h m = Some nd \<and> \<not> busy nd \<and> set (getStructDataChildren nd) \<subseteq> set s"
    using 3(4) nd ps(1) by auto blast
  ultimately have "set s \<subseteq> set seen' \<and> walkable h (set seen')" using 3(1) [OF nd(1,2) p [symmetric] refl] ps by auto
  with ps(1) show ?case by auto
qed simp

lemma walk_fuel:
  assumes "distinct (work @ nodes)" "set work \<subseteq> set seen" "set nodes \<subseteq> set seen" "distinct seen"
    "\<forall>m\<in>set nodes. deref h m \<noteq> None" "length h < f + length nodes" "walk f h work seen nodes = Inl e"
  shows "e = UB"
  using assms
proof (induction f h work seen nodes rule: walk.induct)
  case (2 h c work seen nodes)
  have "set nodes \<subseteq> {..<length h}" using 2(5) by (auto simp: deref_def split: if_splits)
  then have "length nodes \<le> length h" using 2(1) by (metis card_lessThan card_mono distinct_append distinct_card finite_lessThan)
  with 2(6) show ?case by simp
next
  case (3 f h c work seen nodes)
  show ?case
  proof (cases "deref h c")
    case None
    with 3 show ?thesis by simp
  next
    case (Some nd)
    show ?thesis
    proof (cases "busy nd")
      case True
      with 3 Some show ?thesis by simp
    next
      case False
      obtain w s where p: "push_unseen (getStructDataChildren nd) (work, seen) = (w, s)" by fastforce
      have ps: "set s = set seen \<union> set (getStructDataChildren nd)" "set w = set work \<union> (set (getStructDataChildren nd) - set seen)"
          "distinct w" "distinct s"
        using push_unseen_props [OF p _ _ 3(5)] 3(2,3) by auto
      have "distinct (w @ (nodes @ [c]))" using 3(2,3,4) ps by auto
      moreover have "walk f h w s (nodes @ [c]) = Inl e" using 3(8) Some False p by simp
      moreover have "set w \<subseteq> set s" "set (nodes @ [c]) \<subseteq> set s" using 3(3,4) unfolding ps(1,2) by auto
      moreover have "\<forall>m\<in>set (nodes @ [c]). deref h m \<noteq> None" "length h < f + length (nodes @ [c])"
        using 3(6,7) Some by auto
      ultimately show ?thesis using 3(1) [OF Some False p [symmetric] refl _ _ _ ps(4)] by blast
    qed
  qed
qed simp


text \<open>A path to a block does not use the block's own map.\<close>

lemma reach_prefix:
  assumes "n \<in> reach h S" "\<And>m. m \<noteq> n \<Longrightarrow> deref h' m = deref h m"
  shows "n \<in> reach h' S"
proof -
  have "m \<in> reach h' S \<or> n \<in> reach h' S" if "m \<in> reach h S" for m
    using that
  proof (induction rule: reach_induct)
    case (base m)
    then show ?case using reach_base [of S h'] by auto
  next
    case (step m md x)
    then show ?case using reach_step [of m h' S md x] assms(2) [of m] by (cases "m = n") auto
  qed
  then show ?thesis using assms(1) by blast
qed

lemma busy_change:
  assumes "deref h n = Some nd" "h' = h[n := Some (nd\<lparr>busy := b\<rparr>)]"
  shows "consistent E h' = consistent E h \<and> tidy E h' = tidy E h \<and> agrees h' bs = agrees h bs"
proof -
  have d: "deref h' m = (if m = n then Some (nd\<lparr>busy := b\<rparr>) else deref h m)" for m
    using deref_length [OF assms(1)] by (simp add: deref_update assms(2))
  have i: "inner h' = inner h" using inner_same [OF assms(1)] by (simp add: assms(2))
  have "edge h' = edge h" by (auto simp: edge_def d assms(1) split: if_splits)
  then have r: "reach h' S = reach h S" for S by (simp add: reach_def)
  have "(\<forall>nd'. deref h' m = Some nd' \<longrightarrow> refs nd' = k) = (\<forall>nd'. deref h m = Some nd' \<longrightarrow> refs nd' = k)"
    "(deref h' m = None) = (deref h m = None)"
    "(\<forall>nd'. deref h' m = Some nd' \<longrightarrow> meta nd' = None) = (\<forall>nd'. deref h m = Some nd' \<longrightarrow> meta nd' = None)"
    "(\<forall>nd'. deref h' m = Some nd' \<longrightarrow> payload nd' = p) = (\<forall>nd'. deref h m = Some nd' \<longrightarrow> payload nd' = p)" for m k p
    by (simp_all add: d assms(1))
  note same = this
  have "consistent E h' = consistent E h" unfolding consistent_def i same ..
  moreover have "tidy E h' = tidy E h" unfolding tidy_def r same ..
  moreover have "agrees h' bs = agrees h bs" unfolding agrees_def same by (simp add: assms(2))
  ultimately show ?thesis by blast
qed

text \<open>The moment the values of a cleared map are released.\<close>

lemma clear_start:
  assumes h: "heap_ok E h" "agrees h bs" and n: "n \<in> reach h (set_mset E)" and nd: "deref h n = Some nd"
    and h3: "h3 = h[n := Some (nd\<lparr>payload := (payload nd)\<lparr>smap := []\<rparr>, busy := True\<rparr>)]"
  shows "consistent (E + mset (getStructDataChildren nd)) h3 \<and> tidy (E + mset (getStructDataChildren nd)) h3 \<and>
    agrees h3 (bs[n := (bs ! n)\<lparr>smap := []\<rparr>]) \<and> n \<in> reach h3 (set_mset E) \<and>
    (\<forall>m. m \<noteq> n \<longrightarrow> deref h3 m = deref h m) \<and> (\<exists>nd3. deref h3 n = Some nd3 \<and> busy nd3 \<and> getStructDataChildren nd3 = [])"
proof -
  let ?g = "\<lambda>p :: cval struct_data. p\<lparr>smap := []\<rparr>" and ?ks = "getStructDataChildren nd"
  let ?h2 = "h[n := Some (nd\<lparr>payload := ?g (payload nd)\<rparr>)]"
  have p: "payload nd = bs ! n" using h(2) nd by (auto simp: agrees_def)
  have e: "heap_ok (E + mset []) h" using h(1) by simp
  have bal: "mset (pk (?g (bs ! n))) + mset ?ks = mset (pk (bs ! n)) + mset []"
    by (simp add: pk_children p) (simp add: pk_def)
  have "set_payload ?g h n = Inr ?h2" by (simp add: set_payload_def nd)
  then have 2: "heap_ok (E + mset ?ks) ?h2" "agrees ?h2 (bs[n := ?g (bs ! n)])"
    using block_change [where g = ?g, OF e h(2) n bal] by auto
  have l: "n < length h" by (rule deref_length [OF nd])
  have d2: "deref ?h2 n = Some (nd\<lparr>payload := ?g (payload nd)\<rparr>)" using l by (simp add: deref_update)
  have "h3 = ?h2[n := Some (nd\<lparr>payload := ?g (payload nd)\<rparr>\<lparr>busy := True\<rparr>)]" by (simp add: h3)
  note b = busy_change [OF d2 this]
  have "n \<in> reach h3 (set_mset E)" by (rule reach_prefix [OF n]) (simp add: h3 deref_update)
  moreover have "\<forall>m. m \<noteq> n \<longrightarrow> deref h3 m = deref h m" by (simp add: h3 deref_update)
  moreover have "\<exists>nd3. deref h3 n = Some nd3 \<and> busy nd3 \<and> getStructDataChildren nd3 = []"
    using l by (simp add: h3 deref_update getStructDataChildren_def)
  ultimately show ?thesis using 2 b by (simp add: heap_ok_def)
qed

lemma clear_map_safe:
  assumes h: "heap_ok E h" "agrees h bs" and n: "n \<in> reach h (set_mset E)" and nd: "deref h n = Some nd"
    and away: "n \<notin> reach h (set (getStructDataChildren nd))"
  shows "\<exists>h'. clear_map tryCollectCycles False h n = Inr h' \<and> heap_ok E h' \<and> agrees h' (bs[n := (bs ! n)\<lparr>smap := []\<rparr>]) \<and>
    n \<in> reach h' (set_mset E)"
proof -
  define h3 where "h3 = h[n := Some (nd\<lparr>payload := (payload nd)\<lparr>smap := []\<rparr>, busy := True\<rparr>)]"
  let ?ks = "getStructDataChildren nd" and ?bs = "bs[n := (bs ! n)\<lparr>smap := []\<rparr>]"
  obtain nd3 where c3: "consistent (E + mset ?ks) h3" "tidy (E + mset ?ks) h3" "agrees h3 ?bs" "n \<in> reach h3 (set_mset E)"
      "\<And>m. m \<noteq> n \<Longrightarrow> deref h3 m = deref h m" "deref h3 n = Some nd3" "getStructDataChildren nd3 = []"
    using clear_start [OF h n nd h3_def] by auto
  have quiet: "\<not> busy md" if "deref h3 m = Some md" "m \<noteq> n" for m md
    using h(1) that c3(5) [of m] by (auto simp: heap_ok_def quiet_def)
  have nometa: "meta_children md = []" if "deref h3 m = Some md" for m md
    using c3(2) that by (auto simp: tidy_def meta_children_def)
  let ?Q = "reach h3 (set ?ks)"
  have nQ: "n \<notin> ?Q" using away reach_prefix [of n h3 "set ?ks" h] c3(5) by auto
  have "closed h3 ?Q"
    unfolding closed_def
  proof (intro ballI allI impI conjI)
    fix m md assume m: "m \<in> ?Q" "deref h3 m = Some md"
    then show "\<not> busy md" using quiet nQ by blast
    show "set (all_children md) \<subseteq> ?Q" using nometa [OF m(2)] reach_step [OF m] by (auto simp: all_children_def)
  qed
  then have safe: "\<forall>c\<in>set ?ks. safe h3 c" unfolding safe_def using reach_base [of "set ?ks" h3] by blast
  obtain h4 where h4: "release_refs tryCollectCycles h3 ?ks = Inr h4" "consistent E h4" "shrinks h3 h4" "tidy E h4"
    using cycles.release_refs_ok [OF c3(1) safe] c3(2) by blast
  have "n \<in> reach h4 (set_mset E)" by (rule reach_shrinks [OF h4(2,3) order_refl c3(4)])
  then obtain nd4 where nd4: "deref h4 n = Some nd4" using reach_live [OF h4(2)] by blast
  define h5 where "h5 = h4[n := Some (nd4\<lparr>busy := False\<rparr>)]"
  have ag: "agrees h5 ?bs" using busy_change [OF nd4 h5_def] agrees_shrinks [OF h4(3) c3(3)] by blast
  have "\<not> busy md" if "deref h5 m = Some md" for m md
  proof (cases "m = n")
    case True
    then show ?thesis using that deref_length [OF nd4] by (auto simp: h5_def deref_update)
  next
    case False
    then have "deref h4 m = Some md" using that by (simp add: h5_def deref_update)
    then show ?thesis using shrinks_children [OF h4(3)] quiet False by metis
  qed
  then have "heap_ok E h5" using h4(2,4) busy_change [OF nd4 h5_def] by (simp add: heap_ok_def quiet_def)
  moreover have "clear_map tryCollectCycles False h n = Inr h5"
    using h(1) nd h4(1) nd4 by (auto simp: clear_map_def heap_ok_def quiet_def h3_def h5_def Let_def)
  moreover have "n \<in> reach h5 (set_mset E)"
    by (rule reach_prefix [OF \<open>n \<in> reach h4 (set_mset E)\<close>]) (simp add: h5_def deref_update)
  ultimately show ?thesis using ag by blast
qed

lemma collect_busy:
  assumes "deref h m = Some md" "0 < refs md" "n \<in> reach h {m}" "deref h n = Some nd" "busy nd"
  shows "tryCollectCycles h m = Inl UB"
proof (cases "walk (Suc (length h)) h [m] [m] []")
  case (Inl e)
  then have "e = UB" using walk_fuel [OF _ _ _ _ _ _ Inl] by simp
  with Inl assms(1,2) show ?thesis by (simp add: tryCollectCycles_def)
next
  case (Inr p)
  obtain seen nodes where "walk (Suc (length h)) h [m] [m] [] = Inr (seen, nodes)" using Inr by (cases p) auto
  from walk_finishes [OF this] have "{m} \<subseteq> set seen" "walkable h (set seen)" by auto
  then have "n \<in> set seen" using reach_least assms(3) by blast
  with \<open>walkable h (set seen)\<close> assms(4,5) show ?thesis by (auto simp: walkable_def)
qed

lemma drop_busy:
  assumes "consistent (E + mset ns) h" "\<forall>m md. deref h m = Some md \<longrightarrow> meta md = None \<and> (busy md \<longrightarrow> m = n)"
    "deref h n = Some nd" "busy nd" "n \<in> reach h (set_mset E)" "n \<in> reach h (set ns)" "total_refs h \<le> f"
  shows "drop_refs tryCollectCycles f h ns = Inl UB"
  using assms
proof (induction f arbitrary: h ns nd)
  case 0
  obtain m ns' where ns: "ns = m # ns'" using 0(6) by (cases ns) (auto simp: reach_def)
  obtain md where md: "deref h m = Some md" using consistent_live [OF 0(1), of m] ns by auto
  have "0 < refs md" using consistent_refs [OF 0(1) md] ns by simp
  then show ?case using total_refs_update [OF md, of None] 0(7) by simp
next
  case (Suc f)
  obtain m ns' where ns: "ns = m # ns'" using Suc.prems(6) by (cases ns) (auto simp: reach_def)
  note c = Suc.prems(1) [unfolded ns]
  obtain md where md: "deref h m = Some md" using consistent_live [OF c, of m] by auto
  show ?case
  proof (cases "refs md \<le> 1")
    case True
    let ?h1 = "h[m := None]" and ?ks = "meta_children md @ getStructDataChildren md @ ns'"
    have d: "consistent (E + mset ?ks) ?h1" "total_refs ?h1 < total_refs h" "refs md = 1"
      using cycles.drop_delete [OF c md True] by (simp_all add: all_children_def union_ac)
    have "count (E + mset ns + inner h) m = 1" using consistent_refs [OF Suc.prems(1) md] d(3) by simp
    then have out: "m \<notin># E" "m \<notin># inner h" unfolding ns by (auto simp: not_in_iff)
    have "m \<notin> reach h (set_mset E)"
    proof
      assume "m \<in> reach h (set_mset E)"
      then show False
        using out
      proof (induction rule: reach_induct)
        case (step x xd c)
        then show ?case using children_inner [of h x xd c] by (simp add: all_children_def)
      qed simp
    qed
    with Suc.prems(5) have mn: "m \<noteq> n" by auto
    have e: "n \<in> reach ?h1 (set_mset E)" using reach_shrinks [OF d(1) shrinks_free _ Suc.prems(5)] by simp
    have k: "n \<in> reach ?h1 (set ?ks)"
    proof -
      have "set (all_children md) \<union> set ns' = set ?ks" by (auto simp: all_children_def)
      then show ?thesis using reach_delete [OF md, of n "set ns'"] Suc.prems(6) mn by (simp add: ns)
    qed
    have m1: "\<forall>x xd. deref ?h1 x = Some xd \<longrightarrow> meta xd = None \<and> (busy xd \<longrightarrow> x = n)"
      using Suc.prems(2) by (auto simp: deref_update split: if_splits)
    have n1: "deref ?h1 n = Some nd" using Suc.prems(3) mn by (simp add: deref_update)
    have "total_refs ?h1 \<le> f" using d(2) Suc.prems(7) by simp
    from Suc.IH [OF d(1) m1 n1 Suc.prems(4) e k this] show ?thesis using True md by (simp add: ns Let_def)
  next
    case False
    define h1 where "h1 = h[m := Some (md\<lparr>refs := refs md - 1\<rparr>)]"
    have l: "consistent (E + mset ns') h1" "total_refs h1 < total_refs h" "deref h1 m = Some (md\<lparr>refs := refs md - 1\<rparr>)"
      using cycles.drop_lower [OF c md _ h1_def] False by auto
    have s1: "shrinks h h1" using shrinks_lower [OF md] by (simp add: h1_def)
    have d1: "deref h1 x = (if x = m then Some (md\<lparr>refs := refs md - 1\<rparr>) else deref h x)" for x
      using deref_length [OF md] by (simp add: h1_def deref_update)
    have r1: "reach h1 S = reach h S" for S
    proof -
      have "edge h1 = edge h" by (auto simp: edge_def d1 md split: if_splits)
      then show ?thesis by (simp add: reach_def)
    qed
    obtain nd1 where n1: "deref h1 n = Some nd1" "busy nd1" using Suc.prems(3,4) md by (cases "n = m") (auto simp: d1)
    have m1: "\<forall>x xd. deref h1 x = Some xd \<longrightarrow> meta xd = None \<and> (busy xd \<longrightarrow> x = n)"
      using Suc.prems(2) md by (auto simp: d1 split: if_splits)
    show ?thesis
    proof (cases "n \<in> reach h1 {m}")
      case True
      have "tryCollectCycles h1 m = Inl UB" by (rule collect_busy [OF l(3) _ True n1]) (use False in simp)
      then show ?thesis using False md by (simp add: ns Let_def h1_def)
    next
      case away: False
      have "closed h1 (reach h1 {m})"
        unfolding closed_def
      proof (intro ballI allI impI conjI)
        fix x xd assume x: "x \<in> reach h1 {m}" "deref h1 x = Some xd"
        show "\<not> busy xd" using m1 x away by metis
        show "set (all_children xd) \<subseteq> reach h1 {m}"
          using m1 x reach_step [OF x] by (auto simp: all_children_def meta_children_def)
      qed
      then have "safe h1 m" unfolding safe_def using reach_base [of "{m}" h1] by blast
      then obtain h2 where h2: "tryCollectCycles h1 m = Inr h2" "consistent (E + mset ns') h2" "shrinks h1 h2"
        using cycles.works [OF l(1,3)] False by auto
      have "n \<in> reach h1 (set ns')"
        using Suc.prems(6) away reach_union [of h "{m}" "set ns'"] by (auto simp: ns r1)
      then have k: "n \<in> reach h2 (set ns')" using reach_shrinks [OF h2(2,3)] by auto
      have e: "n \<in> reach h2 (set_mset E)" using reach_shrinks [OF h2(2,3), of "set_mset E" n] Suc.prems(5) by (simp add: r1)
      obtain nd2 where n2: "deref h2 n = Some nd2" using reach_live [OF h2(2), of n] reach_mono [of "set_mset E" "set_mset (E + mset ns')" h2] e by auto
      have b2: "busy nd2" using shrinks_children [OF h2(3) n2] n1 by auto
      have m2: "\<forall>x xd. deref h2 x = Some xd \<longrightarrow> meta xd = None \<and> (busy xd \<longrightarrow> x = n)"
        using m1 shrinks_children [OF h2(3)] shrinks_meta [OF h2(3)] by metis
      have "total_refs h2 \<le> f" using shrinks_total [OF h2(3)] l(2) Suc.prems(7) by simp
      from Suc.IH [OF h2(2) m2 n2 b2 e k this] show ?thesis using False md h2(1) by (simp add: ns Let_def h1_def)
    qed
  qed
qed


lemma follow_live: "follow h v ks = Some n \<Longrightarrow> deref h n \<noteq> None"
  by (induction h v ks rule: follow.induct) (auto split: if_splits option.splits)

lemma bump_step:
  assumes "heap_ok E h" "agrees h bs" "n \<in> reach h (set_mset E)" "deref h n = Some nd"
  shows "\<exists>h1 nd1. set_payload struct_data_bump h n = Inr h1 \<and> heap_ok E h1 \<and> agrees h1 (bs[n := struct_data_bump (bs ! n)]) \<and>
    n \<in> reach h1 (set_mset E) \<and> deref h1 n = Some nd1 \<and> getStructDataChildren nd1 = getStructDataChildren nd \<and>
    (\<forall>S. reach h1 S = reach h S)"
proof -
  let ?nd1 = "nd\<lparr>payload := struct_data_bump (payload nd)\<rparr>"
  let ?h1 = "h[n := Some ?nd1]"
  have d: "deref ?h1 m = (if m = n then Some ?nd1 else deref h m)" for m
    using deref_length [OF assms(4)] by (simp add: deref_update)
  have k: "getStructDataChildren ?nd1 = getStructDataChildren nd"
    by (simp add: getStructDataChildren_def struct_data_bump_def)
  have "edge ?h1 = edge h" by (auto simp: edge_def d assms(4) k split: if_splits)
  then have r: "reach ?h1 S = reach h S" for S by (simp add: reach_def)
  have "heap_ok (E + mset []) h" using assms(1) by simp
  moreover have "mset (pk (struct_data_bump (bs ! n))) + mset [] = mset (pk (bs ! n)) + mset []"
    by (simp add: pk_def struct_data_bump_def)
  ultimately obtain h' where h': "set_payload struct_data_bump h n = Inr h'" "heap_ok (E + mset []) h'"
      "agrees h' (bs[n := struct_data_bump (bs ! n)])"
    using block_change [OF _ assms(2,3)] by metis
  have "h' = ?h1" using h'(1) by (simp add: set_payload_def assms(4))
  with h' r k assms(3) show ?thesis by (intro exI [of _ ?h1] exI [of _ ?nd1]) (simp add: d)
qed

section \<open>Properties\<close>

text \<open>C4: The collector cannot be seen: a program over struct variables without \<open>StructClear\<close> and \<open>ArrayClear\<close>
  runs without undefined behaviour and leaves in its variables, and in every payload still allocated,
  exactly what it would leave with memory that is never freed.\<close>

theorem cycle_collection_invisible:
  assumes "list_all no_clear ops"
  shows "\<exists>w. run_heap ops (start k) = Inr w \<and> vars w = avars (arun ops (astart k)) \<and>
    (\<forall>n nd. deref (heap w) n = Some nd \<longrightarrow> payload nd = blocks (arun ops (astart k)) ! n)"
proof -
  obtain w where "run_heap ops (start k) = Inr w" "related w (arun ops (astart k))"
    using run_heap_ok [OF start_related assms] by blast
  then show ?thesis by (intro exI [of _ w]) (simp add: related_def agrees_def)
qed

theorem cycle_collection_invisible_witness:
  "\<exists>w. run_heap [NewStruct 0, NewStruct 1, SetKey 0 ''p'' 1, SetKey 1 ''c'' 0, DropVar 1, GetKey 2 0 ''p''] (start 3) = Inr w \<and>
     vars w = [StructV 0, Plain [], StructV 1]"
proof -
  let ?ops = "[NewStruct 0, NewStruct 1, SetKey 0 ''p'' 1, SetKey 1 ''c'' 0, DropVar 1, GetKey 2 0 ''p'']"
  have "avars (arun ?ops (astart 3)) = [StructV 0, Plain [], StructV 1]" by code_simp
  then show ?thesis using cycle_collection_invisible [of ?ops 3] by (auto simp: no_clear_def)
qed

text \<open>C1: No leak and no dangling reference: after every program without \<open>StructClear\<close> and \<open>ArrayClear\<close> a
  payload is allocated exactly when a variable reaches it through maps and arrays, cycles included,
  and its count is the number of references to it, at least one.\<close>

theorem cycle_collection_exact:
  assumes "list_all no_clear ops"
  shows "\<exists>w. run_heap ops (start k) = Inr w \<and>
    (\<forall>n. deref (heap w) n \<noteq> None \<longleftrightarrow> n \<in> reach (heap w) (set_mset (vrefs (vars w)))) \<and>
    (\<forall>n nd. deref (heap w) n = Some nd \<longrightarrow> refs nd = int (count (vrefs (vars w) + inner (heap w)) n) \<and> 0 < refs nd)"
proof -
  obtain w where w: "run_heap ops (start k) = Inr w" "related w (arun ops (astart k))"
    using run_heap_ok [OF start_related assms] by blast
  then have ok: "consistent (vrefs (vars w)) (heap w)" "tidy (vrefs (vars w)) (heap w)"
    by (auto simp: related_def heap_ok_def)
  have held: "n \<in># vrefs (vars w) + inner (heap w)" if "n \<in> reach (heap w) (set_mset (vrefs (vars w)))" for n
    using that
  proof (induction rule: reach_induct)
    case (step m md c)
    then show ?case using children_inner [of "heap w" m md c] by (simp add: all_children_def)
  qed simp
  have live: "deref (heap w) n \<noteq> None \<longleftrightarrow> n \<in> reach (heap w) (set_mset (vrefs (vars w)))" for n
    using ok(2) reach_live [OF ok(1), of n] by (auto simp: tidy_def)
  moreover have "refs nd = int (count (vrefs (vars w) + inner (heap w)) n) \<and> 0 < refs nd" if "deref (heap w) n = Some nd" for n nd
  proof -
    have "0 < count (vrefs (vars w) + inner (heap w)) n" using held [of n] live [of n] that by simp
    then show ?thesis using consistent_refs [OF ok(1) that] by linarith
  qed
  ultimately show ?thesis using w(1) by blast
qed

theorem cycle_collection_exact_witness:
  "\<exists>w. run_heap [NewStruct 0, SetKey 0 ''self'' 0, DropVar 0] (start 1) = Inr w \<and> deref (heap w) 0 = None"
proof -
  let ?ops = "[NewStruct 0, SetKey 0 ''self'' 0, DropVar 0]"
  have v: "avars (arun ?ops (astart 1)) = [Plain []]" by code_simp
  have nc: "list_all no_clear ?ops" by (simp add: no_clear_def)
  obtain w where w: "run_heap ?ops (start 1) = Inr w"
      "\<forall>n. deref (heap w) n \<noteq> None \<longleftrightarrow> n \<in> reach (heap w) (set_mset (vrefs (vars w)))"
    using cycle_collection_exact [OF nc, of 1] by blast
  obtain w' where "run_heap ?ops (start 1) = Inr w'" "related w' (arun ?ops (astart 1))"
    using run_heap_ok [OF start_related nc, of 1] by blast
  then have "vars w = [Plain []]" using w(1) v by (simp add: related_def)
  then have "deref (heap w) 0 = None" using w(2) by (auto simp: vrefs_def reach_def)
  with w(1) show ?thesis by blast
qed

text \<open>C8: \<open>StructClear\<close> empties a struct that cannot reach itself, releasing what it held; on a struct that
  can be reached from its own values the collector, started by the destructor of a value, walks the
  map being destroyed: undefined behaviour.\<close>

theorem struct_clear_dichotomy:
  assumes "list_all no_clear ops" "run_heap ops (start k) = Inr w" "x < length (vars w)"
    "follow (heap w) (vars w ! x) ks = Some n" "deref (heap w) n = Some nd"
  shows "if n \<in> reach (heap w) (set (getStructDataChildren nd))
    then heap_step (ClearStruct x ks) w = Inl UB
    else \<exists>w' nd'. heap_step (ClearStruct x ks) w = Inr w' \<and> vars w' = vars w \<and>
      deref (heap w') n = Some nd' \<and> payload nd' = (struct_data_bump (payload nd))\<lparr>smap := []\<rparr> \<and>
      (\<forall>m. deref (heap w') m \<noteq> None \<longleftrightarrow> m \<in> reach (heap w') (set_mset (vrefs (vars w'))))"
proof -
  let ?E = "vrefs (vars w)"
  obtain a where rel: "related w a" using run_heap_ok [OF start_related assms(1), of k] assms(2) by auto
  then have h: "heap_ok ?E (heap w)" "agrees (heap w) (blocks a)" by (auto simp: related_def)
  have n: "n \<in> reach (heap w) (set_mset ?E)" using h(1) assms(5) by (auto simp: heap_ok_def tidy_def)
  obtain h1 nd1 where h1: "set_payload struct_data_bump (heap w) n = Inr h1" "heap_ok ?E h1"
      "agrees h1 ((blocks a)[n := struct_data_bump (blocks a ! n)])" "n \<in> reach h1 (set_mset ?E)"
      "deref h1 n = Some nd1" "getStructDataChildren nd1 = getStructDataChildren nd" "\<And>S. reach h1 S = reach (heap w) S"
    using bump_step [OF h n assms(5)] by blast
  have step: "heap_step (ClearStruct x ks) w = with_heap w (clear_map tryCollectCycles False h1 n)"
    using assms(3,4) h1(1) by (simp add: var_ok_def)
  show ?thesis
  proof (cases "n \<in> reach (heap w) (set (getStructDataChildren nd))")
    case True
    define h3 where "h3 = h1[n := Some (nd1\<lparr>payload := (payload nd1)\<lparr>smap := []\<rparr>, busy := True\<rparr>)]"
    obtain nd3 where c3: "consistent (?E + mset (getStructDataChildren nd1)) h3" "tidy (?E + mset (getStructDataChildren nd1)) h3"
        "n \<in> reach h3 (set_mset ?E)" "\<And>m. m \<noteq> n \<Longrightarrow> deref h3 m = deref h1 m" "deref h3 n = Some nd3" "busy nd3"
      using clear_start [OF h1(2,3,4,5) h3_def] by auto
    have m3: "\<forall>m md. deref h3 m = Some md \<longrightarrow> meta md = None \<and> (busy md \<longrightarrow> m = n)"
    proof (intro allI impI)
      fix m md assume m: "deref h3 m = Some md"
      have "m \<noteq> n \<Longrightarrow> \<not> busy md"
        using h1(2) c3(4) [of m] m by (simp add: heap_ok_def quiet_def)
      with m c3(2) show "meta md = None \<and> (busy md \<longrightarrow> m = n)" unfolding tidy_def by blast
    qed
    have k: "n \<in> reach h3 (set (getStructDataChildren nd1))"
      by (rule reach_prefix [of n h1]) (use True h1(6,7) c3(4) in auto)
    have "release_refs tryCollectCycles h3 (getStructDataChildren nd1) = Inl UB"
      unfolding release_refs_def by (rule drop_busy [OF c3(1) m3 c3(5,6,3) k order_refl])
    moreover have "\<not> busy nd1" using h1(2,5) by (auto simp: heap_ok_def quiet_def)
    ultimately show ?thesis using True step h1(5) by (simp add: clear_map_def with_heap_def h3_def)
  next
    case False
    obtain h' where h': "clear_map tryCollectCycles False h1 n = Inr h'" "heap_ok ?E h'"
        "agrees h' ((blocks a)[n := struct_data_bump (blocks a ! n), n := ((blocks a)[n := struct_data_bump (blocks a ! n)] ! n)\<lparr>smap := []\<rparr>])" "n \<in> reach h' (set_mset ?E)"
      using clear_map_safe [OF h1(2,3,4,5)] False h1(6,7) by auto
    have live: "deref h' m \<noteq> None \<longleftrightarrow> m \<in> reach h' (set_mset ?E)" for m
      using h'(2) reach_live [of ?E h' m] by (auto simp: heap_ok_def tidy_def)
    obtain nd' where nd': "deref h' n = Some nd'" using live [of n] h'(4) by auto
    have "payload nd = blocks a ! n" "n < length (blocks a)"
      using h(2) assms(5) deref_length [OF assms(5)] by (auto simp: agrees_def)
    then have "payload nd' = (struct_data_bump (payload nd))\<lparr>smap := []\<rparr>"
      using h'(3) nd' by (auto simp: agrees_def)
    then show ?thesis using False step h'(1) nd' live by (auto simp: with_heap_def)
  qed
qed

theorem struct_clear_dichotomy_witness:
  "\<exists>w. run_heap [NewStruct 0, NewStruct 1, SetKey 0 ''p'' 1, SetKey 1 ''c'' 0, SetKey 1 ''z'' 2] (start 3) = Inr w \<and>
     heap_step (ClearStruct 1 []) w = Inl UB"
proof -
  let ?ops = "[NewStruct 0, NewStruct 1, SetKey 0 ''p'' 1, SetKey 1 ''c'' 0, SetKey 1 ''z'' 2]"
  obtain w nd where w: "run_heap ?ops (start 3) = Inr w" "1 < length (vars w)" "follow (heap w) (vars w ! 1) [] = Some 1"
      "deref (heap w) 1 = Some nd" "getStructDataChildren nd = [0]"
      "\<exists>nd0. deref (heap w) 0 = Some nd0 \<and> getStructDataChildren nd0 = [1]"
  proof -
    let ?r = "run_heap ?ops (start 3)"
    have "(case ?r of Inl e \<Rightarrow> False | Inr w \<Rightarrow> 1 < length (vars w) \<and> follow (heap w) (vars w ! 1) [] = Some 1 \<and>
       (case deref (heap w) 1 of None \<Rightarrow> False | Some nd \<Rightarrow> getStructDataChildren nd = [0]) \<and>
       (case deref (heap w) 0 of None \<Rightarrow> False | Some nd \<Rightarrow> getStructDataChildren nd = [1]))" by code_simp
    then show ?thesis using that by (auto split: sum.splits option.splits)
  qed
  have "1 \<in> reach (heap w) {0}"
    using w(6) reach_step [of 0 "heap w" "{0}" _ 1] reach_base [of "{0}" "heap w"] by auto
  moreover have "list_all no_clear ?ops" by (simp add: no_clear_def)
  ultimately show ?thesis using struct_clear_dichotomy [of ?ops 3 w 1 "[]" 1 nd] w by auto
qed

text \<open>
  \<open>ArrayClear\<close> on an array inside a struct that only its own elements reach: the collector counts the
  reference of the element being destroyed, which is already given up, takes both structs for
  garbage and frees them while a variable still holds one.
\<close>

lemma array_clear_undefined:
  "run_heap [NewStruct 0, NewStruct 1, SetKey 0 ''p'' 1, MakeArray 2 [0], SetKey 1 ''a'' 2, DropVar 2, DropVar 1,
      ClearArray 0 [''p''] ''a''] (start 3) = Inl UB"
  by code_simp

end
