(* ===== verification/SharpLexer.thy ===== *)
theory SharpLexer imports StringOps begin

section \<open>Scanning \<open>#...#\<close> expressions\<close>

text \<open>
  Models the scanners of \<open>src/core/core_interp.cpp\<close> that the expression interpreter runs on the text
  between two \<open>#\<close>: matching brackets, splitting at the top level, calls and named arguments,
  literals, operators. A loop over an index from a position is a recursion on the rest of the
  text that carries the index; a result of -1 is the code's "not found".
\<close>

definition quote_char :: "char \<Rightarrow> bool" where
  "quote_char c \<longleftrightarrow> c = CHR 0x22 \<or> c = CHR 0x27"

definition ident_char :: "char \<Rightarrow> bool" where
  "ident_char c \<longleftrightarrow> is_alnum c \<or> c = CHR ''_''"

definition ident_start :: "char \<Rightarrow> bool" where
  "ident_start c \<longleftrightarrow> is_alpha c \<or> c = CHR ''_''"

definition opens :: "char \<Rightarrow> bool" where
  "opens c \<longleftrightarrow> c = CHR ''('' \<or> c = CHR ''['' \<or> c = CHR ''{''"

definition closes :: "char \<Rightarrow> bool" where
  "closes c \<longleftrightarrow> c = CHR '')'' \<or> c = CHR '']'' \<or> c = CHR ''}''"

subsection \<open>Brackets\<close>

fun close_loop :: "char \<Rightarrow> char \<Rightarrow> int \<Rightarrow> bool \<Rightarrow> bool \<Rightarrow> nat \<Rightarrow> bytes \<Rightarrow> int" where
  "close_loop op cl depth inDouble inSingle i [] = -1"
| "close_loop op cl depth inDouble inSingle i (c # cs) =
     (if c = CHR 0x22 \<and> \<not> inSingle then close_loop op cl depth (\<not> inDouble) inSingle (i + 1) cs
      else if c = CHR 0x27 \<and> \<not> inDouble then close_loop op cl depth inDouble (\<not> inSingle) (i + 1) cs
      else if \<not> inDouble \<and> \<not> inSingle then
        (if c = op then close_loop op cl (depth + 1) inDouble inSingle (i + 1) cs
         else if c = cl then (if depth - 1 = 0 then int i
           else close_loop op cl (depth - 1) inDouble inSingle (i + 1) cs)
         else close_loop op cl depth inDouble inSingle (i + 1) cs)
      else close_loop op cl depth inDouble inSingle (i + 1) cs)"

definition closer :: "char \<Rightarrow> char" where
  "closer op = (if op = CHR ''['' then CHR '']'' else if op = CHR ''{'' then CHR ''}'' else CHR '')'')"

definition findMatchingClose :: "bytes \<Rightarrow> int \<Rightarrow> int" where
  "findMatchingClose s openPos = (if openPos < 0 \<or> int (length s) \<le> openPos then -1
     else let op = s ! nat openPos in close_loop op (closer op) 0 False False (nat openPos) (drop (nat openPos) s))"

text \<open>\<open>skip_while\<close>: the loops \<open>while (pos < length && p(at(pos))) pos++\<close>.\<close>

definition skip_while :: "(char \<Rightarrow> bool) \<Rightarrow> bytes \<Rightarrow> nat \<Rightarrow> nat" where
  "skip_while p s pos = pos + length (takeWhile p (drop pos s))"

definition sp_tab :: "char \<Rightarrow> bool" where
  "sp_tab c \<longleftrightarrow> c = CHR '' '' \<or> c = CHR 0x09"

definition findChainStart :: "bytes \<Rightarrow> int" where
  "findChainStart e = (let firstOpen = str_indexOf_char e CHR ''('' 0; firstBracket = str_indexOf_char e CHR ''['' 0 in
     if firstOpen = -1 \<and> firstBracket = -1 then -1
     else let baseEnd = (if firstBracket = -1 \<or> (firstOpen \<noteq> -1 \<and> firstOpen < firstBracket)
            then findMatchingClose e firstOpen else findMatchingClose e firstBracket) in
       if baseEnd = -1 then -1
       else let pos = skip_while sp_tab e (nat (baseEnd + 1)) in
         if length e \<le> pos then -1
         else if e ! pos = CHR ''.'' \<or> e ! pos = CHR ''['' then int pos else -1)"

subsection \<open>Splitting at the top level\<close>

fun split_top_loop :: "char \<Rightarrow> int \<Rightarrow> bool \<Rightarrow> bool \<Rightarrow> bytes \<Rightarrow> bytes \<Rightarrow> bytes list" where
  "split_top_loop delim depth inDouble inSingle cur [] = [trimmed cur]"
| "split_top_loop delim depth inDouble inSingle cur (c # cs) =
     (if c = CHR 0x22 \<and> \<not> inSingle then split_top_loop delim depth (\<not> inDouble) inSingle (cur @ [c]) cs
      else if c = CHR 0x27 \<and> \<not> inDouble then split_top_loop delim depth inDouble (\<not> inSingle) (cur @ [c]) cs
      else if \<not> inDouble \<and> \<not> inSingle then
        (if opens c then split_top_loop delim (depth + 1) inDouble inSingle (cur @ [c]) cs
         else if closes c then split_top_loop delim (depth - 1) inDouble inSingle (cur @ [c]) cs
         else if c = delim \<and> depth = 0 then trimmed cur # split_top_loop delim depth inDouble inSingle [] cs
         else split_top_loop delim depth inDouble inSingle (cur @ [c]) cs)
      else split_top_loop delim depth inDouble inSingle (cur @ [c]) cs)"

definition splitTopLevel :: "bytes \<Rightarrow> char \<Rightarrow> bytes list" where
  "splitTopLevel s delim = (if s = [] then [] else split_top_loop delim 0 False False [] s)"

fun pair_sep_loop :: "int \<Rightarrow> bool \<Rightarrow> bool \<Rightarrow> nat \<Rightarrow> bytes \<Rightarrow> int" where
  "pair_sep_loop depth inDouble inSingle i [] = -1"
| "pair_sep_loop depth inDouble inSingle i (c # cs) =
     (if c = CHR 0x22 \<and> \<not> inSingle then pair_sep_loop depth (\<not> inDouble) inSingle (i + 1) cs
      else if c = CHR 0x27 \<and> \<not> inDouble then pair_sep_loop depth inDouble (\<not> inSingle) (i + 1) cs
      else if \<not> inDouble \<and> \<not> inSingle then
        (if opens c then pair_sep_loop (depth + 1) inDouble inSingle (i + 1) cs
         else if closes c then pair_sep_loop (depth - 1) inDouble inSingle (i + 1) cs
         else if depth = 0 \<and> (c = CHR '':'' \<or> c = CHR ''='') then int i
         else pair_sep_loop depth inDouble inSingle (i + 1) cs)
      else pair_sep_loop depth inDouble inSingle (i + 1) cs)"

definition findTopLevelPairSep :: "bytes \<Rightarrow> int" where
  "findTopLevelPairSep pair = pair_sep_loop 0 False False 0 pair"

subsection \<open>Calls and arguments\<close>

text \<open>The argument loop of \<open>parseFuncCall\<close> repeats the splitting; its order of tests is the code's.\<close>

fun args_loop :: "int \<Rightarrow> bool \<Rightarrow> bool \<Rightarrow> bytes \<Rightarrow> bytes \<Rightarrow> bytes list" where
  "args_loop parenDepth inDoubleQuote inSingleQuote curArg [] = [trimmed curArg]"
| "args_loop parenDepth inDoubleQuote inSingleQuote curArg (c # cs) =
     (if c = CHR 0x22 \<and> \<not> inSingleQuote then args_loop parenDepth (\<not> inDoubleQuote) inSingleQuote (curArg @ [c]) cs
      else if c = CHR 0x27 \<and> \<not> inDoubleQuote then args_loop parenDepth inDoubleQuote (\<not> inSingleQuote) (curArg @ [c]) cs
      else if opens c \<and> \<not> inDoubleQuote \<and> \<not> inSingleQuote
        then args_loop (parenDepth + 1) inDoubleQuote inSingleQuote (curArg @ [c]) cs
      else if closes c \<and> \<not> inDoubleQuote \<and> \<not> inSingleQuote
        then args_loop (parenDepth - 1) inDoubleQuote inSingleQuote (curArg @ [c]) cs
      else if c = CHR '','' \<and> parenDepth = 0 \<and> \<not> inDoubleQuote \<and> \<not> inSingleQuote
        then trimmed curArg # args_loop parenDepth inDoubleQuote inSingleQuote [] cs
      else args_loop parenDepth inDoubleQuote inSingleQuote (curArg @ [c]) cs)"

definition parseFuncCall :: "bytes \<Rightarrow> (bytes \<times> bytes list) option" where
  "parseFuncCall expr = (let s = trimmed expr in
     if s = [] \<or> s ! (length s - 1) \<noteq> CHR '')'' then None
     else let firstParen = str_indexOf_char s CHR ''('' 0 in
       if firstParen \<le> 0 then None
       else let name = trimmed (str_left s firstParen);
                argsStr = trimmed (str_mid s (nat (firstParen + 1)) (int (length s) - firstParen - 2))
         in Some (name, if argsStr = [] then [] else args_loop 0 False False [] argsStr))"

definition ws4 :: "char \<Rightarrow> bool" where
  "ws4 c \<longleftrightarrow> c = CHR '' '' \<or> c = CHR 0x09 \<or> c = CHR 0x0D \<or> c = CHR 0x0A"

definition splitNamedArg :: "bytes \<Rightarrow> (bytes \<times> bytes) option" where
  "splitNamedArg arg = (let s = trimmed arg in
     if s = [] then None
     else if quote_char (s ! 0) then
       (let close = str_indexOf_char s (s ! 0) 1 in
        if close = -1 then None
        else let eq = skip_while ws4 s (nat (close + 1)) in
          if length s \<le> eq \<or> s ! eq \<noteq> CHR ''='' then None
          else let name = str_mid s 1 (close - 1);
                   val = trimmed (str_mid s (eq + 1) (int (length s) - int eq - 1))
            in if name \<noteq> [] \<and> val \<noteq> [] then Some (name, val) else None)
     else if \<not> ident_start (s ! 0) then None
     else let i = skip_while ident_char s 0 in
       if length s \<le> i \<or> s ! i \<noteq> CHR ''='' then None
       else if i + 1 < length s \<and> s ! (i + 1) = CHR ''='' then None
       else let val = trimmed (str_mid s (i + 1) (int (length s) - int i - 1))
         in if val = [] then None else Some (trimmed (str_left s (int i)), val))"

subsection \<open>Names, literals, interpolation\<close>

definition isSimpleIdentifierName :: "bytes \<Rightarrow> bool" where
  "isSimpleIdentifierName s \<longleftrightarrow> s \<noteq> [] \<and> list_all ident_char s"

fun name_ref_loop :: "bytes \<Rightarrow> bool" where
  "name_ref_loop [] = True"
| "name_ref_loop (c # cs) = (if ident_char c then name_ref_loop cs
     else if c = CHR ''.'' then (case cs of [] \<Rightarrow> False | d # ds \<Rightarrow> ident_start d \<and> name_ref_loop ds)
     else False)"

definition isSimpleNameReference :: "bytes \<Rightarrow> bool" where
  "isSimpleNameReference s = (let t = trimmed s;
       t = (if 2 \<le> length t \<and> t ! 0 = CHR ''('' \<and> t ! (length t - 1) = CHR '')''
            then trimmed (str_mid t 1 (int (length t) - 2)) else t) in
     if t = [] then False
     else if compareCaseInsensitive t ''true'' = 0 \<or> compareCaseInsensitive t ''false'' = 0 \<or>
       compareCaseInsensitive t ''yes'' = 0 \<or> compareCaseInsensitive t ''no'' = 0 then False
     else ident_start (hd t) \<and> name_ref_loop (tl t))"

fun sharp_end_loop :: "int \<Rightarrow> bool \<Rightarrow> bool \<Rightarrow> nat \<Rightarrow> bytes \<Rightarrow> int" where
  "sharp_end_loop parenDepth inDouble inSingle i [] = -1"
| "sharp_end_loop parenDepth inDouble inSingle i (c # cs) =
     (if c = CHR 0x22 \<and> \<not> inSingle then sharp_end_loop parenDepth (\<not> inDouble) inSingle (i + 1) cs
      else if c = CHR 0x27 \<and> \<not> inDouble then sharp_end_loop parenDepth inDouble (\<not> inSingle) (i + 1) cs
      else if \<not> inDouble \<and> \<not> inSingle then
        (if c = CHR ''('' then sharp_end_loop (parenDepth + 1) inDouble inSingle (i + 1) cs
         else if c = CHR '')'' then sharp_end_loop (parenDepth - 1) inDouble inSingle (i + 1) cs
         else if c = CHR ''#'' \<and> parenDepth = 0 then int i
         else sharp_end_loop parenDepth inDouble inSingle (i + 1) cs)
      else sharp_end_loop parenDepth inDouble inSingle (i + 1) cs)"

definition findSharpExprEnd :: "bytes \<Rightarrow> nat \<Rightarrow> int" where
  "findSharpExprEnd s start = sharp_end_loop 0 False False (start + 1) (drop (start + 1) s)"

definition isCfmNumericLiteral :: "bytes \<Rightarrow> bool" where
  "isCfmNumericLiteral s = (if s = [] then False else
     let i0 = (if s ! 0 = CHR ''+'' \<or> s ! 0 = CHR ''-'' then 1 else 0);
         i1 = skip_while is_digit s i0;
         dot = (i1 < length s \<and> s ! i1 = CHR ''.'');
         i2 = (if dot then skip_while is_digit s (i1 + 1) else i1) in
     if i1 = i0 \<and> \<not> (dot \<and> i1 + 1 < i2) then False
     else if i2 < length s \<and> (s ! i2 = CHR ''e'' \<or> s ! i2 = CHR ''E'') then
       (let i3 = (if i2 + 1 < length s \<and> (s ! (i2 + 1) = CHR ''+'' \<or> s ! (i2 + 1) = CHR ''-'') then i2 + 2 else i2 + 1);
            i4 = skip_while is_digit s i3
        in i4 \<noteq> i3 \<and> i4 = length s)
     else i2 = length s)"

subsection \<open>Operators\<close>

definition compare_ops :: "bytes list" where
  "compare_ops = [''EQ'', ''NEQ'', ''LT'', ''LTE'', ''LE'', ''GT'', ''GTE'', ''GE'', ''IS'', ''EQUAL'', ''CONTAINS'',
     ''DOES NOT CONTAIN'', ''IS NOT'', ''NOT EQUAL'', ''=='', ''!='']"

definition backslash :: bytes where "backslash = [CHR 0x5C]"

definition sharpBinOpPrec :: "bytes \<Rightarrow> int" where
  "sharpBinOpPrec op =
     (if op = ''IMP'' then 1 else if op = ''?'' then 1 else if op = ''EQV'' then 2 else if op = ''XOR'' then 3
      else if op = ''OR'' \<or> op = ''||'' then 4 else if op = ''AND'' \<or> op = ''&&'' then 5
      else if op \<in> set compare_ops then 8 else if op = ''&'' then 9 else if op = ''+'' \<or> op = ''-'' then 10
      else if op = ''*'' \<or> op = ''/'' \<or> op = backslash \<or> op = ''MOD'' \<or> op = ''%'' then 11
      else if op = ''^'' then 12 else 0)"

definition sharpUnaryOpPrec :: "bytes \<Rightarrow> int" where
  "sharpUnaryOpPrec op = (if op = ''-'' \<or> op = ''+'' then 13 else if op = ''NOT'' \<or> op = ''!'' then 6 else 0)"

text \<open>The table of the compiler, \<open>getOpPrecedence\<close> in \<open>src/codegen/codegen_expr.cpp\<close>.\<close>

definition getOpPrecedence :: "bytes \<Rightarrow> bool \<Rightarrow> int" where
  "getOpPrecedence op unary =
     (if unary then (if op = ''-'' \<or> op = ''+'' then 13 else if op = ''NOT'' \<or> op = ''!'' then 6 else 0)
      else if op = ''=>'' then -1
      else if op \<in> set [''='', ''+='', ''-='', ''*='', ''/='', ''%='', ''&=''] then 0
      else if op \<in> set [''??'', ''?:'', ''?''] then 1
      else if op = ''IMP'' then 1 else if op = ''EQV'' then 2 else if op = ''XOR'' then 3
      else if op = ''OR'' \<or> op = ''||'' then 4 else if op = ''AND'' \<or> op = ''&&'' then 5
      else if op \<in> set [''EQ'', ''NEQ'', ''LT'', ''LTE'', ''LE'', ''GT'', ''GTE'', ''GE'', ''IS'', ''EQUAL'',
        ''GREATER THAN'', ''LESS THAN'', ''CONTAINS'', ''DOES NOT CONTAIN'', ''IS NOT'', ''=='', ''!='',
        ''==='', ''!=='', ''>='', ''<='', ''>'', ''<''] then 8
      else if op = ''&'' then 9 else if op = ''+'' \<or> op = ''-'' then 10
      else if op = ''*'' \<or> op = ''/'' \<or> op = backslash \<or> op = ''MOD'' \<or> op = ''%'' then 11
      else if op = ''^'' then 12 else if op = ''.'' \<or> op = ''?.'' then 14 else 0)"

definition sharpWordStartsAt :: "bytes \<Rightarrow> nat \<Rightarrow> bytes \<Rightarrow> bool" where
  "sharpWordStartsAt s start word \<longleftrightarrow>
     (if length s < start + length word then False
      else if map to_lower (take (length word) (drop start s)) \<noteq> map to_lower word then False
      else if start + length word < length s \<and> ident_char (s ! (start + length word)) then False
      else if 0 < start \<and> ident_char (s ! (start - 1)) then False else True)"

definition wordOps :: "bytes list" where
  "wordOps = [''DOES NOT CONTAIN'', ''GREATER THAN OR EQUAL TO'', ''LESS THAN OR EQUAL TO'', ''GREATER THAN'',
     ''LESS THAN'', ''IS NOT'', ''NOT EQUAL'', ''MOD'', ''EQV'', ''IMP'', ''XOR'', ''AND'', ''OR'', ''EQ'', ''NEQ'', ''IS'',
     ''EQUAL'', ''CONTAINS'', ''GTE'', ''LTE'', ''GT'', ''LT'', ''GE'', ''LE'']"

definition twoOps :: "bytes list" where
  "twoOps = [''=='', ''!='', ''&&'', ''||'']"

definition oneOps :: bytes where
  "oneOps = ''^*/'' @ backslash @ ''%&+-''"

text \<open>The result is the operator and the position behind it.\<close>

definition matchSharpBinaryOp :: "bytes \<Rightarrow> nat \<Rightarrow> (bytes \<times> nat) option" where
  "matchSharpBinaryOp s pos = (if length s \<le> pos then None
     else case List.find (\<lambda>w. sharpWordStartsAt s pos w) wordOps of
       Some w \<Rightarrow> Some (w, pos + length w)
     | None \<Rightarrow> if pos + 1 < length s \<and> take 2 (drop pos s) \<in> set twoOps then Some (str_mid s pos 2, pos + 2)
       else if s ! pos = CHR ''?'' then Some (''?'', pos + 1)
       else if s ! pos \<in> set oneOps then Some ([s ! pos], pos + 1)
       else None)"

definition matchSharpUnaryOp :: "bytes \<Rightarrow> nat \<Rightarrow> (bytes \<times> nat) option" where
  "matchSharpUnaryOp s pos = (if length s \<le> pos then None
     else if sharpWordStartsAt s pos ''NOT'' then Some (''NOT'', pos + 3)
     else if s ! pos = CHR ''!'' \<or> s ! pos = CHR ''-'' \<or> s ! pos = CHR ''+'' then Some ([s ! pos], pos + 1)
     else None)"

end
