(* ===== verification/SharpParser.thy ===== *)
theory SharpParser imports SharpLexer begin

section \<open>Parsing and skipping \<open>#...#\<close> expressions\<close>

text \<open>
  Models \<open>sharpParsePrimary\<close>, \<open>sharpParseUnary\<close>, \<open>sharpParseExpr\<close> and \<open>sharpSkipExpr\<close> of
  \<open>src/core/core_interp.cpp\<close>: the precedence-climbing evaluator of interpolated expressions, and the
  routine that steps over an operand without evaluating it when \<open>AND\<close> or \<open>OR\<close> is decided by its
  left side. The runtime they call (\<open>evaluateExpr\<close> on atoms and inner texts, the operators on
  values, member chains) is a record of functions on a state \<open>'s\<close>.

  A call that does not return is \<open>None\<close>. The recursion is bounded by a fuel; the lemmas below
  show that \<open>2 * (length s - pos) + 2\<close> is enough. The scan of a number is a loop that can fail to
  end, and is a partial function.
\<close>

type_synonym 'a run = "'a res option"

definition obind :: "'a run \<Rightarrow> ('a \<Rightarrow> 'b run) \<Rightarrow> 'b run" where
  "obind m f = (case m of None \<Rightarrow> None | Some (Inl e) \<Rightarrow> Some (Inl e) | Some (Inr x) \<Rightarrow> f x)"

lemma obind_simps [simp]:
  "obind None f = None" "obind (Some (Inl e)) f = Some (Inl e)" "obind (Some (Inr x)) f = f x"
  by (simp_all add: obind_def)

lemma obind_eq_Inr: "obind m f = Some (Inr y) \<longleftrightarrow> (\<exists>x. m = Some (Inr x) \<and> f x = Some (Inr y))"
  by (auto simp: obind_def split: option.splits sum.splits)

lemma obind_none: "obind m f = None \<longleftrightarrow> m = None \<or> (\<exists>x. m = Some (Inr x) \<and> f x = None)"
  by (auto simp: obind_def split: option.splits sum.splits)

definition done_with :: "'a \<Rightarrow> 'a run" where "done_with x = Some (Inr x)"

definition throw :: "string \<Rightarrow> 'a run" where "throw msg = Some (Inl (Throw msg))"

subsection \<open>Atoms\<close>

text \<open>The position behind a quoted string; a doubled quote does not end it.\<close>

fun string_loop :: "char \<Rightarrow> nat \<Rightarrow> bytes \<Rightarrow> nat" where
  "string_loop q i [] = i"
| "string_loop q i [c] = i + 1"
| "string_loop q i (c # d # cs) = (if c = q then if d = q then string_loop q (i + 2) cs else i + 1
     else string_loop q (i + 1) (d # cs))"

definition exp_char :: "char \<Rightarrow> bool" where
  "exp_char c \<longleftrightarrow> c = CHR ''e'' \<or> c = CHR ''E''"

definition num_char :: "char \<Rightarrow> bool" where
  "num_char c \<longleftrightarrow> is_digit c \<or> c = CHR ''.''"

text \<open>Where the digits of an exponent whose letter is at \<open>pos\<close> must start.\<close>

definition exp_digits :: "bytes \<Rightarrow> nat \<Rightarrow> nat" where
  "exp_digits s pos = (if pos + 1 < length s \<and> (s ! (pos + 1) = CHR ''+'' \<or> s ! (pos + 1) = CHR ''-'')
     then pos + 2 else pos + 1)"

text \<open>After a letter without digits the position is set back and the loop continues at it.\<close>

partial_function (option) number_loop :: "bytes \<Rightarrow> nat \<Rightarrow> nat option" where
  "number_loop s pos = (if pos < length s then
     (if num_char (s ! pos) then number_loop s (pos + 1)
      else if exp_char (s ! pos) then
        (if exp_digits s pos < length s \<and> is_digit (s ! exp_digits s pos)
         then number_loop s (skip_while is_digit s (exp_digits s pos))
         else number_loop s pos)
      else Some pos)
   else Some pos)"

definition starts_number :: "bytes \<Rightarrow> nat \<Rightarrow> bool" where
  "starts_number s pos \<longleftrightarrow> is_digit (s ! pos) \<or>
     (s ! pos = CHR ''.'' \<and> pos + 1 < length s \<and> is_digit (s ! (pos + 1)))"

lemma skip_while_ge: "pos \<le> skip_while p s pos"
  by (simp add: skip_while_def)

lemma skip_while_le: "pos \<le> length s \<Longrightarrow> skip_while p s pos \<le> length s"
  using length_takeWhile_le [of p "drop pos s"] by (simp add: skip_while_def)

lemma close_loop_ge: "close_loop op cl d dq sq i cs \<noteq> -1 \<Longrightarrow>
  int i \<le> close_loop op cl d dq sq i cs \<and> close_loop op cl d dq sq i cs < int (i + length cs)"
  by (induction op cl d dq sq i cs rule: close_loop.induct) (auto split: if_splits)

lemma findMatchingClose_bounds:
  "findMatchingClose s p \<noteq> -1 \<Longrightarrow> p \<le> findMatchingClose s p \<and> findMatchingClose s p < int (length s)"
  using close_loop_ge [of "s ! nat p" "closer (s ! nat p)" 0 False False "nat p" "drop (nat p) s"]
  by (auto simp: findMatchingClose_def Let_def split: if_splits)

text \<open>The calls, indexes and member names behind an identifier.\<close>

function ident_chain :: "bytes \<Rightarrow> nat \<Rightarrow> nat res" where
  "ident_chain s pos = (if length s \<le> pos then Inr pos
     else if s ! pos = CHR ''('' \<or> s ! pos = CHR ''['' then
       (let close = findMatchingClose s (int pos) in
        if close = -1 then Inl (Throw (''Unterminated '' @ [CHR 0x27, s ! pos, CHR 0x27] @ '' in expression''))
        else ident_chain s (nat close + 1))
     else if s ! pos = CHR ''.'' then ident_chain s (skip_while ident_char s (pos + 1))
     else Inr pos)"
  by pat_completeness auto
termination
proof (relation "measure (\<lambda>(s, pos). length s - pos)")
  fix s :: bytes and pos close
  assume "\<not> length s \<le> pos" "close = findMatchingClose s (int pos)" "close \<noteq> -1"
  with findMatchingClose_bounds [of s "int pos"]
  show "((s, nat close + 1), s, pos) \<in> measure (\<lambda>(s, pos). length s - pos)" by auto
next
  fix s :: bytes and pos
  assume "\<not> length s \<le> pos"
  with skip_while_ge [of "pos + 1" ident_char s]
  show "((s, skip_while ident_char s (pos + 1)), s, pos) \<in> measure (\<lambda>(s, pos). length s - pos)" by auto
qed simp

text \<open>The chain behind a bracketed literal; an unclosed bracket ends it.\<close>

function lit_chain :: "bytes \<Rightarrow> nat \<Rightarrow> nat" where
  "lit_chain s pos = (if length s \<le> pos then pos
     else if s ! pos = CHR ''['' then
       (let cl = findMatchingClose s (int pos) in if cl = -1 then pos else lit_chain s (nat cl + 1))
     else if s ! pos = CHR ''.'' then
       (let p = skip_while ident_char s (pos + 1) in
        if p < length s \<and> s ! p = CHR ''('' then
          (let cl = findMatchingClose s (int p) in if cl = -1 then p else lit_chain s (nat cl + 1))
        else lit_chain s p)
     else pos)"
  by pat_completeness auto
termination
proof (relation "measure (\<lambda>(s, pos). length s - pos)")
  fix s :: bytes and pos cl
  assume "\<not> length s \<le> pos" "cl = findMatchingClose s (int pos)" "cl \<noteq> -1"
  with findMatchingClose_bounds [of s "int pos"]
  show "((s, nat cl + 1), s, pos) \<in> measure (\<lambda>(s, pos). length s - pos)" by auto
next
  fix s :: bytes and pos p cl
  assume a: "\<not> length s \<le> pos" "p = skip_while ident_char s (pos + 1)" "cl = findMatchingClose s (int p)" "cl \<noteq> -1"
  then have "p < nat cl + 1" "pos < p"
    using findMatchingClose_bounds [of s "int p"] skip_while_ge [of "pos + 1" ident_char s] by auto
  with a(1) show "((s, nat cl + 1), s, pos) \<in> measure (\<lambda>(s, pos). length s - pos)" by auto
next
  fix s :: bytes and pos p
  assume "\<not> length s \<le> pos" "p = skip_while ident_char s (pos + 1)"
  with skip_while_ge [of "pos + 1" ident_char s]
  show "((s, p), s, pos) \<in> measure (\<lambda>(s, pos). length s - pos)" by auto
qed simp

declare ident_chain.simps [simp del] lit_chain.simps [simp del]

definition unterminated :: "char \<Rightarrow> string \<Rightarrow> string" where
  "unterminated c what = ''Unterminated '' @ [CHR 0x27, c, CHR 0x27] @ '' in '' @ what"

definition skipPrimary :: "bytes \<Rightarrow> nat \<Rightarrow> nat run" where
  "skipPrimary s pos = (if length s \<le> pos then throw ''Unexpected end of expression''
     else let c = s ! pos in
       if opens c then
         (let close = findMatchingClose s (int pos) in
          if close = -1 then throw (unterminated c ''expression'') else done_with (lit_chain s (nat close + 1)))
       else if quote_char c then done_with (string_loop c (pos + 1) (drop (pos + 1) s))
       else if starts_number s pos then map_option Inr (number_loop s pos)
       else if ident_start c then Some (ident_chain s (skip_while ident_char s pos))
       else done_with (pos + 1))"

subsection \<open>Skipping\<close>

text \<open>
  The scan for the colon of \<open>c ? a : b\<close>: a nested \<open>?\<close> raises the depth, and only a closing
  parenthesis lowers it.
\<close>

function colon_loop :: "int \<Rightarrow> nat \<Rightarrow> bytes \<Rightarrow> int" where
  "colon_loop depth i [] = -1"
| "colon_loop depth i (c # cs) =
     (if sp_tab c then colon_loop depth (i + 1) cs
      else if c = CHR ''('' then colon_loop (depth + 1) (i + 1) cs
      else if c = CHR '')'' then (if depth = 0 then -1 else colon_loop (depth - 1) (i + 1) cs)
      else if c = CHR ''?'' \<and> depth = 0 then colon_loop (depth + 1) (i + 1) cs
      else if c = CHR '':'' \<and> depth = 0 then int i
      else if quote_char c then
        colon_loop depth (i + length (takeWhile (\<lambda>d. d \<noteq> c) cs) + 2) (tl (dropWhile (\<lambda>d. d \<noteq> c) cs))
      else colon_loop depth (i + 1) cs)"
  by pat_completeness auto
termination
proof (relation "measure (\<lambda>(d, i, cs). length cs)")
  fix depth :: int and i :: nat and c :: char and cs :: bytes
  have "length (dropWhile (\<lambda>d. d \<noteq> c) cs) \<le> length cs" by (rule length_dropWhile_le)
  then show "((depth, i + length (takeWhile (\<lambda>d. d \<noteq> c) cs) + 2, tl (dropWhile (\<lambda>d. d \<noteq> c) cs)), depth, i, c # cs)
      \<in> measure (\<lambda>(d, i, cs). length cs)" by auto
qed auto

definition illegal_compare :: string where
  "illegal_compare = ''Illegal symbolic comparison operator inside #...# (use the word forms GT, LT, GTE or LTE)''"

definition missing_colon :: string where
  "missing_colon = ''Invalid ternary expression: missing '' @ [CHR 0x27, CHR '':'', CHR 0x27]"

text \<open>
  \<open>sharpSkipExpr\<close>: the operand, then the loop over the operators behind it (\<open>skip_rest\<close>, from
  the position \<open>save\<close>).
\<close>

fun sharpSkipExpr :: "nat \<Rightarrow> bytes \<Rightarrow> nat \<Rightarrow> int \<Rightarrow> nat run"
  and skip_rest :: "nat \<Rightarrow> bytes \<Rightarrow> nat \<Rightarrow> int \<Rightarrow> nat run" where
  "sharpSkipExpr 0 s pos minPrec = None"
| "sharpSkipExpr (Suc n) s pos minPrec =
     (let p = skip_while sp_tab s pos in
      obind (case matchSharpUnaryOp s p of
          Some (op, p1) \<Rightarrow> sharpSkipExpr n s p1 (sharpUnaryOpPrec op)
        | None \<Rightarrow> skipPrimary s p)
        (\<lambda>q. skip_rest n s q minPrec))"
| "skip_rest 0 s save minPrec = None"
| "skip_rest (Suc n) s save minPrec =
     (let p = skip_while sp_tab s save in
      case matchSharpBinaryOp s p of
        None \<Rightarrow> if p < length s \<and> (s ! p = CHR ''<'' \<or> s ! p = CHR ''>'') then throw illegal_compare
          else done_with save
      | Some (op, p1) \<Rightarrow>
          if sharpBinOpPrec op < minPrec then done_with save
          else if op = ''?'' then
            (let colon = colon_loop 0 p1 (drop p1 s) in
             if colon = -1 then throw missing_colon
             else obind (sharpSkipExpr n s p1 0) (\<lambda>_.
               obind (sharpSkipExpr n s (nat colon + 1) 0) (\<lambda>q. skip_rest n s q minPrec)))
          else obind (sharpSkipExpr n s p1 (sharpBinOpPrec op + 1)) (\<lambda>q. skip_rest n s q minPrec))"

subsection \<open>Evaluating\<close>

record ('v, 's) runtime =
  ev_expr :: "bool \<Rightarrow> bytes \<Rightarrow> 's \<Rightarrow> ('v \<times> 's) res"
  rt_binary :: "bytes \<Rightarrow> 'v \<Rightarrow> 'v \<Rightarrow> 'v res"
  rt_not :: "'v \<Rightarrow> 'v res"
  rt_neg :: "'v \<Rightarrow> 'v res"
  rt_truthy :: "'v \<Rightarrow> bool res"
  rt_ternary :: "'v \<Rightarrow> 'v \<Rightarrow> 'v \<Rightarrow> 'v res"
  rt_array :: "'v list \<Rightarrow> 'v"
  rt_struct :: "(bytes \<times> 'v) list \<Rightarrow> 'v"
  rt_chain :: "'v \<Rightarrow> bytes \<Rightarrow> 's \<Rightarrow> ('v \<times> 's) res"

fun eval_items :: "('v, 's) runtime \<Rightarrow> bytes list \<Rightarrow> 's \<Rightarrow> ('v list \<times> 's) res" where
  "eval_items rt [] st = Inr ([], st)"
| "eval_items rt (e # es) st = (if e = [] then eval_items rt es st
     else ebind (ev_expr rt True e st) (\<lambda>(v, st1).
       ebind (eval_items rt es st1) (\<lambda>(vs, st2). Inr (v # vs, st2))))"

definition struct_key :: "bytes \<Rightarrow> bytes" where
  "struct_key key = (if 2 \<le> length key \<and> quote_char (hd key) \<and> last key = hd key
     then str_mid key 1 (int (length key) - 2) else map to_upper key)"

fun eval_pairs :: "('v, 's) runtime \<Rightarrow> bytes list \<Rightarrow> 's \<Rightarrow> ((bytes \<times> 'v) list \<times> 's) res" where
  "eval_pairs rt [] st = Inr ([], st)"
| "eval_pairs rt (p # ps) st = (if p = [] then eval_pairs rt ps st
     else let sep = findTopLevelPairSep p in
       if sep = -1 then Inl (Throw (''Struct literal entry is missing a '' @ [CHR 0x27, CHR '':'', CHR 0x27] @ '' or '' @
         [CHR 0x27, CHR ''='', CHR 0x27] @ '' separator: '' @ p))
       else ebind (ev_expr rt True (trimmed (str_mid p (nat (sep + 1)) (int (length p) - sep - 1))) st) (\<lambda>(v, st1).
         ebind (eval_pairs rt ps st1) (\<lambda>(kvs, st2). Inr ((struct_key (trimmed (str_left p sep)), v) # kvs, st2))))"

text \<open>\<open>appendLiteralChain\<close>: the flag says that the base is an array.\<close>

definition appendLiteralChain ::
  "('v, 's) runtime \<Rightarrow> bool \<Rightarrow> 'v \<Rightarrow> bytes \<Rightarrow> nat \<Rightarrow> 's \<Rightarrow> ('v \<times> nat \<times> 's) res" where
  "appendLiteralChain rt isArray base s pos st = (let end = lit_chain s pos in
     if pos < end then
       (let chain = str_mid s pos (int end - int pos) in
        if isArray \<and> chain \<noteq> [] \<and> chain ! 0 = CHR ''['' \<and>
           (let cl = findMatchingClose chain 0 in cl \<noteq> -1 \<and> isSimpleNameReference (str_mid chain 1 (cl - 1)))
        then Inl (Throw ''Cannot index an array literal with a variable'')
        else ebind (rt_chain rt base chain st) (\<lambda>(v, st1). Inr (v, end, st1)))
     else Inr (base, pos, st))"

definition atom_at :: "('v, 's) runtime \<Rightarrow> bytes \<Rightarrow> nat \<Rightarrow> nat \<Rightarrow> 's \<Rightarrow> ('v \<times> nat \<times> 's) res" where
  "atom_at rt s start pos st = ebind (ev_expr rt False (str_mid s start (int pos - int start)) st) (\<lambda>(v, st1). Inr (v, pos, st1))"

definition sharpParsePrimary :: "('v, 's) runtime \<Rightarrow> bytes \<Rightarrow> nat \<Rightarrow> 's \<Rightarrow> ('v \<times> nat \<times> 's) run" where
  "sharpParsePrimary rt s pos st = (if length s \<le> pos then throw ''Unexpected end of expression''
     else let c = s ! pos in
       if opens c then
         (let close = findMatchingClose s (int pos);
              inner = str_mid s (pos + 1) (close - int pos - 1) in
          if c = CHR ''('' then
            (if close = -1 then throw (unterminated c ''expression'')
             else Some (ebind (ev_expr rt True (trimmed inner) st) (\<lambda>(v, st1). Inr (v, nat close + 1, st1))))
          else if c = CHR ''['' then
            (if close = -1 then throw (unterminated c ''array literal'')
             else Some (ebind (eval_items rt (splitTopLevel inner CHR '','') st) (\<lambda>(vs, st1).
               appendLiteralChain rt True (rt_array rt vs) s (nat close + 1) st1)))
          else
            (if close = -1 then throw (unterminated c ''struct literal'')
             else Some (ebind (eval_pairs rt (splitTopLevel inner CHR '','') st) (\<lambda>(kvs, st1).
               appendLiteralChain rt False (rt_struct rt kvs) s (nat close + 1) st1))))
       else if quote_char c then Some (atom_at rt s pos (string_loop c (pos + 1) (drop (pos + 1) s)) st)
       else if starts_number s pos then map_option (\<lambda>p. atom_at rt s pos p st) (number_loop s pos)
       else if ident_start c then
         Some (ebind (ident_chain s (skip_while ident_char s pos)) (\<lambda>p. atom_at rt s pos p st))
       else throw ''Unexpected character in expression'')"

definition apply_unary :: "('v, 's) runtime \<Rightarrow> bytes \<Rightarrow> 'v \<Rightarrow> 'v res" where
  "apply_unary rt op v = (if op = ''NOT'' \<or> op = ''!'' then rt_not rt v else if op = ''-'' then rt_neg rt v else Inr v)"

definition is_and :: "bytes \<Rightarrow> bool" where "is_and op \<longleftrightarrow> op = ''AND'' \<or> op = ''&&''"

definition is_or :: "bytes \<Rightarrow> bool" where "is_or op \<longleftrightarrow> op = ''OR'' \<or> op = ''||''"

fun sharpParseExpr :: "nat \<Rightarrow> ('v, 's) runtime \<Rightarrow> bytes \<Rightarrow> nat \<Rightarrow> int \<Rightarrow> 's \<Rightarrow> ('v \<times> nat \<times> 's) run"
  and parse_rest :: "nat \<Rightarrow> ('v, 's) runtime \<Rightarrow> bytes \<Rightarrow> nat \<Rightarrow> int \<Rightarrow> 'v \<Rightarrow> 's \<Rightarrow> ('v \<times> nat \<times> 's) run" where
  "sharpParseExpr 0 rt s pos minPrec st = None"
| "sharpParseExpr (Suc n) rt s pos minPrec st =
     (let p = skip_while sp_tab s pos in
      obind (case matchSharpUnaryOp s p of
          Some (op, p1) \<Rightarrow> obind (sharpParseExpr n rt s p1 (sharpUnaryOpPrec op) st)
            (\<lambda>(v, q, st1). obind (Some (apply_unary rt op v)) (\<lambda>w. done_with (w, q, st1)))
        | None \<Rightarrow> sharpParsePrimary rt s p st)
        (\<lambda>(lhs, q, st1). parse_rest n rt s q minPrec lhs st1))"
| "parse_rest 0 rt s save minPrec lhs st = None"
| "parse_rest (Suc n) rt s save minPrec lhs st =
     (let p = skip_while sp_tab s save in
      case matchSharpBinaryOp s p of
        None \<Rightarrow> if p < length s \<and> (s ! p = CHR ''<'' \<or> s ! p = CHR ''>'') then throw illegal_compare
          else done_with (lhs, save, st)
      | Some (op, p1) \<Rightarrow>
          if sharpBinOpPrec op < minPrec then done_with (lhs, save, st)
          else if op = ''?'' then
            (let colon = colon_loop 0 p1 (drop p1 s) in
             if colon = -1 then throw missing_colon
             else obind (sharpParseExpr n rt s p1 0 st) (\<lambda>(thenVal, _, st1).
               obind (sharpParseExpr n rt s (nat colon + 1) 0 st1) (\<lambda>(elseVal, q, st2).
               obind (Some (rt_ternary rt lhs thenVal elseVal)) (\<lambda>v. parse_rest n rt s q minPrec v st2))))
          else if is_and op \<or> is_or op then
            obind (Some (rt_truthy rt lhs)) (\<lambda>truthy.
              if (if is_and op then truthy else \<not> truthy) then
                obind (sharpParseExpr n rt s p1 (sharpBinOpPrec op + 1) st) (\<lambda>(rhs, q, st1).
                obind (Some (rt_binary rt op lhs rhs)) (\<lambda>v. parse_rest n rt s q minPrec v st1))
              else obind (sharpSkipExpr n s p1 (sharpBinOpPrec op + 1)) (\<lambda>q. parse_rest n rt s q minPrec lhs st))
          else obind (sharpParseExpr n rt s p1 (sharpBinOpPrec op + 1) st) (\<lambda>(rhs, q, st1).
            obind (Some (rt_binary rt op lhs rhs)) (\<lambda>v. parse_rest n rt s q minPrec v st1)))"

end
