(* ===== verification/SharpFuel.thy ===== *)
theory SharpFuel imports SharpParser begin

section \<open>Progress and termination of the \<open>#...#\<close> evaluator\<close>

text \<open>
  Every operand and every operator the evaluator accepts lies behind the position it started
  from, so a fuel larger than the text left is enough and any two such fuels agree. The one loop
  that can run forever is the scan of a number whose exponent letter has no digits.
\<close>

lemma obind_cong:
  "m = m' \<Longrightarrow> (\<And>x. m = Some (Inr x) \<Longrightarrow> f x = g x) \<Longrightarrow> obind m f = obind m' g"
  by (auto simp: obind_def split: option.splits sum.splits)

lemma obind_some: "(\<exists>y. obind m f = Some y) \<longleftrightarrow> (\<exists>y. m = Some y) \<and> (\<forall>x. m = Some (Inr x) \<longrightarrow> (\<exists>y. f x = Some y))"
  by (auto simp: obind_def split: option.splits sum.splits)

lemma obind_cong3:
  "m = m' \<Longrightarrow> (\<And>a b c. m = Some (Inr (a, b, c)) \<Longrightarrow> f a b c = g a b c) \<Longrightarrow>
   obind m (\<lambda>(a, b, c). f a b c) = obind m' (\<lambda>(a, b, c). g a b c)"
  by (rule obind_cong) (auto split: prod.splits)

lemma throw_not_Inr [simp]: "throw msg \<noteq> Some (Inr x)" "throw msg \<noteq> None" "\<exists>y. throw msg = Some y"
  by (simp_all add: throw_def)

lemma done_with_simps [simp]: "done_with x = Some (Inr y) \<longleftrightarrow> x = y" "done_with x \<noteq> None"
  "\<exists>y. done_with x = Some y" "obind (done_with x) f = f x"
  by (simp_all add: done_with_def)

subsection \<open>Progress\<close>

lemma unary_progress: "matchSharpUnaryOp s pos = Some (op, p1) \<Longrightarrow> pos < p1 \<and> pos < length s"
  by (auto simp: matchSharpUnaryOp_def split: if_splits)

lemma wordOps_pos: "w \<in> set wordOps \<Longrightarrow> 0 < length w"
  by (auto simp: wordOps_def)

lemma find_mem: "List.find P xs = Some x \<Longrightarrow> x \<in> set xs \<and> P x"
  by (induction xs) (auto split: if_splits)

lemma binary_progress: "matchSharpBinaryOp s pos = Some (op, p1) \<Longrightarrow> pos < p1 \<and> pos < length s"
  by (auto simp: matchSharpBinaryOp_def dest!: find_mem wordOps_pos split: if_splits option.splits)

lemma ident_chain_ge: "ident_chain s pos = Inr q \<Longrightarrow> pos \<le> q"
proof (induction s pos rule: ident_chain.induct)
  case (1 s pos)
  show ?case
    using 1(3) findMatchingClose_bounds [of s "int pos"] skip_while_ge [of "pos + 1" ident_char s] 1(1,2)
    by (subst (asm) ident_chain.simps) (fastforce simp: Let_def split: if_splits)
qed

lemma lit_chain_ge: "pos \<le> lit_chain s pos"
proof (induction s pos rule: lit_chain.induct)
  case (1 s pos)
  note g = findMatchingClose_bounds [of s "int pos"] skip_while_ge [of "pos + 1" ident_char s]
    findMatchingClose_bounds [of s "int (skip_while ident_char s (pos + 1))"]
  show ?case
    using g 1 by (subst lit_chain.simps) (fastforce simp: Let_def split: if_splits)
qed

lemma string_loop_ge: "i \<le> string_loop q i cs"
  by (induction q i cs rule: string_loop.induct) auto

lemma number_loop_ge:
  assumes "number_loop s pos = Some q"
  shows "pos \<le> q"
proof (rule number_loop.raw_induct [OF _ assms, where P = "\<lambda>s pos q. pos \<le> q"])
  fix f :: "bytes \<Rightarrow> nat \<Rightarrow> nat option" and s pos q
  assume ih: "\<And>s pos q. f s pos = Some q \<Longrightarrow> pos \<le> q"
    and eq: "(if pos < length s then if num_char (s ! pos) then f s (pos + 1)
       else if exp_char (s ! pos) then
         if exp_digits s pos < length s \<and> is_digit (s ! exp_digits s pos)
         then f s (skip_while is_digit s (exp_digits s pos)) else f s pos
       else Some pos else Some pos) = Some q"
  have "pos \<le> exp_digits s pos" by (simp add: exp_digits_def)
  then have "pos \<le> skip_while is_digit s (exp_digits s pos)"
    using skip_while_ge [of "exp_digits s pos" is_digit s] by linarith
  with ih [of s "pos + 1" q] ih [of s pos q] ih [of s "skip_while is_digit s (exp_digits s pos)" q] eq
  show "pos \<le> q" by (auto split: if_splits)
qed

lemma starts_number_num: "starts_number s pos \<Longrightarrow> num_char (s ! pos)"
  by (auto simp: starts_number_def num_char_def)

lemma number_progress: "starts_number s pos \<Longrightarrow> pos < length s \<Longrightarrow> number_loop s pos = Some q \<Longrightarrow> pos < q"
  using starts_number_num [of s pos] number_loop_ge [of s "pos + 1" q]
  by (subst (asm) number_loop.simps) simp

lemma ident_char_start: "ident_start c \<Longrightarrow> ident_char c"
  by (auto simp: ident_start_def ident_char_def is_alnum_def)

lemma skip_while_gt: "pos < length s \<Longrightarrow> p (s ! pos) \<Longrightarrow> pos < skip_while p s pos"
  by (simp add: skip_while_def Cons_nth_drop_Suc [symmetric])

lemma skipPrimary_progress: "skipPrimary s pos = Some (Inr q) \<Longrightarrow> pos < q \<and> pos < length s"
  using findMatchingClose_bounds [of s "int pos"] lit_chain_ge [of "nat (findMatchingClose s (int pos)) + 1" s]
    string_loop_ge [of "pos + 1" "s ! pos" "drop (pos + 1) s"]
    skip_while_gt [of pos s ident_char] ident_chain_ge [of s "skip_while ident_char s pos" q]
  by (auto simp: skipPrimary_def Let_def ident_char_start dest: number_progress split: if_splits)

lemma literal_chain_ge: "appendLiteralChain rt a b s pos st = Inr (v, q, st') \<Longrightarrow> pos \<le> q"
  by (auto simp: appendLiteralChain_def Let_def ebind_eq_Inr split: if_splits prod.splits)

lemma sharpParsePrimary_progress:
  assumes "sharpParsePrimary rt s pos st = Some (Inr (v, q, st'))"
  shows "pos < q \<and> pos < length s"
proof -
  have c: "findMatchingClose s (int pos) \<noteq> -1 \<Longrightarrow> pos < nat (findMatchingClose s (int pos)) + 1"
    using findMatchingClose_bounds [of s "int pos"] by auto
  show ?thesis
    using assms c string_loop_ge [of "pos + 1" "s ! pos" "drop (pos + 1) s"] skip_while_gt [of pos s ident_char]
    by (fastforce simp: sharpParsePrimary_def atom_at_def Let_def ebind_eq_Inr ident_char_start
        dest: number_progress literal_chain_ge ident_chain_ge split: if_splits prod.splits)
qed

lemma colon_loop_ge: "colon_loop d i cs \<noteq> -1 \<Longrightarrow> int i \<le> colon_loop d i cs"
  by (induction d i cs rule: colon_loop.induct) (auto split: if_splits)

lemma skip_progress:
  "(sharpSkipExpr n s pos m = Some (Inr q) \<longrightarrow> pos < q \<and> pos < length s) \<and>
   (skip_rest n s pos m = Some (Inr q) \<longrightarrow> pos \<le> q)"
proof (induction n arbitrary: pos m q)
  case (Suc n)
  note g = skip_while_ge [of pos sp_tab s]
  have "pos < q \<and> pos < length s" if "sharpSkipExpr (Suc n) s pos m = Some (Inr q)"
  proof -
    let ?p = "skip_while sp_tab s pos"
    from that obtain q0 where q0: "(case matchSharpUnaryOp s ?p of Some (op, p1) \<Rightarrow> sharpSkipExpr n s p1 (sharpUnaryOpPrec op)
        | None \<Rightarrow> skipPrimary s ?p) = Some (Inr q0)" and r: "skip_rest n s q0 m = Some (Inr q)"
      by (auto simp: Let_def obind_eq_Inr)
    have "?p < q0 \<and> ?p < length s"
      using q0 skipPrimary_progress Suc by (fastforce dest: unary_progress split: option.splits prod.splits)
    with g r Suc show ?thesis by fastforce
  qed
  moreover have "pos \<le> q" if "skip_rest (Suc n) s pos m = Some (Inr q)"
  proof -
    let ?p = "skip_while sp_tab s pos"
    show ?thesis
    proof (cases "matchSharpBinaryOp s ?p")
      case None
      with that show ?thesis by (auto simp: Let_def split: if_splits)
    next
      case (Some x)
      then obtain op p1 where x: "matchSharpBinaryOp s ?p = Some (op, p1)" by (cases x) auto
      with binary_progress have b: "?p < p1" by blast
      let ?c = "colon_loop 0 p1 (drop p1 s)"
      have c: "?c \<noteq> -1 \<Longrightarrow> p1 < nat ?c + 1"
        using colon_loop_ge [of 0 p1 "drop p1 s"] by auto
      have e: "p1' < q'" if "sharpSkipExpr n s p1' m' = Some (Inr q')" for p1' m' q'
        using that Suc by blast
      have r: "p1' \<le> q'" if "skip_rest n s p1' m' = Some (Inr q')" for p1' m' q'
        using that Suc by blast
      consider "pos = q" | q1 where "?p < q1" "skip_rest n s q1 m = Some (Inr q)"
      proof (cases "sharpBinOpPrec op < m")
        case True
        with that(1) \<open>skip_rest (Suc n) s pos m = Some (Inr q)\<close> x show ?thesis by (simp add: Let_def)
      next
        case False
        show ?thesis
        proof (cases "op = ''?''")
          case True
          with False \<open>skip_rest (Suc n) s pos m = Some (Inr q)\<close> x obtain q1
            where "?c \<noteq> -1" "sharpSkipExpr n s (nat ?c + 1) 0 = Some (Inr q1)" "skip_rest n s q1 m = Some (Inr q)"
            by (auto simp: Let_def obind_eq_Inr split: if_splits)
          with that(2) [of q1] e [of "nat ?c + 1" 0 q1] b c show ?thesis by linarith
        next
          case F: False
          with False \<open>skip_rest (Suc n) s pos m = Some (Inr q)\<close> x obtain q1
            where "sharpSkipExpr n s p1 (sharpBinOpPrec op + 1) = Some (Inr q1)" "skip_rest n s q1 m = Some (Inr q)"
            by (auto simp: Let_def obind_eq_Inr)
          with that(2) [of q1] e [of p1 _ q1] b show ?thesis by fastforce
        qed
      qed
      then show ?thesis using r g by cases fastforce+
    qed
  qed
  ultimately show ?case by blast
qed simp

lemmas skip_expr_progress = skip_progress [THEN conjunct1, rule_format]
lemmas skip_rest_progress = skip_progress [THEN conjunct2, rule_format]

lemma parse_progress:
  "(sharpParseExpr n rt s pos m st = Some (Inr (v, q, st')) \<longrightarrow> pos < q \<and> pos < length s) \<and>
   (parse_rest n rt s pos m w st = Some (Inr (v, q, st')) \<longrightarrow> pos \<le> q)"
proof (induction n arbitrary: pos m q st v w st')
  case (Suc n)
  let ?p = "skip_while sp_tab s pos"
  note g = skip_while_ge [of pos sp_tab s]
  have e: "p1 < q'" if "sharpParseExpr n rt s p1 m' t1 = Some (Inr (v', q', t2))" for p1 m' t1 v' q' t2
    using that Suc by blast
  have r: "p1 \<le> q'" if "parse_rest n rt s p1 m' w' t1 = Some (Inr (v', q', t2))" for p1 m' w' t1 v' q' t2
    using that Suc by blast
  have "pos < q \<and> pos < length s" if "sharpParseExpr (Suc n) rt s pos m st = Some (Inr (v, q, st'))"
  proof (cases "matchSharpUnaryOp s ?p")
    case None
    with that obtain v1 q1 t1 where "sharpParsePrimary rt s ?p st = Some (Inr (v1, q1, t1))"
      "parse_rest n rt s q1 m v1 t1 = Some (Inr (v, q, st'))"
      by (auto simp: Let_def obind_eq_Inr)
    with sharpParsePrimary_progress [of rt s ?p st v1 q1 t1] r [of q1 m v1 t1 v q st'] g show ?thesis by simp
  next
    case (Some x)
    then obtain op p1 where x: "matchSharpUnaryOp s ?p = Some (op, p1)" by (cases x) auto
    with that obtain v1 q1 t1 v2 where "sharpParseExpr n rt s p1 (sharpUnaryOpPrec op) st = Some (Inr (v1, q1, t1))"
      "parse_rest n rt s q1 m v2 t1 = Some (Inr (v, q, st'))"
      by (auto simp: Let_def obind_eq_Inr)
    with e [of p1 "sharpUnaryOpPrec op" st v1 q1 t1] r [of q1 m v2 t1 v q st'] g unary_progress [OF x]
    show ?thesis by simp
  qed
  moreover have "pos \<le> q" if that: "parse_rest (Suc n) rt s pos m w st = Some (Inr (v, q, st'))"
  proof (cases "matchSharpBinaryOp s ?p")
    case None
    with that show ?thesis by (auto simp: Let_def split: if_splits)
  next
    case (Some x)
    then obtain op p1 where x: "matchSharpBinaryOp s ?p = Some (op, p1)" by (cases x) auto
    then have b: "?p < p1" using binary_progress by blast
    let ?c = "colon_loop 0 p1 (drop p1 s)"
    have c: "?c \<noteq> -1 \<Longrightarrow> p1 < nat ?c + 1" using colon_loop_ge [of 0 p1 "drop p1 s"] by auto
    consider "sharpBinOpPrec op < m" | "\<not> sharpBinOpPrec op < m" "op = ''?''"
      | "\<not> sharpBinOpPrec op < m" "op \<noteq> ''?''" "is_and op \<or> is_or op"
      | "\<not> sharpBinOpPrec op < m" "op \<noteq> ''?''" "\<not> (is_and op \<or> is_or op)" by blast
    then show ?thesis
    proof cases
      case 1
      with that x show ?thesis by (simp add: Let_def)
    next
      case 2
      with that x obtain v1 q1 t1 v2 t0 where "?c \<noteq> -1" "sharpParseExpr n rt s (nat ?c + 1) 0 t0 = Some (Inr (v1, q1, t1))"
        "parse_rest n rt s q1 m v2 t1 = Some (Inr (v, q, st'))"
        by (auto simp: Let_def obind_eq_Inr split: if_splits)
      with e [of "nat ?c + 1" 0 t0 v1 q1 t1] r [of q1 m v2 t1 v q st'] b c g show ?thesis by linarith
    next
      case 3
      show ?thesis
      proof (cases "\<exists>q1. sharpSkipExpr n s p1 (sharpBinOpPrec op + 1) = Some (Inr q1) \<and>
          parse_rest n rt s q1 m w st = Some (Inr (v, q, st'))")
        case True
        then obtain q1 where "sharpSkipExpr n s p1 (sharpBinOpPrec op + 1) = Some (Inr q1)"
          "parse_rest n rt s q1 m w st = Some (Inr (v, q, st'))" by blast
        with skip_expr_progress [of n s p1 "sharpBinOpPrec op + 1" q1] r [of q1 m w st v q st'] b g show ?thesis by simp
      next
        case False
        with that x 3 obtain v1 q1 t1 v2 where
          "sharpParseExpr n rt s p1 (sharpBinOpPrec op + 1) st = Some (Inr (v1, q1, t1))"
          "parse_rest n rt s q1 m v2 t1 = Some (Inr (v, q, st'))"
          by (auto simp: Let_def obind_eq_Inr split: if_splits)
        with e [of p1 "sharpBinOpPrec op + 1" st v1 q1 t1] r [of q1 m v2 t1 v q st'] b g show ?thesis by simp
      qed
    next
      case 4
      with that x obtain v1 q1 t1 v2 where
        "sharpParseExpr n rt s p1 (sharpBinOpPrec op + 1) st = Some (Inr (v1, q1, t1))"
        "parse_rest n rt s q1 m v2 t1 = Some (Inr (v, q, st'))"
        by (auto simp: Let_def obind_eq_Inr)
      with e [of p1 "sharpBinOpPrec op + 1" st v1 q1 t1] r [of q1 m v2 t1 v q st'] b g show ?thesis by simp
    qed
  qed
  ultimately show ?case by blast
qed simp

lemmas parse_expr_progress = parse_progress [THEN conjunct1, rule_format]

subsection \<open>Fuel\<close>

lemma skip_fuel:
  "length s - pos < n \<Longrightarrow> length s - pos < k \<Longrightarrow>
   sharpSkipExpr n s pos m = sharpSkipExpr k s pos m \<and> skip_rest n s pos m = skip_rest k s pos m"
proof (induction n arbitrary: k pos m)
  case (Suc n)
  then obtain j where k: "k = Suc j" by (cases k) auto
  let ?p = "skip_while sp_tab s pos"
  note g = skip_while_ge [of pos sp_tab s]
  have e: "sharpSkipExpr n s p1 m' = sharpSkipExpr j s p1 m'" and r: "skip_rest n s p1 m' = skip_rest j s p1 m'"
    if "pos < p1" "pos < length s" for p1 m'
    using Suc.IH [of p1 j m'] Suc.prems that k by auto
  have "sharpSkipExpr (Suc n) s pos m = sharpSkipExpr (Suc j) s pos m"
  proof -
    let ?f = "\<lambda>n. case matchSharpUnaryOp s ?p of Some (op, p1) \<Rightarrow> sharpSkipExpr n s p1 (sharpUnaryOpPrec op)
        | None \<Rightarrow> skipPrimary s ?p"
    have "?f n = ?f j"
      using g e by (force split: option.splits dest: unary_progress)
    moreover have "pos < q \<and> pos < length s" if "?f n = Some (Inr q)" for q
      using that g by (fastforce split: option.splits dest: unary_progress skipPrimary_progress skip_expr_progress)
    ultimately have "obind (?f n) (\<lambda>q. skip_rest n s q m) = obind (?f j) (\<lambda>q. skip_rest j s q m)"
      by (metis (no_types, lifting) obind_cong r)
    then show ?thesis by (simp add: Let_def)
  qed
  moreover have "skip_rest (Suc n) s pos m = skip_rest (Suc j) s pos m"
  proof (cases "matchSharpBinaryOp s ?p")
    case (Some x)
    then obtain op p1 where x: "matchSharpBinaryOp s ?p = Some (op, p1)" by (cases x) auto
    then have b: "?p < p1" "?p < length s" using binary_progress by blast+
    let ?c = "colon_loop 0 p1 (drop p1 s)"
    have c: "?c \<noteq> -1 \<Longrightarrow> p1 < nat ?c + 1" using colon_loop_ge [of 0 p1 "drop p1 s"] by auto
    have step: "obind (sharpSkipExpr n s p2 m') (\<lambda>q. skip_rest n s q m) = obind (sharpSkipExpr j s p2 m') (\<lambda>q. skip_rest j s q m)"
      if "pos < p2" for p2 m'
    proof (rule obind_cong)
      show "sharpSkipExpr n s p2 m' = sharpSkipExpr j s p2 m'" using e that b g by simp
      fix q assume "sharpSkipExpr n s p2 m' = Some (Inr q)"
      then show "skip_rest n s q m = skip_rest j s q m" using r that b g skip_expr_progress by (meson less_trans le_less_trans)
    qed
    show ?thesis using x step [of p1] step [of "nat ?c + 1"] e [of p1] b g c
      by (cases "?c = -1") (simp_all add: Let_def)
  qed (simp add: Let_def)
  ultimately show ?case by (simp add: k)
qed simp

lemma parse_fuel:
  "length s - pos < n \<Longrightarrow> length s - pos < k \<Longrightarrow>
   sharpParseExpr n rt s pos m st = sharpParseExpr k rt s pos m st \<and>
   parse_rest n rt s pos m w st = parse_rest k rt s pos m w st"
proof (induction n arbitrary: k pos m w st)
  case (Suc n)
  then obtain j where k: "k = Suc j" by (cases k) auto
  let ?p = "skip_while sp_tab s pos"
  note g = skip_while_ge [of pos sp_tab s]
  have e: "sharpParseExpr n rt s p1 m' t1 = sharpParseExpr j rt s p1 m' t1"
    and r: "parse_rest n rt s p1 m' w' t1 = parse_rest j rt s p1 m' w' t1"
    and sk: "sharpSkipExpr n s p1 m' = sharpSkipExpr j s p1 m'"
    if "pos < p1" "pos < length s" for p1 m' w' t1
    using Suc.IH [of p1 j m' t1 w'] skip_fuel [of s p1 n j m'] Suc.prems that k by auto
  have "sharpParseExpr (Suc n) rt s pos m st = sharpParseExpr (Suc j) rt s pos m st"
  proof -
    let ?f = "\<lambda>n. case matchSharpUnaryOp s ?p of
        Some (op, p1) \<Rightarrow> obind (sharpParseExpr n rt s p1 (sharpUnaryOpPrec op) st)
          (\<lambda>(v, q, st1). obind (Some (apply_unary rt op v)) (\<lambda>w. done_with (w, q, st1)))
      | None \<Rightarrow> sharpParsePrimary rt s ?p st"
    have same: "?f n = ?f j"
      using g e by (force split: option.splits dest: unary_progress)
    have ahead: "pos < q \<and> pos < length s" if "?f n = Some (Inr (v, q, st1))" for v q st1
      using that g by (fastforce simp: obind_eq_Inr split: option.splits
          dest: unary_progress sharpParsePrimary_progress parse_expr_progress)
    have "obind (?f n) (\<lambda>(lhs, q, st1). parse_rest n rt s q m lhs st1) =
        obind (?f j) (\<lambda>(lhs, q, st1). parse_rest j rt s q m lhs st1)"
      by (rule obind_cong3 [OF same]) (use r ahead in blast)
    then show ?thesis by (simp add: Let_def)
  qed
  moreover have "parse_rest (Suc n) rt s pos m w st = parse_rest (Suc j) rt s pos m w st"
  proof (cases "matchSharpBinaryOp s ?p")
    case (Some x)
    then obtain op p1 where x: "matchSharpBinaryOp s ?p = Some (op, p1)" by (cases x) auto
    then have b: "?p < p1" "?p < length s" using binary_progress by blast+
    let ?c = "colon_loop 0 p1 (drop p1 s)"
    have c: "?c \<noteq> -1 \<Longrightarrow> p1 < nat ?c + 1" using colon_loop_ge [of 0 p1 "drop p1 s"] by auto
    have step: "obind (sharpParseExpr n rt s p2 m' t) (\<lambda>(rhs, q, st1). obind (h rhs) (\<lambda>v. parse_rest n rt s q m v st1)) =
        obind (sharpParseExpr j rt s p2 m' t) (\<lambda>(rhs, q, st1). obind (h rhs) (\<lambda>v. parse_rest j rt s q m v st1))"
      if "pos < p2" for p2 m' t h
    proof (rule obind_cong)
      show "sharpParseExpr n rt s p2 m' t = sharpParseExpr j rt s p2 m' t" using e that b g by simp
      fix y assume "sharpParseExpr n rt s p2 m' t = Some (Inr y)"
      then show "(\<lambda>(rhs, q, st1). obind (h rhs) (\<lambda>v. parse_rest n rt s q m v st1)) y =
          (\<lambda>(rhs, q, st1). obind (h rhs) (\<lambda>v. parse_rest j rt s q m v st1)) y"
        using r that b g by (cases y) (auto dest!: parse_expr_progress intro!: obind_cong)
    qed
    have skip: "obind (sharpSkipExpr n s p1 m') (\<lambda>q. parse_rest n rt s q m w st) =
        obind (sharpSkipExpr j s p1 m') (\<lambda>q. parse_rest j rt s q m w st)" for m'
    proof (rule obind_cong)
      show "sharpSkipExpr n s p1 m' = sharpSkipExpr j s p1 m'" using sk b g by simp
      fix q assume "sharpSkipExpr n s p1 m' = Some (Inr q)"
      then have "p1 < q" by (rule skip_expr_progress [THEN conjunct1])
      then show "parse_rest n rt s q m w st = parse_rest j rt s q m w st" using r b g by simp
    qed
    have tern: "obind (sharpParseExpr n rt s p1 0 st) f = obind (sharpParseExpr j rt s p1 0 st) f'"
      if "\<And>x. f x = f' x" for f f'
      using e [of p1] b g that by (intro obind_cong) auto
    consider "sharpBinOpPrec op < m" | "\<not> sharpBinOpPrec op < m" "op = ''?''"
      | "\<not> sharpBinOpPrec op < m" "op \<noteq> ''?''" "is_and op \<or> is_or op"
      | "\<not> sharpBinOpPrec op < m" "op \<noteq> ''?''" "\<not> (is_and op \<or> is_or op)" by blast
    then show ?thesis
    proof cases
      case 2
      then show ?thesis using x c b g step [of "nat ?c + 1"]
        by (auto simp: Let_def intro!: tern split: prod.splits)
    next
      case 3
      then show ?thesis using x b g step [of p1] skip
        by (auto simp: Let_def intro!: obind_cong)
    next
      case 4
      then show ?thesis using x b g step [of p1] by (simp add: Let_def)
    qed (use x in \<open>simp add: Let_def\<close>)
  qed (simp add: Let_def)
  ultimately show ?case by (simp add: k)
qed simp

subsection \<open>Termination\<close>

text \<open>An exponent letter without digits behind it, and texts in which no number has one.\<close>

definition bare_exponent :: "bytes \<Rightarrow> nat \<Rightarrow> bool" where
  "bare_exponent s i \<longleftrightarrow> i < length s \<and> exp_char (s ! i) \<and>
     \<not> (exp_digits s i < length s \<and> is_digit (s ! exp_digits s i))"

definition exponents_ok :: "bytes \<Rightarrow> bool" where
  "exponents_ok s \<longleftrightarrow> list_all (\<lambda>i. num_char (s ! (i - 1)) \<longrightarrow> \<not> bare_exponent s i) [1..<length s]"

lemma exponents_okD: "exponents_ok s \<Longrightarrow> 0 < i \<Longrightarrow> num_char (s ! (i - 1)) \<Longrightarrow> \<not> bare_exponent s i"
  by (cases "i < length s") (auto simp: exponents_ok_def list_all_iff bare_exponent_def)

lemma skip_while_prev:
  assumes "pos < length s" "p (s ! pos)"
  shows "p (s ! (skip_while p s pos - 1))"
proof -
  let ?k = "length (takeWhile p (drop pos s))"
  from assms have k: "0 < ?k" by (simp add: Cons_nth_drop_Suc [symmetric])
  have "drop pos s ! (?k - 1) = takeWhile p (drop pos s) ! (?k - 1)" using k by (intro takeWhile_nth [symmetric]) simp
  also have "p \<dots>" using k nth_mem [of "?k - 1" "takeWhile p (drop pos s)"]
    by (metis One_nat_def diff_less set_takeWhileD zero_less_one)
  finally have "p (drop pos s ! (?k - 1))" .
  moreover have "pos + (?k - 1) = pos + ?k - 1" using k by linarith
  ultimately show ?thesis using assms(1) by (simp add: skip_while_def)
qed

lemma number_loop_total:
  "exponents_ok s \<Longrightarrow> 0 < pos \<Longrightarrow> num_char (s ! (pos - 1)) \<Longrightarrow> \<exists>q. number_loop s pos = Some q"
proof (induction "length s - pos" arbitrary: pos rule: less_induct)
  case less
  show ?case
  proof (cases "pos < length s")
    case True
    show ?thesis
    proof (cases "num_char (s ! pos)")
      case num: True
      have "\<exists>q. number_loop s (pos + 1) = Some q" using less True num by (intro less(1)) auto
      then show ?thesis using True num by (subst number_loop.simps) simp
    next
      case num: False
      show ?thesis
      proof (cases "exp_char (s ! pos)")
        case e: True
        let ?d = "exp_digits s pos"
        from exponents_okD [OF less(2,3,4)] True e have d: "?d < length s" "is_digit (s ! ?d)"
          by (auto simp: bare_exponent_def)
        have "pos < ?d" by (simp add: exp_digits_def)
        then have "pos < skip_while is_digit s ?d" using skip_while_ge [of ?d is_digit s] by linarith
        then have "\<exists>q. number_loop s (skip_while is_digit s ?d) = Some q"
          using less True skip_while_prev [OF d(1), of is_digit] d(2)
          by (intro less(1)) (auto simp: num_char_def)
        then show ?thesis using True num e d by (subst number_loop.simps) simp
      qed (use True num in \<open>subst number_loop.simps, simp\<close>)
    qed
  qed (subst number_loop.simps, simp)
qed

lemma number_total:
  "exponents_ok s \<Longrightarrow> starts_number s pos \<Longrightarrow> pos < length s \<Longrightarrow> number_loop s pos \<noteq> None"
  using number_loop_total [of s "pos + 1"] starts_number_num [of s pos]
  by (subst number_loop.simps) auto

lemma skipPrimary_total: "exponents_ok s \<Longrightarrow> skipPrimary s pos \<noteq> None"
  using number_total by (auto simp: skipPrimary_def Let_def)

lemma parsePrimary_total: "exponents_ok s \<Longrightarrow> sharpParsePrimary rt s pos st \<noteq> None"
  using number_total by (auto simp: sharpParsePrimary_def Let_def)

lemma skip_total:
  "exponents_ok s \<Longrightarrow> length s - pos < n \<Longrightarrow> sharpSkipExpr n s pos m \<noteq> None \<and> skip_rest n s pos m \<noteq> None"
proof (induction n arbitrary: pos m)
  case (Suc n)
  let ?p = "skip_while sp_tab s pos"
  note g = skip_while_ge [of pos sp_tab s]
  have ih: "sharpSkipExpr n s p1 m' \<noteq> None" "skip_rest n s p1 m' \<noteq> None" if "pos < p1" "pos < length s" for p1 m'
    using Suc.IH [of p1 m'] Suc.prems that by auto
  have "sharpSkipExpr (Suc n) s pos m \<noteq> None"
  proof -
    let ?f = "case matchSharpUnaryOp s ?p of Some (op, p1) \<Rightarrow> sharpSkipExpr n s p1 (sharpUnaryOpPrec op)
        | None \<Rightarrow> skipPrimary s ?p"
    have f: "?f \<noteq> None" using g ih skipPrimary_total [OF Suc.prems(1), of ?p]
      by (auto split: option.splits dest!: unary_progress)
    have q: "pos < q \<and> pos < length s" if "?f = Some (Inr q)" for q
      using that g by (fastforce split: option.splits dest: unary_progress skipPrimary_progress skip_expr_progress)
    show ?thesis unfolding sharpSkipExpr.simps Let_def obind_none using f q ih(2) by blast
  qed
  moreover have "skip_rest (Suc n) s pos m \<noteq> None"
  proof (cases "matchSharpBinaryOp s ?p")
    case (Some x)
    then obtain op p1 where x: "matchSharpBinaryOp s ?p = Some (op, p1)" by (cases x) auto
    then have b: "?p < p1" "?p < length s" using binary_progress by blast+
    let ?c = "colon_loop 0 p1 (drop p1 s)"
    have c: "?c \<noteq> -1 \<Longrightarrow> p1 < nat ?c + 1" using colon_loop_ge [of 0 p1 "drop p1 s"] by auto
    have step: "obind (sharpSkipExpr n s p2 m') (\<lambda>q. skip_rest n s q m) \<noteq> None" if "pos < p2" for p2 m'
      using ih that b g skip_expr_progress [of n s p2 m'] by (simp add: obind_none) (meson less_trans le_less_trans)
    show ?thesis using x step [of p1] step [of "nat ?c + 1"] ih [of p1] b g c by (auto simp: Let_def obind_none obind_some)
  qed (simp add: Let_def)
  ultimately show ?case by blast
qed simp

lemma parse_total:
  "exponents_ok s \<Longrightarrow> length s - pos < n \<Longrightarrow>
   sharpParseExpr n rt s pos m st \<noteq> None \<and> parse_rest n rt s pos m w st \<noteq> None"
proof (induction n arbitrary: pos m w st)
  case (Suc n)
  let ?p = "skip_while sp_tab s pos"
  note g = skip_while_ge [of pos sp_tab s]
  have ih: "sharpParseExpr n rt s p1 m' t1 \<noteq> None" "parse_rest n rt s p1 m' w' t1 \<noteq> None"
    "sharpSkipExpr n s p1 m' \<noteq> None" if "pos < p1" "pos < length s" for p1 m' t1 w'
    using Suc.IH [of p1 m' t1 w'] skip_total [of s p1 n m'] Suc.prems that by auto
  have "sharpParseExpr (Suc n) rt s pos m st \<noteq> None"
  proof -
    let ?f = "case matchSharpUnaryOp s ?p of
        Some (op, p1) \<Rightarrow> obind (sharpParseExpr n rt s p1 (sharpUnaryOpPrec op) st)
          (\<lambda>(v, q, st1). obind (Some (apply_unary rt op v)) (\<lambda>w. done_with (w, q, st1)))
      | None \<Rightarrow> sharpParsePrimary rt s ?p st"
    have f: "?f \<noteq> None" using g ih(1) parsePrimary_total [OF Suc.prems(1), of rt ?p st]
      by (auto simp: obind_none obind_some split: option.splits dest!: unary_progress)
    have q: "pos < q \<and> pos < length s" if "?f = Some (Inr (v, q, st1))" for v q st1
      using that g by (fastforce simp: obind_eq_Inr split: option.splits
          dest: unary_progress sharpParsePrimary_progress parse_expr_progress)
    have "obind ?f (\<lambda>(lhs, q, st1). parse_rest n rt s q m lhs st1) \<noteq> None"
    proof -
      have "parse_rest n rt s q m v st1 \<noteq> None" if "?f = Some (Inr (v, q, st1))" for v q st1
        using q [OF that] by (intro ih(2)) simp_all
      with f show ?thesis by (simp only: obind_none split_paired_Ex prod.case) blast
    qed
    then show ?thesis by (simp add: Let_def)
  qed
  moreover have "parse_rest (Suc n) rt s pos m w st \<noteq> None"
  proof (cases "matchSharpBinaryOp s ?p")
    case (Some x)
    then obtain op p1 where x: "matchSharpBinaryOp s ?p = Some (op, p1)" by (cases x) auto
    then have b: "?p < p1" "?p < length s" using binary_progress by blast+
    let ?c = "colon_loop 0 p1 (drop p1 s)"
    have c: "?c \<noteq> -1 \<Longrightarrow> p1 < nat ?c + 1" using colon_loop_ge [of 0 p1 "drop p1 s"] by auto
    have step: "obind (sharpParseExpr n rt s p2 m' t) (\<lambda>(rhs, q, st1).
        obind (Some (h rhs)) (\<lambda>v. parse_rest n rt s q m v st1)) \<noteq> None" if "pos < p2" for p2 m' t h
    proof -
      have "sharpParseExpr n rt s p2 m' t \<noteq> None" using ih that b g by simp
      moreover have "parse_rest n rt s q m v' st1 \<noteq> None" if "sharpParseExpr n rt s p2 m' t = Some (Inr (v, q, st1))" for v q st1 v'
        using ih that \<open>pos < p2\<close> b g parse_expr_progress [OF that] by simp
      ultimately show ?thesis by (auto simp: obind_none)
    qed
    have skip: "obind (sharpSkipExpr n s p1 m') (\<lambda>q. parse_rest n rt s q m w st) \<noteq> None" for m'
    proof -
      have "sharpSkipExpr n s p1 m' \<noteq> None" using ih b g by simp
      moreover have "parse_rest n rt s q m w st \<noteq> None" if "sharpSkipExpr n s p1 m' = Some (Inr q)" for q
        using ih b g skip_expr_progress [OF that] by simp
      ultimately show ?thesis by (auto simp: obind_none)
    qed
    have tern: "obind (sharpParseExpr n rt s p1 0 st) f \<noteq> None" if "\<And>x. f x \<noteq> None" for f
      using ih(1) [of p1] b g that by (auto simp: obind_none)
    consider "sharpBinOpPrec op < m" | "\<not> sharpBinOpPrec op < m" "op = ''?''"
      | "\<not> sharpBinOpPrec op < m" "op \<noteq> ''?''" "is_and op \<or> is_or op"
      | "\<not> sharpBinOpPrec op < m" "op \<noteq> ''?''" "\<not> (is_and op \<or> is_or op)" by blast
    then show ?thesis
    proof cases
      case 1
      then show ?thesis using x by (simp add: Let_def)
    next
      case 2
      show ?thesis
      proof (cases "?c = -1")
        case True
        then show ?thesis using x 2 by (simp add: Let_def)
      next
        case False
        have "obind (sharpParseExpr n rt s p1 0 st) (\<lambda>(thenVal, _, st1).
            obind (sharpParseExpr n rt s (nat ?c + 1) 0 st1) (\<lambda>(elseVal, q, st2).
              obind (Some (rt_ternary rt w thenVal elseVal)) (\<lambda>v. parse_rest n rt s q m v st2))) \<noteq> None"
          using step [of "nat ?c + 1"] c False b g by (intro tern) (auto split: prod.splits)
        then show ?thesis using x 2 False by (simp add: Let_def)
      qed
    next
      case 3
      have "rt_truthy rt w = r \<Longrightarrow> parse_rest (Suc n) rt s pos m w st \<noteq> None" for r
        using x 3 step [of p1] skip b g by (cases r) (auto simp: Let_def)
      then show ?thesis by blast
    next
      case 4
      then show ?thesis using x b g step [of p1] by (simp add: Let_def)
    qed
  qed (simp add: Let_def)
  ultimately show ?case by blast
qed simp

text \<open>A runtime of trivial values, for the examples.\<close>

definition unit_runtime :: "(unit, unit) runtime" where
  "unit_runtime = \<lparr> ev_expr = \<lambda>_ _ _. Inr ((), ()), rt_binary = \<lambda>_ _ _. Inr (), rt_not = Inr, rt_neg = Inr,
     rt_truthy = \<lambda>_. Inr True, rt_ternary = \<lambda>_ _ _. Inr (), rt_array = \<lambda>_. (), rt_struct = \<lambda>_. (),
     rt_chain = \<lambda>_ _ _. Inr ((), ()) \<rparr>"

text \<open>C26: The evaluator ends. When every number with an exponent letter has exponent digits, a fuel
  above the length of the text left is enough for both the evaluation and the skipping of an
  expression, and the result does not depend on the fuel.\<close>

theorem sharp_terminates:
  assumes "exponents_ok s" "length s - pos < n" "length s - pos < k"
  shows "sharpParseExpr n rt s pos m st \<noteq> None \<and> sharpSkipExpr n s pos m \<noteq> None \<and>
    sharpParseExpr k rt s pos m st = sharpParseExpr n rt s pos m st \<and> sharpSkipExpr k s pos m = sharpSkipExpr n s pos m"
  by (simp only: parse_total [OF assms(1,2)] skip_total [OF assms(1,2)] parse_fuel [OF assms(3,2)]
      skip_fuel [OF assms(3,2)] not_False_eq_True)

theorem sharp_terminates_witness:
  "sharpParseExpr 9 unit_runtime ''1e5 + x'' 0 0 () = sharpParseExpr 20 unit_runtime ''1e5 + x'' 0 0 () \<and>
   sharpParseExpr 20 unit_runtime ''1e5 + x'' 0 0 () \<noteq> None"
proof -
  have "exponents_ok ''1e5 + x''" by code_simp
  then show ?thesis using sharp_terminates [of "''1e5 + x''" 0 20 9 unit_runtime 0 "()"] by simp
qed

subsection \<open>The loop that does not end\<close>

lemma number_not_bare:
  assumes "number_loop s pos = Some q"
  shows "\<not> bare_exponent s pos"
proof (rule number_loop.raw_induct [OF _ assms, where P = "\<lambda>s pos q. \<not> bare_exponent s pos"])
  fix f :: "bytes \<Rightarrow> nat \<Rightarrow> nat option" and s pos q
  assume ih: "\<And>s pos q. f s pos = Some q \<Longrightarrow> \<not> bare_exponent s pos"
    and eq: "(if pos < length s then if num_char (s ! pos) then f s (pos + 1)
       else if exp_char (s ! pos) then
         if exp_digits s pos < length s \<and> is_digit (s ! exp_digits s pos)
         then f s (skip_while is_digit s (exp_digits s pos)) else f s pos
       else Some pos else Some pos) = Some q"
  have "exp_char c \<Longrightarrow> \<not> num_char c" for c by (auto simp: exp_char_def num_char_def is_digit_def char_le_nat)
  with ih [of s pos q] eq show "\<not> bare_exponent s pos" by (auto simp: bare_exponent_def split: if_splits)
qed

lemma number_loop_bare:
  "bare_exponent s i \<Longrightarrow> pos \<le> i \<Longrightarrow> (\<And>j. pos \<le> j \<Longrightarrow> j < i \<Longrightarrow> num_char (s ! j)) \<Longrightarrow> number_loop s pos = None"
proof (induction "i - pos" arbitrary: pos)
  case 0
  then show ?case using number_not_bare [of s pos] by (cases "number_loop s pos") auto
next
  case (Suc d)
  then have "pos < length s" "num_char (s ! pos)" "number_loop s (pos + 1) = None"
    by (auto simp: bare_exponent_def)
  then show ?case by (subst number_loop.simps) simp
qed

text \<open>The digits of an exponent at the start of a text.\<close>

fun exponent_digits :: "bytes \<Rightarrow> bool" where
  "exponent_digits (c # d # cs) = (is_digit c \<or> (c = CHR ''+'' \<or> c = CHR ''-'') \<and> is_digit d)"
| "exponent_digits [c] = is_digit c"
| "exponent_digits [] = False"

lemma digit_start:
  "is_digit c \<Longrightarrow> \<not> sp_tab c" "is_digit c \<Longrightarrow> \<not> opens c" "is_digit c \<Longrightarrow> \<not> quote_char c"
  "is_digit c \<Longrightarrow> c \<noteq> CHR ''!'' \<and> c \<noteq> CHR ''-'' \<and> c \<noteq> CHR ''+''" "is_digit c \<Longrightarrow> to_lower c \<noteq> CHR ''n''"
  by (auto simp: sp_tab_def opens_def quote_char_def to_lower_def is_digit_def is_upper_def char_le_nat)

lemma to_lower_n: "to_lower CHR ''N'' = CHR ''n''" by code_simp

text \<open>A number with an exponent letter and no exponent digits (\<open>1e\<close>, \<open>2em\<close>, \<open>10E+x\<close>) sends
  the evaluator into an endless loop: the scan of the number sets the position back to the letter
  and goes on there. No fuel gives a result, in the evaluation and in the skipping of an operand.\<close>

theorem sharp_number_hangs:
  assumes "ds \<noteq> []" "list_all is_digit ds" "exp_char e" "\<not> exponent_digits rest"
  shows "sharpParseExpr n rt (ds @ e # rest) 0 m st = None \<and> sharpSkipExpr n (ds @ e # rest) 0 m = None"
proof (cases n)
  case (Suc k)
  let ?s = "ds @ e # rest"
  from assms(1,2) have d: "is_digit (?s ! 0)" by (cases ds) auto
  have "bare_exponent ?s (length ds)"
    using assms(3,4) by (cases rest rule: exponent_digits.cases)
      (auto simp: bare_exponent_def exp_digits_def nth_append split: if_splits)
  then have loop: "number_loop ?s 0 = None"
    using assms(2) by (intro number_loop_bare [of _ "length ds"]) (auto simp: nth_append list_all_length num_char_def)
  have sp: "skip_while sp_tab ?s 0 = 0"
    using d assms(1) by (cases ds) (auto simp: skip_while_def digit_start)
  have "\<not> sharpWordStartsAt ?s 0 ''NOT''"
    using d assms(1) by (cases ds) (auto simp: sharpWordStartsAt_def to_lower_n digit_start)
  then have un: "matchSharpUnaryOp ?s 0 = None" using digit_start [OF d] by (auto simp: matchSharpUnaryOp_def)
  have st: "starts_number ?s 0" using d by (simp add: starts_number_def)
  have "sharpParsePrimary rt ?s 0 st = None" "skipPrimary ?s 0 = None"
    using loop st digit_start [OF d] by (simp_all add: sharpParsePrimary_def skipPrimary_def Let_def)
  with sp un Suc show ?thesis by (simp add: Let_def)
qed simp

theorem sharp_number_hangs_witness:
  "\<forall>n. sharpParseExpr n unit_runtime ''2em'' 0 0 () = None"
  using sharp_number_hangs [of "''2''" "CHR ''e''" "''m''" _ unit_runtime 0 "()"]
  by (simp add: is_digit_def exp_char_def char_le_nat)

end
