(* ===== verification/SharpExtent.thy ===== *)
theory SharpExtent imports SharpFuel begin

section \<open>Skipping an operand covers what evaluating it covers\<close>

text \<open>
  \<open>sharpSkipExpr\<close> has to stop where \<open>sharpParseExpr\<close> would have stopped. It does, except behind a
  parenthesised operand that a member or an index follows.
\<close>

text \<open>Where an operand can start: not behind a name or a closing bracket, unless it is an operator.\<close>

definition word_ends :: "bytes \<Rightarrow> nat \<Rightarrow> bool" where
  "word_ends s p \<longleftrightarrow> list_ex (\<lambda>w. length w \<le> p \<and> sharpWordStartsAt s (p - length w) w) (''NOT'' # wordOps)"

definition name_end :: "char \<Rightarrow> bool" where
  "name_end c \<longleftrightarrow> ident_char c \<or> c = CHR '')'' \<or> c = CHR '']''"

definition operand_pos :: "bytes \<Rightarrow> nat \<Rightarrow> bool" where
  "operand_pos s p \<longleftrightarrow> p = 0 \<or> \<not> name_end (s ! (p - 1)) \<or> word_ends s p"

text \<open>No parenthesised operand is followed by \<open>.\<close> or \<open>[\<close>.\<close>

definition plain_parens :: "bytes \<Rightarrow> bool" where
  "plain_parens s \<longleftrightarrow> list_all (\<lambda>p. s ! p = CHR ''('' \<and> operand_pos s p \<and> findMatchingClose s (int p) \<noteq> -1 \<longrightarrow>
     (let q = nat (findMatchingClose s (int p)) + 1 in q < length s \<longrightarrow> s ! q \<noteq> CHR ''['' \<and> s ! q \<noteq> CHR ''.''))
     [0..<length s]"

lemma no_name: "list_all (\<lambda>c. \<not> name_end c) ([CHR 0x20, CHR 0x09, CHR ''!''] @ oneOps @ ''?:'' @ concat twoOps)"
  by code_simp

lemma operators_no_name: "c \<in> set (oneOps @ ''?:'' @ concat twoOps) \<Longrightarrow> \<not> name_end c"
  using no_name unfolding list_all_iff set_append by blast

lemma blanks_no_name: "sp_tab c \<Longrightarrow> \<not> name_end c" "\<not> name_end CHR ''!''" "\<not> name_end CHR ''-''"
  "\<not> name_end CHR ''+''"
  using no_name by (auto simp: sp_tab_def oneOps_def)

lemma operand_skip: "operand_pos s pos \<Longrightarrow> operand_pos s (skip_while sp_tab s pos)"
proof (cases "pos < length s \<and> sp_tab (s ! pos)")
  case True
  then have "sp_tab (s ! (skip_while sp_tab s pos - 1))" using skip_while_prev [of pos s sp_tab] by blast
  then have "\<not> name_end (s ! (skip_while sp_tab s pos - 1))" by (rule blanks_no_name(1))
  then show ?thesis unfolding operand_pos_def by blast
next
  case False
  then have "skip_while sp_tab s pos = pos"
    by (cases "pos < length s") (auto simp: skip_while_def Cons_nth_drop_Suc [symmetric])
  then show "operand_pos s pos \<Longrightarrow> ?thesis" by (simp only:)
qed

lemma operand_unary: "matchSharpUnaryOp s pos = Some (op, p1) \<Longrightarrow> operand_pos s p1"
  using blanks_no_name by (auto simp: matchSharpUnaryOp_def operand_pos_def word_ends_def split: if_splits)

lemma operand_binary:
  assumes "matchSharpBinaryOp s pos = Some (op, p1)"
  shows "operand_pos s p1"
proof -
  from assms have len: "pos < length s" by (auto simp: matchSharpBinaryOp_def split: if_splits)
  show ?thesis
  proof (cases "List.find (\<lambda>w. sharpWordStartsAt s pos w) wordOps")
    case (Some w)
    with assms len have "p1 = pos + length w" "w \<in> set wordOps" "sharpWordStartsAt s pos w"
      by (auto simp: matchSharpBinaryOp_def dest: find_mem)
    then have "word_ends s p1" unfolding word_ends_def list_ex_iff by (intro bexI [of _ w]) auto
    then show ?thesis by (simp add: operand_pos_def)
  next
    case None
    consider "pos + 1 < length s" "take 2 (drop pos s) \<in> set twoOps" "p1 = pos + 2"
      | "s ! pos = CHR ''?''" "p1 = pos + 1" | "s ! pos \<in> set oneOps" "p1 = pos + 1"
      using assms len None by (auto simp: matchSharpBinaryOp_def split: if_splits)
    then have "s ! (p1 - 1) \<in> set (oneOps @ ''?:'' @ concat twoOps)"
    proof cases
      case 1
      then have "take 2 (drop pos s) = [s ! pos, s ! (pos + 1)]"
        by (simp add: Cons_nth_drop_Suc [symmetric] numeral_2_eq_2)
      with 1(2) have "s ! (pos + 1) \<in> set (concat twoOps)" by (auto simp: twoOps_def)
      with 1(3) show ?thesis by simp
    qed auto
    then show ?thesis using operators_no_name by (auto simp: operand_pos_def)
  qed
qed

definition colon_at :: "nat \<Rightarrow> bytes \<Rightarrow> int \<Rightarrow> bool" where
  "colon_at i cs r \<longleftrightarrow> (\<exists>j. r = int (i + j) \<and> j < length cs \<and> cs ! j = CHR '':'')"

lemma colon_at_shift: "colon_at (i + 1) cs r \<Longrightarrow> colon_at i (c # cs) r"
  unfolding colon_at_def by (metis add.assoc length_Cons not_less_eq nth_Cons_Suc plus_1_eq_Suc)

lemma colon_at_drop:
  assumes "colon_at (i + k) (drop k cs) r"
  shows "colon_at i cs r"
proof -
  from assms obtain j where "r = int (i + k + j)" "j < length (drop k cs)" "drop k cs ! j = CHR '':''"
    unfolding colon_at_def by blast
  then have "r = int (i + (k + j)) \<and> k + j < length cs \<and> cs ! (k + j) = CHR '':''" by auto
  then show ?thesis unfolding colon_at_def by blast
qed

lemma colon_at_quote:
  assumes "colon_at (i + length (takeWhile P cs) + 2) (tl (dropWhile P cs)) r"
  shows "colon_at i (c # cs) r"
proof -
  have "tl (dropWhile P cs) = drop (length (takeWhile P cs) + 2) (c # cs)"
    by (simp add: dropWhile_eq_drop drop_Suc tl_drop)
  with assms show ?thesis by (intro colon_at_drop [of i "length (takeWhile P cs) + 2"]) (simp add: add.assoc)
qed

lemma colon_loop_step: "colon_loop depth i (c # cs) = r \<Longrightarrow> r = -1 \<or> c = CHR '':'' \<and> r = int i \<or>
   (\<exists>d. r = colon_loop d (i + 1) cs) \<or>
   r = colon_loop depth (i + length (takeWhile (\<lambda>d. d \<noteq> c) cs) + 2) (tl (dropWhile (\<lambda>d. d \<noteq> c) cs))"
  unfolding colon_loop.simps by (split if_split_asm; blast?)+

lemma colon_loop_char: "colon_loop d i cs \<noteq> -1 \<Longrightarrow> colon_at i cs (colon_loop d i cs)"
proof (induction cs arbitrary: d i rule: length_induct)
  case (1 cs)
  show ?case
  proof (cases cs)
    case (Cons c cs')
    let ?t = "tl (dropWhile (\<lambda>d. d \<noteq> c) cs')"
    have len: "length ?t < length cs" using length_dropWhile_le [of "\<lambda>d. d \<noteq> c" cs'] Cons by simp
    consider "colon_loop d i cs = -1" | "c = CHR '':''" "colon_loop d i cs = int i"
      | d' where "colon_loop d i cs = colon_loop d' (i + 1) cs'"
      | "colon_loop d i cs = colon_loop d (i + length (takeWhile (\<lambda>d. d \<noteq> c) cs') + 2) ?t"
      using colon_loop_step [of d i c cs'] Cons by blast
    then show ?thesis
    proof cases
      case 1
      with "1.prems" show ?thesis by simp
    next
      case 2
      then show ?thesis using Cons by (auto simp: colon_at_def intro: exI [of _ 0])
    next
      case (3 d')
      then have "colon_at (i + 1) cs' (colon_loop d' (i + 1) cs')" using 1 Cons by simp
      then show ?thesis unfolding 3 unfolding Cons by (rule colon_at_shift)
    next
      case 4
      then have "colon_at (i + length (takeWhile (\<lambda>d. d \<noteq> c) cs') + 2) ?t
          (colon_loop d (i + length (takeWhile (\<lambda>d. d \<noteq> c) cs') + 2) ?t)" using 1 Cons len by simp
      then show ?thesis unfolding 4 unfolding Cons by (rule colon_at_quote)
    qed
  qed (use 1 in simp)
qed

lemma operand_colon:
  assumes "colon_loop 0 p1 (drop p1 s) \<noteq> -1"
  shows "operand_pos s (nat (colon_loop 0 p1 (drop p1 s)) + 1)"
proof -
  let ?c = "colon_loop 0 p1 (drop p1 s)"
  from colon_loop_char [OF assms] obtain j where "?c = int (p1 + j)" "j < length (drop p1 s)" "drop p1 s ! j = CHR '':''"
    unfolding colon_at_def by blast
  then have "s ! nat ?c = CHR '':''" by (simp add: nat_int_add)
  then show ?thesis by (simp add: operand_pos_def operators_no_name)
qed

lemma lit_chain_stop: "\<not> (q < length s \<and> (s ! q = CHR ''['' \<or> s ! q = CHR ''.'')) \<Longrightarrow> lit_chain s q = q"
  by (subst lit_chain.simps) auto

lemma literal_chain_end: "appendLiteralChain rt a b s pos st = Inr (v, q, st') \<Longrightarrow> q = lit_chain s pos"
  using lit_chain_ge [of pos s]
  by (auto simp: appendLiteralChain_def Let_def ebind_eq_Inr split: if_splits prod.splits)

lemma primary_extent:
  assumes "plain_parens s" "operand_pos s p" "sharpParsePrimary rt s p st = Some (Inr (v, q, st'))"
  shows "skipPrimary s p = Some (Inr q)"
proof -
  have len: "p < length s" using sharpParsePrimary_progress [OF assms(3)] by simp
  let ?c = "findMatchingClose s (int p)"
  have paren: "lit_chain s (nat ?c + 1) = nat ?c + 1" if "s ! p = CHR ''(''" "?c \<noteq> -1"
    using assms(1,2) len that by (intro lit_chain_stop) (auto simp: plain_parens_def list_all_iff Let_def)
  show ?thesis
    using assms(3) len paren
    by (auto simp: sharpParsePrimary_def skipPrimary_def Let_def ebind_eq_Inr atom_at_def done_with_def
        dest!: literal_chain_end split: if_splits prod.splits)
qed

lemma rest_extent:
  assumes "plain_parens s"
  shows "(operand_pos s pos \<longrightarrow> sharpParseExpr n rt s pos m st = Some (Inr (v, q, st')) \<longrightarrow>
      sharpSkipExpr n s pos m = Some (Inr q)) \<and>
    (parse_rest n rt s pos m w st = Some (Inr (v, q, st')) \<longrightarrow> skip_rest n s pos m = Some (Inr q))"
proof (induction n arbitrary: pos m w st v q st')
  case (Suc n)
  let ?p = "skip_while sp_tab s pos"
  have e: "sharpSkipExpr n s p1 m' = Some (Inr q1)"
    if "operand_pos s p1" "sharpParseExpr n rt s p1 m' t = Some (Inr (v1, q1, t1))" for p1 m' t v1 q1 t1
    using Suc that by blast
  have r: "skip_rest n s q1 m = Some (Inr q)" if "parse_rest n rt s q1 m w1 t1 = Some (Inr (v, q, st'))" for q1 w1 t1
    using Suc that by blast
  have "sharpSkipExpr (Suc n) s pos m = Some (Inr q)"
    if that: "operand_pos s pos" "sharpParseExpr (Suc n) rt s pos m st = Some (Inr (v, q, st'))"
  proof (cases "matchSharpUnaryOp s ?p")
    case None
    with that(2) obtain v1 q1 t1 where *: "sharpParsePrimary rt s ?p st = Some (Inr (v1, q1, t1))"
      "parse_rest n rt s q1 m v1 t1 = Some (Inr (v, q, st'))" by (auto simp: Let_def obind_eq_Inr)
    with None primary_extent [OF assms operand_skip [OF that(1)] *(1)] r show ?thesis by (simp add: Let_def)
  next
    case (Some x)
    then obtain op p1 where x: "matchSharpUnaryOp s ?p = Some (op, p1)" by (cases x) auto
    with that(2) obtain v1 q1 t1 v2 where "sharpParseExpr n rt s p1 (sharpUnaryOpPrec op) st = Some (Inr (v1, q1, t1))"
      "parse_rest n rt s q1 m v2 t1 = Some (Inr (v, q, st'))" by (auto simp: Let_def obind_eq_Inr)
    with x e [OF operand_unary [OF x]] r show ?thesis by (simp add: Let_def)
  qed
  moreover have "skip_rest (Suc n) s pos m = Some (Inr q)"
    if pr: "parse_rest (Suc n) rt s pos m w st = Some (Inr (v, q, st'))"
  proof (cases "matchSharpBinaryOp s ?p")
    case None
    with pr show ?thesis by (auto simp: Let_def split: if_splits)
  next
    case (Some x)
    then obtain op p1 where x: "matchSharpBinaryOp s ?p = Some (op, p1)" by (cases x) auto
    note o = operand_binary [OF x]
    let ?c = "colon_loop 0 p1 (drop p1 s)"
    consider "sharpBinOpPrec op < m" | "\<not> sharpBinOpPrec op < m" "op = ''?''"
      | q1 where "\<not> sharpBinOpPrec op < m" "op \<noteq> ''?''" "sharpSkipExpr n s p1 (sharpBinOpPrec op + 1) = Some (Inr q1)"
        "parse_rest n rt s q1 m w st = Some (Inr (v, q, st'))"
      | v1 q1 t1 v2 where "\<not> sharpBinOpPrec op < m" "op \<noteq> ''?''"
        "sharpParseExpr n rt s p1 (sharpBinOpPrec op + 1) st = Some (Inr (v1, q1, t1))"
        "parse_rest n rt s q1 m v2 t1 = Some (Inr (v, q, st'))"
      using pr x by (auto simp: Let_def obind_eq_Inr split: if_splits)
    then show ?thesis
    proof cases
      case 1
      with pr x show ?thesis by (simp add: Let_def)
    next
      case 2
      with pr x obtain v1 q1 t1 v2 q2 t2 v3 where "?c \<noteq> -1"
        "sharpParseExpr n rt s p1 0 st = Some (Inr (v1, q1, t1))"
        "sharpParseExpr n rt s (nat ?c + 1) 0 t1 = Some (Inr (v2, q2, t2))"
        "parse_rest n rt s q2 m v3 t2 = Some (Inr (v, q, st'))"
        by (auto simp: Let_def obind_eq_Inr split: if_splits)
      with x 2 e [OF o] e [OF operand_colon] r show ?thesis by (simp add: Let_def)
    next
      case 3
      with x r show ?thesis by (simp add: Let_def)
    next
      case 4
      with x e [OF o] r show ?thesis by (simp add: Let_def)
    qed
  qed
  ultimately show ?case by blast
qed simp

text \<open>C21: Skipping agrees with evaluating. In a text in which no parenthesised operand is followed by
  a member or an index, whenever the evaluator gets a value from the expression at a position where
  an operand can start, \<open>sharpSkipExpr\<close> stops at exactly the position the evaluator stopped at: a
  short-circuited \<open>AND\<close> or \<open>OR\<close> goes on where the evaluated one would have.\<close>

theorem sharp_skip_extent:
  assumes "plain_parens s" "operand_pos s pos" "sharpParseExpr n rt s pos m st = Some (Inr (v, q, st'))"
  shows "sharpSkipExpr n s pos m = Some (Inr q)"
  by (rule rest_extent [OF assms(1), THEN conjunct1, rule_format, OF assms(2,3)])

lemma extent_example:
  "plain_parens ''f(a).b[1] AND (x + 2) GT y'' \<and> operand_pos ''f(a).b[1] AND (x + 2) GT y'' 0 \<and>
   sharpParseExpr 30 unit_runtime ''f(a).b[1] AND (x + 2) GT y'' 0 0 () = Some (Inr ((), 26, ()))"
  by code_simp

theorem sharp_skip_extent_witness:
  "sharpSkipExpr 30 ''f(a).b[1] AND (x + 2) GT y'' 0 0 = Some (Inr 26)"
  by (rule sharp_skip_extent [OF extent_example [THEN conjunct1] extent_example [THEN conjunct2, THEN conjunct1]
        extent_example [THEN conjunct2, THEN conjunct2]])

end
