(* ===== verification/SharpGrammar.thy ===== *)
theory SharpGrammar imports SharpFuel begin

section \<open>The evaluator against the grammar\<close>

text \<open>
  Expression trees, their texts, and the value of a tree by recursion over it. A tree fits a
  precedence level when its text can be read at that level: this is the grammar the operator table
  describes. The lemmas say how the scanners read the text of atoms and operators at a position.
\<close>

datatype etree = Atom bytes | Pre bytes etree | Bin etree bytes etree | Cond etree etree etree

fun print :: "etree \<Rightarrow> bytes" where
  "print (Atom a) = a"
| "print (Pre op t) = op @ '' '' @ print t"
| "print (Bin l op r) = print l @ '' '' @ op @ '' '' @ print r"
| "print (Cond c a b) = print c @ '' ? '' @ print a @ '' : '' @ print b"

definition is_name :: "bytes \<Rightarrow> bool" where
  "is_name a \<longleftrightarrow> a \<noteq> [] \<and> ident_start (hd a) \<and> list_all ident_char a \<and> map to_lower a \<noteq> ''not''"

definition is_number :: "bytes \<Rightarrow> bool" where
  "is_number a \<longleftrightarrow> a \<noteq> [] \<and> list_all is_digit a"

definition is_quoted :: "bytes \<Rightarrow> bool" where
  "is_quoted a \<longleftrightarrow> 2 \<le> length a \<and> quote_char (hd a) \<and> last a = hd a \<and> hd a \<notin> set (butlast (tl a))"

definition is_paren :: "bytes \<Rightarrow> bool" where
  "is_paren a \<longleftrightarrow> a \<noteq> [] \<and> hd a = CHR ''('' \<and> findMatchingClose a 0 = int (length a) - 1"

definition is_atom :: "bytes \<Rightarrow> bool" where
  "is_atom a \<longleftrightarrow> is_name a \<or> is_number a \<or> is_quoted a \<or> is_paren a"

definition eval_atom :: "('v, 's) runtime \<Rightarrow> bytes \<Rightarrow> 's \<Rightarrow> ('v \<times> 's) res" where
  "eval_atom rt a st = (if hd a = CHR ''('' then ev_expr rt True (trimmed (str_mid a 1 (int (length a) - 2))) st
     else ev_expr rt False a st)"

fun eval :: "('v, 's) runtime \<Rightarrow> etree \<Rightarrow> 's \<Rightarrow> ('v \<times> 's) res" where
  "eval rt (Atom a) st = eval_atom rt a st"
| "eval rt (Pre op t) st = ebind (eval rt t st) (\<lambda>(v, st1). ebind (apply_unary rt op v) (\<lambda>w. Inr (w, st1)))"
| "eval rt (Bin l op r) st = ebind (eval rt l st) (\<lambda>(lv, st1).
     if is_and op \<or> is_or op then ebind (rt_truthy rt lv) (\<lambda>truthy.
       if (if is_and op then truthy else \<not> truthy)
       then ebind (eval rt r st1) (\<lambda>(rv, st2). ebind (rt_binary rt op lv rv) (\<lambda>v. Inr (v, st2)))
       else Inr (lv, st1))
     else ebind (eval rt r st1) (\<lambda>(rv, st2). ebind (rt_binary rt op lv rv) (\<lambda>v. Inr (v, st2))))"
| "eval rt (Cond c a b) st = ebind (eval rt c st) (\<lambda>(cv, st1). ebind (eval rt a st1) (\<lambda>(av, st2).
     ebind (eval rt b st2) (\<lambda>(bv, st3). ebind (rt_ternary rt cv av bv) (\<lambda>v. Inr (v, st3)))))"

text \<open>The binary operators of the table, and the level below which an operator ends a tree.\<close>

definition binops :: "bytes list" where
  "binops = [''IMP'', ''EQV'', ''XOR'', ''OR'', ''||'', ''AND'', ''&&''] @ compare_ops @
     [''&'', ''+'', ''-'', ''*'', ''/'', backslash, ''MOD'', ''%'', ''^'']"

definition unops :: "bytes list" where
  "unops = [''NOT'', ''!'', ''-'', ''+'']"

fun edge :: "etree \<Rightarrow> int" where
  "edge (Atom a) = 100"
| "edge (Pre op t) = min (sharpUnaryOpPrec op) (edge t)"
| "edge (Bin l op r) = min (sharpBinOpPrec op + 1) (edge r)"
| "edge (Cond c a b) = 0"

fun leads_not :: "etree \<Rightarrow> bool" where
  "leads_not (Atom a) = False"
| "leads_not (Pre op t) = (op = ''NOT'')"
| "leads_not (Bin l op r) = leads_not l"
| "leads_not (Cond c a b) = leads_not c"

text \<open>The operand between \<open>?\<close> and \<open>:\<close> holds no conditional outside parentheses: the code looks for the colon before
  it reads the operand, and never finds it behind a second \<open>?\<close>.\<close>

fun no_cond :: "etree \<Rightarrow> bool" where
  "no_cond (Atom a) = True"
| "no_cond (Pre op t) = no_cond t"
| "no_cond (Bin l op r) = (no_cond l \<and> no_cond r)"
| "no_cond (Cond c a b) = False"

fun fits :: "int \<Rightarrow> etree \<Rightarrow> bool" where
  "fits m (Atom a) = is_atom a"
| "fits m (Pre op t) = (op \<in> set unops \<and> fits (sharpUnaryOpPrec op) t)"
| "fits m (Bin l op r) = (op \<in> set binops \<and> m \<le> sharpBinOpPrec op \<and> fits m l \<and> sharpBinOpPrec op < edge l \<and>
     fits (sharpBinOpPrec op + 1) r \<and> (op = ''IS'' \<longrightarrow> \<not> leads_not r))"
| "fits m (Cond c a b) = (m \<le> 1 \<and> fits m c \<and> 1 < edge c \<and> fits 0 a \<and> no_cond a \<and> fits 0 b)"

subsection \<open>The evaluator without fuel\<close>

definition pe :: "('v, 's) runtime \<Rightarrow> bytes \<Rightarrow> nat \<Rightarrow> int \<Rightarrow> 's \<Rightarrow> ('v \<times> nat \<times> 's) run" where
  "pe rt s pos m st = sharpParseExpr (Suc (length s)) rt s pos m st"

definition pr :: "('v, 's) runtime \<Rightarrow> bytes \<Rightarrow> nat \<Rightarrow> int \<Rightarrow> 'v \<Rightarrow> 's \<Rightarrow> ('v \<times> nat \<times> 's) run" where
  "pr rt s pos m v st = parse_rest (Suc (length s)) rt s pos m v st"

definition se :: "bytes \<Rightarrow> nat \<Rightarrow> int \<Rightarrow> nat run" where
  "se s pos m = sharpSkipExpr (Suc (length s)) s pos m"

definition sr :: "bytes \<Rightarrow> nat \<Rightarrow> int \<Rightarrow> nat run" where
  "sr s pos m = skip_rest (Suc (length s)) s pos m"

lemma pe_eq: "pe rt s pos m st = (let p = skip_while sp_tab s pos in
      obind (case matchSharpUnaryOp s p of
          Some (op, p1) \<Rightarrow> obind (pe rt s p1 (sharpUnaryOpPrec op) st)
            (\<lambda>(v, q, st1). obind (Some (apply_unary rt op v)) (\<lambda>w. done_with (w, q, st1)))
        | None \<Rightarrow> sharpParsePrimary rt s p st)
        (\<lambda>(lhs, q, st1). pr rt s q m lhs st1))"
proof -
  define n where "n = Suc (length s)"
  then have "length s - pos < n" "length s - pos < Suc n" by simp_all
  then have "pe rt s pos m st = sharpParseExpr (Suc n) rt s pos m st"
    using parse_fuel [of s pos n "Suc n" rt m st] by (simp only: pe_def pr_def n_def [symmetric])
  then show ?thesis by (simp only: pe_def pr_def n_def [symmetric] sharpParseExpr.simps)
qed

lemma pr_eq: "pr rt s pos m lhs st = (let p = skip_while sp_tab s pos in
      case matchSharpBinaryOp s p of
        None \<Rightarrow> if p < length s \<and> (s ! p = CHR ''<'' \<or> s ! p = CHR ''>'') then throw illegal_compare
          else done_with (lhs, pos, st)
      | Some (op, p1) \<Rightarrow>
          if sharpBinOpPrec op < m then done_with (lhs, pos, st)
          else if op = ''?'' then
            (let colon = colon_loop 0 p1 (drop p1 s) in
             if colon = -1 then throw missing_colon
             else obind (pe rt s p1 0 st) (\<lambda>(thenVal, _, st1).
               obind (pe rt s (nat colon + 1) 0 st1) (\<lambda>(elseVal, q, st2).
               obind (Some (rt_ternary rt lhs thenVal elseVal)) (\<lambda>v. pr rt s q m v st2))))
          else if is_and op \<or> is_or op then
            obind (Some (rt_truthy rt lhs)) (\<lambda>truthy.
              if (if is_and op then truthy else \<not> truthy) then
                obind (pe rt s p1 (sharpBinOpPrec op + 1) st) (\<lambda>(rhs, q, st1).
                obind (Some (rt_binary rt op lhs rhs)) (\<lambda>v. pr rt s q m v st1))
              else obind (se s p1 (sharpBinOpPrec op + 1)) (\<lambda>q. pr rt s q m lhs st))
          else obind (pe rt s p1 (sharpBinOpPrec op + 1) st) (\<lambda>(rhs, q, st1).
            obind (Some (rt_binary rt op lhs rhs)) (\<lambda>v. pr rt s q m v st1)))"
proof -
  define n where "n = Suc (length s)"
  then have "length s - pos < n" "length s - pos < Suc n" by simp_all
  then have "pr rt s pos m lhs st = parse_rest (Suc n) rt s pos m lhs st"
    using parse_fuel [of s pos n "Suc n" rt m st lhs] by (simp only: pe_def pr_def se_def n_def [symmetric])
  then show ?thesis by (simp only: pe_def pr_def se_def n_def [symmetric] parse_rest.simps)
qed

lemma se_eq: "se s pos m = (let p = skip_while sp_tab s pos in
      obind (case matchSharpUnaryOp s p of
          Some (op, p1) \<Rightarrow> se s p1 (sharpUnaryOpPrec op)
        | None \<Rightarrow> skipPrimary s p) (\<lambda>q. sr s q m))"
proof -
  define n where "n = Suc (length s)"
  then have "length s - pos < n" "length s - pos < Suc n" by simp_all
  then have "se s pos m = sharpSkipExpr (Suc n) s pos m"
    using skip_fuel [of s pos n "Suc n" m] by (simp only: se_def sr_def n_def [symmetric])
  then show ?thesis by (simp only: se_def sr_def n_def [symmetric] sharpSkipExpr.simps)
qed

lemma sr_eq: "sr s pos m = (let p = skip_while sp_tab s pos in
      case matchSharpBinaryOp s p of
        None \<Rightarrow> if p < length s \<and> (s ! p = CHR ''<'' \<or> s ! p = CHR ''>'') then throw illegal_compare
          else done_with pos
      | Some (op, p1) \<Rightarrow>
          if sharpBinOpPrec op < m then done_with pos
          else if op = ''?'' then
            (let colon = colon_loop 0 p1 (drop p1 s) in
             if colon = -1 then throw missing_colon
             else obind (se s p1 0) (\<lambda>_. obind (se s (nat colon + 1) 0) (\<lambda>q. sr s q m)))
          else obind (se s p1 (sharpBinOpPrec op + 1)) (\<lambda>q. sr s q m))"
proof -
  define n where "n = Suc (length s)"
  then have "length s - pos < n" "length s - pos < Suc n" by simp_all
  then have "sr s pos m = skip_rest (Suc n) s pos m"
    using skip_fuel [of s pos n "Suc n" m] by (simp only: se_def sr_def n_def [symmetric])
  then show ?thesis by (simp only: se_def sr_def n_def [symmetric] skip_rest.simps)
qed

subsection \<open>Texts behind a position\<close>

definition blank_end :: "bytes \<Rightarrow> bool" where
  "blank_end pre \<longleftrightarrow> pre = [] \<or> last pre = CHR '' ''"

definition blank_start :: "bytes \<Rightarrow> bool" where
  "blank_start post \<longleftrightarrow> post = [] \<or> hd post = CHR '' ''"

lemma skip_while_app: "skip_while p (pre @ xs) (length pre) = length pre + length (takeWhile p xs)"
  by (simp add: skip_while_def)

lemma skip_while_none: "xs = [] \<or> \<not> p (hd xs) \<Longrightarrow> skip_while p (pre @ xs) (length pre) = length pre"
  by (cases xs) (auto simp: skip_while_def)

lemma word_at: "sharpWordStartsAt (pre @ xs) (length pre) w \<longleftrightarrow> length w \<le> length xs \<and>
   map to_lower (take (length w) xs) = map to_lower w \<and> (length w < length xs \<longrightarrow> \<not> ident_char (xs ! length w)) \<and>
   (pre \<noteq> [] \<longrightarrow> \<not> ident_char (last pre))"
  by (auto simp: sharpWordStartsAt_def last_conv_nth nth_append)

lemma not_ident_blank [simp]: "\<not> ident_char CHR '' ''" "sp_tab CHR '' ''"
  by code_simp+

lemma close_loop_append:
  "close_loop op cl d dq sq i cs \<noteq> -1 \<Longrightarrow> close_loop op cl d dq sq i (cs @ post) = close_loop op cl d dq sq i cs"
  by (induction op cl d dq sq i cs rule: close_loop.induct) auto

lemma close_loop_shift:
  "close_loop op cl d dq sq (i + k) cs =
     (if close_loop op cl d dq sq i cs = -1 then -1 else close_loop op cl d dq sq i cs + int k)"
  by (induction op cl d dq sq i cs rule: close_loop.induct) auto

lemma paren_close:
  assumes "is_paren a"
  shows "findMatchingClose (pre @ a @ post) (int (length pre)) = int (length pre + length a) - 1"
proof -
  from assms have a: "a \<noteq> []" "a ! 0 = CHR ''(''" and c: "close_loop (a ! 0) (closer (a ! 0)) 0 False False 0 a = int (length a) - 1"
    by (auto simp: is_paren_def findMatchingClose_def Let_def hd_conv_nth)
  have "close_loop (a ! 0) (closer (a ! 0)) 0 False False (0 + length pre) (a @ post) = int (length a) - 1 + int (length pre)"
    using close_loop_append [of "a ! 0" "closer (a ! 0)" 0 False False 0 a post] c a
    by (subst close_loop_shift) auto
  then show ?thesis using a by (cases a) (simp_all add: findMatchingClose_def Let_def nth_append)
qed

lemma string_loop_plain:
  "q \<notin> set body \<Longrightarrow> post = [] \<or> hd post \<noteq> q \<Longrightarrow> string_loop q i (body @ q # post) = i + length body + 1"
proof (induction body arbitrary: i)
  case Nil
  then show ?case by (cases post) auto
next
  case (Cons b body)
  then show ?case by (cases body) auto
qed

lemma number_loop_digits:
  "list_all is_digit xs \<Longrightarrow> blank_start post \<Longrightarrow>
   number_loop (pre @ xs @ post) (length pre) = Some (length pre + length xs)"
proof (induction xs arbitrary: pre)
  case Nil
  have "\<not> num_char CHR '' ''" "\<not> exp_char CHR '' ''" by code_simp+
  with Nil show ?case by (cases post) (subst number_loop.simps, auto simp: blank_start_def nth_append)+
next
  case (Cons x xs)
  from Cons.IH [of "pre @ [x]"] Cons.prems show ?case by (subst number_loop.simps) (simp add: nth_append num_char_def)
qed

subsection \<open>Atoms\<close>

lemma atom_chars:
  "ident_start c \<Longrightarrow> \<not> opens c \<and> \<not> quote_char c \<and> \<not> is_digit c \<and> c \<noteq> CHR ''.'' \<and> c \<noteq> CHR ''!'' \<and>
     c \<noteq> CHR ''-'' \<and> c \<noteq> CHR ''+'' \<and> \<not> sp_tab c"
  "quote_char c \<Longrightarrow> \<not> opens c \<and> to_lower c \<noteq> CHR ''n'' \<and> c \<noteq> CHR ''!'' \<and> c \<noteq> CHR ''-'' \<and> c \<noteq> CHR ''+'' \<and> \<not> sp_tab c"
  by (auto simp: ident_start_def opens_def quote_char_def sp_tab_def charclass char_le_nat to_lower_def)

lemma name_loops:
  assumes "is_name a" "blank_start post"
  shows "skip_while ident_char (pre @ a @ post) (length pre) = length pre + length a"
    "ident_chain (pre @ a @ post) (length pre + length a) = Inr (length pre + length a)"
proof -
  have "takeWhile ident_char (a @ post) = a"
    using assms by (cases post) (auto simp: is_name_def blank_start_def list_all_iff takeWhile_append2)
  then show "skip_while ident_char (pre @ a @ post) (length pre) = length pre + length a" by (simp add: skip_while_app)
  show "ident_chain (pre @ a @ post) (length pre + length a) = Inr (length pre + length a)"
    using assms(2) by (cases post) (subst ident_chain.simps, auto simp: blank_start_def nth_append)+
qed

lemma quoted_split:
  assumes "is_quoted a"
  obtains q body where "a = q # body @ [q]" "quote_char q" "q \<notin> set body"
proof -
  from assms obtain q r where a: "a = q # r" "r \<noteq> []" "last r = q" "quote_char q" "q \<notin> set (butlast r)"
    by (cases a) (auto simp: is_quoted_def Suc_le_eq split: if_splits)
  then have "a = q # butlast r @ [q]" by (metis append_butlast_last_id)
  with a that show thesis by blast
qed

lemma atom_at_mid: "atom_at rt (pre @ a @ post) (length pre) (length pre + length a) st =
   ebind (ev_expr rt False a st) (\<lambda>(v, st1). Inr (v, length pre + length a, st1))"
  using mid_takeWhile [of "length pre" "length a" "pre @ a @ post"] by (simp add: atom_at_def)

lemma atom_primary:
  assumes "is_atom a" "blank_start post"
  shows "sharpParsePrimary rt (pre @ a @ post) (length pre) st =
      Some (ebind (eval_atom rt a st) (\<lambda>(v, st1). Inr (v, length pre + length a, st1)))" (is "?P")
    and "skipPrimary (pre @ a @ post) (length pre) = Some (Inr (length pre + length a))" (is "?S")
proof -
  let ?s = "pre @ a @ post"
  have post: "post = [] \<or> hd post = CHR '' ''" using assms(2) by (simp add: blank_start_def)
  consider "is_name a" | "is_number a" | "is_quoted a" | "is_paren a" using assms(1) by (auto simp: is_atom_def)
  then have "?P \<and> ?S"
  proof cases
    case 1
    then have h: "a \<noteq> []" "?s ! length pre = hd a" "ident_start (hd a)" by (auto simp: is_name_def nth_append hd_conv_nth)
    then have e: "eval_atom rt a st = ev_expr rt False a st" using atom_chars(1) [OF h(3)] by (auto simp: eval_atom_def opens_def)
    from h atom_chars(1) [OF h(3)] name_loops [OF 1 assms(2), of pre] show ?thesis
      by (simp add: sharpParsePrimary_def skipPrimary_def Let_def starts_number_def atom_at_mid e)
  next
    case 2
    then have h: "a \<noteq> []" "?s ! length pre = hd a" "is_digit (hd a)" by (auto simp: is_number_def nth_append hd_conv_nth list_all_iff)
    then have e: "eval_atom rt a st = ev_expr rt False a st" using digit_start [OF h(3)] by (auto simp: eval_atom_def opens_def)
    have "number_loop ?s (length pre) = Some (length pre + length a)"
      using 2 assms(2) by (intro number_loop_digits) (auto simp: is_number_def)
    with h digit_start [OF h(3)] show ?thesis
      by (simp add: sharpParsePrimary_def skipPrimary_def Let_def starts_number_def atom_at_mid e)
  next
    case 3
    then obtain q body where a: "a = q # body @ [q]" "quote_char q" "q \<notin> set body" by (rule quoted_split)
    have e: "eval_atom rt a st = ev_expr rt False a st" using a atom_chars(2) [OF a(2)] by (auto simp: eval_atom_def opens_def)
    have "q \<noteq> CHR '' ''" using a(2) by (auto simp: quote_char_def)
    with post a(3) have "string_loop q (length pre + 1) (body @ q # post) = length pre + length a"
      by (subst string_loop_plain) (auto simp: a(1))
    then have l: "string_loop q (length pre + 1) (drop (length pre + 1) ?s) = length pre + length a" by (simp add: a(1))
    have h: "?s ! length pre = q" "a \<noteq> []" by (simp_all add: a(1) nth_append)
    have "sharpParsePrimary rt ?s (length pre) st = Some (atom_at rt ?s (length pre) (length pre + length a) st)"
      "?S" using h l a(2) atom_chars(2) [OF a(2)] by (simp_all add: sharpParsePrimary_def skipPrimary_def Let_def)
    then show ?thesis by (simp add: atom_at_mid e)
  next
    case 4
    then have h: "a \<noteq> []" "?s ! length pre = CHR ''(''" "length pre < length ?s" by (auto simp: is_paren_def nth_append hd_conv_nth)
    have two: "2 \<le> length a"
    proof (rule ccontr)
      assume "\<not> 2 \<le> length a"
      with 4 obtain c where "a = [c]" "c = CHR ''(''" by (cases a; cases "tl a") (auto simp: is_paren_def)
      with 4 show False by (simp add: is_paren_def findMatchingClose_def Let_def closer_def)
    qed
    note c = paren_close [OF 4, of pre post]
    have "str_mid ?s (length pre + 1) (int (length a - 2)) = take (length a - 2) (drop 1 (a @ post))"
      using two by (subst mid_takeWhile) (simp_all add: drop_append)
    also have "\<dots> = str_mid a 1 (int (length a - 2))" using two by (subst mid_takeWhile) simp_all
    finally have m: "str_mid ?s (length pre + 1) (int (length a) - 2) = str_mid a 1 (int (length a) - 2)"
      using two by (simp add: of_nat_diff)
    have "nat (int (length pre + length a) - 1) + 1 = length pre + length a" using two by linarith
    moreover have "lit_chain ?s (length pre + length a) = length pre + length a"
      using post by (cases post) (subst lit_chain.simps, auto simp: nth_append)+
    ultimately show ?thesis using h c m 4 two
      by (simp add: sharpParsePrimary_def skipPrimary_def Let_def opens_def eval_atom_def is_paren_def done_with_def)
  qed
  then show ?P ?S by blast+
qed

subsection \<open>Operators\<close>

lemma to_lower_letters [simp]:
  "to_lower CHR ''A'' = CHR ''a''" "to_lower CHR ''B'' = CHR ''b''" "to_lower CHR ''C'' = CHR ''c''" "to_lower CHR ''D'' = CHR ''d''"
  "to_lower CHR ''E'' = CHR ''e''" "to_lower CHR ''F'' = CHR ''f''" "to_lower CHR ''G'' = CHR ''g''" "to_lower CHR ''H'' = CHR ''h''"
  "to_lower CHR ''I'' = CHR ''i''" "to_lower CHR ''J'' = CHR ''j''" "to_lower CHR ''K'' = CHR ''k''" "to_lower CHR ''L'' = CHR ''l''"
  "to_lower CHR ''M'' = CHR ''m''" "to_lower CHR ''N'' = CHR ''n''" "to_lower CHR ''O'' = CHR ''o''" "to_lower CHR ''P'' = CHR ''p''"
  "to_lower CHR ''Q'' = CHR ''q''" "to_lower CHR ''R'' = CHR ''r''" "to_lower CHR ''S'' = CHR ''s''" "to_lower CHR ''T'' = CHR ''t''"
  "to_lower CHR ''U'' = CHR ''u''" "to_lower CHR ''V'' = CHR ''v''" "to_lower CHR ''W'' = CHR ''w''" "to_lower CHR ''X'' = CHR ''x''"
  "to_lower CHR ''Y'' = CHR ''y''" "to_lower CHR ''Z'' = CHR ''z''"
  by code_simp+

lemma to_lower_others [simp]:
  "to_lower (CHR '' '') = CHR '' ''" "to_lower (CHR ''='') = CHR ''=''" "to_lower (CHR ''!'') = CHR ''!''" "to_lower (CHR ''&'') = CHR ''&''"
  "to_lower (CHR ''|'') = CHR ''|''" "to_lower (CHR ''?'') = CHR ''?''" "to_lower (CHR ''^'') = CHR ''^''" "to_lower (CHR ''*'') = CHR ''*''"
  "to_lower (CHR ''/'') = CHR ''/''" "to_lower (CHR ''%'') = CHR ''%''" "to_lower (CHR ''+'') = CHR ''+''" "to_lower (CHR ''-'') = CHR ''-''"
  "to_lower (CHR 0x5C) = CHR 0x5C"
  by code_simp+

definition starts_not :: "bytes \<Rightarrow> bool" where
  "starts_not xs \<longleftrightarrow> 3 \<le> length xs \<and> map to_lower (take 3 xs) = ''not'' \<and> (3 < length xs \<longrightarrow> \<not> ident_char (xs ! 3))"

lemma blank_end_word: "sharpWordStartsAt ((pre @ '' '') @ xs) (length (pre @ '' '')) w \<longleftrightarrow> length w \<le> length xs \<and>
   map to_lower (take (length w) xs) = map to_lower w \<and> (length w < length xs \<longrightarrow> \<not> ident_char (xs ! length w))"
  unfolding word_at by simp

definition word_match :: "bytes \<Rightarrow> bytes \<Rightarrow> bool" where
  "word_match xs w \<longleftrightarrow> length w \<le> length xs \<and> map to_lower (take (length w) xs) = map to_lower w \<and>
     (length w < length xs \<longrightarrow> \<not> ident_char (xs ! length w))"

lemma ident_U [simp]: "ident_char CHR ''U''" by code_simp

lemma find_others:
  "list_all (\<lambda>op. op \<noteq> ''IS'' \<longrightarrow> (\<forall>r. List.find (word_match (op @ CHR '' '' # r)) wordOps =
     (if op \<in> set wordOps then Some op else None))) binops"
  by (simp add: binops_def compare_ops_def backslash_def wordOps_def word_match_def)

lemma find_is: "\<not> starts_not r \<Longrightarrow> List.find (word_match (''IS'' @ CHR '' '' # r)) wordOps = Some ''IS''"
  by (simp add: wordOps_def word_match_def starts_not_def numeral_3_eq_3)

lemma find_word_op:
  assumes "op \<in> set binops" "op = ''IS'' \<longrightarrow> \<not> starts_not r"
  shows "List.find (word_match (op @ CHR '' '' # r)) wordOps = (if op \<in> set wordOps then Some op else None)"
proof (cases "op = ''IS''")
  case True
  with assms(2) find_is show ?thesis by (simp add: wordOps_def)
next
  case False
  with find_others assms(1) show ?thesis unfolding list_all_iff by blast
qed

lemma find_colon: "List.find (word_match (''? '' @ r)) wordOps = None" "List.find (word_match ('': '' @ r)) wordOps = None"
  by (simp_all add: wordOps_def word_match_def)

lemma symbol_ops:
  "list_all (\<lambda>op. op \<notin> set wordOps \<longrightarrow> op \<in> set twoOps \<or> (\<exists>c. op = [c] \<and> c \<in> set oneOps \<and> c \<noteq> CHR ''?'')) binops"
  "list_all (\<lambda>op. op \<noteq> [] \<and> \<not> sp_tab (hd op) \<and> 0 < sharpBinOpPrec op \<and> op \<noteq> ''?'') binops"
  "list_all (\<lambda>op. take 2 (op @ '' '') \<in> set twoOps \<longrightarrow> op \<in> set twoOps) binops"
  "list_all (\<lambda>op. length op = 2) twoOps"
  by code_simp+

lemma blank_word: "(\<lambda>w. sharpWordStartsAt (pre @ '' '' @ xs) (length pre + 1) w) = word_match xs"
  using blank_end_word [of pre xs] by (auto simp: word_match_def fun_eq_iff)

lemma binary_at:
  assumes "op \<in> set binops" "op = ''IS'' \<longrightarrow> \<not> starts_not r"
  shows "matchSharpBinaryOp (pre @ '' '' @ op @ '' '' @ r) (length pre + 1) = Some (op, length pre + 1 + length op)"
proof -
  let ?s = "pre @ '' '' @ op @ '' '' @ r"
  have find: "List.find (\<lambda>w. sharpWordStartsAt ?s (length pre + 1) w) wordOps = (if op \<in> set wordOps then Some op else None)"
    unfolding blank_word using find_word_op [OF assms] by simp
  show ?thesis
  proof (cases "op \<in> set wordOps")
    case True
    with find show ?thesis by (simp add: matchSharpBinaryOp_def)
  next
    case False
    have dr: "drop (length pre + 1) ?s = op @ '' '' @ r" by simp
    have ne: "op \<noteq> []" using symbol_ops(2) assms(1) by (auto simp: list_all_iff)
    consider (two) "op \<in> set twoOps" | (one) c where "op = [c]" "c \<in> set oneOps" "c \<noteq> CHR ''?''" "op \<notin> set twoOps"
      using symbol_ops(1) assms(1) False by (cases "op \<in> set twoOps") (auto simp: list_all_iff)
    then show ?thesis
    proof cases
      case two
      with symbol_ops(4) have l: "length op = 2" by (auto simp: list_all_iff)
      then have "take 2 (drop (length pre + 1) ?s) = op" "str_mid ?s (length pre + 1) 2 = op"
        using dr mid_takeWhile [of "length pre + 1" 2 ?s] by simp_all
      with two find False l show ?thesis by (simp add: matchSharpBinaryOp_def)
    next
      case one
      have "take 2 (drop (length pre + 1) ?s) = take 2 (op @ '' '')" using one(1) by (simp add: take_Cons')
      moreover have "take 2 (op @ '' '') \<notin> set twoOps" using symbol_ops(3) assms(1) one(4) by (auto simp: list_all_iff)
      moreover have "?s ! (length pre + 1) = c" using one(1) by (simp add: nth_append)
      ultimately show ?thesis using one find False by (simp add: matchSharpBinaryOp_def)
    qed
  qed
qed

lemma ternary_at:
  "matchSharpBinaryOp (pre @ '' ? '' @ r) (length pre + 1) = Some (''?'', length pre + 2)"
  "matchSharpBinaryOp (pre @ '' : '' @ r) (length pre + 1) = None"
proof -
  have f: "List.find (\<lambda>w. sharpWordStartsAt (pre @ CHR '' '' # c # CHR '' '' # r) (Suc (length pre)) w) wordOps = None"
    if "List.find (word_match ([c, CHR '' ''] @ r)) wordOps = None" for c
    using that blank_word [of pre "[c, CHR '' ''] @ r"] by simp
  have "take 2 (''? '' @ r) \<notin> set twoOps" "take 2 ('': '' @ r) \<notin> set twoOps" by (simp_all add: twoOps_def)
  then show "matchSharpBinaryOp (pre @ '' ? '' @ r) (length pre + 1) = Some (''?'', length pre + 2)"
    "matchSharpBinaryOp (pre @ '' : '' @ r) (length pre + 1) = None"
    using f [of "CHR ''?''"] f [of "CHR '':''"] find_colon
    by (simp_all add: matchSharpBinaryOp_def nth_append oneOps_def backslash_def)
qed
lemma unary_at:
  assumes "op \<in> set unops" "blank_end pre"
  shows "matchSharpUnaryOp (pre @ op @ '' '' @ r) (length pre) = Some (op, length pre + length op)"
proof -
  have pre: "pre \<noteq> [] \<longrightarrow> \<not> ident_char (last pre)" using assms(2) by (auto simp: blank_end_def)
  have first: "\<not> sharpWordStartsAt (pre @ c # xs) (length pre) ''NOT''" if "to_lower c \<noteq> CHR ''n''" for c xs
    using that unfolding word_at by simp
  consider "op = ''NOT''" | "op = ''!''" | "op = ''-''" | "op = ''+''" using assms(1) by (auto simp: unops_def)
  then show ?thesis
  proof cases
    case 1
    have "sharpWordStartsAt (pre @ ''NOT'' @ '' '' @ r) (length pre) ''NOT''" unfolding word_at using pre by simp
    then show ?thesis unfolding 1 by (simp add: matchSharpUnaryOp_def)
  qed (simp_all add: matchSharpUnaryOp_def first nth_append)
qed

lemma not_first: "xs = [] \<or> to_lower (hd xs) \<noteq> CHR ''n'' \<Longrightarrow> \<not> starts_not xs"
  by (cases xs) (auto simp: starts_not_def)

lemma atom_not_op:
  assumes "is_atom a" "blank_start post"
  shows "\<not> starts_not (a @ post)" "a \<noteq> []" "\<not> sp_tab (hd a)"
    "hd a \<noteq> CHR ''!'' \<and> hd a \<noteq> CHR ''-'' \<and> hd a \<noteq> CHR ''+''"
proof -
  have "\<not> starts_not (a @ post)" if n: "is_name a"
  proof
    assume s: "starts_not (a @ post)"
    have l: "\<not> to_lower CHR '' '' = CHR ''o''" "\<not> to_lower CHR '' '' = CHR ''t''" by simp_all
    from n obtain c cs where a: "a = c # cs" by (cases a) (auto simp: is_name_def)
    from s assms(2) l obtain d e fs where a3: "a = c # d # e # fs"
      by (cases cs; cases "tl cs"; cases post; cases "tl post")
        (auto simp: a starts_not_def blank_start_def numeral_3_eq_3)
    with s n show False by (cases fs) (auto simp: starts_not_def is_name_def numeral_3_eq_3 nth_append)
  qed
  moreover have "\<not> starts_not (a @ post)" if "\<not> is_name a"
  proof -
    have "to_lower CHR ''('' \<noteq> CHR ''n''" by code_simp
    then have "a \<noteq> [] \<and> to_lower (hd a) \<noteq> CHR ''n''"
      using assms(1) that digit_start(5) [of "hd a"] atom_chars(2) [of "hd a"]
      by (cases a) (auto simp: is_atom_def is_number_def is_quoted_def is_paren_def)
    then show ?thesis by (intro not_first) simp
  qed
  ultimately show "\<not> starts_not (a @ post)" by blast
  show ne: "a \<noteq> []" using assms(1) by (auto simp: is_atom_def is_name_def is_number_def is_quoted_def is_paren_def)
  have d: "is_number a \<Longrightarrow> is_digit (hd a)" by (cases a) (auto simp: is_number_def)
  have p: "\<not> sp_tab CHR ''(''" by (simp add: sp_tab_def)
  show "\<not> sp_tab (hd a)" "hd a \<noteq> CHR ''!'' \<and> hd a \<noteq> CHR ''-'' \<and> hd a \<noteq> CHR ''+''"
    using assms(1) p d digit_start [of "hd a"] atom_chars [of "hd a"]
    by (auto simp: is_atom_def is_name_def is_quoted_def is_paren_def)
qed

lemma unary_atom:
  assumes "is_atom a" "blank_start post"
  shows "matchSharpUnaryOp (pre @ a @ post) (length pre) = None"
proof -
  have "\<not> sharpWordStartsAt (pre @ a @ post) (length pre) ''NOT''"
    using atom_not_op(1) [OF assms] unfolding word_at starts_not_def by (auto simp: numeral_3_eq_3)
  with atom_not_op(2,4) [OF assms] show ?thesis by (cases a) (auto simp: matchSharpUnaryOp_def nth_append)
qed

lemma print_start:
  assumes "fits m t"
  shows "print t \<noteq> [] \<and> \<not> sp_tab (hd (print t)) \<and> (blank_start post \<longrightarrow> \<not> leads_not t \<longrightarrow> \<not> starts_not (print t @ post))"
  using assms
proof (induction t arbitrary: m post)
  case (Atom a)
  have "blank_start []" by (simp add: blank_start_def)
  with Atom atom_not_op [of a] show ?case by auto
next
  case (Pre op t)
  then show ?case by (auto simp: unops_def sp_tab_def intro!: not_first)
next
  case (Bin l op r)
  have "blank_start ('' '' @ xs)" for xs by (simp add: blank_start_def)
  with Bin show ?case by auto
next
  case (Cond c a b)
  have "blank_start ('' '' @ xs)" for xs by (simp add: blank_start_def)
  with Cond.IH(1) [of m "'' ? '' @ print a @ '' : '' @ print b @ post"] Cond.prems show ?case by auto
qed

end
