(* ===== verification/SharpPrecedence.thy ===== *)
theory SharpPrecedence imports SharpGrammar begin

section \<open>The evaluator computes the grammar\<close>

text \<open>
  The evaluator, run on the text of a tree that fits its level, computes the value of the tree:
  the operands in order, nothing for an operand that \<open>AND\<close> and \<open>OR\<close> do not need, both branches of
  \<open>?:\<close>. The induction is over the tree, with any text before it and any text behind it that does
  not go on with an operator the tree would absorb.
\<close>

lemma obind_ebind: "obind (Some (ebind m f)) g = obind (Some m) (\<lambda>x. obind (Some (f x)) g)"
  by (cases m) auto

lemma obind_assoc: "obind (obind m f) g = obind m (\<lambda>x. obind (f x) g)"
  by (auto simp: obind_def split: option.splits sum.splits)

subsection \<open>Reading at a position\<close>

lemma skip_here: "xs \<noteq> [] \<Longrightarrow> \<not> sp_tab (hd xs) \<Longrightarrow> skip_while sp_tab (pre @ xs) (length pre) = length pre"
  by (rule skip_while_none) simp

lemma skip_blank: "xs \<noteq> [] \<Longrightarrow> \<not> sp_tab (hd xs) \<Longrightarrow> skip_while sp_tab (pre @ CHR '' '' # xs) (length pre) = length pre + 1"
  by (cases xs) (auto simp: skip_while_app)

lemma skip_step: "p (s ! pos) \<Longrightarrow> pos < length s \<Longrightarrow> skip_while p s pos = skip_while p s (pos + 1)"
  by (simp add: skip_while_def Cons_nth_drop_Suc [symmetric])

lemma pe_blank: "s ! pos = CHR '' '' \<Longrightarrow> pos < length s \<Longrightarrow> pe rt s pos m st = pe rt s (pos + 1) m st"
  using skip_step [of sp_tab s pos] by (subst (1 2) pe_eq) simp

lemma se_blank: "s ! pos = CHR '' '' \<Longrightarrow> pos < length s \<Longrightarrow> se s pos m = se s (pos + 1) m"
  using skip_step [of sp_tab s pos] by (subst (1 2) se_eq) simp

lemma pe_atom:
  assumes "is_atom a" "blank_start post"
  shows "pe rt (pre @ a @ post) (length pre) m st =
    obind (Some (eval_atom rt a st)) (\<lambda>(v, st1). pr rt (pre @ a @ post) (length pre + length a) m v st1)"
proof -
  have "skip_while sp_tab (pre @ a @ post) (length pre) = length pre"
    using atom_not_op [OF assms] by (intro skip_here) auto
  then show ?thesis
    by (subst pe_eq) (simp add: Let_def unary_atom [OF assms] atom_primary [OF assms] obind_ebind case_prod_unfold)
qed

lemma se_atom:
  assumes "is_atom a" "blank_start post"
  shows "se (pre @ a @ post) (length pre) m = sr (pre @ a @ post) (length pre + length a) m"
proof -
  have "skip_while sp_tab (pre @ a @ post) (length pre) = length pre"
    using atom_not_op [OF assms] by (intro skip_here) auto
  then show ?thesis by (subst se_eq) (simp add: Let_def unary_atom [OF assms] atom_primary [OF assms])
qed

lemma unop_start: "op \<in> set unops \<Longrightarrow> op \<noteq> [] \<and> \<not> sp_tab (hd op)"
  by (auto simp: unops_def sp_tab_def)

lemma pe_unary:
  assumes "op \<in> set unops" "blank_end pre" "s = pre @ op @ '' '' @ xs"
  shows "pe rt s (length pre) m st = obind (pe rt s (length pre + length op + 1) (sharpUnaryOpPrec op) st)
    (\<lambda>(v, q, st1). obind (Some (apply_unary rt op v)) (\<lambda>w. pr rt s q m w st1))"
proof -
  have sk: "skip_while sp_tab s (length pre) = length pre"
    using unop_start [OF assms(1)] unfolding assms(3) by (intro skip_here) auto
  have b: "s ! (length pre + length op) = CHR '' ''" "length pre + length op < length s"
    by (simp_all add: assms(3) nth_append)
  have u: "matchSharpUnaryOp s (length pre) = Some (op, length pre + length op)"
    unfolding assms(3) by (rule unary_at [OF assms(1,2)])
  show ?thesis
    unfolding pe_blank [OF b, symmetric]
    by (subst pe_eq) (simp add: Let_def sk u obind_assoc case_prod_unfold)
qed

lemma se_unary:
  assumes "op \<in> set unops" "blank_end pre" "s = pre @ op @ '' '' @ xs"
  shows "se s (length pre) m = obind (se s (length pre + length op + 1) (sharpUnaryOpPrec op)) (\<lambda>q. sr s q m)"
proof -
  have sk: "skip_while sp_tab s (length pre) = length pre"
    using unop_start [OF assms(1)] unfolding assms(3) by (intro skip_here) auto
  have b: "s ! (length pre + length op) = CHR '' ''" "length pre + length op < length s"
    by (simp_all add: assms(3) nth_append)
  have u: "matchSharpUnaryOp s (length pre) = Some (op, length pre + length op)"
    unfolding assms(3) by (rule unary_at [OF assms(1,2)])
  show ?thesis unfolding se_blank [OF b, symmetric] by (subst se_eq) (simp add: Let_def sk u)
qed

subsection \<open>Where an expression ends\<close>

definition stops :: "bytes \<Rightarrow> nat \<Rightarrow> int \<Rightarrow> bool" where
  "stops s pos k \<longleftrightarrow> (let p = skip_while sp_tab s pos in case matchSharpBinaryOp s p of
     None \<Rightarrow> \<not> (p < length s \<and> (s ! p = CHR ''<'' \<or> s ! p = CHR ''>''))
   | Some (op, _) \<Rightarrow> sharpBinOpPrec op < k)"

lemma stops_mono: "stops s pos k \<Longrightarrow> k \<le> k' \<Longrightarrow> stops s pos k'"
  by (auto simp: stops_def Let_def split: option.splits)

lemma pr_stop: "stops s pos k \<Longrightarrow> pr rt s pos k v st = done_with (v, pos, st)"
  by (subst pr_eq) (auto simp: stops_def Let_def split: option.splits)

lemma sr_stop: "stops s pos k \<Longrightarrow> sr s pos k = done_with pos"
  by (subst sr_eq) (auto simp: stops_def Let_def split: option.splits)

lemma stops_end: "stops s (length s) k"
proof -
  have "skip_while sp_tab s (length s) = length s" by (simp add: skip_while_def)
  then show ?thesis by (simp add: stops_def matchSharpBinaryOp_def)
qed

lemma op_props:
  assumes "op \<in> set binops"
  shows "op \<noteq> []" "\<not> sp_tab (hd op)" "0 < sharpBinOpPrec op" "op \<noteq> ''?''"
  using symbol_ops(2) assms by (auto simp: list_all_iff)

lemma op_read:
  assumes "op \<in> set binops" "op = ''IS'' \<longrightarrow> \<not> starts_not r" "s = pre @ '' '' @ op @ '' '' @ r"
  shows "skip_while sp_tab s (length pre) = length pre + 1"
    "matchSharpBinaryOp s (length pre + 1) = Some (op, length pre + 1 + length op)"
    "s ! (length pre + 1 + length op) = CHR '' ''" "length pre + 1 + length op < length s"
proof -
  show "skip_while sp_tab s (length pre) = length pre + 1"
    using skip_blank [of "op @ '' '' @ r" pre] op_props [OF assms(1)] unfolding assms(3) by simp
  show "matchSharpBinaryOp s (length pre + 1) = Some (op, length pre + 1 + length op)"
    unfolding assms(3) by (rule binary_at [OF assms(1,2)])
qed (simp_all add: assms(3) nth_append)

lemma stops_op:
  assumes "op \<in> set binops" "op = ''IS'' \<longrightarrow> \<not> starts_not r" "s = pre @ '' '' @ op @ '' '' @ r" "sharpBinOpPrec op < k"
  shows "stops s (length pre) k"
  unfolding stops_def Let_def op_read [OF assms(1-3)] option.case prod.case by (rule assms(4))

text \<open>What the evaluator does with an operator: \<open>op_value\<close> is the rest of the loop body.\<close>

lemma pr_op:
  assumes "op \<in> set binops" "op = ''IS'' \<longrightarrow> \<not> starts_not r" "s = pre @ '' '' @ op @ '' '' @ r" "m \<le> sharpBinOpPrec op"
  defines "p \<equiv> length pre + length op + 2"
  shows "pr rt s (length pre) m lhs st =
    (if is_and op \<or> is_or op then
       obind (Some (rt_truthy rt lhs)) (\<lambda>truthy.
         if (if is_and op then truthy else \<not> truthy) then
           obind (pe rt s p (sharpBinOpPrec op + 1) st) (\<lambda>(rhs, q, st1).
           obind (Some (rt_binary rt op lhs rhs)) (\<lambda>v. pr rt s q m v st1))
         else obind (se s p (sharpBinOpPrec op + 1)) (\<lambda>q. pr rt s q m lhs st))
     else obind (pe rt s p (sharpBinOpPrec op + 1) st) (\<lambda>(rhs, q, st1).
       obind (Some (rt_binary rt op lhs rhs)) (\<lambda>v. pr rt s q m v st1)))"
proof -
  note o = op_read [OF assms(1-3)]
  have p: "length pre + 1 + length op + 1 = p" by (simp add: p_def)
  have b: "pe rt s (length pre + 1 + length op) k st = pe rt s p k st" "se s (length pre + 1 + length op) k = se s p k" for k
    unfolding pe_blank [OF o(3,4)] se_blank [OF o(3,4)] p by (rule refl)+
  have "\<not> sharpBinOpPrec op < m" using assms(4) by simp
  then show ?thesis unfolding b [symmetric] by (subst pr_eq) (simp only: Let_def o op_props [OF assms(1)] option.case prod.case if_False)
qed

lemma sr_op:
  assumes "op \<in> set binops" "op = ''IS'' \<longrightarrow> \<not> starts_not r" "s = pre @ '' '' @ op @ '' '' @ r" "m \<le> sharpBinOpPrec op"
  defines "p \<equiv> length pre + length op + 2"
  shows "sr s (length pre) m = obind (se s p (sharpBinOpPrec op + 1)) (\<lambda>q. sr s q m)"
proof -
  note o = op_read [OF assms(1-3)]
  have p: "length pre + 1 + length op + 1 = p" by (simp add: p_def)
  have b: "se s (length pre + 1 + length op) k = se s p k" for k
    using se_blank [OF o(3,4)] unfolding p by blast
  have "\<not> sharpBinOpPrec op < m" using assms(4) by simp
  then show ?thesis unfolding b [symmetric] by (subst sr_eq) (simp only: Let_def o op_props [OF assms(1)] option.case prod.case if_False)
qed

subsection \<open>The conditional\<close>

text \<open>The search for the colon passes over names, numbers and operators character by character, over a string to its
  closing quote, and over a parenthesised text as \<open>findMatchingClose\<close> does.\<close>

definition plain_char :: "char \<Rightarrow> bool" where
  "plain_char c \<longleftrightarrow> c \<noteq> CHR ''?'' \<and> c \<noteq> CHR '':'' \<and> c \<noteq> CHR ''('' \<and> c \<noteq> CHR '')'' \<and> \<not> quote_char c"

lemma colon_loop_plain: "list_all plain_char cs \<Longrightarrow> colon_loop 0 i (cs @ ys) = colon_loop 0 (i + length cs) ys"
  by (induction cs arbitrary: i) (simp_all add: plain_char_def)

lemma colon_loop_quote:
  assumes "quote_char c" "c \<in> set cs"
  shows "colon_loop d i (c # cs @ ys) = colon_loop d (i + length (takeWhile (\<lambda>x. x \<noteq> c) cs) + 2) (tl (dropWhile (\<lambda>x. x \<noteq> c) cs) @ ys)"
proof -
  have "dropWhile (\<lambda>x. x \<noteq> c) cs \<noteq> []" using assms(2) by auto
  then have "tl (dropWhile (\<lambda>x. x \<noteq> c) (cs @ ys)) = tl (dropWhile (\<lambda>x. x \<noteq> c) cs) @ ys" "takeWhile (\<lambda>x. x \<noteq> c) (cs @ ys) = takeWhile (\<lambda>x. x \<noteq> c) cs"
    using assms(2) by (auto simp: dropWhile_append takeWhile_append)
  then show ?thesis using assms(1) by (auto simp: quote_char_def sp_tab_def)
qed

lemma close_loop_quote:
  "close_loop op cl d True False i cs = (if CHR 0x22 \<in> set cs
     then close_loop op cl d False False (i + length (takeWhile (\<lambda>x. x \<noteq> CHR 0x22) cs) + 1) (tl (dropWhile (\<lambda>x. x \<noteq> CHR 0x22) cs)) else -1)"
  "close_loop op cl d False True i cs = (if CHR 0x27 \<in> set cs
     then close_loop op cl d False False (i + length (takeWhile (\<lambda>x. x \<noteq> CHR 0x27) cs) + 1) (tl (dropWhile (\<lambda>x. x \<noteq> CHR 0x27) cs)) else -1)"
  by (induction cs arbitrary: i) auto

lemma quote_lengths: "c \<in> set cs \<Longrightarrow> length cs = length (takeWhile (\<lambda>x. x \<noteq> c) cs) + 1 + length (tl (dropWhile (\<lambda>x. x \<noteq> c) cs))"
  by (induction cs) auto

lemma colon_loop_paren:
  "0 < i \<Longrightarrow> 0 < d \<Longrightarrow> close_loop CHR ''('' CHR '')'' d False False i cs = int (i + length cs) - 1 \<Longrightarrow>
     colon_loop d i (cs @ ys) = colon_loop 0 (i + length cs) ys"
proof (induction cs arbitrary: d i rule: length_induct)
  case (1 cs)
  show ?case
  proof (cases cs)
    case (Cons c xs)
    have IH: "length zs < length cs \<Longrightarrow> 0 < j \<Longrightarrow> 0 < d' \<Longrightarrow> close_loop CHR ''('' CHR '')'' d' False False j zs = int (j + length zs) - 1
        \<Longrightarrow> colon_loop d' j (zs @ ys) = colon_loop 0 (j + length zs) ys" for zs d' j using 1(1) by blast
    show ?thesis
    proof (cases "quote_char c")
      case True
      let ?k = "length (takeWhile (\<lambda>x. x \<noteq> c) xs)" and ?zs = "tl (dropWhile (\<lambda>x. x \<noteq> c) xs)"
      have *: "c \<in> set xs \<and> close_loop CHR ''('' CHR '')'' d False False (i + 1 + ?k + 1) ?zs = int (i + length cs) - 1"
        using True 1(4) Cons by (auto simp: quote_char_def close_loop_quote split: if_splits)
      then have len: "length xs = ?k + 1 + length ?zs" by (intro quote_lengths) simp
      then have "colon_loop d (i + ?k + 2) (?zs @ ys) = colon_loop 0 (i + ?k + 2 + length ?zs) ys"
        using * Cons 1(3) by (intro IH) (simp_all add: algebra_simps)
      then show ?thesis using colon_loop_quote [OF True, of xs d i ys] * len Cons by (simp add: algebra_simps)
    next
      case False
      then have q: "c \<noteq> CHR 0x22" "c \<noteq> CHR 0x27" by (auto simp: quote_char_def)
      consider "c = CHR ''(''" | "c = CHR '')''" | "c \<noteq> CHR ''(''" "c \<noteq> CHR '')''" by blast
      then show ?thesis
      proof cases
        case 1
        with \<open>0 < d\<close> 1(1) q Cons \<open>close_loop _ _ d _ _ i cs = _\<close> IH [of xs "i + 1" "d + 1"] show ?thesis by (simp add: sp_tab_def)
      next
        case 2
        show ?thesis
        proof (cases "d = 1")
          case True
          with 2 \<open>close_loop _ _ d _ _ i cs = _\<close> Cons have "xs = []" by simp
          with True 2 Cons show ?thesis by (simp add: sp_tab_def)
        next
          case False
          with 2 \<open>0 < d\<close> \<open>close_loop _ _ d _ _ i cs = _\<close> Cons IH [of xs "i + 1" "d - 1"] show ?thesis by (simp add: sp_tab_def)
        qed
      next
        case 3
        with \<open>0 < d\<close> q \<open>\<not> quote_char c\<close> \<open>close_loop _ _ d _ _ i cs = _\<close> Cons IH [of xs "i + 1" d] show ?thesis by simp
      qed
    qed
  next
    case Nil
    with 1(2,4) show ?thesis by simp
  qed
qed

lemma colon_loop_atom:
  assumes "is_atom a" shows "colon_loop 0 i (a @ ys) = colon_loop 0 (i + length a) ys"
proof -
  consider "is_name a" | "is_number a" | "is_quoted a" | "is_paren a" using assms by (auto simp: is_atom_def)
  then show ?thesis
  proof cases
    case 1
    have "plain_char c" if "ident_char c" for c
      using that by (auto simp: plain_char_def quote_char_def ident_char_def charclass char_le_nat)
    with 1 have "list_all plain_char a" by (auto simp: is_name_def list_all_iff)
    then show ?thesis by (rule colon_loop_plain)
  next
    case 2
    have "plain_char c" if "is_digit c" for c using that by (auto simp: plain_char_def quote_char_def charclass char_le_nat)
    with 2 have "list_all plain_char a" by (auto simp: is_number_def list_all_iff)
    then show ?thesis by (rule colon_loop_plain)
  next
    case 3
    then obtain q body where a: "a = q # body @ [q]" "quote_char q" "q \<notin> set body" by (rule quoted_split)
    have "takeWhile (\<lambda>x. x \<noteq> q) (body @ [q]) = body" "dropWhile (\<lambda>x. x \<noteq> q) (body @ [q]) = [q]"
      using a(3) by (auto simp: takeWhile_append dropWhile_append)
    then show ?thesis using colon_loop_quote [OF a(2), of "body @ [q]" 0 i ys] by (simp add: a(1))
  next
    case 4
    then obtain xs where a: "a = CHR ''('' # xs" by (cases a) (auto simp: is_paren_def)
    with 4 have "close_loop CHR ''('' CHR '')'' 1 False False 1 xs = int (length xs)"
      by (simp add: is_paren_def findMatchingClose_def Let_def closer_def)
    then have "close_loop CHR ''('' CHR '')'' 1 False False (1 + i) xs = int (length xs) + int i"
      by (subst close_loop_shift) simp
    then have "colon_loop 1 (i + 1) (xs @ ys) = colon_loop 0 (i + 1 + length xs) ys" by (intro colon_loop_paren) (simp_all add: add.commute)
    then show ?thesis by (simp add: a sp_tab_def)
  qed
qed

lemma plain_ops: "list_all (list_all plain_char) (binops @ unops)"
  by code_simp

lemma colon_loop_print: "fits m t \<Longrightarrow> no_cond t \<Longrightarrow> colon_loop 0 i (print t @ ys) = colon_loop 0 (i + length (print t)) ys"
proof (induction t arbitrary: m i ys)
  case (Pre op t)
  then have "list_all plain_char op" using plain_ops by (auto simp: list_all_iff)
  with Pre.prems Pre.IH [of "sharpUnaryOpPrec op" "Suc (i + length op)"] colon_loop_plain [of op i] show ?case
    by (simp add: sp_tab_def algebra_simps)
next
  case (Bin l op r)
  then have "list_all plain_char op" using plain_ops by (auto simp: list_all_iff)
  with Bin.prems Bin.IH(1) [of m i] Bin.IH(2) [of "sharpBinOpPrec op + 1"] colon_loop_plain [of op] show ?case
    by (simp add: sp_tab_def algebra_simps)
qed (auto intro: colon_loop_atom)

lemma ternary_read:
  assumes "\<And>i ys. colon_loop 0 i (a @ ys) = colon_loop 0 (i + length a) ys" "s = pre @ '' ? '' @ a @ '' : '' @ b"
  defines "p \<equiv> length pre + 3" and "e \<equiv> length pre + length a + 6"
  shows "m \<le> 1 \<Longrightarrow> pr rt s (length pre) m lhs st = obind (pe rt s p 0 st) (\<lambda>(thenVal, _, st1).
      obind (pe rt s e 0 st1) (\<lambda>(elseVal, q, st2).
      obind (Some (rt_ternary rt lhs thenVal elseVal)) (\<lambda>v. pr rt s q m v st2)))"
    and "m \<le> 1 \<Longrightarrow> sr s (length pre) m = obind (se s p 0) (\<lambda>_. obind (se s e 0) (\<lambda>q. sr s q m))"
    and "1 < k \<Longrightarrow> stops s (length pre) k"
    and "stops s (p + length a) k"
proof -
  have sk: "skip_while sp_tab s (length pre) = length pre + 1"
    using skip_blank [of "''? '' @ a @ '' : '' @ b" pre] by (simp add: assms(2) sp_tab_def)
  have op: "matchSharpBinaryOp s (length pre + 1) = Some (''?'', length pre + 2)"
    using ternary_at(1) [of pre "a @ '' : '' @ b"] by (simp add: assms(2))
  have prec: "sharpBinOpPrec ''?'' = 1" by (simp add: sharpBinOpPrec_def)
  have c: "colon_loop 0 (length pre + 2) (drop (length pre + 2) s) = int (length pre + length a + 4)"
    by (simp add: assms(1,2) sp_tab_def)
  have b1: "s ! (length pre + 2) = CHR '' ''" "length pre + 2 < length s" by (simp_all add: assms(2) nth_append)
  have b2: "s ! (length pre + length a + 5) = CHR '' ''" "length pre + length a + 5 < length s"
    by (simp_all add: assms(2) nth_append nth_Cons')
  have n: "nat (int (length pre + length a + 4)) + 1 = length pre + length a + 5" by simp
  have e: "length pre + 2 + 1 = p" "length pre + length a + 5 + 1 = e" by (simp_all add: p_def e_def)
  have nm: "m \<le> 1 \<Longrightarrow> \<not> 1 < m" for m :: int by simp
  have cn: "int (length pre + length a + 4) \<noteq> -1" by simp
  show "m \<le> 1 \<Longrightarrow> pr rt s (length pre) m lhs st = obind (pe rt s p 0 st) (\<lambda>(thenVal, _, st1).
      obind (pe rt s e 0 st1) (\<lambda>(elseVal, q, st2).
      obind (Some (rt_ternary rt lhs thenVal elseVal)) (\<lambda>v. pr rt s q m v st2)))"
    unfolding e [symmetric] pe_blank [OF b1, symmetric] pe_blank [OF b2, symmetric]
    by (subst pr_eq) (simp only: Let_def sk op option.case prod.case prec nm c n cn if_False if_True refl)
  show "m \<le> 1 \<Longrightarrow> sr s (length pre) m = obind (se s p 0) (\<lambda>_. obind (se s e 0) (\<lambda>q. sr s q m))"
    unfolding e [symmetric] se_blank [OF b1, symmetric] se_blank [OF b2, symmetric]
    by (subst sr_eq) (simp only: Let_def sk op option.case prod.case prec nm c n cn if_False if_True refl)
  show "1 < k \<Longrightarrow> stops s (length pre) k" unfolding stops_def Let_def sk op option.case prod.case prec .
  have s2: "s = (pre @ '' ? '' @ a) @ '' : '' @ b" by (simp add: assms(2))
  have l2: "length (pre @ '' ? '' @ a) = p + length a" by (simp add: p_def)
  have "skip_while sp_tab s (p + length a) = p + length a + 1"
    using skip_blank [of "'': '' @ b" "pre @ '' ? '' @ a"] unfolding l2 s2 by (simp add: sp_tab_def)
  moreover have "matchSharpBinaryOp s (p + length a + 1) = None"
    using ternary_at(2) [of "pre @ '' ? '' @ a" b] unfolding l2 s2 [symmetric] by simp
  moreover have "s ! (p + length a + 1) = CHR '':''" by (simp add: assms(2) p_def nth_append nth_Cons')
  ultimately show "stops s (p + length a) k" by (simp add: stops_def Let_def)
qed

subsection \<open>Trees\<close>

lemma blank_ends [simp]: "blank_end (xs @ '' '')" "blank_start (CHR '' '' # xs)" "blank_end (xs @ ys @ '' '')"
  "blank_end (xs @ ys @ CHR '' '' # zs @ '' '')" "blank_end []" "blank_start []"
  by (simp_all add: blank_end_def blank_start_def)

lemma edge_nonneg: "0 \<le> edge t"
  by (induction t) (auto simp: sharpBinOpPrec_def sharpUnaryOpPrec_def)

lemma is_not: "fits k r \<Longrightarrow> blank_start post \<Longrightarrow> op = ''IS'' \<longrightarrow> \<not> leads_not r \<Longrightarrow> op = ''IS'' \<longrightarrow> \<not> starts_not (print r @ post)"
  using print_start by blast

lemma skip_tree:
  assumes "fits m t" "blank_end pre" "blank_start post" "s = pre @ print t @ post"
    "stops s (length pre + length (print t)) (edge t)"
  shows "se s (length pre) m = sr s (length pre + length (print t)) m"
  using assms
proof (induction t arbitrary: m pre post)
  case (Atom a)
  then show ?case by (simp add: se_atom)
next
  case (Pre op t)
  let ?e = "length pre + length (print (Pre op t))"
  have s: "s = pre @ op @ '' '' @ print t @ post" using Pre.prems(4) by simp
  have e: "length (pre @ op @ '' '') + length (print t) = ?e" by simp
  have st: "stops s ?e (edge t)" "stops s ?e (sharpUnaryOpPrec op)" using Pre.prems(5) by (auto elim: stops_mono)
  have "se s (length (pre @ op @ '' '')) (sharpUnaryOpPrec op) = sr s ?e (sharpUnaryOpPrec op)"
    using Pre.IH [of "sharpUnaryOpPrec op" "pre @ op @ '' ''" post] Pre.prems(1,3) st(1) unfolding e by (simp add: s)
  also have "\<dots> = done_with ?e" by (rule sr_stop [OF st(2)])
  finally show ?case using se_unary [OF _ Pre.prems(2) s, of m] Pre.prems(1) by (simp add: add.assoc)
next
  case (Bin l op r)
  let ?p = "sharpBinOpPrec op"
  let ?e = "length pre + length (print (Bin l op r))"
  let ?m = "length pre + length (print l)"
  have o: "op \<in> set binops" "op = ''IS'' \<longrightarrow> \<not> starts_not (print r @ post)" and lv: "m \<le> ?p" "?p < edge l"
    using Bin.prems(1,3) is_not by auto
  have s: "s = (pre @ print l) @ '' '' @ op @ '' '' @ print r @ post" using Bin.prems(4) by simp
  have "stops s ?m (edge l)" using stops_op [OF o s lv(2)] by simp
  then have l: "se s (length pre) m = sr s ?m m"
    using Bin.IH(1) [of m pre "'' '' @ op @ '' '' @ print r @ post"] Bin.prems(1,2) s by simp
  let ?q = "(pre @ print l) @ '' '' @ op @ '' ''"
  have e: "length ?q + length (print r) = ?e" and q: "length ?q = length (pre @ print l) + length op + 2" by simp_all
  have st: "stops s ?e (edge r)" "stops s ?e (?p + 1)" using Bin.prems(5) by (auto elim: stops_mono)
  have "se s (length ?q) (?p + 1) = sr s ?e (?p + 1)"
    using Bin.IH(2) [of "?p + 1" ?q post] Bin.prems(1,3) st(1) s unfolding e by simp
  also have "\<dots> = done_with ?e" by (rule sr_stop [OF st(2)])
  finally show ?case using l sr_op [OF o s lv(1)] unfolding q by simp
next
  case (Cond c a b)
  let ?e = "length pre + length (print (Cond c a b))"
  let ?m = "length pre + length (print c)"
  have s: "s = (pre @ print c) @ '' ? '' @ print a @ '' : '' @ print b @ post" using Cond.prems(4) by simp
  have "fits 0 a" "no_cond a" and m: "m \<le> 1" and ec: "1 < edge c" using Cond.prems(1) by simp_all
  note pl = colon_loop_print [OF this(1,2)]
  note t = ternary_read [OF pl s]
  have "stops s ?m (edge c)" using t(3) [OF ec] by simp
  then have c: "se s (length pre) m = sr s ?m m"
    using Cond.IH(1) [of m pre "'' ? '' @ print a @ '' : '' @ print b @ post"] Cond.prems(1,2) s by simp
  let ?q = "(pre @ print c) @ '' ? ''"
  have q: "length ?q = length (pre @ print c) + 3" by simp
  have sa: "s = ?q @ print a @ ('' : '' @ print b @ post)" using s by simp
  have "stops s (length ?q + length (print a)) (edge a)" unfolding q by (rule t(4))
  then have "se s (length ?q) 0 = sr s (length ?q + length (print a)) 0"
    by (intro Cond.IH(2) [OF _ _ _ sa]) (use Cond.prems(1) in \<open>simp_all add: blank_end_def\<close>)
  also have "\<dots> = done_with (length ?q + length (print a))" using sr_stop [OF t(4)] unfolding q by simp
  finally have a: "se s (length (pre @ print c) + 3) 0 = done_with (length ?q + length (print a))" unfolding q .
  let ?r = "?q @ print a @ '' : ''"
  have r: "length ?r = length (pre @ print c) + length (print a) + 6" and e: "length ?r + length (print b) = ?e" by simp_all
  have sb: "s = ?r @ print b @ post" using s by simp
  have st: "stops s ?e 0" using Cond.prems(5) by simp
  then have "stops s (length ?r + length (print b)) (edge b)" unfolding e by (rule stops_mono [OF _ edge_nonneg])
  then have "se s (length ?r) 0 = sr s ?e 0" unfolding e [symmetric]
    by (intro Cond.IH(3) [OF _ _ _ sb]) (use Cond.prems(1,3) in \<open>simp_all add: blank_end_def\<close>)
  also have "\<dots> = done_with ?e" by (rule sr_stop [OF st])
  finally have "se s (length ?r) 0 = done_with ?e" .
  then show ?case using c a t(2) [OF m] unfolding r by simp
qed

lemma obind_pair: "obind (Some (ebind m (\<lambda>(a, b). f a b))) g = obind (Some m) (\<lambda>(a, b). obind (Some (f a b)) g)"
  by (cases m) (auto split: prod.splits)

lemma obind_done_pair: "obind (obind m (\<lambda>(a, b). done_with (a, e, b))) (\<lambda>(v, q, st). f v q st) = obind m (\<lambda>(a, b). f a e b)"
  unfolding obind_assoc by (rule obind_cong) auto

lemma parse_tree:
  assumes "fits m t" "blank_end pre" "blank_start post" "s = pre @ print t @ post"
    "stops s (length pre + length (print t)) (edge t)"
  shows "pe rt s (length pre) m st =
    obind (Some (eval rt t st)) (\<lambda>(v, st1). pr rt s (length pre + length (print t)) m v st1)"
  using assms
proof (induction t arbitrary: m pre post st)
  case (Atom a)
  then show ?case by (simp add: pe_atom)
next
  case (Pre op t)
  let ?e = "length pre + length (print (Pre op t))"
  let ?q = "pre @ op @ '' ''"
  have s: "s = pre @ op @ '' '' @ print t @ post" and s': "s = ?q @ print t @ post" using Pre.prems(4) by simp_all
  have e: "length ?q + length (print t) = ?e" and q: "length ?q = length pre + length op + 1" by simp_all
  have st: "stops s ?e (edge t)" "stops s ?e (sharpUnaryOpPrec op)" using Pre.prems(5) by (auto elim: stops_mono)
  have "pe rt s (length ?q) (sharpUnaryOpPrec op) st =
      obind (Some (eval rt t st)) (\<lambda>(v, st1). pr rt s ?e (sharpUnaryOpPrec op) v st1)"
    unfolding e [symmetric]
    by (rule Pre.IH [OF _ _ _ s']) (use Pre.prems(1,3) st(1) e in \<open>simp_all add: add.assoc\<close>)
  then have "pe rt s (length pre) m st = obind (obind (Some (eval rt t st)) (\<lambda>(v, st1). done_with (v, ?e, st1)))
      (\<lambda>(v, q, st1). obind (Some (apply_unary rt op v)) (\<lambda>w. pr rt s q m w st1))"
    using pe_unary [OF _ Pre.prems(2) s, of rt m st] Pre.prems(1) unfolding q pr_stop [OF st(2)] by simp
  then show ?case unfolding obind_done_pair eval.simps obind_pair by (simp only: obind_ebind obind_simps prod.case)
next
  case (Bin l op r)
  let ?p = "sharpBinOpPrec op"
  let ?e = "length pre + length (print (Bin l op r))"
  let ?m = "length pre + length (print l)"
  have o: "op \<in> set binops" "op = ''IS'' \<longrightarrow> \<not> starts_not (print r @ post)" and lv: "m \<le> ?p" "?p < edge l"
    using Bin.prems(1,3) is_not by auto
  have s: "s = (pre @ print l) @ '' '' @ op @ '' '' @ print r @ post"
    and sl: "s = pre @ print l @ ('' '' @ op @ '' '' @ print r @ post)" using Bin.prems(4) by simp_all
  have "stops s ?m (edge l)" using stops_op [OF o s lv(2)] by simp
  then have l: "pe rt s (length pre) m st = obind (Some (eval rt l st)) (\<lambda>(lv, st1). pr rt s ?m m lv st1)"
    by (intro Bin.IH(1) [OF _ Bin.prems(2) _ sl]) (use Bin.prems(1) in simp_all)
  let ?q = "(pre @ print l) @ '' '' @ op @ '' ''"
  have sr: "s = ?q @ print r @ post" using s by simp
  have e: "length ?q + length (print r) = ?e" and q: "length ?q = length (pre @ print l) + length op + 2"
    and q': "length (pre @ print l) = ?m" by simp_all
  have st: "stops s ?e (edge r)" "stops s ?e (?p + 1)" using Bin.prems(5) by (auto elim: stops_mono)
  have fr: "fits (?p + 1) r" "blank_end ?q" using Bin.prems(1) by (simp_all add: blank_end_def)
  have "stops s (length ?q + length (print r)) (edge r)" unfolding e by (rule st(1))
  then have "pe rt s (length ?q) (?p + 1) st1 =
      obind (Some (eval rt r st1)) (\<lambda>(rv, st2). pr rt s (length ?q + length (print r)) (?p + 1) rv st2)" for st1
    by (rule Bin.IH(2) [OF fr Bin.prems(3) sr])
  then have r: "pe rt s (length ?q) (?p + 1) st1 = obind (Some (eval rt r st1)) (\<lambda>(rv, st2). done_with (rv, ?e, st2))" for st1
    unfolding e pr_stop [OF st(2)] .
  have sk: "se s (length ?q) (?p + 1) = done_with ?e"
    using skip_tree [OF fr Bin.prems(3) sr] st(1) sr_stop [OF st(2)] unfolding e by simp
  have r': "pe rt s (?m + length op + 2) (?p + 1) st1 = obind (Some (eval rt r st1)) (\<lambda>(rv, st2). done_with (rv, ?e, st2))" for st1
    using r unfolding q q' .
  have sk': "se s (?m + length op + 2) (?p + 1) = done_with ?e" using sk unfolding q q' .
  let ?t = "\<lambda>lv st1. obind (Some (eval rt r st1)) (\<lambda>(rv, st2). obind (Some (rt_binary rt op lv rv)) (\<lambda>v. pr rt s ?e m v st2))"
  have both: "obind (Some (ebind (eval rt r st1) (\<lambda>(rv, st2). ebind (rt_binary rt op lv rv) (\<lambda>v. Inr (v, st2)))))
      (\<lambda>(v, st1). pr rt s ?e m v st1) = ?t lv st1" for lv st1
    unfolding obind_pair by (simp only: obind_ebind obind_simps prod.case)
  have step: "pr rt s ?m m lv st1 = (if is_and op \<or> is_or op then obind (Some (rt_truthy rt lv)) (\<lambda>truthy.
      if (if is_and op then truthy else \<not> truthy) then ?t lv st1 else pr rt s ?e m lv st1) else ?t lv st1)" for lv st1
    using pr_op [OF o s \<open>m \<le> ?p\<close>, of rt lv st1] unfolding q' r' sk' obind_done_pair done_with_simps .
  have go: "pr rt s ?m m lv st1 = obind (Some (eval rt (Bin l op r) st)) (\<lambda>(v, st1). pr rt s ?e m v st1)"
    if lv: "eval rt l st = Inr (lv, st1)" for lv st1
  proof (cases "is_and op \<or> is_or op")
    case True
    then show ?thesis unfolding step using both [of st1 lv] by (cases "rt_truthy rt lv") (simp_all add: lv)
  next
    case False
    then show ?thesis unfolding step using both [of st1 lv] by (simp add: lv)
  qed
  show ?case
  proof (cases "eval rt l st")
    case (Inl err)
    then show ?thesis using l by simp
  next
    case (Inr y)
    then obtain lv st1 where "eval rt l st = Inr (lv, st1)" by (cases y) auto
    with go l show ?thesis by simp
  qed
next
  case (Cond c a b)
  let ?e = "length pre + length (print (Cond c a b))"
  let ?m = "length pre + length (print c)"
  have s: "s = (pre @ print c) @ '' ? '' @ print a @ '' : '' @ print b @ post"
    and sc: "s = pre @ print c @ ('' ? '' @ print a @ '' : '' @ print b @ post)" using Cond.prems(4) by simp_all
  have "fits 0 a" "no_cond a" and m: "m \<le> 1" and ec: "1 < edge c" using Cond.prems(1) by simp_all
  note pl = colon_loop_print [OF this(1,2)]
  note t = ternary_read [OF pl s]
  have "stops s ?m (edge c)" using t(3) [OF ec] by simp
  then have c: "pe rt s (length pre) m st = obind (Some (eval rt c st)) (\<lambda>(cv, st1). pr rt s ?m m cv st1)"
    by (intro Cond.IH(1) [OF _ Cond.prems(2) _ sc]) (use Cond.prems(1) in simp_all)
  let ?q = "(pre @ print c) @ '' ? ''"
  have q: "length ?q = length (pre @ print c) + 3" by simp
  have sa: "s = ?q @ print a @ ('' : '' @ print b @ post)" using s by simp
  have "stops s (length ?q + length (print a)) (edge a)" unfolding q by (rule t(4))
  then have "pe rt s (length ?q) 0 st1 = obind (Some (eval rt a st1)) (\<lambda>(v, st2). pr rt s (length ?q + length (print a)) 0 v st2)" for st1
    by (intro Cond.IH(2) [OF _ _ _ sa]) (use Cond.prems(1) in \<open>simp_all add: blank_end_def\<close>)
  then have a: "pe rt s (length (pre @ print c) + 3) 0 st1 =
      obind (Some (eval rt a st1)) (\<lambda>(v, st2). done_with (v, length (pre @ print c) + 3 + length (print a), st2))" for st1
    unfolding q pr_stop [OF t(4)] .
  let ?r = "?q @ print a @ '' : ''"
  have r: "length ?r = length (pre @ print c) + length (print a) + 6" and e: "length ?r + length (print b) = ?e" by simp_all
  have sb: "s = ?r @ print b @ post" using s by simp
  have st: "stops s ?e 0" using Cond.prems(5) by simp
  then have "stops s (length ?r + length (print b)) (edge b)" unfolding e by (rule stops_mono [OF _ edge_nonneg])
  then have "pe rt s (length ?r) 0 st2 = obind (Some (eval rt b st2)) (\<lambda>(v, st3). pr rt s ?e 0 v st3)" for st2
    unfolding e [symmetric]
    by (intro Cond.IH(3) [OF _ _ _ sb]) (use Cond.prems(1,3) in \<open>simp_all add: blank_end_def\<close>)
  then have b: "pe rt s (length (pre @ print c) + length (print a) + 6) 0 st2 =
      obind (Some (eval rt b st2)) (\<lambda>(v, st3). done_with (v, ?e, st3))" for st2
    unfolding r pr_stop [OF st] .
  have q': "length (pre @ print c) = ?m" by simp
  have a': "pe rt s (?m + 3) 0 st1 = obind (Some (eval rt a st1)) (\<lambda>(v, st2). done_with (v, ?m + 3 + length (print a), st2))" for st1
    using a unfolding q' .
  have b': "pe rt s (?m + length (print a) + 6) 0 st2 = obind (Some (eval rt b st2)) (\<lambda>(v, st3). done_with (v, ?e, st3))" for st2
    using b unfolding q' .
  let ?t = "\<lambda>cv st1. obind (Some (eval rt a st1)) (\<lambda>(av, st2). obind (Some (eval rt b st2)) (\<lambda>(bv, st3).
      obind (Some (rt_ternary rt cv av bv)) (\<lambda>v. pr rt s ?e m v st3)))"
  have both: "obind (Some (ebind (eval rt a st1) (\<lambda>(av, st2). ebind (eval rt b st2) (\<lambda>(bv, st3).
      ebind (rt_ternary rt cv av bv) (\<lambda>v. Inr (v, st3)))))) (\<lambda>(v, st1). pr rt s ?e m v st1) = ?t cv st1" for cv st1
    unfolding obind_pair by (simp only: obind_ebind obind_simps prod.case)
  have step: "pr rt s ?m m cv st1 = ?t cv st1" for cv st1
    using t(1) [OF m, of rt cv st1] unfolding q' a' b' obind_done_pair .
  have go: "pr rt s ?m m cv st1 = obind (Some (eval rt (Cond c a b) st)) (\<lambda>(v, st1). pr rt s ?e m v st1)"
    if "eval rt c st = Inr (cv, st1)" for cv st1
    unfolding step using both [of st1 cv] by (simp add: that)
  show ?case
  proof (cases "eval rt c st")
    case (Inl err)
    then show ?thesis using c by simp
  next
    case (Inr y)
    then obtain cv st1 where "eval rt c st = Inr (cv, st1)" by (cases y) auto
    with go c show ?thesis by simp
  qed
qed

text \<open>A text read to its end, with the fuel its length gives.\<close>

lemma parse_printed:
  assumes "fits 0 t"
  shows "sharpParseExpr (Suc (length (print t))) rt (print t) 0 0 st = Some (ebind (eval rt t st) (\<lambda>(v, st1). Inr (v, length (print t), st1)))"
proof -
  let ?s = "print t"
  have "pe rt ?s 0 0 st = obind (Some (eval rt t st)) (\<lambda>(v, st1). pr rt ?s (length ?s) 0 v st1)"
    using parse_tree [OF assms(1), of "[]" "[]" ?s rt st] stops_end [of ?s] by simp
  then show ?thesis unfolding pe_def by (cases "eval rt t st") (auto simp: pr_stop [OF stops_end] done_with_def)
qed

text \<open>C7: The evaluator implements the operator grammar. On the text of an expression tree that obeys
  the precedence table, with any left-associated binary operators, prefix operators and
  conditionals over names, numbers, strings and parenthesised texts, \<open>sharpParseExpr\<close> consumes the
  whole text and returns the value of the tree: operators bind by the table, operands are evaluated
  from left to right, \<open>AND\<close> and \<open>OR\<close> leave the state alone when their left side decides, \<open>?:\<close> evaluates its condition
  and then both its branches before one of the two values is chosen, and the
  first error is the result. The trees are those whose operand between \<open>?\<close> and \<open>:\<close> holds no further
  conditional outside parentheses, which the code refuses; operators and operands are separated by single blanks.\<close>

theorem sharp_precedence:
  assumes "fits 0 t" "length (print t) < n"
  shows "sharpParseExpr n rt (print t) 0 0 st =
    Some (ebind (eval rt t st) (\<lambda>(v, st1). Inr (v, length (print t), st1)))"
  using parse_printed [OF assms(1)] parse_fuel [of "print t" 0 n "Suc (length (print t))" rt 0 st] assms(2) by simp

text \<open>A tree with every construct, on a runtime that records the atoms it evaluates.\<close>

definition sample_tree :: etree where
  "sample_tree = Cond (Bin (Bin (Bin (Atom ''a'') ''+'' (Bin (Pre ''-'' (Atom ''b'')) ''*'' (Atom ''2''))) ''GT'' (Atom ''(c OR d)''))
     ''AND'' (Pre ''NOT'' (Bin (Atom ''e'') ''IS'' (Atom ''\"x\"'')))) (Bin (Atom ''\"y:\"'') ''&'' (Atom ''(f ? j : k)'')) (Cond (Atom ''g'') (Atom ''h'') (Atom ''i''))"

definition log_runtime :: "bool \<Rightarrow> (unit, bytes list) runtime" where
  "log_runtime b = \<lparr> ev_expr = \<lambda>_ e log. Inr ((), log @ [e]), rt_binary = \<lambda>_ _ _. Inr (), rt_not = Inr, rt_neg = Inr,
     rt_truthy = \<lambda>_. Inr b, rt_ternary = \<lambda>_ _ _. Inr (), rt_array = \<lambda>_. (), rt_struct = \<lambda>_. (),
     rt_chain = \<lambda>_ _ log. Inr ((), log) \<rparr>"

lemma sample_facts:
  "fits 0 sample_tree" "print sample_tree = ''a + - b * 2 GT (c OR d) AND NOT e IS \"x\" ? \"y:\" & (f ? j : k) : g ? h : i''"
  "eval (log_runtime False) sample_tree [] = Inr ((), [''a'', ''b'', ''2'', ''c OR d'', ''\"y:\"'', ''f ? j : k'', ''g'', ''h'', ''i''])"
  by code_simp+

theorem sharp_precedence_witness:
  "sharpParseExpr 80 (log_runtime False) ''a + - b * 2 GT (c OR d) AND NOT e IS \"x\" ? \"y:\" & (f ? j : k) : g ? h : i'' 0 0 [] =
     Some (Inr ((), 73, [''a'', ''b'', ''2'', ''c OR d'', ''\"y:\"'', ''f ? j : k'', ''g'', ''h'', ''i'']))"
  using sharp_precedence [OF sample_facts(1), of 80 "log_runtime False" "[]"] unfolding sample_facts(2,3) by simp

end
