(* ===== verification/SharpScan.thy ===== *)
theory SharpScan imports SharpGrammar begin

section \<open>The scanners against their specifications\<close>

text \<open>
  Bracket matching against nesting depth, top-level splitting against joining, calls and string
  templates against their printed forms, and the two operator tables against each other.
\<close>

subsection \<open>Brackets\<close>

text \<open>The characters outside quotes; a quote of the other kind does not close a string.\<close>

fun outside :: "bool \<Rightarrow> bool \<Rightarrow> bytes \<Rightarrow> bytes" where
  "outside inDouble inSingle [] = []"
| "outside inDouble inSingle (c # cs) =
     (if c = CHR 0x22 \<and> \<not> inSingle then outside (\<not> inDouble) inSingle cs
      else if c = CHR 0x27 \<and> \<not> inDouble then outside inDouble (\<not> inSingle) cs
      else if \<not> inDouble \<and> \<not> inSingle then c # outside inDouble inSingle cs
      else outside inDouble inSingle cs)"

definition surplus :: "char \<Rightarrow> char \<Rightarrow> bytes \<Rightarrow> int" where
  "surplus op cl xs = int (count_list xs op) - int (count_list xs cl)"

lemma surplus_simps [simp]:
  "surplus op cl [] = 0"
  "surplus op cl (c # cs) = (if c = op then 1 else 0) - (if c = cl then 1 else 0) + surplus op cl cs"
  by (simp_all add: surplus_def)

text \<open>The nesting depth of the bracket at \<open>p\<close> after \<open>k\<close> characters.\<close>

definition nesting :: "bytes \<Rightarrow> nat \<Rightarrow> nat \<Rightarrow> int" where
  "nesting s p k = surplus (s ! p) (closer (s ! p)) (outside False False (take k (drop p s)))"

definition first_zero :: "(nat \<Rightarrow> int) \<Rightarrow> nat \<Rightarrow> int \<Rightarrow> bool" where
  "first_zero D n r \<longleftrightarrow> (r = -1 \<and> (\<forall>k\<le>n. 0 < D k)) \<or>
     (\<exists>q<n. r = int q \<and> D (Suc q) = 0 \<and> (\<forall>k\<le>q. 0 < D k))"

lemma first_zero_Suc:
  assumes "first_zero D' n r" "0 < D 0" "\<And>k. D (Suc k) = D' k"
  shows "first_zero D (Suc n) (if r = -1 then -1 else r + 1)"
proof -
  have all: "(\<forall>k\<le>Suc m. 0 < D k) \<longleftrightarrow> (\<forall>k\<le>m. 0 < D' k)" for m
  proof
    assume D: "\<forall>k\<le>Suc m. 0 < D k"
    show "\<forall>k\<le>m. 0 < D' k"
    proof (intro allI impI)
      fix k assume "k \<le> m"
      with D have "0 < D (Suc k)" by blast
      then show "0 < D' k" by (simp add: assms(3))
    qed
  next
    assume D': "\<forall>k\<le>m. 0 < D' k"
    show "\<forall>k\<le>Suc m. 0 < D k"
    proof (intro allI impI)
      fix k assume "k \<le> Suc m"
      with D' assms(2,3) show "0 < D k" by (cases k) auto
    qed
  qed
  show ?thesis
  proof (cases "r = -1")
    case True
    with assms(1) all [of n] show ?thesis by (auto simp: first_zero_def)
  next
    case False
    with assms(1) obtain q where q: "q < n" "r = int q" "D' (Suc q) = 0" "\<forall>k\<le>q. 0 < D' k"
      by (auto simp: first_zero_def)
    with all [of q] assms(3) have "D (Suc (Suc q)) = 0" "\<forall>k\<le>Suc q. 0 < D k" by auto
    with q show ?thesis by (auto simp: first_zero_def intro!: exI [of _ "Suc q"])
  qed
qed

lemma first_zero_unique:
  assumes "D (Suc k) = 0" "\<forall>j\<le>k. (0 :: int) < D j" "D (Suc m) = 0" "\<forall>j\<le>m. 0 < D j"
  shows "k = m"
proof (rule linorder_cases [of k m])
  assume "k < m"
  then have "0 < D (Suc k)" using assms(4) by simp
  with assms(1) show "k = m" by simp
next
  assume "m < k"
  then have "0 < D (Suc m)" using assms(2) by simp
  with assms(3) show "k = m" by simp
qed

lemma first_zero_ge: "first_zero D n r \<Longrightarrow> -1 \<le> r"
  by (auto simp: first_zero_def)

lemma first_zero_none:
  assumes "first_zero D n r"
  shows "r = -1 \<longleftrightarrow> (\<forall>k\<le>n. 0 < D k)"
proof (cases "r = -1")
  case True
  with assms show ?thesis by (auto simp: first_zero_def)
next
  case False
  with assms obtain q where "q < n" "D (Suc q) = 0" by (auto simp: first_zero_def)
  then have "Suc q \<le> n" "\<not> 0 < D (Suc q)" by simp_all
  with False show ?thesis by blast
qed

lemma first_zero_at:
  assumes "first_zero D n r"
  shows "r = int q \<longleftrightarrow> q < n \<and> D (Suc q) = 0 \<and> (\<forall>k\<le>q. 0 < D k)"
proof
  assume "r = int q"
  with assms show "q < n \<and> D (Suc q) = 0 \<and> (\<forall>k\<le>q. 0 < D k)" by (auto simp: first_zero_def)
next
  assume q: "q < n \<and> D (Suc q) = 0 \<and> (\<forall>k\<le>q. 0 < D k)"
  then have "Suc q \<le> n" "\<not> 0 < D (Suc q)" by simp_all
  with first_zero_none [OF assms] have "r \<noteq> -1" by blast
  with assms obtain k where k: "r = int k" "D (Suc k) = 0" "\<forall>j\<le>k. 0 < D j" by (auto simp: first_zero_def)
  have "k = q" by (rule first_zero_unique [of D]) (use k q in blast)+
  with k show "r = int q" by simp
qed

lemma close_loop_offset: "close_loop op cl d dq sq i cs =
   (if close_loop op cl d dq sq 0 cs = -1 then -1 else close_loop op cl d dq sq 0 cs + int i)"
  using close_loop_shift [of op cl d dq sq 0 i cs] by simp

lemma close_loop_spec:
  assumes "op \<noteq> cl" "\<not> quote_char op" "\<not> quote_char cl" "0 < d"
  shows "first_zero (\<lambda>k. d + surplus op cl (outside dq sq (take k cs))) (length cs) (close_loop op cl d dq sq 0 cs)"
  using assms(4)
proof (induction cs arbitrary: d dq sq)
  case Nil
  then show ?case by (simp add: first_zero_def)
next
  case (Cons c cs)
  let ?D = "\<lambda>k. d + surplus op cl (outside dq sq (take k (c # cs)))"
  have step: "first_zero ?D (Suc (length cs)) (close_loop op cl d' dq' sq' (Suc 0) cs)"
    if "0 < d'" "\<And>k. ?D (Suc k) = d' + surplus op cl (outside dq' sq' (take k cs))" for d' dq' sq'
  proof -
    have "first_zero ?D (Suc (length cs)) (if close_loop op cl d' dq' sq' 0 cs = -1 then -1
        else close_loop op cl d' dq' sq' 0 cs + 1)"
      by (rule first_zero_Suc [OF Cons.IH [OF that(1)] _ that(2)]) (use Cons.prems in simp)
    then show ?thesis unfolding close_loop_offset [of op cl d' dq' sq' "Suc 0"]
      by (cases "close_loop op cl d' dq' sq' 0 cs = -1") simp_all
  qed
  have q: "c = CHR 0x22 \<or> c = CHR 0x27 \<Longrightarrow> c \<noteq> op \<and> c \<noteq> cl" using assms by (auto simp: quote_char_def)
  consider "c = CHR 0x22" "\<not> sq" | "c = CHR 0x27" "\<not> dq" "\<not> (c = CHR 0x22 \<and> \<not> sq)"
    | "dq \<or> sq" "\<not> (c = CHR 0x22 \<and> \<not> sq)" "\<not> (c = CHR 0x27 \<and> \<not> dq)"
    | "\<not> dq" "\<not> sq" "c = op" "c \<noteq> CHR 0x22" "c \<noteq> CHR 0x27"
    | "\<not> dq" "\<not> sq" "c = cl" "d = 1" "c \<noteq> CHR 0x22" "c \<noteq> CHR 0x27"
    | "\<not> dq" "\<not> sq" "c = cl" "d \<noteq> 1" "c \<noteq> CHR 0x22" "c \<noteq> CHR 0x27"
    | "\<not> dq" "\<not> sq" "c \<noteq> op" "c \<noteq> cl" "c \<noteq> CHR 0x22" "c \<noteq> CHR 0x27" by blast
  then show ?case
  proof cases
    case 1
    with step [of d "\<not> dq" sq] Cons.prems show ?thesis by simp
  next
    case 2
    with step [of d dq "\<not> sq"] Cons.prems show ?thesis by simp
  next
    case 3
    with step [of d dq sq] Cons.prems show ?thesis by auto
  next
    case 4
    with step [of "d + 1" dq sq] Cons.prems assms show ?thesis by simp
  next
    case 5
    then show ?thesis using assms(1) by (auto simp: first_zero_def)
  next
    case 6
    with step [of "d - 1" dq sq] Cons.prems assms show ?thesis by simp
  next
    case 7
    with step [of d dq sq] Cons.prems show ?thesis by simp
  qed
qed

lemma opens_closer: "opens c \<Longrightarrow> c \<noteq> closer c \<and> \<not> quote_char c \<and> \<not> quote_char (closer c) \<and> c \<noteq> CHR 0x22 \<and> c \<noteq> CHR 0x27"
  by (auto simp: opens_def closer_def quote_char_def)

lemma close_first_zero:
  assumes "p < length s" "opens (s ! p)"
  defines "r \<equiv> close_loop (s ! p) (closer (s ! p)) 1 False False 0 (drop (Suc p) s)"
  shows "first_zero (\<lambda>k. nesting s p (Suc k)) (length s - Suc p) r"
    and "findMatchingClose s (int p) = (if r = -1 then -1 else r + int (Suc p))"
proof -
  let ?op = "s ! p" and ?cl = "closer (s ! p)" and ?cs = "drop (Suc p) s"
  note o = opens_closer [OF assms(2)]
  have d: "drop p s = ?op # ?cs" using assms(1) by (simp add: Cons_nth_drop_Suc)
  have n: "nesting s p (Suc k) = 1 + surplus ?op ?cl (outside False False (take k ?cs))" for k
    using o by (simp add: nesting_def d)
  show "first_zero (\<lambda>k. nesting s p (Suc k)) (length s - Suc p) r"
    using close_loop_spec [of ?op ?cl 1 False False ?cs] o unfolding n r_def by simp
  show "findMatchingClose s (int p) = (if r = -1 then -1 else r + int (Suc p))"
    using assms(1) o close_loop_offset [of ?op ?cl 1 False False "Suc p" ?cs]
    unfolding r_def by (simp add: findMatchingClose_def Let_def d)
qed

lemma shifted_all: "(\<forall>k\<le>m. P (Suc k)) \<longleftrightarrow> (\<forall>k. 0 < k \<longrightarrow> k \<le> Suc m \<longrightarrow> P k)"
  by (metis Suc_le_mono gr0_implies_Suc zero_less_Suc)

text \<open>\<open>findMatchingClose\<close> finds the matching bracket. For an opening bracket at \<open>p\<close> the result is
  the first position at which the brackets of its kind outside quotes are balanced, and -1 when
  there is none.\<close>

theorem matching_close_correct:
  assumes "p < length s" "opens (s ! p)"
  shows "(findMatchingClose s (int p) = int q \<longleftrightarrow>
      p < q \<and> q < length s \<and> nesting s p (Suc q - p) = 0 \<and> (\<forall>k. 0 < k \<longrightarrow> k \<le> q - p \<longrightarrow> 0 < nesting s p k)) \<and>
    (findMatchingClose s (int p) = -1 \<longleftrightarrow> (\<forall>k. 0 < k \<longrightarrow> k \<le> length s - p \<longrightarrow> 0 < nesting s p k))"
    (is "?at \<and> ?none")
proof
  note z = close_first_zero [OF assms]
  let ?r = "close_loop (s ! p) (closer (s ! p)) 1 False False 0 (drop (Suc p) s)"
  have len: "length s - p = Suc (length s - Suc p)" using assms(1) by simp
  have "findMatchingClose s (int p) = -1 \<longleftrightarrow> ?r = -1"
    using z(2) first_zero_ge [OF z(1)] by (auto split: if_splits)
  then show ?none unfolding len shifted_all [symmetric] using first_zero_none [OF z(1)] by blast
  show ?at
  proof (cases "p < q")
    case True
    then obtain m where m: "q = Suc p + m" by (metis add_Suc less_iff_Suc_add)
    have e: "Suc q - p = Suc (Suc m)" "q - p = Suc m" "m < length s - Suc p \<longleftrightarrow> q < length s" using m by auto
    have "findMatchingClose s (int p) = int q \<longleftrightarrow> ?r = int m" using z(2) m by auto
    with first_zero_at [OF z(1), of m] show ?thesis unfolding e shifted_all [symmetric] using True by blast
  next
    case False
    have "findMatchingClose s (int p) \<noteq> int q"
      using z(2) first_zero_ge [OF z(1)] False by (auto split: if_splits)
    with False show ?thesis by blast
  qed
qed

theorem matching_close_correct_witness:
  "nesting ''f(a, \")\", (b)) + c(d)'' 1 13 = 0 \<and> 0 < nesting ''f(a, \")\", (b)) + c(d)'' 1 12"
proof -
  let ?s = "''f(a, \")\", (b)) + c(d)''"
  have "1 < length ?s" "opens (?s ! 1)" "findMatchingClose ?s (int 1) = int 13" by code_simp+
  then have "nesting ?s 1 (Suc 13 - 1) = 0 \<and> (\<forall>k. 0 < k \<longrightarrow> k \<le> 13 - 1 \<longrightarrow> 0 < nesting ?s 1 k)"
    using matching_close_correct [of 1 ?s 13] by blast
  moreover have "Suc 13 - 1 = (13 :: nat)" "0 < (12 :: nat)" "(12 :: nat) \<le> 13 - 1" by simp_all
  ultimately show ?thesis by metis
qed

subsection \<open>Splitting and calls\<close>

text \<open>A part without a separator at its top level, with its brackets and quotes closed.\<close>

fun closed :: "char \<Rightarrow> int \<Rightarrow> bool \<Rightarrow> bool \<Rightarrow> bytes \<Rightarrow> bool" where
  "closed delim depth inDouble inSingle [] \<longleftrightarrow> depth = 0 \<and> \<not> inDouble \<and> \<not> inSingle"
| "closed delim depth inDouble inSingle (c # cs) \<longleftrightarrow>
     (if c = CHR 0x22 \<and> \<not> inSingle then closed delim depth (\<not> inDouble) inSingle cs
      else if c = CHR 0x27 \<and> \<not> inDouble then closed delim depth inDouble (\<not> inSingle) cs
      else if \<not> inDouble \<and> \<not> inSingle then
        (if opens c then closed delim (depth + 1) inDouble inSingle cs
         else if closes c then closed delim (depth - 1) inDouble inSingle cs
         else \<not> (c = delim \<and> depth = 0) \<and> closed delim depth inDouble inSingle cs)
      else closed delim depth inDouble inSingle cs)"

definition separator :: "char \<Rightarrow> bool" where
  "separator c \<longleftrightarrow> \<not> quote_char c \<and> \<not> opens c \<and> \<not> closes c"

lemma split_top_part:
  "closed delim d dq sq p \<Longrightarrow> separator delim \<Longrightarrow>
   split_top_loop delim d dq sq cur (p @ delim # ys) = trimmed (cur @ p) # split_top_loop delim 0 False False [] ys"
  by (induction delim d dq sq p arbitrary: cur rule: closed.induct) (auto simp: separator_def quote_char_def)

lemma split_top_last: "closed delim d dq sq p \<Longrightarrow> split_top_loop delim d dq sq cur p = [trimmed (cur @ p)]"
  by (induction delim d dq sq p arbitrary: cur rule: closed.induct) auto

lemma split_top_join:
  "ps \<noteq> [] \<Longrightarrow> list_all (closed delim 0 False False) ps \<Longrightarrow> separator delim \<Longrightarrow>
   split_top_loop delim 0 False False [] (join_on delim ps) = map trimmed ps"
  by (induction delim ps rule: join_on.induct) (auto simp: split_top_part split_top_last)

lemma args_loop_split: "args_loop d dq sq cur cs = split_top_loop CHR '','' d dq sq cur cs"
proof (induction cs arbitrary: d dq sq cur)
  case (Cons c cs)
  show ?case by (simp only: args_loop.simps split_top_loop.simps Cons.IH) (auto simp: opens_def closes_def)
qed simp

lemma strip_trimmed: "xs \<noteq> [] \<Longrightarrow> \<not> is_space (hd xs) \<Longrightarrow> \<not> is_space (last xs) \<Longrightarrow> strip xs = xs"
proof -
  assume ne: "xs \<noteq> []" and h: "\<not> is_space (hd xs)" and l: "\<not> is_space (last xs)"
  have "dropWhile is_space xs = xs" using ne h by (cases xs) auto
  moreover have "dropWhile is_space (rev xs) = rev xs" using ne l by (cases xs rule: rev_cases) auto
  ultimately show "strip xs = xs" by (simp add: strip_def)
qed

lemma mid_app: "str_mid (xs @ ys @ zs) (length xs) (int (length ys)) = ys"
  using mid_takeWhile [of "length xs" "length ys" "xs @ ys @ zs"] by simp

text \<open>Calls are read back. The text of a call, a name and arguments joined by commas in
  parentheses, is parsed into the name and the trimmed arguments, whatever brackets, quoted
  strings and nested calls the arguments contain; both copies of the splitting loop agree.\<close>

theorem func_call_roundtrip:
  assumes "name \<noteq> []" "CHR ''('' \<notin> set name" "trimmed name = name" "args \<noteq> []"
    "list_all (closed CHR '','' 0 False False) args" "trimmed (join_on CHR '','' args) = join_on CHR '','' args"
    "join_on CHR '','' args \<noteq> []"
  shows "parseFuncCall (name @ ''('' @ join_on CHR '','' args @ '')'') = Some (name, map trimmed args) \<and>
    splitTopLevel (join_on CHR '','' args) CHR '','' = map trimmed args \<and>
    parseFuncCall (name @ ''()'') = Some (name, [])"
proof (intro conjI)
  have sep: "separator CHR '',''" by (simp add: separator_def quote_char_def opens_def closes_def)
  have sp: "\<not> is_space CHR '')''" by code_simp
  have nm: "\<not> is_space (hd name)" using assms(1,3) strip_ends [of name] by (simp add: trimmed_eq)
  have e: "trimmed (name @ ''('' @ b @ '')'') = name @ ''('' @ b @ '')''" for b
    unfolding trimmed_eq by (rule strip_trimmed) (use assms(1) nm sp in auto)
  have "takeWhile (\<lambda>c. c \<noteq> CHR ''('') (name @ CHR ''('' # zs) = name" for zs
    using assms(2) by (subst takeWhile_append2) auto
  then have i: "str_indexOf_char (name @ ''('' @ b @ '')'') CHR ''('' 0 = int (length name)" for b
    by (subst indexOf_char_drop) auto
  have l: "str_left (name @ ''('' @ b @ '')'') (int (length name)) = name" for b
    using assms(1) by (auto simp: str_left_def Let_def)
  have m: "str_mid (name @ ''('' @ b @ '')'') (length name + 1) (int (length b)) = b" for b
    using mid_app [of "name @ ''(''" b "'')''"] by simp
  have n: "nat (int (length name) + 1) = length name + 1" by simp
  have k: "int (length (name @ ''('' @ b @ '')'')) - int (length name) - 2 = int (length b)" for b by simp
  have last: "(name @ ''('' @ b @ '')'') ! (length (name @ ''('' @ b @ '')'') - 1) = CHR '')''" for b
    by (simp add: nth_append)
  have call: "parseFuncCall (name @ ''('' @ b @ '')'') =
      Some (name, if trimmed b = [] then [] else args_loop 0 False False [] (trimmed b))" for b
    unfolding parseFuncCall_def Let_def e i l n k m last using assms(1,3) by simp
  show "parseFuncCall (name @ ''('' @ join_on CHR '','' args @ '')'') = Some (name, map trimmed args)"
    unfolding call assms(6) args_loop_split split_top_join [OF assms(4,5) sep] using assms(7) by simp
  show "splitTopLevel (join_on CHR '','' args) CHR '','' = map trimmed args"
    using split_top_join [OF assms(4,5) sep] assms(7) by (simp add: splitTopLevel_def)
  show "parseFuncCall (name @ ''()'') = Some (name, [])"
    using call [of "[]"] by (simp add: trimmed_eq strip_def)
qed

theorem func_call_roundtrip_witness:
  "parseFuncCall ''f(a, g(b, \"x,)\"), [1,2])'' = Some (''f'', [''a'', ''g(b, \"x,)\")'', ''[1,2]''])"
proof -
  let ?args = "[''a'', '' g(b, \"x,)\")'', '' [1,2]'']"
  have facts: "CHR ''('' \<notin> set ''f''" "trimmed ''f'' = ''f''" "list_all (closed CHR '','' 0 False False) ?args"
    "trimmed (join_on CHR '','' ?args) = join_on CHR '','' ?args" "join_on CHR '','' ?args \<noteq> []"
    "''f'' @ ''('' @ join_on CHR '','' ?args @ '')'' = ''f(a, g(b, \"x,)\"), [1,2])''"
    "map trimmed ?args = [''a'', ''g(b, \"x,)\")'', ''[1,2]'']" by code_simp+
  show ?thesis using func_call_roundtrip [of "''f''" ?args] facts by simp
qed

subsection \<open>The two operator tables\<close>

text \<open>The operators whose level in the interpreter's table is not the compiler's.\<close>

definition table_differences :: "bytes list" where
  "table_differences = [''GREATER THAN'', ''LESS THAN'', ''NOT EQUAL'']"

text \<open>The tables agree on every operator the interpreter can read except three: \<open>GREATER THAN\<close> and
  \<open>LESS THAN\<close> have level 8 in the compiler and 0 in the interpreter, \<open>NOT EQUAL\<close> the other way
  round; the unary tables agree. Below level 1 only the spelled-out order comparisons remain, so
  inside any operand the interpreter ends the operand before them.\<close>

theorem operator_tables:
  "(matchSharpBinaryOp s pos = Some (op, p1) \<longrightarrow>
     (sharpBinOpPrec op = getOpPrecedence op False) = (op \<notin> set table_differences) \<and>
     (sharpBinOpPrec op = 0) = (op \<in> set [''GREATER THAN'', ''LESS THAN'', ''GREATER THAN OR EQUAL TO'', ''LESS THAN OR EQUAL TO'']) \<and>
     sharpBinOpPrec op \<le> 12) \<and>
   sharpUnaryOpPrec op = getOpPrecedence op True"
proof -
  have all: "list_all (\<lambda>op. (sharpBinOpPrec op = getOpPrecedence op False) = (op \<notin> set table_differences) \<and>
     (sharpBinOpPrec op = 0) = (op \<in> set [''GREATER THAN'', ''LESS THAN'', ''GREATER THAN OR EQUAL TO'', ''LESS THAN OR EQUAL TO'']) \<and>
     sharpBinOpPrec op \<le> 12) (wordOps @ twoOps @ [''?''] @ map (\<lambda>c. [c]) oneOps)"
    by code_simp
  have binary: "(sharpBinOpPrec op = getOpPrecedence op False) = (op \<notin> set table_differences) \<and>
     (sharpBinOpPrec op = 0) = (op \<in> set [''GREATER THAN'', ''LESS THAN'', ''GREATER THAN OR EQUAL TO'', ''LESS THAN OR EQUAL TO'']) \<and>
     sharpBinOpPrec op \<le> 12" if "matchSharpBinaryOp s pos = Some (op, p1)"
  proof -
    note that
    moreover have mid: "take 2 (drop pos s) = str_mid s pos 2" if "pos + 1 < length s"
    using mid_takeWhile [of pos 2 s] that by simp
  ultimately have "op \<in> set (wordOps @ twoOps @ [''?''] @ map (\<lambda>c. [c]) oneOps)"
    by (auto simp: matchSharpBinaryOp_def dest!: find_mem split: if_splits option.splits)
    with all show ?thesis unfolding list_all_iff by blast
  qed
  then show ?thesis by (simp add: sharpUnaryOpPrec_def getOpPrecedence_def)
qed

theorem operator_tables_witness: "sharpBinOpPrec ''LESS THAN'' \<noteq> getOpPrecedence ''LESS THAN'' False"
proof -
  have "matchSharpBinaryOp ''a less than b'' 2 = Some (''LESS THAN'', 11)" "''LESS THAN'' \<in> set table_differences"
    by code_simp+
  with operator_tables show ?thesis by blast
qed

end
