(* ===== verification/SharpText.thy ===== *)
theory SharpText imports SharpScan begin

section \<open>String literals with interpolation\<close>

text \<open>
  Models \<open>evaluateStringLiteral\<close> of \<open>src/core/core_interp.cpp\<close>: doubled quotes and hashes, and
  \<open>#...#\<close> expressions inside a quoted literal. The parameter \<open>ev\<close> stands for \<open>evaluateExpr\<close> on the
  trimmed inner text followed by \<open>appendExprValueAsString\<close>: the text of the value, or its error.
\<close>

lemma sharp_end_ge: "sharp_end_loop d dq sq i cs \<noteq> -1 \<Longrightarrow> int i \<le> sharp_end_loop d dq sq i cs"
  by (induction d dq sq i cs rule: sharp_end_loop.induct) (auto split: if_splits)

function lit_loop :: "(bytes \<Rightarrow> 's \<Rightarrow> (bytes \<times> 's) res) \<Rightarrow> bytes \<Rightarrow> char \<Rightarrow> nat \<Rightarrow> bytes \<Rightarrow> 's \<Rightarrow> (bytes \<times> 's) res" where
  "lit_loop ev lit quote i result st = (if length lit \<le> i then Inr (result, st)
     else let c = lit ! i in
       if c = quote \<and> i + 1 < length lit \<and> lit ! (i + 1) = quote then lit_loop ev lit quote (i + 2) (result @ [quote]) st
       else if c = CHR ''#'' \<and> i + 1 < length lit \<and> lit ! (i + 1) = CHR ''#'' then lit_loop ev lit quote (i + 2) (result @ ''#'') st
       else if c = CHR ''#'' then
         (let stop = findSharpExprEnd lit i in
          if stop = -1 then lit_loop ev lit quote (i + 1) (result @ [c]) st
          else case ev (trimmed (str_mid lit (i + 1) (stop - int i - 1))) st of
            Inl err \<Rightarrow> Inl err
          | Inr (t, st1) \<Rightarrow> lit_loop ev lit quote (nat stop + 1) (result @ t) st1)
       else lit_loop ev lit quote (i + 1) (result @ [c]) st)"
  by pat_completeness auto
termination
proof (relation "measure (\<lambda>(ev, lit, quote, i, result, st). length lit - i)")
  fix lit :: bytes and i :: nat and ev quote result st stop t st1
  assume "\<not> length lit \<le> i" "stop = findSharpExprEnd lit i" "stop \<noteq> -1"
  with sharp_end_ge [of 0 False False "i + 1" "drop (i + 1) lit"] have "i < nat stop + 1"
    by (auto simp: findSharpExprEnd_def)
  with \<open>\<not> length lit \<le> i\<close>
  show "((ev, lit, quote, nat stop + 1, result @ t, st1), ev, lit, quote, i, result, st)
      \<in> measure (\<lambda>(ev, lit, quote, i, result, st). length lit - i)" by auto
qed auto

declare lit_loop.simps [simp del]

definition evaluateStringLiteral :: "(bytes \<Rightarrow> 's \<Rightarrow> (bytes \<times> 's) res) \<Rightarrow> bytes \<Rightarrow> char \<Rightarrow> 's \<Rightarrow> (bytes \<times> 's) res" where
  "evaluateStringLiteral ev e quote st = lit_loop ev (str_mid e 1 (int (length e) - 2)) quote 0 [] st"

subsection \<open>Templates\<close>

datatype part = Lit bytes | Hole bytes

definition double :: "char \<Rightarrow> char \<Rightarrow> bytes" where
  "double q c = (if c = q \<or> c = CHR ''#'' then [c, c] else [c])"

fun render :: "char \<Rightarrow> part \<Rightarrow> bytes" where
  "render q (Lit t) = concat (map (double q) t)"
| "render q (Hole x) = CHR ''#'' # x @ ''#''"

fun eval_parts :: "(bytes \<Rightarrow> 's \<Rightarrow> (bytes \<times> 's) res) \<Rightarrow> part list \<Rightarrow> 's \<Rightarrow> (bytes \<times> 's) res" where
  "eval_parts ev [] st = Inr ([], st)"
| "eval_parts ev (Lit t # ps) st = ebind (eval_parts ev ps st) (\<lambda>(ts, st1). Inr (t @ ts, st1))"
| "eval_parts ev (Hole x # ps) st = ebind (ev (trimmed x) st) (\<lambda>(t, st1).
     ebind (eval_parts ev ps st1) (\<lambda>(ts, st2). Inr (t @ ts, st2)))"

text \<open>A hole ends at its own closing hash.\<close>

fun part_ok :: "char \<Rightarrow> part \<Rightarrow> bool" where
  "part_ok q (Lit t) = True"
| "part_ok q (Hole x) = (x \<noteq> [] \<and> hd x \<noteq> CHR ''#'' \<and> findSharpExprEnd (CHR ''#'' # x @ ''#'') 0 = int (length x) + 1)"

lemma sharp_end_append:
  "sharp_end_loop d dq sq i cs \<noteq> -1 \<Longrightarrow> sharp_end_loop d dq sq i (cs @ post) = sharp_end_loop d dq sq i cs"
  by (induction d dq sq i cs rule: sharp_end_loop.induct) auto

lemma sharp_end_shift:
  "sharp_end_loop d dq sq (i + k) cs =
     (if sharp_end_loop d dq sq i cs = -1 then -1 else sharp_end_loop d dq sq i cs + int k)"
  by (induction d dq sq i cs rule: sharp_end_loop.induct) auto

lemma hole_end:
  assumes "part_ok q (Hole x)"
  shows "findSharpExprEnd (pre @ (CHR ''#'' # x @ ''#'') @ post) (length pre) = int (length pre + length x) + 1"
proof -
  have e: "sharp_end_loop 0 False False 1 (x @ ''#'') = int (length x) + 1"
    using assms by (simp add: findSharpExprEnd_def)
  then have "sharp_end_loop 0 False False 1 ((x @ ''#'') @ post) = int (length x) + 1"
    by (subst sharp_end_append) auto
  then have "sharp_end_loop 0 False False (1 + length pre) ((x @ ''#'') @ post) = int (length x) + 1 + int (length pre)"
    by (subst sharp_end_shift) simp
  moreover have "drop (length pre + 1) (pre @ (CHR ''#'' # x @ ''#'') @ post) = (x @ ''#'') @ post" by simp
  ultimately show ?thesis unfolding findSharpExprEnd_def by (simp add: add.commute)
qed

lemma lit_loop_lit:
  "q \<noteq> CHR ''#'' \<Longrightarrow> lit_loop ev (pre @ render q (Lit t) @ post) q (length pre) result st =
   lit_loop ev (pre @ render q (Lit t) @ post) q (length pre + length (render q (Lit t))) (result @ t) st"
proof (induction t arbitrary: pre result)
  case (Cons c t)
  let ?s = "pre @ render q (Lit (c # t)) @ post"
  have "lit_loop ev ?s q (length pre) result st = lit_loop ev ?s q (length pre + length (double q c)) (result @ [c]) st"
    by (subst lit_loop.simps) (auto simp: double_def nth_append Let_def)
  also have "\<dots> = lit_loop ev ?s q (length pre + length (render q (Lit (c # t)))) (result @ c # t) st"
    using Cons.IH [of "pre @ double q c" "result @ [c]"] Cons.prems by (simp add: add.assoc)
  finally show ?case .
qed simp

lemma lit_loop_parts:
  "q \<noteq> CHR ''#'' \<Longrightarrow> list_all (part_ok q) ps \<Longrightarrow>
   lit_loop ev (pre @ concat (map (render q) ps)) q (length pre) result st =
     ebind (eval_parts ev ps st) (\<lambda>(t, st1). Inr (result @ t, st1))"
proof (induction ps arbitrary: pre result st)
  case Nil
  then show ?case by (subst lit_loop.simps) simp
next
  case (Cons p ps)
  let ?s = "pre @ concat (map (render q) (p # ps))"
  show ?case
  proof (cases p)
    case (Lit t)
    have "lit_loop ev ?s q (length pre) result st = lit_loop ev ?s q (length pre + length (render q p)) (result @ t) st"
      using lit_loop_lit [OF Cons.prems(1), of ev pre t "concat (map (render q) ps)"] Lit by simp
    also have "\<dots> = ebind (eval_parts ev ps st) (\<lambda>(ts, st1). Inr ((result @ t) @ ts, st1))"
      using Cons.IH [of "pre @ render q p" "result @ t"] Cons.prems by simp
    also have "\<dots> = ebind (eval_parts ev (p # ps) st) (\<lambda>(t, st1). Inr (result @ t, st1))"
      by (cases "eval_parts ev ps st") (auto simp: Lit)
    finally show ?thesis .
  next
    case (Hole x)
    let ?post = "concat (map (render q) ps)"
    define S where "S = pre @ (CHR ''#'' # x @ ''#'') @ ?post"
    have s: "?s = S" by (simp add: Hole S_def)
    from Cons.prems Hole have ok: "part_ok q (Hole x)" and x: "x \<noteq> []" "hd x \<noteq> CHR ''#''" by auto
    from hole_end [OF ok, of pre ?post] have e: "findSharpExprEnd S (length pre) = int (length pre + length x) + 1"
      unfolding S_def .
    have m: "str_mid S (length pre + 1) (int (length x)) = x"
      using mid_app [of "pre @ ''#''" x "''#'' @ ?post"] unfolding S_def by simp
    have c: "S ! length pre = CHR ''#''" "S ! (length pre + 1) = hd x" "\<not> length S \<le> length pre"
      using x unfolding S_def by (simp_all add: nth_append hd_conv_nth)
    have n: "nat (int (length pre + length x) + 1) + 1 = length pre + length x + 2" by simp
    have d: "int (length pre + length x) + 1 - int (length pre) - 1 = int (length x)" by simp
    have ne: "int (length pre + length x) + 1 \<noteq> -1" by simp
    have "lit_loop ev S q (length pre) result st = (case ev (trimmed x) st of Inl err \<Rightarrow> Inl err
        | Inr (t, st1) \<Rightarrow> lit_loop ev S q (length pre + length x + 2) (result @ t) st1)"
      using c x Cons.prems(1) m by (subst lit_loop.simps) (simp only: Let_def e n d ne, simp)
    also have "\<dots> = ebind (eval_parts ev (p # ps) st) (\<lambda>(t, st1). Inr (result @ t, st1))"
    proof (cases "ev (trimmed x) st")
      case (Inr y)
      then obtain t st1 where y: "ev (trimmed x) st = Inr (t, st1)" by (cases y) auto
      have "lit_loop ev S q (length pre + length x + 2) (result @ t) st1 =
          ebind (eval_parts ev ps st1) (\<lambda>(ts, st2). Inr ((result @ t) @ ts, st2))"
        using Cons.IH [of "pre @ CHR ''#'' # x @ ''#''" "result @ t" st1] Cons.prems by (simp add: Hole S_def)
      then show ?thesis by (cases "eval_parts ev ps st1") (auto simp: Hole y)
    qed (simp add: Hole)
    finally show ?thesis unfolding s .
  qed
qed

lemma string_loop_step: "c \<noteq> q \<Longrightarrow> ys \<noteq> [] \<Longrightarrow> string_loop q i (c # ys) = string_loop q (i + 1) ys"
  by (cases ys) auto

lemma string_loop_double:
  "q \<noteq> CHR ''#'' \<Longrightarrow> ys \<noteq> [] \<Longrightarrow>
   string_loop q i (concat (map (double q) t) @ ys) = string_loop q (i + length (concat (map (double q) t))) ys"
proof (induction t arbitrary: i)
  case (Cons c t)
  let ?r = "concat (map (double q) t) @ ys"
  consider "c = q" "double q c = [q, q]" | "c \<noteq> q" "double q c = [c, c]" | "c \<noteq> q" "double q c = [c]"
    by (cases "c = q"; cases "c = CHR ''#''") (auto simp: double_def)
  then show ?case
  proof cases
    case 1
    then show ?thesis using Cons by simp
  next
    case 2
    have "string_loop q i (c # c # ?r) = string_loop q (i + 2) ?r"
      using string_loop_step [of c q "c # ?r" i] string_loop_step [of c q ?r "i + 1"] 2(1) Cons.prems by simp
    then show ?thesis using Cons.IH [of "i + 2"] Cons.prems 2 by simp
  next
    case 3
    then show ?thesis using string_loop_step [of c q ?r i] Cons.IH [of "i + 1"] Cons.prems by simp
  qed
qed simp

lemma string_loop_free: "q \<notin> set x \<Longrightarrow> ys \<noteq> [] \<Longrightarrow> string_loop q i (x @ ys) = string_loop q (i + length x) ys"
proof (induction x arbitrary: i)
  case (Cons c x)
  then have "c \<noteq> q" "q \<notin> set x" by auto
  with Cons.prems show ?case using string_loop_step [of c q "x @ ys" i] Cons.IH [of "i + 1"] by simp
qed simp

fun part_plain :: "char \<Rightarrow> part \<Rightarrow> bool" where
  "part_plain q (Lit t) = True"
| "part_plain q (Hole x) = (q \<notin> set x)"

lemma string_loop_parts:
  "q \<noteq> CHR ''#'' \<Longrightarrow> list_all (part_plain q) ps \<Longrightarrow> post = [] \<or> hd post \<noteq> q \<Longrightarrow>
   string_loop q i (concat (map (render q) ps) @ q # post) = i + length (concat (map (render q) ps)) + 1"
proof (induction ps arbitrary: i)
  case Nil
  then show ?case using string_loop_plain [of q "[]" post i] by simp
next
  case (Cons p ps)
  let ?r = "concat (map (render q) ps) @ q # post"
  have "string_loop q i (render q p @ ?r) = string_loop q (i + length (render q p)) ?r"
  proof (cases p)
    case (Lit t)
    then show ?thesis using string_loop_double [OF Cons.prems(1), of ?r i t] by simp
  next
    case (Hole x)
    then show ?thesis using string_loop_free [of q "CHR ''#'' # x @ ''#''" ?r i] Cons.prems by auto
  qed
  then show ?case using Cons.IH [of "i + length (render q p)"] Cons.prems by simp
qed

text \<open>String templates. A literal made of text, in which quotes and hashes are doubled, and of
  \<open>#...#\<close> holes evaluates to the text with every hole replaced by the text of its value, the holes
  evaluated from left to right and the first error passed on; a literal without holes is the text
  itself. Where no hole contains the quote, the scanners of the expression parser step over exactly
  the literal.\<close>

theorem string_template_roundtrip:
  assumes "quote_char q" "list_all (part_ok q) ps"
  shows "evaluateStringLiteral ev (q # concat (map (render q) ps) @ [q]) q st = eval_parts ev ps st \<and>
    evaluateStringLiteral ev (q # render q (Lit t) @ [q]) q st = Inr (t, st) \<and>
    (list_all (part_plain q) ps \<and> (post = [] \<or> hd post \<noteq> q) \<longrightarrow>
      skipPrimary (q # concat (map (render q) ps) @ q # post) 0 = Some (Inr (length (concat (map (render q) ps)) + 2)))"
proof (intro conjI impI)
  have q: "q \<noteq> CHR ''#''" "\<not> opens q" using assms(1) by (auto simp: quote_char_def opens_def)
  have mid: "str_mid (q # b @ [q]) 1 (int (length (q # b @ [q])) - 2) = b" for b
    using mid_app [of "[q]" b "[q]"] by simp
  have lit: "evaluateStringLiteral ev (q # concat (map (render q) ps) @ [q]) q st = eval_parts ev ps st"
    if "list_all (part_ok q) ps" for ps
    using lit_loop_parts [OF q(1) that, of ev "[]" "[]" st]
    unfolding evaluateStringLiteral_def mid by (cases "eval_parts ev ps st") auto
  show "evaluateStringLiteral ev (q # concat (map (render q) ps) @ [q]) q st = eval_parts ev ps st"
    by (rule lit [OF assms(2)])
  show "evaluateStringLiteral ev (q # render q (Lit t) @ [q]) q st = Inr (t, st)"
    using lit [of "[Lit t]"] by simp
  assume "list_all (part_plain q) ps \<and> (post = [] \<or> hd post \<noteq> q)"
  then have "list_all (part_plain q) ps" "post = [] \<or> hd post \<noteq> q" by blast+
  from string_loop_parts [OF q(1) this, of 1]
  show "skipPrimary (q # concat (map (render q) ps) @ q # post) 0 = Some (Inr (length (concat (map (render q) ps)) + 2))"
    using assms(1) q(2) by (simp add: skipPrimary_def Let_def done_with_def)
qed

theorem string_template_roundtrip_witness:
  "evaluateStringLiteral (\<lambda>x log. Inr (x, log @ [x])) ''\"say \"\"#a & f(1)#\"\" ##\"'' CHR 0x22 [] =
     Inr (''say \"a & f(1)\" #'', [''a & f(1)''])"
proof -
  let ?ps = "[Lit ''say \"'', Hole ''a & f(1)'', Lit ''\" #'']"
  have "quote_char CHR 0x22" "list_all (part_ok CHR 0x22) ?ps"
    "CHR 0x22 # concat (map (render CHR 0x22) ?ps) @ [CHR 0x22] = ''\"say \"\"#a & f(1)#\"\" ##\"''"
    "trimmed ''a & f(1)'' = ''a & f(1)''" by code_simp+
  then show ?thesis
    using string_template_roundtrip [of "CHR 0x22" ?ps "\<lambda>x log. Inr (x, log @ [x])" "[]"] by simp
qed

end
