(* ===== verification/Doubles.thy ===== *)
theory Doubles
  imports Complex_Main StringOps
begin

text \<open>
  IEEE 754 doubles as rationals rounded to 53 bits, and the C library functions the code reads and prints them with:
  \<open>strtod\<close>, \<open>strtoll\<close>, \<open>%.12g\<close>. The two zeros are identified.
\<close>

section \<open>Rounding\<close>

function digit_len :: "int \<Rightarrow> int \<Rightarrow> nat" where
  "digit_len b n = (if n < b \<or> b < 2 then 1 else Suc (digit_len b (n div b)))"
  by auto

termination by (relation "measure (\<lambda>(b, n). nat n)") (auto simp: int_div_less_self)

declare digit_len.simps [simp del]

definition scale :: "int \<Rightarrow> rat \<Rightarrow> int \<Rightarrow> rat" where
  "scale b x e = (if 0 \<le> e then x * of_int (b ^ nat e) else x / of_int (b ^ nat (- e)))"

text \<open>The exponent of a number other than 0 in a base.\<close>

definition mag :: "int \<Rightarrow> rat \<Rightarrow> int" where
  "mag b x = (let (p, q) = quotient_of \<bar>x\<bar>; e = int (digit_len b p) - int (digit_len b q)
     in if scale b 1 e \<le> \<bar>x\<bar> then e else e - 1)"

definition round_even :: "rat \<Rightarrow> int" where
  "round_even x = (let f = \<lfloor>x\<rfloor>; d = x - of_int f in if d < 1 / 2 \<or> d = 1 / 2 \<and> even f then f else f + 1)"

datatype dbl = NaN | Inf (negative: bool) | Fin rat

definition fl :: "rat \<Rightarrow> dbl" where
  "fl x = (if x = 0 then Fin 0 else let e = max (mag 2 x - 52) (- 1074); y = scale 2 (of_int (round_even (scale 2 x (- e)))) e
     in if y \<noteq> 0 \<and> 1024 \<le> mag 2 y then Inf (x < 0) else Fin y)"

lemma scale_powi: "b \<noteq> 0 \<Longrightarrow> scale b x e = x * of_int b powi e"
  by (simp add: scale_def power_int_def divide_inverse power_inverse)

lemma digit_len_bounds: "2 \<le> b \<Longrightarrow> 0 < n \<Longrightarrow> b ^ (digit_len b n - 1) \<le> n \<and> n < b ^ digit_len b n \<and> 0 < digit_len b n"
proof (induction b n rule: digit_len.induct)
  case (1 b n)
  show ?case
  proof (cases "n < b")
    case False
    with 1 have ih: "b ^ (digit_len b (n div b) - 1) \<le> n div b" "n div b < b ^ digit_len b (n div b)" "0 < digit_len b (n div b)"
      by (simp_all add: pos_imp_zdiv_pos_iff)
    have d: "n div b * b \<le> n" "n < (n div b + 1) * b"
    proof -
      have "0 \<le> n mod b" "n mod b < b" using 1(2) by simp_all
      moreover have "n = n div b * b + n mod b" by simp
      ultimately show "n div b * b \<le> n" "n < (n div b + 1) * b" by (linarith, subst distrib_right, linarith)
    qed
    have "b ^ (digit_len b (n div b) - 1) * b \<le> n div b * b" using ih(1) 1(2) by (simp add: mult_right_mono)
    moreover have "(n div b + 1) * b \<le> b ^ digit_len b (n div b) * b" using ih(2) 1(2) by (intro mult_right_mono) simp_all
    ultimately have "b ^ (digit_len b (n div b) - 1) * b \<le> n" "n < b ^ digit_len b (n div b) * b" using d by linarith+
    then show ?thesis using False 1(2) ih(3)
      by (simp add: digit_len.simps [of b n] power_eq_if [of b "digit_len b (n div b)"] mult.commute)
  qed (use 1 in \<open>simp add: digit_len.simps [of b n]\<close>)
qed

lemma mag_powi:
  assumes "2 \<le> b" "x \<noteq> 0"
  shows "of_int b powi mag b x \<le> \<bar>x\<bar> \<and> \<bar>x\<bar> < of_int b powi (mag b x + 1)"
proof -
  obtain p q where pq: "quotient_of \<bar>x\<bar> = (p, q)" by fastforce
  then have x: "\<bar>x\<bar> = of_int p / of_int q" and q: "0 < q" by (auto simp: quotient_of_div quotient_of_denom_pos)
  have "0 < \<bar>x\<bar>" using assms(2) by simp
  then have p: "0 < p" unfolding x using q by (simp add: zero_less_divide_iff)
  let ?lp = "digit_len b p" and ?lq = "digit_len b q" and ?b = "of_int b :: rat"
  have B: "1 < ?b" using assms(1) by simp
  have l: "b ^ (?lp - 1) \<le> p" "p < b ^ ?lp" "b ^ (?lq - 1) \<le> q" "q < b ^ ?lq" "0 < ?lp" "0 < ?lq"
    using digit_len_bounds [OF assms(1) p] digit_len_bounds [OF assms(1) q] by simp_all
  have P: "?b ^ (?lp - 1) \<le> of_int p" "of_int p < ?b ^ ?lp" "?b ^ (?lq - 1) \<le> of_int q" "of_int q < ?b ^ ?lq"
    using l(1-4) by (simp_all only: of_int_le_iff of_int_less_iff flip: of_int_power)
  have "?b powi (int ?lp - int ?lq - 1) * of_int q < of_int p"
  proof -
    have "?b powi (int ?lp - int ?lq - 1) * of_int q < ?b powi (int ?lp - int ?lq - 1) * ?b ^ ?lq" using P(4) B by simp
    also have "\<dots> = ?b powi (int ?lp - 1)" using B by (simp add: power_int_add [symmetric] flip: power_int_of_nat)
    also have "\<dots> = ?b ^ (?lp - 1)" using l(5) by (simp add: power_int_def nat_diff_distrib)
    finally show ?thesis using P(1) by linarith
  qed
  moreover have "of_int p < ?b powi (int ?lp - int ?lq + 1) * of_int q"
  proof -
    have "?b ^ ?lp = ?b powi (int ?lp - int ?lq + 1) * ?b powi (int ?lq - 1)" using B by (simp add: power_int_add [symmetric])
    also have "?b powi (int ?lq - 1) = ?b ^ (?lq - 1)" using l(6) by (simp add: power_int_def nat_diff_distrib)
    also have "?b powi (int ?lp - int ?lq + 1) * ?b ^ (?lq - 1) \<le> ?b powi (int ?lp - int ?lq + 1) * of_int q" using P(3) B by simp
    finally show ?thesis using P(2) by linarith
  qed
  ultimately have "?b powi (int ?lp - int ?lq - 1) \<le> \<bar>x\<bar>" "\<bar>x\<bar> < ?b powi (int ?lp - int ?lq + 1)"
    using q by (simp_all add: x pos_le_divide_eq pos_divide_less_eq)
  then show ?thesis using assms(1) by (simp add: mag_def pq Let_def scale_powi)
qed

lemmas mag = mag_powi [of 2, simplified]

lemma mag_less: "x \<noteq> 0 \<Longrightarrow> \<bar>x\<bar> < 2 powi k \<Longrightarrow> mag 2 x < k"
proof (rule ccontr)
  assume a: "x \<noteq> 0" "\<bar>x\<bar> < 2 powi k" "\<not> mag 2 x < k"
  then have "(2::rat) powi k \<le> 2 powi mag 2 x" by (intro power_int_increasing) simp_all
  with a mag [of x] show False by simp
qed

lemma mag_ge: "x \<noteq> 0 \<Longrightarrow> 2 powi k \<le> \<bar>x\<bar> \<Longrightarrow> k \<le> mag 2 x"
proof (rule ccontr)
  assume a: "x \<noteq> 0" "2 powi k \<le> \<bar>x\<bar>" "\<not> k \<le> mag 2 x"
  then have "(2::rat) powi (mag 2 x + 1) \<le> 2 powi k" by (intro power_int_increasing) simp_all
  with a mag [of x] show False by simp
qed

lemma round_even_int [simp]: "round_even (of_int n) = n"
  by (simp add: round_even_def)

lemma round_even_near: "\<bar>of_int (round_even x) - x\<bar> \<le> 1 / 2"
  using floor_correct [of x] by (auto simp: round_even_def Let_def abs_le_iff)

text \<open>Numbers of 53 bits are exact; others are off by at most one part in \<open>2 ^ 53\<close>.\<close>

lemma fl_eq: "fl x = (if x = 0 then Fin 0 else let e = max (mag 2 x - 52) (- 1074); y = of_int (round_even (x / 2 powi e)) * 2 powi e
     in if 2 ^ 1024 \<le> \<bar>y\<bar> then Inf (x < 0) else Fin y)"
proof -
  have "y \<noteq> 0 \<and> 1024 \<le> mag 2 y \<longleftrightarrow> 2 ^ 1024 \<le> \<bar>y\<bar>" for y :: rat
  proof (cases "y = 0")
    case False
    have "2 ^ 1024 \<le> \<bar>y\<bar> \<longleftrightarrow> (2::rat) powi 1024 \<le> \<bar>y\<bar>" by (simp only: power_int_numeral)
    with False mag_ge [of y 1024] mag_less [of y 1024] show ?thesis by force
  qed simp
  then show ?thesis by (simp only: fl_def Let_def scale_powi power_int_minus divide_inverse of_int_numeral zero_neq_numeral simp_thms)
qed

lemma fl_exact:
  assumes "\<bar>m\<bar> < 2 ^ 53" "- 1074 \<le> k" "\<bar>of_int m * 2 powi k\<bar> < (2 ^ 1024 :: rat)"
  shows "fl (of_int m * 2 powi k) = Fin (of_int m * 2 powi k)"
proof (cases "m = 0")
  case True
  then show ?thesis by (simp add: fl_eq)
next
  case False
  let ?x = "of_int m * 2 powi k :: rat" and ?e = "max (mag 2 (of_int m * 2 powi k) - 52) (- 1074)"
  have n: "?x \<noteq> 0" using False by simp
  have "\<bar>?x\<bar> = of_int \<bar>m\<bar> * 2 powi k" by (simp add: abs_mult)
  also have "\<dots> < 2 ^ 53 * 2 powi k"
  proof (intro mult_strict_right_mono)
    show "of_int \<bar>m\<bar> < (2 ^ 53 :: rat)" using assms(1) by (metis of_int_less_iff of_int_numeral of_int_power)
  qed simp
  also have "\<dots> = 2 powi (53 + k)" by (simp add: power_int_add)
  finally have "mag 2 ?x < 53 + k" using n by (intro mag_less)
  then have e: "?e \<le> k" using assms(2) by simp
  have "?x / 2 powi ?e = of_int m * 2 powi (k - ?e)" by (simp add: power_int_diff)
  also have "\<dots> = of_int (m * 2 ^ nat (k - ?e))" using e by (simp add: power_int_def)
  finally have "round_even (?x / 2 powi ?e) = m * 2 ^ nat (k - ?e)" by (simp only: round_even_int)
  moreover have "of_int (m * 2 ^ nat (k - ?e)) * 2 powi ?e = ?x"
  proof -
    have "of_int (m * 2 ^ nat (k - ?e)) * 2 powi ?e = of_int m * (2 powi (k - ?e) * 2 powi ?e :: rat)" using e by (simp add: power_int_def)
    also have "2 powi (k - ?e) * 2 powi ?e = (2 powi k :: rat)" by (simp add: power_int_add [symmetric])
    finally show ?thesis .
  qed
  ultimately have "of_int (round_even (?x / 2 powi ?e)) * 2 powi ?e = ?x" by (simp only:)
  then show ?thesis using assms(3) n by (simp only: fl_eq Let_def if_False not_le [symmetric] simp_thms)
qed

lemma fl_int: "\<bar>n\<bar> \<le> 2 ^ 53 \<Longrightarrow> fl (of_int n) = Fin (of_int n)"
proof -
  assume n: "\<bar>n\<bar> \<le> 2 ^ 53"
  show ?thesis
  proof (cases "\<bar>n\<bar> < 2 ^ 53")
    case True
    then have "\<bar>of_int n :: rat\<bar> < 2 ^ 53" by (metis of_int_abs of_int_less_iff of_int_numeral of_int_power)
    then have "\<bar>of_int n :: rat\<bar> < 2 ^ 1024" by (rule order_less_le_trans) simp
    with True fl_exact [of n 0] show ?thesis by simp
  next
    case False
    with n have "n = 2 ^ 53 \<or> n = - (2 ^ 53)" by linarith
    then show ?thesis using fl_exact [of 1 53] fl_exact [of "- 1" 53] by auto
  qed
qed

lemma fl_near:
  assumes "2 powi (- 1022) \<le> \<bar>x\<bar>" "\<bar>x\<bar> < 2 ^ 1023"
  shows "\<exists>y. fl x = Fin y \<and> \<bar>y - x\<bar> \<le> \<bar>x\<bar> / 2 ^ 53"
proof -
  have n: "x \<noteq> 0" using assms(1) by (auto simp: power_int_minus)
  have m: "- 1022 \<le> mag 2 x" using n assms(1) by (rule mag_ge)
  let ?e = "mag 2 x - 52" and ?r = "of_int (round_even (x / 2 powi (mag 2 x - 52))) :: rat"
  have e: "max ?e (- 1074) = ?e" using m by simp
  have "?r * 2 powi ?e - x = (?r - x / 2 powi ?e) * 2 powi ?e" by (simp add: left_diff_distrib)
  then have "\<bar>?r * 2 powi ?e - x\<bar> = \<bar>?r - x / 2 powi ?e\<bar> * 2 powi ?e" by (simp add: abs_mult)
  also have "\<dots> \<le> 1 / 2 * 2 powi ?e" by (intro mult_right_mono round_even_near) simp
  also have "\<dots> = 2 powi mag 2 x / 2 ^ 53" by (simp add: power_int_diff)
  also have "\<dots> \<le> \<bar>x\<bar> / 2 ^ 53" using mag [of x] n by (simp add: divide_right_mono)
  finally have d: "\<bar>?r * 2 powi ?e - x\<bar> \<le> \<bar>x\<bar> / 2 ^ 53" .
  then have "\<bar>?r * 2 powi ?e\<bar> \<le> \<bar>x\<bar> + \<bar>x\<bar> / 2 ^ 53" by linarith
  also have "\<dots> \<le> 2 * \<bar>x\<bar>" by simp
  also have "\<dots> < 2 ^ 1024" using assms(2) by simp
  finally have "\<not> 2 ^ 1024 \<le> \<bar>?r * 2 powi ?e\<bar>" by simp
  then have "fl x = Fin (?r * 2 powi ?e)" using n by (simp only: fl_eq e Let_def if_False)
  with d show ?thesis by blast
qed

section \<open>Arithmetic\<close>

fun dneg :: "dbl \<Rightarrow> dbl" where
  "dneg NaN = NaN"
| "dneg (Inf s) = Inf (\<not> s)"
| "dneg (Fin x) = Fin (- x)"

fun dadd :: "dbl \<Rightarrow> dbl \<Rightarrow> dbl" where
  "dadd (Fin x) (Fin y) = fl (x + y)"
| "dadd (Inf s) (Inf t) = (if s = t then Inf s else NaN)"
| "dadd (Inf s) (Fin y) = Inf s"
| "dadd (Fin x) (Inf t) = Inf t"
| "dadd d e = NaN"

definition dsub :: "dbl \<Rightarrow> dbl \<Rightarrow> dbl" where "dsub d e = dadd d (dneg e)"

fun dmul :: "dbl \<Rightarrow> dbl \<Rightarrow> dbl" where
  "dmul (Fin x) (Fin y) = fl (x * y)"
| "dmul (Inf s) (Inf t) = Inf (s \<noteq> t)"
| "dmul (Inf s) (Fin y) = (if y = 0 then NaN else Inf (s \<noteq> (y < 0)))"
| "dmul (Fin x) (Inf t) = (if x = 0 then NaN else Inf ((x < 0) \<noteq> t))"
| "dmul d e = NaN"

fun ddiv :: "dbl \<Rightarrow> dbl \<Rightarrow> dbl" where
  "ddiv (Fin x) (Fin y) = (if y = 0 then (if x = 0 then NaN else Inf (x < 0)) else fl (x / y))"
| "ddiv (Inf s) (Fin y) = Inf (s \<noteq> (y < 0))"
| "ddiv (Fin x) (Inf t) = Fin 0"
| "ddiv d e = NaN"

fun deq :: "dbl \<Rightarrow> dbl \<Rightarrow> bool" where
  "deq NaN e = False"
| "deq d NaN = False"
| "deq d e = (d = e)"

fun dless :: "dbl \<Rightarrow> dbl \<Rightarrow> bool" where
  "dless (Fin x) (Fin y) = (x < y)"
| "dless (Inf s) (Inf t) = (s \<and> \<not> t)"
| "dless (Inf s) (Fin y) = s"
| "dless (Fin x) (Inf t) = (\<not> t)"
| "dless d e = False"

definition trunc :: "rat \<Rightarrow> int" where
  "trunc x = (if x < 0 then - \<lfloor>- x\<rfloor> else \<lfloor>x\<rfloor>)"

text \<open>The conversion of a double to an integer type is undefined outside its range.\<close>

definition to_range :: "int \<Rightarrow> int \<Rightarrow> dbl \<Rightarrow> int res" where
  "to_range lo hi d = (case d of Fin x \<Rightarrow> if lo \<le> trunc x \<and> trunc x \<le> hi then Inr (trunc x) else Inl UB | _ \<Rightarrow> Inl UB)"

definition int_min :: int where "int_min = - (2 ^ 31)"

definition int_max :: int where "int_max = 2 ^ 31 - 1"

definition llong_min :: int where "llong_min = - (2 ^ 63)"

definition llong_max :: int where "llong_max = 2 ^ 63 - 1"

abbreviation to_int32 :: "dbl \<Rightarrow> int res" where "to_int32 \<equiv> to_range int_min int_max"

abbreviation to_int64 :: "dbl \<Rightarrow> int res" where "to_int64 \<equiv> to_range llong_min llong_max"

text \<open>A \<open>long\<close> cast to \<open>int\<close> keeps the low 32 bits.\<close>

definition low32 :: "int \<Rightarrow> int" where
  "low32 n = (n + 2 ^ 31) mod 2 ^ 32 - 2 ^ 31"

lemma low32_id: "int_min \<le> n \<Longrightarrow> n \<le> int_max \<Longrightarrow> low32 n = n"
  by (simp add: low32_def int_min_def int_max_def)

lemma deq_refl: "deq d d \<longleftrightarrow> d \<noteq> NaN"
  by (cases d) auto

lemma deq_iff: "deq d e \<longleftrightarrow> d \<noteq> NaN \<and> d = e"
  by (cases d; cases e) auto

lemma dless_antisym: "dless d e \<Longrightarrow> \<not> dless e d \<and> d \<noteq> e"
  by (cases d; cases e) auto

lemma dless_linear: "d \<noteq> NaN \<Longrightarrow> e \<noteq> NaN \<Longrightarrow> dless d e \<or> d = e \<or> dless e d"
  by (cases d; cases e) auto

lemma dless_trans: "dless d e \<Longrightarrow> dless e f \<Longrightarrow> dless d f"
  by (cases d; cases e; cases f) auto

lemma trunc_int [simp]: "trunc (of_int n) = n"
  by (simp add: trunc_def)

section \<open>Reading numbers\<close>

definition num_of :: "int \<Rightarrow> (char \<Rightarrow> int) \<Rightarrow> bytes \<Rightarrow> int" where
  "num_of b val ds = foldl (\<lambda>n c. n * b + val c) 0 ds"

definition dec_val :: "char \<Rightarrow> int" where "dec_val c = of_char c - 48"

definition xdigit :: "char \<Rightarrow> bool" where
  "xdigit c \<longleftrightarrow> is_digit c \<or> CHR ''a'' \<le> to_lower c \<and> to_lower c \<le> CHR ''f''"

definition xval :: "char \<Rightarrow> int" where
  "xval c = (if is_digit c then dec_val c else of_char (to_lower c) - 87)"

definition take_sign :: "bytes \<Rightarrow> bool \<times> bytes" where
  "take_sign s = (case s of c # r \<Rightarrow> if c = CHR ''-'' then (True, r) else if c = CHR ''+'' then (False, r) else (False, s) | [] \<Rightarrow> (False, s))"

text \<open>The exponent, taken only with a digit.\<close>

definition take_exponent :: "char \<Rightarrow> bytes \<Rightarrow> int \<times> bytes" where
  "take_exponent mark r = (case r of [] \<Rightarrow> (0, r) | c # q \<Rightarrow> if to_lower c \<noteq> mark then (0, r) else
     let (neg, u) = take_sign q; ds = takeWhile is_digit u; n = num_of 10 dec_val ds
     in if ds = [] then (0, r) else (if neg then - n else n, dropWhile is_digit u))"

definition take_fraction :: "(char \<Rightarrow> bool) \<Rightarrow> bytes \<Rightarrow> bytes \<times> bytes \<times> bytes" where
  "take_fraction P u = (let a = takeWhile P u; r = dropWhile P u in
     case r of [] \<Rightarrow> (a, [], []) | c # q \<Rightarrow> if c = CHR ''.'' \<and> (a \<noteq> [] \<or> takeWhile P q \<noteq> []) then (a, takeWhile P q, dropWhile P q) else (a, [], r))"

definition read_decimal :: "bytes \<Rightarrow> (dbl \<times> bytes) option" where
  "read_decimal u = (let (a, b, r) = take_fraction is_digit u in if a @ b = [] then None else
     let (e, r') = take_exponent (CHR ''e'') r
     in Some (fl (scale 10 (of_int (num_of 10 dec_val (a @ b))) (e - int (length b))), r'))"

definition read_hex :: "bytes \<Rightarrow> (dbl \<times> bytes) option" where
  "read_hex u = (let (a, b, r) = take_fraction xdigit u in if a @ b = [] then None else
     let (e, r') = take_exponent (CHR ''p'') r
     in Some (fl (scale 2 (of_int (num_of 16 xval (a @ b))) (e - 4 * int (length b))), r'))"

definition nan_tail :: "bytes \<Rightarrow> bytes" where
  "nan_tail r = (case r of c # q \<Rightarrow> if c = CHR ''('' then (case dropWhile (\<lambda>c. is_alnum c \<or> c = CHR ''_'') q of
       d # t \<Rightarrow> if d = CHR '')'' then t else r | [] \<Rightarrow> r) else r | [] \<Rightarrow> r)"

definition read_number :: "bytes \<Rightarrow> (dbl \<times> bytes) option" where
  "read_number u = (let l = map to_lower u in
     if take 8 l = ''infinity'' then Some (Inf False, drop 8 u)
     else if take 3 l = ''inf'' then Some (Inf False, drop 3 u)
     else if take 3 l = ''nan'' then Some (NaN, nan_tail (drop 3 u))
     else if take 2 l = ''0x'' \<and> read_hex (drop 2 u) \<noteq> None then read_hex (drop 2 u)
     else read_decimal u)"

text \<open>The value and the text after the number; the whole text when there is no number.\<close>

definition strtod :: "bytes \<Rightarrow> dbl \<times> bytes" where
  "strtod s = (let (neg, u) = take_sign (dropWhile is_space s) in case read_number u of
     None \<Rightarrow> (Fin 0, s) | Some (d, r) \<Rightarrow> (if neg then dneg d else d, r))"

definition read_int :: "bytes \<Rightarrow> int \<times> bytes" where
  "read_int s = (let (neg, u) = take_sign (dropWhile is_space s); ds = takeWhile is_digit u; n = num_of 10 dec_val ds
     in if ds = [] then (0, s) else (if neg then - n else n, dropWhile is_digit u))"

definition clamp64 :: "int \<Rightarrow> int" where
  "clamp64 n = max llong_min (min llong_max n)"

definition strtoll :: "bytes \<Rightarrow> int \<times> bytes" where
  "strtoll s = (let (n, r) = read_int s in (clamp64 n, r))"

definition atoi :: "bytes \<Rightarrow> int" where
  "atoi s = low32 (fst (strtoll s))"

section \<open>Printing\<close>

definition strip_zeros :: "bytes \<Rightarrow> bytes" where
  "strip_zeros ds = rev (dropWhile (\<lambda>c. c = CHR ''0'') (rev ds))"

definition with_fraction :: "bytes \<Rightarrow> bytes \<Rightarrow> bytes" where
  "with_fraction ip fd = (if strip_zeros fd = [] then ip else ip @ CHR ''.'' # strip_zeros fd)"

fun dec_digits :: "nat \<Rightarrow> int \<Rightarrow> bytes" where
  "dec_digits 0 n = []"
| "dec_digits (Suc k) n = dec_digits k (n div 10) @ [digits ! nat (n mod 10)]"

text \<open>The twelve digits of \<open>%.12g\<close> and their exponent.\<close>

definition digits12 :: "rat \<Rightarrow> bytes \<times> int" where
  "digits12 x = (let e = mag 10 x; m = round_even (scale 10 \<bar>x\<bar> (11 - e))
     in if m = 10 ^ 12 then (dec_digits 12 (10 ^ 11), e + 1) else (dec_digits 12 m, e))"

definition pad3 :: "int \<Rightarrow> bytes" where
  "pad3 e = (let ds = number \<bar>e\<bar> 10 in (if e < 0 then CHR ''-'' else CHR ''+'') # replicate (3 - length ds) (CHR ''0'') @ ds)"

definition formatFloatString :: "dbl \<Rightarrow> bytes" where
  "formatFloatString d = (case d of Inf s \<Rightarrow> (if s then ''-1.#INF'' else ''1.#INF'')
     | NaN \<Rightarrow> [CHR 0xEF, CHR 0xBF, CHR 0xBD]
     | Fin x \<Rightarrow> if x = 0 then ''0'' else let (ds, e) = digits12 x in
         (if x < 0 then ''-'' else []) @
         (if - 4 \<le> e \<and> e < 12
          then (if 0 \<le> e then with_fraction (take (nat e + 1) ds) (drop (nat e + 1) ds)
                else with_fraction ''0'' (replicate (nat (- e - 1)) (CHR ''0'') @ ds))
          else with_fraction (take 1 ds) (drop 1 ds) @ ''E'' @ pad3 e))"

lemma format_examples: "formatFloatString (Fin (5 / 2)) = ''2.5''" "formatFloatString (Fin (2 ^ 53)) = ''9.00719925474E+015''"
    "formatFloatString (Fin (1 / 8192)) = ''0.0001220703125''" "formatFloatString (Fin 2147483648) = ''2147483648''"
  by code_simp+

lemma strtod_examples: "strtod '' -12.5e1x'' = (Fin (- 125), ''x'')" "strtod ''0x1A.8'' = (Fin (53 / 2), [])" "strtod ''.e1'' = (Fin 0, ''.e1'')"
    "strtod ''-inf'' = (Inf True, [])" "strtod ''1e'' = (Fin 1, ''e'')"
  by code_simp+

end
