(* ===== verification/Dates.thy ===== *)
theory Dates
  imports Doubles "HOL-Library.Signed_Division"
begin

text \<open>
  Date and time values (\<open>src/cffunctions/common.cpp\<close>): a date is a double, the days since 1899-12-30 with the time of
  day as its fraction. \<open>tmToDays\<close> and \<open>daysToTm\<close> convert to and from calendar fields, \<open>normalizeTm\<close> corrects fields
  out of range, and \<open>parseDateTimeStr\<close> reads dates; the text of a date is that of \<open>cfvariant::toString\<close>. The division
  of C truncates. The calendar fields are integers without bound here: their arithmetic does not overflow for years
  below 5 million.
\<close>

section \<open>Calendar fields\<close>

record tm =
  tm_year :: int
  tm_mon :: int
  tm_mday :: int
  tm_hour :: int
  tm_min :: int
  tm_sec :: int
  tm_wday :: int
  tm_yday :: int

definition isLeapYear :: "int \<Rightarrow> bool" where
  "isLeapYear year \<longleftrightarrow> year smod 4 = 0 \<and> year smod 100 \<noteq> 0 \<or> year smod 400 = 0"

definition month_lengths :: "int list" where
  "month_lengths = [31, 28, 31, 30, 31, 30, 31, 31, 30, 31, 30, 31]"

definition getDaysInMonthVal :: "int \<Rightarrow> int \<Rightarrow> int" where
  "getDaysInMonthVal year mon = (if mon = 1 then (if isLeapYear year then 29 else 28)
     else if 0 \<le> mon \<and> mon < 12 then month_lengths ! nat mon else 30)"

text \<open>The Julian day number of a date, and the date of a Julian day number; months from 1.\<close>

definition jdn_of :: "int \<Rightarrow> int \<Rightarrow> int \<Rightarrow> int" where
  "jdn_of year month day = (let a = (14 - month) sdiv 12; y = year + 4800 - a; m = month + 12 * a - 3
     in day + (153 * m + 2) sdiv 5 + 365 * y + y sdiv 4 - y sdiv 100 + y sdiv 400 - 32045)"

definition civil_of :: "int \<Rightarrow> int \<times> int \<times> int" where
  "civil_of jdn = (let l = jdn + 68569; n = (4 * l) sdiv 146097; l = l - (146097 * n + 3) sdiv 4;
       i = (4000 * (l + 1)) sdiv 1461001; l = l - (1461 * i) sdiv 4 + 31; j = (80 * l) sdiv 2447;
       mday = l - (2447 * j) sdiv 80; l = j sdiv 11
     in (100 * (n - 49) + i + l, j + 2 - 12 * l, mday))"

definition day_zero :: int where "day_zero = 2415019"

definition tmToDays :: "tm \<Rightarrow> dbl" where
  "tmToDays t = dadd (fl (of_int (jdn_of (tm_year t + 1900) (tm_mon t + 1) (tm_mday t) - day_zero)))
     (ddiv (dadd (Fin (of_int (tm_hour t))) (ddiv (dadd (Fin (of_int (tm_min t))) (ddiv (Fin (of_int (tm_sec t))) (Fin 60))) (Fin 60))) (Fin 24))"

text \<open>The days and the fraction of a day, which is not negative.\<close>

definition split_days :: "dbl \<Rightarrow> (int \<times> dbl) res" where
  "split_days d = (case d of Fin x \<Rightarrow> let f = x - of_int (trunc x) in
       if f < 0 then ebind (to_int64 (fl (of_int (trunc x) - 1))) (\<lambda>n. Inr (n, fl (f + 1)))
       else ebind (to_int64 d) (\<lambda>n. Inr (n, Fin f))
     | _ \<Rightarrow> Inl UB)"

definition clock_of :: "dbl \<Rightarrow> (int \<times> int \<times> int) res" where
  "clock_of f = ebind (to_int32 (dadd (dmul f (Fin 86400)) (Fin (1 / 2)))) (\<lambda>s. Inr (s sdiv 3600, (s smod 3600) sdiv 60, s smod 60))"

definition yday_of :: "int \<Rightarrow> int \<Rightarrow> int \<Rightarrow> int" where
  "yday_of year mon mday = sum_list (map (\<lambda>m. getDaysInMonthVal year (int m)) [0 ..< nat mon]) + mday - 1"

definition daysToTm :: "dbl \<Rightarrow> tm res" where
  "daysToTm days = ebind (split_days days) (\<lambda>(n, f). let (year, month, mday) = civil_of (n + day_zero) in
     ebind (clock_of f) (\<lambda>(hour, minute, sec). Inr \<lparr>tm_year = year - 1900, tm_mon = month - 1, tm_mday = mday, tm_hour = hour,
       tm_min = minute, tm_sec = sec, tm_wday = (6 + n smod 7 + 7) smod 7, tm_yday = yday_of year (month - 1) mday\<rparr>))"

text \<open>The two loops of \<open>normalizeTm\<close> bring the month into range.\<close>

function month_up :: "tm \<Rightarrow> tm" where
  "month_up t = (if tm_mon t < 0 then month_up (t\<lparr>tm_mon := tm_mon t + 12, tm_year := tm_year t - 1\<rparr>) else t)"
  by pat_completeness auto

termination by (relation "measure (\<lambda>t. nat (- tm_mon t))") auto

function month_down :: "tm \<Rightarrow> tm" where
  "month_down t = (if 12 \<le> tm_mon t then month_down (t\<lparr>tm_mon := tm_mon t - 12, tm_year := tm_year t + 1\<rparr>) else t)"
  by pat_completeness auto

termination by (relation "measure (\<lambda>t. nat (tm_mon t))") auto

declare month_up.simps [simp del] month_down.simps [simp del]

definition normalizeTm :: "tm \<Rightarrow> tm res" where
  "normalizeTm t = (let u = month_down (month_up t); maxDays = getDaysInMonthVal (tm_year u + 1900) (tm_mon u)
     in daysToTm (tmToDays (if maxDays < tm_mday u then u\<lparr>tm_mday := maxDays\<rparr> else u)))"

section \<open>Text\<close>

text \<open>\<open>%0kd\<close>.\<close>

definition zpad :: "nat \<Rightarrow> int \<Rightarrow> bytes" where
  "zpad k n = (let ds = number \<bar>n\<bar> 10 in if n < 0 then CHR ''-'' # replicate (k - 1 - length ds) (CHR ''0'') @ ds
     else replicate (k - length ds) (CHR ''0'') @ ds)"

definition apostrophe :: char where "apostrophe = CHR 0x27"

definition date_text :: "int \<Rightarrow> dbl \<Rightarrow> bytes res" where
  "date_text odbcStyle d = ebind (daysToTm d) (\<lambda>t. let year = tm_year t + 1900; mon = tm_mon t + 1; mday = tm_mday t;
       hour = tm_hour t; minute = tm_min t; sec = tm_sec t; h12 = (if hour smod 12 = 0 then 12 else hour smod 12);
       dat = zpad 4 year @ ''-'' @ zpad 2 mon @ ''-'' @ zpad 2 mday;
       clock = zpad 2 hour @ '':'' @ zpad 2 minute @ '':'' @ zpad 2 sec in
     Inr (if odbcStyle = 1 then ''{d '' @ [apostrophe] @ dat @ [apostrophe] @ ''}''
       else if odbcStyle = 2 then ''{t '' @ [apostrophe] @ clock @ [apostrophe] @ ''}''
       else if odbcStyle = 3 then zpad 2 mon @ ''/'' @ zpad 2 mday @ ''/'' @ zpad 4 year @ '' '' @ zpad 2 h12 @ '':'' @ zpad 2 minute
         @ '':'' @ zpad 2 sec @ '' '' @ (if hour < 12 then ''AM'' else ''PM'')
       else ''{ts '' @ [apostrophe] @ dat @ '' '' @ clock @ [apostrophe] @ ''}''))"

section \<open>Scanning\<close>

text \<open>The parts of a \<open>sscanf\<close> format the code uses: a number, a character, at least one blank, any space. The result
  is the numbers read and, when the whole format matched, the text after it.\<close>

datatype scan_part = D | Char char | Blanks | Space0

definition scan_number :: "bytes \<Rightarrow> (int \<times> bytes) option" where
  "scan_number s = (let (n, r) = read_int s in if takeWhile is_digit (snd (take_sign (dropWhile is_space s))) = [] then None
     else Some (low32 (clamp64 n), r))"

definition is_blank4 :: "char \<Rightarrow> bool" where
  "is_blank4 c \<longleftrightarrow> c \<in> {CHR '' '', CHR 0x09, CHR 0x0D, CHR 0x0A}"

fun sscanf :: "scan_part list \<Rightarrow> bytes \<Rightarrow> int list \<times> bytes option" where
  "sscanf [] s = ([], Some s)"
| "sscanf (D # ps) s = (case scan_number s of None \<Rightarrow> ([], None) | Some (n, r) \<Rightarrow> let (ns, e) = sscanf ps r in (n # ns, e))"
| "sscanf (Char c # ps) s = (case s of d # r \<Rightarrow> if d = c then sscanf ps r else ([], None) | [] \<Rightarrow> ([], None))"
| "sscanf (Blanks # ps) s = (if takeWhile is_blank4 s = [] then ([], None) else sscanf ps (dropWhile is_blank4 s))"
| "sscanf (Space0 # ps) s = sscanf ps (dropWhile is_space s)"

text \<open>The outcome of the numeric scans: the three date fields, the time fields, whether seconds and a date were given,
  and the text left.\<close>

record scanned =
  sc_date :: "int \<times> int \<times> int"
  sc_time :: "(int \<times> int \<times> int) option"
  sc_seconds :: bool
  sc_hadDate :: bool
  sc_rest :: bytes

definition date_part :: "char \<Rightarrow> scan_part list" where
  "date_part sep = [D, Char sep, D, Char sep, D]"

text \<open>One separator: with hours, minutes and seconds, with hours and minutes, or the date alone.\<close>

definition scan_date :: "char \<Rightarrow> bytes \<Rightarrow> scanned option" where
  "scan_date sep s = (case sscanf (date_part sep @ [Blanks, D, Char CHR '':'', D, Char CHR '':'', D]) s of
       ([a, b, c, h, m, sec], Some r) \<Rightarrow> Some \<lparr>sc_date = (a, b, c), sc_time = Some (h, m, sec), sc_seconds = True, sc_hadDate = True, sc_rest = r\<rparr>
     | _ \<Rightarrow> (case sscanf (date_part sep @ [Blanks, D, Char CHR '':'', D]) s of
       ([a, b, c, h, m], Some r) \<Rightarrow> Some \<lparr>sc_date = (a, b, c), sc_time = Some (h, m, 0), sc_seconds = False, sc_hadDate = True, sc_rest = r\<rparr>
     | _ \<Rightarrow> (case sscanf (date_part sep) s of
       ([a, b, c], Some r) \<Rightarrow> Some \<lparr>sc_date = (a, b, c), sc_time = None, sc_seconds = False, sc_hadDate = True, sc_rest = r\<rparr>
     | _ \<Rightarrow> None)))"

definition scan_time :: "bytes \<Rightarrow> scanned option" where
  "scan_time s = (case sscanf [D, Char CHR '':'', D, Char CHR '':'', D] s of
       ([h, m, sec], Some r) \<Rightarrow> Some \<lparr>sc_date = (0, 0, 0), sc_time = Some (h, m, sec), sc_seconds = True, sc_hadDate = False, sc_rest = r\<rparr>
     | _ \<Rightarrow> (case sscanf [D, Char CHR '':'', D] s of
       ([h, m], Some r) \<Rightarrow> Some \<lparr>sc_date = (0, 0, 0), sc_time = Some (h, m, 0), sc_seconds = False, sc_hadDate = False, sc_rest = r\<rparr>
     | _ \<Rightarrow> None))"

definition orelse :: "'a option \<Rightarrow> 'a option \<Rightarrow> 'a option" where
  "orelse x y = (case x of None \<Rightarrow> y | Some _ \<Rightarrow> x)"

definition scan_fields :: "bytes \<Rightarrow> scanned option" where
  "scan_fields s = orelse (scan_date (CHR ''-'') s) (orelse (scan_date (CHR ''/'') s) (orelse (scan_time s) (scan_date (CHR ''.'') s)))"

text \<open>The year is the field of four digits; a bare time is on the day 1899-12-30.\<close>

definition year_month_day :: "scanned \<Rightarrow> (int \<times> int \<times> int) option" where
  "year_month_day r = (case sc_date r of (a, b, c) \<Rightarrow>
     if 1000 \<le> a then Some (a, b, c)
     else if 1000 \<le> c then (if 1 \<le> a \<and> a \<le> 12 then Some (c, a, b) else Some (c, b, a))
     else if sc_time r \<noteq> None \<and> (a, b, c) = (0, 0, 0) then Some (1899, 12, 30) else None)"

text \<open>What may follow: blanks, or after a time a zone.\<close>

definition offset_tail :: "bool \<Rightarrow> char \<Rightarrow> bytes \<Rightarrow> bool" where
  "offset_tail hadDate sign q = (let ds = take 4 (takeWhile is_digit q); r = drop (length ds) q; val = num_of 10 dec_val ds;
       hours = (if length ds = 4 then val div 100 else val); mins = (if length ds = 4 then val mod 100 else 0);
       (ok, t) = (if length ds \<notin> {2, 4} \<or> 59 < mins \<or> (if sign = CHR ''+'' then 14 else 12) < hours then (False, r)
         else if r \<noteq> [] \<and> hd r = CHR '':'' then let ms = take 2 (takeWhile is_digit (tl r)) in
           if length ms = 2 \<and> num_of 10 dec_val ms \<le> 59 then (True, drop 2 (tl r)) else (False, r)
         else (dropWhile is_space r = [], r))
     in ok \<and> (hadDate \<or> dropWhile is_space t = []))"

definition zone_tail :: "bool \<Rightarrow> bytes \<Rightarrow> bool" where
  "zone_tail hadDate s = (case s of [] \<Rightarrow> True | c # q \<Rightarrow>
     if c \<in> {CHR ''Z'', CHR ''z''} then dropWhile is_space q = []
     else if c \<in> {CHR ''+'', CHR ''-''} then offset_tail hadDate c q else False)"

definition tail_ok :: "scanned \<Rightarrow> bool" where
  "tail_ok r = (let s = sc_rest r in
     if sc_seconds r \<and> s \<noteq> [] \<and> hd s = CHR ''.'' \<and> takeWhile is_digit (tl s) = [] then False
     else let s' = (if sc_seconds r \<and> s \<noteq> [] \<and> hd s = CHR ''.'' then dropWhile is_digit (tl s) else s); w = dropWhile is_space s'
       in w = [] \<or> sc_time r \<noteq> None \<and> zone_tail (sc_hadDate r) w)"

text \<open>A zone at the end of a text with a time: the minutes east of Greenwich, and where it starts.\<close>

definition offset_at :: "bytes \<Rightarrow> nat \<Rightarrow> (int \<times> nat) option" where
  "offset_at p i = (let u = drop (i + 1) p; hs = take 2 (takeWhile is_digit u); v = drop (length hs) u; hh = num_of 10 dec_val hs;
       (ok, mm, w) = (if v \<noteq> [] \<and> hd v = CHR '':'' then let ms = take 2 (takeWhile is_digit (tl v)) in
           (length ms = 2, num_of 10 dec_val ms, drop (length ms) (tl v))
         else if 2 \<le> length v \<and> is_digit (v ! 0) \<and> is_digit (v ! 1) then (True, num_of 10 dec_val (take 2 v), drop 2 v) else (True, 0, v))
     in if hs \<noteq> [] \<and> ok \<and> w = [] \<and> hh \<le> 14 \<and> mm \<le> 59 then Some (if p ! i = CHR ''+'' then hh * 60 + mm else - (hh * 60 + mm), i) else None)"

definition find_offset :: "bytes \<Rightarrow> (int \<times> nat) option" where
  "find_offset p = (if p \<noteq> [] \<and> last p \<in> {CHR ''Z'', CHR ''z''} then Some (0, length p - 1)
     else case find (\<lambda>i. p ! i \<in> {CHR ''+'', CHR ''-''}) (rev [0 ..< length p]) of None \<Rightarrow> None | Some i \<Rightarrow> offset_at p i)"

text \<open>The text without its zone; nothing when only a zone is there.\<close>

definition strip_zone :: "bytes \<Rightarrow> (bytes \<times> int option) option" where
  "strip_zone str = (if CHR '':'' \<notin> set str then Some (str, None) else case find_offset str of
     None \<Rightarrow> Some (str, None)
   | Some (off, i) \<Rightarrow> let base = trimmed (str_left str (int i)) in
       if base = [] then None else if CHR '':'' \<notin> set base then Some (str, None) else Some (base, Some off))"

definition t_at :: "bytes \<Rightarrow> nat \<Rightarrow> bool" where
  "t_at s i \<longleftrightarrow> s ! i = CHR ''T'' \<and> is_digit (s ! (i - 1)) \<and> is_digit (s ! (i + 1))"

definition blank_t :: "bytes \<Rightarrow> bytes" where
  "blank_t s = (case find (t_at s) [1 ..< length s - 1] of None \<Rightarrow> s | Some i \<Rightarrow> s[i := CHR '' ''])"

definition ampm :: "bytes \<Rightarrow> bool \<times> bool" where
  "ampm str = (let upper = map to_upper str in (str_endsWith upper ''AM'', str_endsWith upper ''PM''))"

text \<open>\<open>{ts '...'}\<close>: up to the closing quote, whatever follows.\<close>

definition scan_ts :: "bytes \<Rightarrow> ((int \<times> int \<times> int) \<times> int \<times> int \<times> int) option" where
  "scan_ts str = (let q = str_indexOf str [apostrophe, CHR ''}''] 5 in if q \<le> 5 then None else
     case fst (sscanf [D, Char CHR ''-'', D, Char CHR ''-'', D, Space0, D, Char CHR '':'', D, Char CHR '':'', D] (str_mid str 5 (q - 5))) of
       [a, b, c] \<Rightarrow> Some ((a, b, c), 0, 0, 0) | [a, b, c, h] \<Rightarrow> Some ((a, b, c), h, 0, 0)
     | [a, b, c, h, m] \<Rightarrow> Some ((a, b, c), h, m, 0) | [a, b, c, h, m, s] \<Rightarrow> Some ((a, b, c), h, m, s) | _ \<Rightarrow> None)"

definition scan_plain :: "bytes \<Rightarrow> ((int \<times> int \<times> int) \<times> int \<times> int \<times> int) option" where
  "scan_plain work = (case scan_fields work of None \<Rightarrow> None | Some r \<Rightarrow> (case year_month_day r of None \<Rightarrow> None
     | Some ymd \<Rightarrow> if tail_ok r then Some (ymd, case sc_time r of None \<Rightarrow> (0, 0, 0) | Some t \<Rightarrow> t) else None))"

definition half_day :: "bool \<Rightarrow> bool \<Rightarrow> int \<Rightarrow> int" where
  "half_day am pm hour = (if pm then (if 1 \<le> hour \<and> hour \<le> 11 then hour + 12 else hour) else if am \<and> hour = 12 then 0 else hour)"

definition tm_of :: "int \<times> int \<times> int \<Rightarrow> int \<Rightarrow> int \<Rightarrow> int \<Rightarrow> tm" where
  "tm_of ymd hour minute sec = (case ymd of (year, mon, mday) \<Rightarrow> \<lparr>tm_year = year - 1900, tm_mon = mon - 1, tm_mday = mday,
     tm_hour = hour, tm_min = minute, tm_sec = sec, tm_wday = 0, tm_yday = 0\<rparr>)"

text \<open>A time with a zone becomes an instant, shown in the zone of the server (\<open>localtime\<close>).\<close>

definition zoned :: "(int \<Rightarrow> tm) \<Rightarrow> int \<times> int \<times> int \<Rightarrow> int \<Rightarrow> int \<Rightarrow> int \<Rightarrow> int \<Rightarrow> dbl" where
  "zoned localtime ymd hour minute sec off = (let total = hour * 60 + minute - off;
       extra = total sdiv 1440 - (if total smod 1440 < 0 then 1 else 0); hh = (total smod 1440 + 1440) smod 1440;
       utc = dadd (tmToDays (tm_of ymd (hh sdiv 60) (hh smod 60) sec)) (Fin (of_int extra));
       secs = (case dmul (dsub utc (Fin 25569)) (Fin 86400) of Fin x \<Rightarrow> (if x < 0 then - \<lfloor>- x + 1 / 2\<rfloor> else \<lfloor>x + 1 / 2\<rfloor>) | _ \<Rightarrow> 0)
     in tmToDays (localtime secs))"

definition parseDateTimeStr :: "(int \<Rightarrow> tm) \<Rightarrow> bytes \<Rightarrow> dbl option" where
  "parseDateTimeStr localtime s = (case strip_zone (trimmed s) of None \<Rightarrow> None | Some (base, zone) \<Rightarrow>
     if trimmed s = [] then None else
     let str = blank_t base; (am, pm) = ampm str; work = (if am \<or> pm then trimmed (str_left str (int (length str) - 2)) else str) in
     case (if str_startWith str (''{ts '' @ [apostrophe]) then scan_ts str else scan_plain work) of None \<Rightarrow> None
     | Some ((year, mon, mday), hour0, minute, sec) \<Rightarrow> let hour = half_day am pm hour0 in
         if mon < 1 \<or> 12 < mon \<or> mday < 1 \<or> 31 < mday \<or> hour < 0 \<or> 23 < hour \<or> minute < 0 \<or> 59 < minute \<or> sec < 0 \<or> 59 < sec then None
         else Some (case zone of Some off \<Rightarrow> zoned localtime (year, mon, mday) hour minute sec off
           | None \<Rightarrow> tmToDays (tm_of (year, mon, mday) hour minute sec)))"

end
