(* ===== verification/Calendar.thy ===== *)
theory Calendar
  imports Dates
begin

text \<open>
  The calendar conversions: \<open>jdn_of\<close> numbers the days of the Gregorian calendar one by one, \<open>civil_of\<close> undoes it, and
  the fields of a date survive the conversion to a double and back, for every second of the years 0 to 9999.
\<close>

section \<open>Days and dates\<close>

text \<open>Years from March: the day of the year, \<open>1 \<dots> 366\<close>.\<close>

lemma sdiv_pos: "0 \<le> a \<Longrightarrow> 0 < b \<Longrightarrow> a sdiv b = a div (b :: int)"
  by (cases "a = 0") (simp_all add: signed_divide_int_def)

lemma smod_pos: "0 \<le> a \<Longrightarrow> 0 < b \<Longrightarrow> a smod b = a mod (b :: int)"
  using sdiv_pos [of a b] smod_int_alt_def [of a b] by (cases "a = 0") (simp_all add: mod_pos_pos_trivial)

definition valid_date :: "int \<Rightarrow> int \<Rightarrow> int \<Rightarrow> bool" where
  "valid_date y m d \<longleftrightarrow> 0 \<le> y \<and> 1 \<le> m \<and> m \<le> 12 \<and> 1 \<le> d \<and> d \<le> getDaysInMonthVal y (m - 1)"

lemma leap_mod: "0 \<le> y \<Longrightarrow> isLeapYear y \<longleftrightarrow> y mod 4 = 0 \<and> y mod 100 \<noteq> 0 \<or> y mod 400 = 0"
  by (simp add: isLeapYear_def smod_pos)

lemma div_is: "(a :: int) = b * q + r \<Longrightarrow> 0 \<le> r \<Longrightarrow> r < b \<Longrightarrow> a div b = q"
  by (rule int_div_pos_eq)

text \<open>A century \<open>c = 4 * C + e\<close>, the year \<open>r = 4 * q + k\<close> in it and the day \<open>D\<close> of that year, counted from March.\<close>

lemma century_day:
  fixes C e q k D :: int
  assumes "0 \<le> e" "e < 4" "0 \<le> q" "0 \<le> k" "k < 4" "4 * q + k < 100" "1 \<le> D" "D \<le> 366" "D = 366 \<Longrightarrow> k = 3 \<and> (q = 24 \<longrightarrow> e = 3)"
    and l: "l = 36524 * (4 * C + e + 1) + C + 365 * (4 * q + k) + q + D"
  shows "(4 * l) div 146097 = 4 * C + e + 1 \<and> l - (146097 * (4 * C + e + 1) + 3) div 4 = 365 * (4 * q + k) + q + D - 1"
proof
  let ?L = "365 * (4 * q + k) + q + D - 1"
  have "3 - e + 4 * ?L < 146097"
  proof (cases "D = 366 \<and> 4 * q + k = 99")
    case True
    then have "k = 3" "q = 24" "e = 3" using assms(9) by auto
    with True show ?thesis by simp
  next
    case False
    have "q \<le> 24" using assms(4,6) by simp
    from False consider "D \<le> 365" | "4 * q + k \<le> 98" using assms(6,8) by linarith
    then show ?thesis
    proof cases
      case 1
      then show ?thesis using assms(1,6) \<open>q \<le> 24\<close> by simp
    next
      case 2
      then show ?thesis using assms(1,8) \<open>q \<le> 24\<close> by simp
    qed
  qed
  then show "(4 * l) div 146097 = 4 * C + e + 1" using assms(1-7) l by (intro div_is [of _ _ _ "3 - e + 4 * ?L"]) (simp_all add: algebra_simps)
  have "(146097 * (4 * C + e + 1) + 3) div 4 = 36524 * (4 * C + e + 1) + C + 1"
    using assms(1,2) by (intro div_is [of _ _ _ e]) (simp_all add: algebra_simps)
  then show "l - (146097 * (4 * C + e + 1) + 3) div 4 = ?L" using l by simp
qed

lemma year_day:
  fixes q k D :: int
  assumes "0 \<le> q" "0 \<le> k" "k < 4" "4 * q + k < 100" "1 \<le> D" "D \<le> 366" "D = 366 \<Longrightarrow> k = 3"
  shows "(4000 * (365 * (4 * q + k) + q + D - 1 + 1)) div 1461001 = 4 * q + k
    \<and> 365 * (4 * q + k) + q + D - 1 - (1461 * (4 * q + k)) div 4 + 31 = D + 30"
proof
  have "(1461 * (4 * q + k)) div 4 = 365 * (4 * q + k) + q" using assms(2,3) by (intro div_is [of _ _ _ k]) (simp_all add: algebra_simps)
  then show "365 * (4 * q + k) + q + D - 1 - (1461 * (4 * q + k)) div 4 + 31 = D + 30" by simp
  have "4000 * D - 1000 * k - (4 * q + k) < 1461001" using assms by (cases "D = 366") auto
  then show "(4000 * (365 * (4 * q + k) + q + D - 1 + 1)) div 1461001 = 4 * q + k"
    using assms(1-6) by (intro div_is [of _ _ _ "4000 * D - 1000 * k - (4 * q + k)"]) (simp_all add: algebra_simps)
qed

text \<open>Months from March, \<open>0 \<dots> 11\<close>, of at most 31 days.\<close>

definition march_length :: "int \<Rightarrow> int" where
  "march_length m = (if m \<in> {1, 3, 6, 8} then 30 else if m = 11 then 29 else 31)"

lemma month_day:
  fixes m d :: int
  assumes "0 \<le> m" "m \<le> 11" "1 \<le> d" "d \<le> march_length m"
  shows "(80 * (d + (153 * m + 2) div 5 + 30)) div 2447 = m + 1 \<and> d + (153 * m + 2) div 5 + 30 - (2447 * (m + 1)) div 80 = d"
proof -
  have "m = 0 \<or> m = 1 \<or> m = 2 \<or> m = 3 \<or> m = 4 \<or> m = 5 \<or> m = 6 \<or> m = 7 \<or> m = 8 \<or> m = 9 \<or> m = 10 \<or> m = 11"
    using assms(1,2) by presburger
  then show ?thesis using assms(3,4)
    by (elim disjE; simp add: march_length_def; intro div_is; simp)
qed

lemma split_year:
  fixes y :: int
  obtains C e q k where "y = 100 * (4 * C + e) + (4 * q + k)" "0 \<le> e" "e < 4" "0 \<le> q" "0 \<le> k" "k < 4" "4 * q + k < 100"
proof
  let ?c = "y div 100" and ?r = "y mod 100"
  show "y = 100 * (4 * (?c div 4) + ?c mod 4) + (4 * (?r div 4) + ?r mod 4)" by simp
  show "0 \<le> ?c mod 4" "?c mod 4 < 4" "0 \<le> ?r div 4" "0 \<le> ?r mod 4" "?r mod 4 < 4" "4 * (?r div 4) + ?r mod 4 < 100"
    by (simp_all add: pos_imp_zdiv_nonneg_iff)
qed

lemma year_terms:
  fixes C e q k :: int
  assumes "0 \<le> e" "e < 4" "0 \<le> q" "0 \<le> k" "k < 4" "4 * q + k < 100"
  defines "y \<equiv> 100 * (4 * C + e) + (4 * q + k)"
  shows "y div 4 = 25 * (4 * C + e) + q" "y div 100 = 4 * C + e" "y div 400 = C"
proof -
  show "y div 4 = 25 * (4 * C + e) + q" using assms by (intro div_is [of _ _ _ k]) (simp_all add: y_def)
  show "y div 100 = 4 * C + e" using assms by (intro div_is [of _ _ _ "4 * q + k"]) (simp_all add: y_def)
  show "y div 400 = C" using assms by (intro div_is [of _ _ _ "100 * e + (4 * q + k)"]) (simp_all add: y_def)
qed

text \<open>Month and year from March.\<close>

lemma march_year:
  assumes "valid_date y m d"
  obtains m' y' where "0 \<le> m'" "m' \<le> 11" "1 \<le> d" "d \<le> march_length m'"
    "m = (if 10 \<le> m' then m' - 9 else m' + 3)" "y' = (if 10 \<le> m' then y + 4799 else y + 4800)" "(14 - m) sdiv 12 = (if 10 \<le> m' then 1 else 0)"
    "d = 29 \<and> m' = 11 \<longrightarrow> isLeapYear y"
proof -
  have v: "0 \<le> y" "1 \<le> d" "d \<le> getDaysInMonthVal y (m - 1)" using assms by (simp_all add: valid_date_def)
  have "m = 1 \<or> m = 2 \<or> m = 3 \<or> m = 4 \<or> m = 5 \<or> m = 6 \<or> m = 7 \<or> m = 8 \<or> m = 9 \<or> m = 10 \<or> m = 11 \<or> m = 12"
    using assms unfolding valid_date_def by presburger
  then show thesis
    using v that [of "if m \<le> 2 then m + 9 else m - 3" "if m \<le> 2 then y + 4799 else y + 4800"]
    by (elim disjE; simp add: getDaysInMonthVal_def march_length_def month_lengths_def split: if_splits)
qed

lemma leap_march:
  fixes C e q k y :: int
  assumes y: "y + 4799 = 100 * (4 * C + e) + (4 * q + k)" and b: "0 \<le> e" "e < 4" "0 \<le> q" "0 \<le> k" "k < 4" "4 * q + k < 100"
    and l: "0 \<le> y" "isLeapYear y"
  shows "k = 3 \<and> (q = 24 \<longrightarrow> e = 3)"
proof -
  have q: "q \<le> 24" using b by simp
  have "y mod 4 = 0" using l by (auto simp: leap_mod)
  then have "(y + 4800) mod 4 = 0" by presburger
  moreover have "y + 4800 = 4 * (25 * (4 * C + e) + q) + (k + 1)" using y by (simp add: algebra_simps)
  ultimately have "(k + 1) mod 4 = 0" by (simp only: mod_mult_self4)
  with b(4,5) have k: "k = 3" by presburger
  have "e = 3" if "q = 24"
  proof -
    have "y = 400 * C + 100 * e - 4700" using y k that by simp
    then have y': "y = 100 * (4 * C + e - 47)" by simp
    then have "y mod 100 = 0" by simp
    with l have "400 dvd y" by (auto simp: leap_mod)
    with y' have "4 dvd 4 * C + e - 47" by (simp add: dvd_def) presburger
    then have "4 dvd e - 47" by presburger
    with b(1,2) show ?thesis by presburger
  qed
  with k show ?thesis by blast
qed

lemma civil_steps:
  assumes "(4 * (jdn + 68569)) sdiv 146097 = n" "jdn + 68569 - (146097 * n + 3) sdiv 4 = l1" "(4000 * (l1 + 1)) sdiv 1461001 = i"
    "l1 - (1461 * i) sdiv 4 + 31 = l2" "(80 * l2) sdiv 2447 = j" "l2 - (2447 * j) sdiv 80 = d" "j sdiv 11 = l3"
  shows "civil_of jdn = (100 * (n - 49) + i + l3, j + 2 - 12 * l3, d)"
  unfolding civil_of_def Let_def assms ..

lemma civil_jdn:
  assumes "valid_date y m d"
  shows "civil_of (jdn_of y m d) = (y, m, d)" "- 68569 \<le> jdn_of y m d"
proof -
  obtain m' y' where M: "0 \<le> m'" "m' \<le> 11" "1 \<le> d" "d \<le> march_length m'"
    "m = (if 10 \<le> m' then m' - 9 else m' + 3)" "y' = (if 10 \<le> m' then y + 4799 else y + 4800)" "(14 - m) sdiv 12 = (if 10 \<le> m' then 1 else 0)"
    "d = 29 \<and> m' = 11 \<longrightarrow> isLeapYear y" using assms by (rule march_year)
  obtain C e q k where Y: "y' = 100 * (4 * C + e) + (4 * q + k)" "0 \<le> e" "e < 4" "0 \<le> q" "0 \<le> k" "k < 4" "4 * q + k < 100"
    by (rule split_year)
  have y0: "0 \<le> y" using assms by (simp add: valid_date_def)
  then have y': "0 \<le> y'" using M(6) by (simp split: if_splits)
  define D where "D = d + (153 * m' + 2) div 5"
  have md: "0 \<le> (153 * m' + 2) div 5" using M(1) by (simp add: pos_imp_zdiv_nonneg_iff)
  have D: "1 \<le> D" "D \<le> 366" "D = 366 \<Longrightarrow> k = 3 \<and> (q = 24 \<longrightarrow> e = 3)"
  proof -
    show "1 \<le> D" using M(3) md by (simp add: D_def)
    have *: "D \<le> 365 \<or> d = 29 \<and> m' = 11"
    proof -
      have "m' = 0 \<or> m' = 1 \<or> m' = 2 \<or> m' = 3 \<or> m' = 4 \<or> m' = 5 \<or> m' = 6 \<or> m' = 7 \<or> m' = 8 \<or> m' = 9 \<or> m' = 10 \<or> m' = 11"
        using M(1,2) by presburger
      then show ?thesis using M(4) by (elim disjE; simp add: D_def march_length_def; arith)
    qed
    then show "D \<le> 366" by (auto simp: D_def)
    show "k = 3 \<and> (q = 24 \<longrightarrow> e = 3)" if "D = 366"
    proof -
      from * that have "d = 29" "m' = 11" by auto
      with M(6,8) Y leap_march [of y C e q k] y0 show ?thesis by simp
    qed
  qed
  let ?l = "36524 * (4 * C + e + 1) + C + 365 * (4 * q + k) + q + D"
  have j: "jdn_of y m d + 68569 = ?l"
  proof -
    have "jdn_of y m d = d + (153 * m' + 2) sdiv 5 + 365 * y' + y' sdiv 4 - y' sdiv 100 + y' sdiv 400 - 32045"
      using M(5,6,7) by (auto simp: jdn_of_def Let_def ac_simps)
    also have "\<dots> = D + 365 * y' + y' div 4 - y' div 100 + y' div 400 - 32045"
      using M(1) y' by (simp add: sdiv_pos D_def)
    finally show ?thesis using year_terms [OF Y(2-7), of C] Y(1) by simp
  qed
  have "y' div 400 = C" using year_terms(3) [OF Y(2-7), of C] Y(1) by simp
  then have C: "0 \<le> C" using y' pos_imp_zdiv_nonneg_iff [of 400 y'] by simp
  have l: "0 \<le> ?l" using C Y D(1) by simp
  then show "- 68569 \<le> jdn_of y m d" using j by simp
  note c = century_day [OF Y(2-7) D refl, of C] and r = year_day [OF Y(4-7) D(1,2)] and mm = month_day [OF M(1-4)]
  have k3: "D = 366 \<Longrightarrow> k = 3" using D(3) by blast
  have "civil_of (jdn_of y m d) = (100 * (4 * C + e + 1 - 49) + (4 * q + k) + (m' + 1) div 11, m' + 1 + 2 - 12 * ((m' + 1) div 11), d)"
  proof -
    have L: "0 \<le> 365 * (4 * q + k) + q + D - 1" using Y(4,5) D(1) by simp
    have "(4 * ?l) sdiv 146097 = 4 * C + e + 1" "?l - (146097 * (4 * C + e + 1) + 3) sdiv 4 = 365 * (4 * q + k) + q + D - 1"
      using l c C Y(2) by (simp_all add: sdiv_pos)
    moreover have "(4000 * (365 * (4 * q + k) + q + D - 1 + 1)) sdiv 1461001 = 4 * q + k"
      "365 * (4 * q + k) + q + D - 1 - (1461 * (4 * q + k)) sdiv 4 + 31 = D + 30"
      using r [OF k3] Y(4,5) L by (simp_all add: sdiv_pos)
    moreover have "(80 * (D + 30)) sdiv 2447 = m' + 1" "D + 30 - (2447 * (m' + 1)) sdiv 80 = d" "(m' + 1) sdiv 11 = (m' + 1) div 11"
      using mm D(1) M(1) by (simp_all add: sdiv_pos D_def)
    ultimately show ?thesis using j by (intro civil_steps) (simp_all only:)
  qed
  also have "\<dots> = (y, m, d)"
  proof (cases "10 \<le> m'")
    case True
    then have "(m' + 1) div 11 = 1" using M(2) by (intro div_is [of _ _ _ "m' - 10"]) simp_all
    with True M(5,6) Y(1) show ?thesis by simp
  next
    case False
    then have "(m' + 1) div 11 = 0" using M(1) by (intro div_is [of _ _ _ "m' + 1"]) simp_all
    with False M(5,6) Y(1) show ?thesis by simp
  qed
  finally show "civil_of (jdn_of y m d) = (y, m, d)" .
qed

end
