(* ===== verification/DateTimes.thy ===== *)
theory DateTimes
  imports Calendar
begin

text \<open>
  Dates with their time of day: the rounding of the conversions never moves a date by a second, for every second of the
  years 0 to 9999. The bounds of the successive operations are those of \<open>fl_bound\<close>.
\<close>

section \<open>Errors of rounding\<close>

definition near :: "dbl \<Rightarrow> rat \<Rightarrow> rat \<Rightarrow> bool" where
  "near d x eps \<longleftrightarrow> (\<exists>z. d = Fin z \<and> \<bar>z - x\<bar> \<le> eps)"

lemma nearI: "\<bar>z - x\<bar> \<le> eps \<Longrightarrow> near (Fin z) x eps"
  by (simp add: near_def)

lemma nearE:
  assumes "near d x eps" obtains z where "d = Fin z" "\<bar>z - x\<bar> \<le> eps"
  using assms by (auto simp: near_def)

lemma round_scaled: "0 < p \<Longrightarrow> \<bar>of_int (round_even (x / p)) * p - x\<bar> \<le> p / 2"
proof -
  assume p: "0 < p"
  then have "of_int (round_even (x / p)) * p - x = (of_int (round_even (x / p)) - x / p) * p" by (simp add: left_diff_distrib)
  then have "\<bar>of_int (round_even (x / p)) * p - x\<bar> = \<bar>of_int (round_even (x / p)) - x / p\<bar> * p" using p by (simp add: abs_mult)
  also have "\<dots> \<le> 1 / 2 * p" using p by (intro mult_right_mono round_even_near) simp
  finally show ?thesis by simp
qed

lemma tiny: "2 powi (- 1074) / 2 \<le> (1 / 2 ^ 53 :: rat)"
proof -
  have "2 powi (- 1074) / 2 = (2 powi (- 1075) :: rat)" using power_int_diff [of "2::rat" "- 1074" 1] by simp
  also have "\<dots> \<le> 2 powi (- 53)" by (rule power_int_increasing) simp_all
  also have "\<dots> = 1 / 2 ^ 53" by (simp only: power_int_minus power_int_numeral divide_inverse mult_1)
  finally show ?thesis .
qed

lemma close_bound: "\<bar>a - x\<bar> \<le> e \<Longrightarrow> \<bar>x\<bar> \<le> 1 \<Longrightarrow> e \<le> 1 \<Longrightarrow> \<bar>a\<bar> \<le> (2::rat)"
  by linarith

lemma fl_bound:
  assumes "\<bar>x\<bar> \<le> M" "1 \<le> M" "M \<le> 2 ^ 1000"
  shows "near (fl x) x (M / 2 ^ 53)"
proof (cases "2 powi (- 1022) \<le> \<bar>x\<bar>")
  case True
  have "\<bar>x\<bar> < 2 ^ 1023" using assms(1,3) by (rule order_le_less_trans [OF order_trans]) (rule power_strict_increasing; simp)
  from fl_near [OF True this] obtain y where "fl x = Fin y" "\<bar>y - x\<bar> \<le> \<bar>x\<bar> / 2 ^ 53" by blast
  moreover have "\<bar>x\<bar> / 2 ^ 53 \<le> M / 2 ^ 53" using assms(1) by (rule divide_right_mono) simp
  ultimately show ?thesis by (simp add: near_def)
next
  case False
  show ?thesis
  proof (cases "x = 0")
    case True
    then show ?thesis using assms(2) by (simp add: fl_def near_def)
  next
    case n: False
    have "mag 2 x < - 1022" using False by (intro mag_less [OF n]) linarith
    then have e: "max (mag 2 x - 52) (- 1074) = - 1074" by simp
    let ?r = "of_int (round_even (x / 2 powi (- 1074))) :: rat"
    have "\<bar>?r * 2 powi (- 1074) - x\<bar> \<le> 2 powi (- 1074) / 2" by (rule round_scaled) (rule zero_less_power_int; simp)
    then have d: "\<bar>?r * 2 powi (- 1074) - x\<bar> \<le> 1 / 2 ^ 53" using tiny by (rule order_trans)
    have "(2::rat) powi (- 1022) \<le> 2 powi 0" by (rule power_int_increasing) simp_all
    then have "\<bar>x\<bar> \<le> 1" using False by (simp only: power_int_0_right not_le)
    with d have "\<bar>?r * 2 powi (- 1074)\<bar> \<le> 2" by (rule close_bound) simp
    also have "(2::rat) = 2 ^ 1" by simp
    also have "(2::rat) ^ 1 < 2 ^ 1024" by (rule power_strict_increasing) simp_all
    finally have "\<not> 2 ^ 1024 \<le> \<bar>?r * 2 powi (- 1074)\<bar>" by (simp only: not_le)
    then have "fl x = Fin (?r * 2 powi (- 1074))" using n by (simp only: fl_eq e Let_def if_False)
    moreover have "1 / 2 ^ 53 \<le> M / 2 ^ 53" using assms(2) by (rule divide_right_mono) simp
    ultimately show ?thesis unfolding near_def using order_trans [OF d] by blast
  qed
qed

text \<open>One operation on a value already off by \<open>e\<close>.\<close>

lemma fl_step:
  assumes "\<bar>y - x\<bar> \<le> e" "\<bar>x\<bar> + e \<le> M" "1 \<le> M" "M \<le> 1073741824" "e + M / 9007199254740992 \<le> eps"
  shows "near (fl y) x eps"
proof -
  have "M \<le> 2 ^ 1000"
  proof -
    have "(1073741824::rat) = 2 ^ 30" by simp
    also have "\<dots> \<le> 2 ^ 1000" by (rule power_increasing) simp_all
    finally show ?thesis using assms(4) by (rule order_trans [rotated])
  qed
  then have "near (fl y) y (M / 2 ^ 53)" using assms by (intro fl_bound) auto
  then have "near (fl y) y (M / 9007199254740992)" by simp
  then obtain z where "fl y = Fin z" "\<bar>z - y\<bar> \<le> M / 9007199254740992" by (rule nearE)
  moreover from this have "\<bar>z - x\<bar> \<le> eps" using assms(1,5) by linarith
  ultimately show ?thesis by (simp add: near_def)
qed

text \<open>The operations on values known up to an error.\<close>

lemma near_eps: "near d x e \<Longrightarrow> e \<le> e' \<Longrightarrow> near d x e'"
  by (auto simp: near_def)

lemma add_near:
  assumes "near d x e" "near d' x' e'" "\<bar>x + x'\<bar> + (e + e') \<le> M" "1 \<le> M" "M \<le> 1073741824" "e + e' + M / 9007199254740992 \<le> eps"
  shows "near (dadd d d') (x + x') eps"
proof -
  obtain z z' where "d = Fin z" "\<bar>z - x\<bar> \<le> e" "d' = Fin z'" "\<bar>z' - x'\<bar> \<le> e'" using assms(1,2) by (auto elim!: nearE)
  moreover from this have "\<bar>(z + z') - (x + x')\<bar> \<le> e + e'" by linarith
  ultimately show ?thesis using fl_step [OF _ assms(3-6)] by simp
qed

lemma scale_near:
  assumes "near d x e" "0 < c" "\<bar>x * c\<bar> + e * c \<le> M" "1 \<le> M" "M \<le> 1073741824" "e * c + M / 9007199254740992 \<le> eps"
  shows "near (dmul d (Fin c)) (x * c) eps"
proof -
  obtain z where z: "d = Fin z" "\<bar>z - x\<bar> \<le> e" using assms(1) by (rule nearE)
  have "\<bar>z * c - x * c\<bar> = \<bar>z - x\<bar> * c" using assms(2) by (simp add: left_diff_distrib [symmetric] abs_mult)
  also have "\<dots> \<le> e * c" using z assms(2) by (intro mult_right_mono) simp_all
  finally show ?thesis using fl_step [OF _ assms(3-6)] z by simp
qed

lemma div_near:
  assumes "near d x e" "0 < c" "\<bar>x / c\<bar> + e / c \<le> M" "1 \<le> M" "M \<le> 1073741824" "e / c + M / 9007199254740992 \<le> eps"
  shows "near (ddiv d (Fin c)) (x / c) eps"
proof -
  obtain z where z: "d = Fin z" "\<bar>z - x\<bar> \<le> e" using assms(1) by (rule nearE)
  have "\<bar>z / c - x / c\<bar> = \<bar>z - x\<bar> / c" using assms(2) by (simp add: diff_divide_distrib [symmetric])
  also have "\<dots> \<le> e / c" using z assms(2) by (intro divide_right_mono) simp_all
  finally show ?thesis using fl_step [OF _ assms(3-6)] z assms(2) by simp
qed

section \<open>The conversions\<close>

text \<open>The part of the day as a fraction.\<close>

definition day_part :: "int \<Rightarrow> int \<Rightarrow> int \<Rightarrow> rat" where
  "day_part h mi s = of_int (3600 * h + 60 * mi + s) / 86400"

definition clock_dbl :: "int \<Rightarrow> int \<Rightarrow> int \<Rightarrow> dbl" where
  "clock_dbl h mi s = ddiv (dadd (Fin (of_int h)) (ddiv (dadd (Fin (of_int mi)) (ddiv (Fin (of_int s)) (Fin 60))) (Fin 60))) (Fin 24)"

definition valid_time :: "int \<Rightarrow> int \<Rightarrow> int \<Rightarrow> bool" where
  "valid_time h mi s \<longleftrightarrow> 0 \<le> h \<and> h \<le> 23 \<and> 0 \<le> mi \<and> mi \<le> 59 \<and> 0 \<le> s \<and> s \<le> 59"

lemma near_int: "near (Fin (of_int n)) (of_int n) 0"
  by (simp add: near_def)

lemma near_rat: "near (Fin x) x 0"
  by (simp add: near_def)

lemma clock_near_rat:
  fixes h m s :: rat
  assumes "0 \<le> h" "h \<le> 23" "0 \<le> m" "m \<le> 59" "0 \<le> s" "s \<le> 59"
  shows "near (ddiv (dadd (Fin h) (ddiv (dadd (Fin m) (ddiv (Fin s) (Fin 60))) (Fin 60))) (Fin 24)) ((3600 * h + 60 * m + s) / 86400) (4 / 9007199254740992)"
proof -
  have a: "near (ddiv (Fin s) (Fin 60)) (s / 60) (1 / 9007199254740992)"
    using assms by (intro div_near [OF near_rat, where M = 1]; (linarith | simp))
  have b: "near (dadd (Fin m) (ddiv (Fin s) (Fin 60))) (m + s / 60) (64 / 9007199254740992)"
    using assms by (intro add_near [OF near_rat a, where M = 61]; (linarith | simp))
  have c: "near (ddiv (dadd (Fin m) (ddiv (Fin s) (Fin 60))) (Fin 60)) ((m + s / 60) / 60) (4 / 9007199254740992)"
    using assms by (intro div_near [OF b, where M = 2]; (linarith | (simp; fail) | (simp add: field_simps)))
  have d: "near (dadd (Fin h) (ddiv (dadd (Fin m) (ddiv (Fin s) (Fin 60))) (Fin 60))) (h + (m + s / 60) / 60) (32 / 9007199254740992)"
    using assms by (intro add_near [OF near_rat c, where M = 25]; (linarith | (simp; fail) | (simp add: field_simps)))
  have "near (ddiv (dadd (Fin h) (ddiv (dadd (Fin m) (ddiv (Fin s) (Fin 60))) (Fin 60))) (Fin 24)) ((h + (m + s / 60) / 60) / 24) (4 / 9007199254740992)"
    using assms by (intro div_near [OF d, where M = 2]; (linarith | (simp; fail) | (simp add: field_simps)))
  moreover have "(h + (m + s / 60) / 60) / 24 = (3600 * h + 60 * m + s) / 86400" by (simp add: field_simps)
  ultimately show ?thesis by (simp only:)
qed

lemma clock_near:
  assumes "valid_time h mi s"
  shows "near (clock_dbl h mi s) (day_part h mi s) (4 / 9007199254740992)"
  using clock_near_rat [of "of_int h" "of_int mi" "of_int s"] assms by (simp add: valid_time_def clock_dbl_def day_part_def)

lemma tmToDays_near:
  assumes "valid_time h mi s" "\<bar>jdn_of y m d - day_zero\<bar> \<le> 4000000"
  shows "near (tmToDays (tm_of (y, m, d) h mi s)) (of_int (jdn_of y m d - day_zero) + day_part h mi s) (1 / 1073741824)"
proof -
  let ?N = "jdn_of y m d - day_zero"
  have "fl (of_int ?N) = Fin (of_int ?N)" using assms(2) by (intro fl_int) simp
  then have n: "near (fl (of_int ?N)) (of_int ?N) 0" by (simp add: near_def)
  have "0 \<le> day_part h mi s" "day_part h mi s \<le> 1" using assms(1) by (simp_all add: day_part_def valid_time_def)
  moreover have "\<bar>of_int ?N\<bar> \<le> (4000000 :: rat)" using assms(2) by linarith
  ultimately have "near (dadd (fl (of_int ?N)) (clock_dbl h mi s)) (of_int ?N + day_part h mi s) (1 / 1073741824)"
    by (intro add_near [OF n clock_near [OF assms(1)], where M = 4194304]) simp_all
  then show ?thesis by (simp add: tmToDays_def tm_of_def clock_dbl_def)
qed

lemma clock_zero: "clock_dbl 0 0 0 = Fin 0"
  by (simp add: clock_dbl_def fl_def)

section \<open>Taking a date apart\<close>

lemma trunc_between: "0 \<le> x \<Longrightarrow> of_int n \<le> x \<Longrightarrow> x < of_int (n + 1) \<Longrightarrow> trunc x = n"
  by (simp add: trunc_def floor_eq_iff)

lemma trunc_negative: "x < 0 \<Longrightarrow> of_int (n - 1) < x \<Longrightarrow> x \<le> of_int n \<Longrightarrow> trunc x = n"
proof -
  assume a: "x < 0" "of_int (n - 1) < x" "x \<le> of_int n"
  then have "\<lfloor>- x\<rfloor> = - n" by (intro floor_unique) simp_all
  with a show "trunc x = n" by (simp add: trunc_def)
qed

lemma small64: "\<bar>trunc x\<bar> \<le> 4000001 \<Longrightarrow> to_int64 (Fin x) = Inr (trunc x)"
  unfolding to_range_def llong_min_def llong_max_def by (simp add: abs_le_iff)

text \<open>A date strictly inside its day.\<close>

lemma split_inside:
  assumes "of_int n < z" "z < of_int (n + 1)" "\<bar>n\<bar> \<le> 4000000" "\<bar>z - (of_int n + q)\<bar> \<le> 1 / 1073741824" "0 \<le> q" "q \<le> 1"
  shows "\<exists>f. split_days (Fin z) = Inr (n, f) \<and> near f q (1 / 536870912)"
proof (cases "n < 0")
  case False
  then have t: "trunc z = n" using assms(1,2) by (intro trunc_between) (auto intro: order_trans [of 0 "of_int n"])
  moreover have "to_int64 (Fin z) = Inr n" using small64 [of z] t assms(3) by simp
  moreover have "near (Fin (z - of_int n)) q (1 / 536870912)" using assms(4) by (intro nearI) linarith
  ultimately show ?thesis using assms(1) by (simp add: split_days_def)
next
  case True
  have "z < 0" using assms(2) True by linarith
  then have t: "trunc z = n + 1" using assms(1,2) by (intro trunc_negative) simp_all
  have "fl (of_int (n + 1) - 1) = Fin (of_int n)" using fl_int [of n] assms(3) by simp
  moreover have "to_int64 (Fin (of_int n)) = Inr n" using small64 [of "of_int n"] assms(3) by simp
  moreover have "near (fl (z - of_int n)) q (1 / 536870912)"
    using assms(4-6) by (intro fl_step [where e = "1 / 1073741824" and M = 2]; (linarith | simp))
  ultimately show ?thesis using t assms(2) by (simp add: split_days_def algebra_simps)
qed

lemma split_midnight: "\<bar>n\<bar> \<le> 4000000 \<Longrightarrow> split_days (Fin (of_int n)) = Inr (n, Fin 0)"
  using small64 [of "of_int n"] by (simp add: split_days_def)

text \<open>Hours, minutes and seconds.\<close>

lemma clock_digits:
  assumes "valid_time h mi s"
  shows "(3600 * h + 60 * mi + s) sdiv 3600 = h" "((3600 * h + 60 * mi + s) smod 3600) sdiv 60 = mi" "(3600 * h + 60 * mi + s) smod 60 = s"
proof -
  have b: "0 \<le> h" "0 \<le> mi" "mi \<le> 59" "0 \<le> s" "s \<le> 59" using assms by (simp_all add: valid_time_def)
  have m: "60 * mi + s < 3600" using b by simp
  show "(3600 * h + 60 * mi + s) sdiv 3600 = h" using b m by (simp add: sdiv_pos)
  have "3600 * h + (60 * mi + s) = (60 * mi + s) + 3600 * h" by simp
  then have "(3600 * h + 60 * mi + s) smod 3600 = 60 * mi + s" using b m by (simp add: smod_pos add.assoc)
  then show "((3600 * h + 60 * mi + s) smod 3600) sdiv 60 = mi" using b by (simp add: sdiv_pos)
  have "3600 * h + 60 * mi + s = s + 60 * (60 * h + mi)" by simp
  then show "(3600 * h + 60 * mi + s) smod 60 = s" using b by (simp only: smod_pos mod_mult_self2) simp
qed

lemma clock_back:
  assumes "valid_time h mi s" "near f (day_part h mi s) (1 / 536870912)"
  shows "clock_of f = Inr (h, mi, s)"
proof -
  let ?S = "3600 * h + 60 * mi + s"
  have S: "0 \<le> ?S" "?S < 86400" using assms(1) by (simp_all add: valid_time_def)
  then have r: "0 \<le> (of_int ?S :: rat)" "of_int ?S \<le> (86400 :: rat)" by linarith+
  have e: "day_part h mi s * 86400 = of_int ?S" by (simp add: day_part_def)
  have m: "near (dmul f (Fin 86400)) (of_int ?S) (1 / 2048)"
    using r by (intro scale_near [OF assms(2), of 86400 131072 "1 / 2048", unfolded e]; (linarith | (simp; fail)))
  have "near (dadd (dmul f (Fin 86400)) (Fin (1 / 2))) (of_int ?S + 1 / 2) (1 / 1024)"
    using r by (intro add_near [OF m near_rat, where M = 131072]; (linarith | (simp; fail)))
  then obtain z where z: "dadd (dmul f (Fin 86400)) (Fin (1 / 2)) = Fin z" "\<bar>z - (of_int ?S + 1 / 2)\<bar> \<le> 1 / 1024" by (rule nearE)
  have "0 \<le> z" "of_int ?S \<le> z" "z < of_int (?S + 1)" using z(2) r(1) unfolding of_int_add [of ?S] of_int_1 by linarith+
  then have "trunc z = ?S" by (rule trunc_between)
  with z(1) S have "clock_of f = Inr (?S sdiv 3600, (?S smod 3600) sdiv 60, ?S smod 60)"
    by (simp add: clock_of_def to_range_def int_min_def int_max_def)
  then show ?thesis by (simp only: clock_digits [OF assms(1)])
qed

text \<open>Every second of every day is found again.\<close>

lemma split_back:
  assumes "valid_time h mi s" "\<bar>jdn_of y m d - day_zero\<bar> \<le> 4000000"
  shows "\<exists>f. split_days (tmToDays (tm_of (y, m, d) h mi s)) = Inr (jdn_of y m d - day_zero, f) \<and> near f (day_part h mi s) (1 / 536870912)"
proof (cases "3600 * h + 60 * mi + s = 0")
  case True
  then have z: "h = 0" "mi = 0" "s = 0" using assms(1) by (auto simp: valid_time_def)
  have "fl (of_int (jdn_of y m d - day_zero)) = Fin (of_int (jdn_of y m d - day_zero))" using assms(2) by (intro fl_int) simp
  then have "tmToDays (tm_of (y, m, d) h mi s) = Fin (of_int (jdn_of y m d - day_zero))"
    using clock_zero by (simp add: z tmToDays_def tm_of_def clock_dbl_def)
  then show ?thesis using split_midnight [OF assms(2)] z by (simp add: day_part_def near_def)
next
  case False
  let ?n = "jdn_of y m d - day_zero" and ?q = "day_part h mi s"
  obtain z where z: "tmToDays (tm_of (y, m, d) h mi s) = Fin z" "\<bar>z - (of_int ?n + ?q)\<bar> \<le> 1 / 1073741824"
    using tmToDays_near [OF assms] by (rule nearE)
  have "1 \<le> 3600 * h + 60 * mi + s" "3600 * h + 60 * mi + s \<le> 86399" using False assms(1) by (simp_all add: valid_time_def)
  then have "(1 :: rat) \<le> of_int (3600 * h + 60 * mi + s)" "of_int (3600 * h + 60 * mi + s) \<le> (86399 :: rat)" by linarith+
  then have q: "1 / 86400 \<le> ?q" "?q \<le> 86399 / 86400" unfolding day_part_def by (auto intro: divide_right_mono)
  show ?thesis unfolding z(1) using z(2) q by (intro split_inside assms(2)) (simp; linarith | linarith)+
qed

lemma fields_back:
  assumes "valid_date y m d" "valid_time h mi s" "jdn_of y m d - day_zero \<le> 4000000"
  shows "daysToTm (tmToDays (tm_of (y, m, d) h mi s)) = Inr \<lparr>tm_year = y - 1900, tm_mon = m - 1, tm_mday = d, tm_hour = h, tm_min = mi, tm_sec = s,
      tm_wday = (6 + (jdn_of y m d - day_zero) smod 7 + 7) smod 7, tm_yday = yday_of y (m - 1) d\<rparr>"
proof -
  have "\<bar>jdn_of y m d - day_zero\<bar> \<le> 4000000" using civil_jdn(2) [OF assms(1)] assms(3) by (simp add: day_zero_def)
  then obtain f where "split_days (tmToDays (tm_of (y, m, d) h mi s)) = Inr (jdn_of y m d - day_zero, f)" "near f (day_part h mi s) (1 / 536870912)"
    using split_back [OF assms(2)] by blast
  then show ?thesis using clock_back [OF assms(2)] civil_jdn(1) [OF assms(1)] by (simp add: daysToTm_def)
qed

end
