(* ===== verification/DateText.thy ===== *)
theory DateText
  imports DateTimes
begin

text \<open>
  The text of a date and what \<open>parseDateTimeStr\<close> makes of it: the forms \<open>{ts '...'}\<close> and \<open>mm/dd/yyyy hh:mm:ss AM\<close>
  are read back, the forms \<open>{d '...'}\<close> and \<open>{t '...'}\<close> are refused.
\<close>

section \<open>Two and four digits\<close>

definition two_digits :: "int \<Rightarrow> bytes" where
  "two_digits n = [digits ! nat (n div 10), digits ! nat (n mod 10)]"

lemma zpad_table: "list_all (\<lambda>n. zpad 2 n = two_digits n \<and> length (number n 10) \<le> 2) [0 .. 99]"
  by code_simp

lemma zpad2: "0 \<le> n \<Longrightarrow> n \<le> 99 \<Longrightarrow> zpad 2 n = two_digits n"
  using zpad_table by (simp add: list_all_iff)

lemma number_short: "0 \<le> n \<Longrightarrow> n \<le> 99 \<Longrightarrow> length (number n 10) \<le> 2"
  using zpad_table by (simp add: list_all_iff)

lemma digits_loop_acc: "digits_loop b v (xs @ ys) = digits_loop b v xs @ ys"
proof (induction b v xs rule: digits_loop.induct)
  case (1 b v xs)
  show ?case
  proof (cases "v = 0 \<or> b < 2")
    case False
    with 1 have "digits_loop b (v div b) ((digits ! (v mod b) # xs) @ ys) = digits_loop b (v div b) (digits ! (v mod b) # xs) @ ys" by blast
    with False show ?thesis by (simp add: digits_loop.simps [of b v])
  qed (simp add: digits_loop.simps [of b v])
qed

lemma number_split:
  assumes "0 < q" "0 \<le> r" "r \<le> 99"
  shows "number (100 * q + r) 10 = number q 10 @ two_digits r"
proof -
  let ?v = "100 * nat q + nat r"
  have v: "nat (100 * q + r) = ?v" using assms by (simp add: nat_add_distrib nat_mult_distrib)
  have d: "(100 * a + b) div 10 = 10 * a + b div 10" "(100 * a + b) mod 10 = b mod 10" for a b :: nat
    using div_mult_self4 [of 10 "10 * a" b] mod_mult_self4 [of 10 "10 * a" b] by (simp_all add: add.commute mult.assoc [symmetric])
  have e: "b \<le> 99 \<Longrightarrow> (10 * a + b div 10) div 10 = a" "b \<le> 99 \<Longrightarrow> (10 * a + b div 10) mod 10 = b div 10" for a b :: nat
    by simp_all
  note 1 = d [of "nat q" "nat r"] and 2 = e [of "nat r" "nat q"]
  have "digits_loop 10 ?v [] = digits_loop 10 (?v div 10) [digits ! (?v mod 10)]" using assms(1) by (simp add: digits_loop.simps [of 10 ?v])
  also have "\<dots> = digits_loop 10 (nat q) [digits ! (nat r div 10), digits ! (nat r mod 10)]"
    unfolding 1 using assms(1) by (subst digits_loop.simps) (use 2 assms(2,3) in simp)
  also have "\<dots> = digits_loop 10 (nat q) [] @ [digits ! (nat r div 10), digits ! (nat r mod 10)]"
    using digits_loop_acc [of 10 "nat q" "[]" "[digits ! (nat r div 10), digits ! (nat r mod 10)]"] by simp
  finally have "digits_loop 10 ?v [] = digits_loop 10 (nat q) [] @ two_digits r"
    using assms by (simp add: two_digits_def nat_div_distrib nat_mod_distrib)
  then show ?thesis using assms v by (simp add: number_def)
qed

lemma zpad4:
  assumes "0 \<le> n" "n \<le> 9999"
  shows "zpad 4 n = two_digits (n div 100) @ two_digits (n mod 100)"
proof (cases "n div 100 = 0")
  case True
  then have n: "n \<le> 99" "n mod 100 = n" using assms by presburger+
  have "zpad 4 n = ''00'' @ zpad 2 n"
    using assms(1) number_short [OF assms(1) n(1)] by (simp add: zpad_def Let_def Suc_diff_le numeral_eq_Suc)
  moreover have "two_digits 0 = ''00''" by code_simp
  ultimately show ?thesis using n True assms(1) by (simp add: zpad2)
next
  case False
  then have q: "0 < n div 100" "n div 100 \<le> 99" "0 \<le> n mod 100" "n mod 100 \<le> 99" using assms by presburger+
  then have "number n 10 = number (n div 100) 10 @ two_digits (n mod 100)" using number_split [of "n div 100" "n mod 100"] by simp
  then have "zpad 4 n = zpad 2 (n div 100) @ two_digits (n mod 100)"
    using assms(1) q number_short [of "n div 100"] by (simp add: zpad_def Let_def two_digits_def)
  then show ?thesis using q by (simp add: zpad2)
qed

lemma digit_table: "list_all (\<lambda>k. is_digit (digits ! nat k) \<and> dec_val (digits ! nat k) = k) [0 .. 9]"
  by code_simp

lemma digit_facts: "0 \<le> k \<Longrightarrow> k \<le> 9 \<Longrightarrow> is_digit (digits ! nat k) \<and> dec_val (digits ! nat k) = k"
  using digit_table by (simp add: list_all_iff)

lemma two_digits_facts:
  assumes "0 \<le> n" "n \<le> 99"
  obtains a b where "two_digits n = [a, b]" "is_digit a" "is_digit b" "dec_val a * 10 + dec_val b = n"
proof -
  have "0 \<le> n div 10" "n div 10 \<le> 9" "0 \<le> n mod 10" "n mod 10 \<le> 9" using assms by presburger+
  with digit_facts [of "n div 10"] digit_facts [of "n mod 10"] that [of "digits ! nat (n div 10)" "digits ! nat (n mod 10)"]
  show thesis by (simp add: two_digits_def)
qed

section \<open>Scanning digits\<close>

lemma digit_ne:
  assumes "is_digit c"
  shows "c \<noteq> CHR ''-''" "c \<noteq> CHR '':''" "c \<noteq> CHR ''/''" "c \<noteq> CHR ''+''" "c \<noteq> CHR ''T''" "c \<noteq> CHR '' ''" "c \<noteq> CHR ''}''"
    "c \<noteq> CHR 0x27" "c \<noteq> CHR ''.''" "\<not> is_space c" "\<not> is_blank4 c" "c \<noteq> CHR 0x00" "\<not> is_lower c" "\<not> is_upper c"
proof -
  have n: "c \<noteq> d" if "\<not> is_digit d" for d using that assms by blast
  show "c \<noteq> CHR ''-''" "c \<noteq> CHR '':''" "c \<noteq> CHR ''/''" "c \<noteq> CHR ''+''" "c \<noteq> CHR ''T''" "c \<noteq> CHR '' ''" "c \<noteq> CHR ''}''"
    "c \<noteq> CHR 0x27" "c \<noteq> CHR ''.''" "c \<noteq> CHR 0x00" by (rule n, code_simp)+
  have "48 \<le> (of_char c :: nat)" "(of_char c :: nat) \<le> 57" using assms by (simp_all add: is_digit_def char_le_nat)
  then show "\<not> is_space c" "\<not> is_blank4 c" "\<not> is_lower c" "\<not> is_upper c"
    by (auto simp: is_space_def is_blank4_def is_lower_def is_upper_def char_le_nat)
qed

lemma dec_range: "is_digit c \<Longrightarrow> 0 \<le> dec_val c \<and> dec_val c \<le> 9"
proof -
  assume "is_digit c"
  then have "48 \<le> (of_char c :: nat)" "(of_char c :: nat) \<le> 57" by (simp_all add: is_digit_def char_le_nat)
  moreover have "(of_char c :: int) = int (of_char c)" by (simp add: of_char_of of_nat_of_char)
  ultimately show ?thesis by (simp add: dec_val_def)
qed

definition ends :: "bytes \<Rightarrow> bool" where
  "ends r \<longleftrightarrow> r = [] \<or> \<not> is_digit (hd r)"

lemma ends_simps [simp]: "ends []" "ends (c # r) \<longleftrightarrow> \<not> is_digit c"
  by (simp_all add: ends_def)

lemma take_ends: "list_all is_digit ds \<Longrightarrow> ends r \<Longrightarrow> takeWhile is_digit (ds @ r) = ds \<and> dropWhile is_digit (ds @ r) = r"
  by (induction ds) (cases r; simp add: ends_def)+

lemma small_int: "0 \<le> n \<Longrightarrow> n \<le> 9999 \<Longrightarrow> low32 (clamp64 n) = n"
  by (simp add: low32_def clamp64_def llong_min_def llong_max_def)

lemma scan_of_digits:
  assumes "list_all is_digit ds" "ds \<noteq> []" "ends r" "0 \<le> num_of 10 dec_val ds" "num_of 10 dec_val ds \<le> 9999"
  shows "scan_number (ds @ r) = Some (num_of 10 dec_val ds, r)"
proof -
  obtain c cs where c: "ds = c # cs" using assms(2) by (cases ds) auto
  with assms(1) have "is_digit c" by simp
  note n = digit_ne [OF this]
  have "dropWhile is_space (ds @ r) = ds @ r" using n c by simp
  moreover have "take_sign (ds @ r) = (False, ds @ r)" using n c by (simp add: take_sign_def)
  ultimately show ?thesis using take_ends [OF assms(1,3)] assms(2) small_int [OF assms(4,5)] by (simp add: scan_number_def read_int_def)
qed

lemma scan_two:
  assumes "is_digit a" "is_digit b" "ends r"
  shows "scan_number (a # b # r) = Some (dec_val a * 10 + dec_val b, r)"
  using scan_of_digits [of "[a, b]" r] assms dec_range [OF assms(1)] dec_range [OF assms(2)] by (simp add: num_of_def)

lemma scan_four:
  assumes "is_digit a" "is_digit b" "is_digit c" "is_digit d" "ends r"
  shows "scan_number (a # b # c # d # r) = Some ((dec_val a * 10 + dec_val b) * 100 + (dec_val c * 10 + dec_val d), r)"
  using scan_of_digits [of "[a, b, c, d]" r] assms dec_range [OF assms(1)] dec_range [OF assms(2)] dec_range [OF assms(3)] dec_range [OF assms(4)]
  by (simp add: num_of_def algebra_simps)

end
