(* ===== verification/DateParse.thy ===== *)
theory DateParse
  imports DateText
begin

text \<open>Reading back the text of a date (\<open>cfvariant::toString\<close> and \<open>parseDateTimeStr\<close>).\<close>

section \<open>The form with a timestamp\<close>

lemma positions26: "rev [0 ..< 26] = [25, 24, 23, 22, 21, 20, 19, 18, 17, 16, 15, 14, 13, 12, 11, 10, 9, 8, 7, 6, 5, 4, 3, 2, 1, 0]"
    "[1 ..< 25] = [1, 2, 3, 4, 5, 6, 7, 8, 9, 10, 11, 12, 13, 14, 15, 16, 17, 18, 19, 20, 21, 22, 23, 24]"
  by code_simp+

lemma trimmed_id: "xs \<noteq> [] \<Longrightarrow> \<not> is_space (hd xs) \<Longrightarrow> \<not> is_space (last xs) \<Longrightarrow> trimmed xs = xs"
proof -
  assume "xs \<noteq> []" "\<not> is_space (hd xs)" "\<not> is_space (last xs)"
  then have "dropWhile is_space xs = xs" "dropWhile is_space (rev xs) = rev xs" by (simp_all add: dropWhile_eq_self_iff hd_rev)
  then show "trimmed xs = xs" by (simp add: trimmed_eq strip_def)
qed

lemma plain_marks: "\<not> is_space (CHR ''{'')" "\<not> is_space (CHR ''}'')" "is_blank4 (CHR '' '')" "is_space (CHR '' '')" "\<not> is_digit (CHR '':'')"
    "\<not> is_digit (CHR ''-'')" "\<not> is_digit (CHR '' '')" "\<not> is_digit (CHR ''/'')" "\<not> is_digit (CHR ''{'')" "\<not> is_digit apostrophe" "\<not> is_digit (CHR ''}'')"
    "\<not> is_digit (CHR ''s'')" "\<not> is_digit (CHR ''t'')"
  by code_simp+

lemmas date_marks = plain_marks digit_ne nth_Cons' drop_Cons' take_Cons'

lemma index_at: "c < n \<Longrightarrow> p c \<Longrightarrow> index_loop p c n = int c"
  by (simp add: index_loop.simps [of p c n])

lemma index_past: "c < n \<Longrightarrow> \<not> p c \<Longrightarrow> index_loop p c n = index_loop p (Suc c) n"
  by (simp add: index_loop.simps [of p c n])

lemma to_upper_id: "is_digit c \<Longrightarrow> to_upper c = c"
  by (simp add: to_upper_def digit_ne)

lemma last_two:
  "to_upper apostrophe = apostrophe \<and> to_upper (CHR ''}'') = CHR ''}'' \<and> strcasecmp (cstr [apostrophe, CHR ''}'']) (cstr ''AM'') \<noteq> 0
    \<and> strcasecmp (cstr [apostrophe, CHR ''}'']) (cstr ''PM'') \<noteq> 0"
  "strcasecmp (cstr ''AM'') (cstr ''AM'') = 0 \<and> strcasecmp (cstr ''AM'') (cstr ''PM'') \<noteq> 0"
  "strcasecmp (cstr ''PM'') (cstr ''PM'') = 0 \<and> strcasecmp (cstr ''PM'') (cstr ''AM'') \<noteq> 0"
  by code_simp+

lemma ts_zone:
  assumes "list_all is_digit [y1, y2, y3, y4, m1, m2, d1, d2, h1, h2, i1, i2, s1, s2]"
  defines "T \<equiv> [CHR ''{'', CHR ''t'', CHR ''s'', CHR '' '', apostrophe, y1, y2, y3, y4, CHR ''-'', m1, m2, CHR ''-'', d1, d2,
     CHR '' '', h1, h2, CHR '':'', i1, i2, CHR '':'', s1, s2, apostrophe, CHR ''}'']"
  shows "find_offset T = None"
proof -
  have f: "find (\<lambda>i. T ! i \<in> {CHR ''+'', CHR ''-''}) (rev [0 ..< length T]) = Some 12"
    using assms(1) by (simp add: T_def positions26 digit_ne apostrophe_def)
  have "offset_at T 12 = None" using assms(1) by (simp add: T_def offset_at_def plain_marks)
  with f show ?thesis by (simp add: find_offset_def T_def)
qed

lemma ts_blank:
  assumes "list_all is_digit [y1, y2, y3, y4, m1, m2, d1, d2, h1, h2, i1, i2, s1, s2]"
  defines "T \<equiv> [CHR ''{'', CHR ''t'', CHR ''s'', CHR '' '', apostrophe, y1, y2, y3, y4, CHR ''-'', m1, m2, CHR ''-'', d1, d2,
     CHR '' '', h1, h2, CHR '':'', i1, i2, CHR '':'', s1, s2, apostrophe, CHR ''}'']"
  shows "blank_t T = T" "ampm T = (False, False)" "str_startWith T (''{ts '' @ [apostrophe])" "str_indexOf T [apostrophe, CHR ''}''] 5 = 24" "trimmed T = T"
proof -
  have "find (t_at T) [1 ..< length T - 1] = None" using assms(1) by (simp add: T_def positions26 t_at_def digit_ne apostrophe_def)
  then show "blank_t T = T" by (simp add: blank_t_def)
  have "drop (length T - 2) T = [apostrophe, CHR ''}'']" by (simp add: T_def)
  then have "drop (length T - 2) (map to_upper T) = [apostrophe, CHR ''}'']" using last_two(1) by (simp add: drop_map)
  then show "ampm T = (False, False)" using last_two(1) by (simp add: ampm_def str_endsWith_def T_def)
  show "str_startWith T (''{ts '' @ [apostrophe])" by (simp add: T_def str_startWith_def)
  show "str_indexOf T [apostrophe, CHR ''}''] 5 = 24"
    using assms(1) by (simp add: T_def str_indexOf_def prefix_at_def index_at index_past digit_ne apostrophe_def)
  show "trimmed T = T" by (rule trimmed_id) (simp_all add: T_def plain_marks)
qed

lemma scan_step:
  "scan_number s = Some (n, r) \<Longrightarrow> sscanf (D # ps) s = (n # fst (sscanf ps r), snd (sscanf ps r))"
  by (simp add: case_prod_beta Let_def)

lemma read_ts:
  assumes "list_all is_digit [y1, y2, y3, y4, m1, m2, d1, d2, h1, h2, i1, i2, s1, s2]"
  defines "T \<equiv> [CHR ''{'', CHR ''t'', CHR ''s'', CHR '' '', apostrophe, y1, y2, y3, y4, CHR ''-'', m1, m2, CHR ''-'', d1, d2,
     CHR '' '', h1, h2, CHR '':'', i1, i2, CHR '':'', s1, s2, apostrophe, CHR ''}'']"
  shows "scan_ts T = Some (((dec_val y1 * 10 + dec_val y2) * 100 + (dec_val y3 * 10 + dec_val y4), dec_val m1 * 10 + dec_val m2, dec_val d1 * 10 + dec_val d2),
    dec_val h1 * 10 + dec_val h2, dec_val i1 * 10 + dec_val i2, dec_val s1 * 10 + dec_val s2)"
proof -
  have q: "str_indexOf T [apostrophe, CHR ''}''] 5 = 24" unfolding T_def using assms(1) by (rule ts_blank)
  have m: "str_mid T 5 19 = [y1, y2, y3, y4, CHR ''-'', m1, m2, CHR ''-'', d1, d2, CHR '' '', h1, h2, CHR '':'', i1, i2, CHR '':'', s1, s2]"
    by (simp add: T_def str_mid_def)
  have d: "dropWhile is_space (CHR '' '' # h1 # r) = h1 # r" for r using assms(1) by (simp add: plain_marks digit_ne)
  show ?thesis using assms(1) by (simp add: scan_ts_def q m scan_step scan_two scan_four plain_marks digit_ne)
qed

section \<open>The texts of a date\<close>

lemma jdn_bound:
  assumes "valid_date y m d" "y \<le> 9999"
  shows "jdn_of y m d - day_zero \<le> 4000000"
proof -
  obtain m' y' where M: "0 \<le> m'" "m' \<le> 11" "1 \<le> d" "d \<le> march_length m'"
    "m = (if 10 \<le> m' then m' - 9 else m' + 3)" "y' = (if 10 \<le> m' then y + 4799 else y + 4800)" "(14 - m) sdiv 12 = (if 10 \<le> m' then 1 else 0)"
    "d = 29 \<and> m' = 11 \<longrightarrow> isLeapYear y" using assms(1) by (rule march_year)
  have y': "0 \<le> y'" "y' \<le> 14799" using M(6) assms by (auto simp: valid_date_def split: if_splits)
  have "jdn_of y m d = d + (153 * m' + 2) sdiv 5 + 365 * y' + y' sdiv 4 - y' sdiv 100 + y' sdiv 400 - 32045"
    using M(5,6,7) by (auto simp: jdn_of_def Let_def ac_simps)
  also have "\<dots> = d + (153 * m' + 2) div 5 + 365 * y' + y' div 4 - y' div 100 + y' div 400 - 32045"
    using M(1) y' by (simp add: sdiv_pos)
  finally have j: "jdn_of y m d = d + (153 * m' + 2) div 5 + 365 * y' + y' div 4 - y' div 100 + y' div 400 - 32045" .
  have "d \<le> 31" using M(4) by (simp add: march_length_def split: if_splits)
  moreover have "(153 * m' + 2) div 5 \<le> 337" using M(2) zdiv_mono1 [of "153 * m' + 2" 1685 5] by simp
  moreover have "y' div 4 \<le> 3699" "y' div 400 \<le> 36" "0 \<le> y' div 100"
    using y' zdiv_mono1 [of y' 14799 4] zdiv_mono1 [of y' 14799 400] by (simp_all add: pos_imp_zdiv_nonneg_iff)
  ultimately show ?thesis using j y' by (simp add: day_zero_def)
qed

lemma date_small: "valid_date y m d \<Longrightarrow> 1 \<le> m \<and> m \<le> 12 \<and> 1 \<le> d \<and> d \<le> 31"
  by (auto simp: valid_date_def getDaysInMonthVal_def month_lengths_def nth_Cons' split: if_splits)

text \<open>The fields of a date as digits.\<close>

lemma zpad_digits: "0 \<le> n \<Longrightarrow> n \<le> 99 \<Longrightarrow> \<exists>a c. zpad 2 n = [a, c] \<and> is_digit a \<and> is_digit c \<and> dec_val a * 10 + dec_val c = n"
  using two_digits_facts [of n] zpad2 [of n] by metis

lemma time_small: "valid_time h mi s \<Longrightarrow> 0 \<le> h \<and> h \<le> 99" "valid_time h mi s \<Longrightarrow> 0 \<le> mi \<and> mi \<le> 59" "valid_time h mi s \<Longrightarrow> 0 \<le> s \<and> s \<le> 59"
  by (simp_all add: valid_time_def)

lemma date_fields:
  assumes "valid_date y m d" "0 \<le> h \<and> h \<le> 99" "0 \<le> mi \<and> mi \<le> 59" "0 \<le> s \<and> s \<le> 59" "y \<le> 9999"
  obtains y1 y2 y3 y4 m1 m2 d1 d2 h1 h2 i1 i2 s1 s2 where "list_all is_digit [y1, y2, y3, y4, m1, m2, d1, d2, h1, h2, i1, i2, s1, s2]"
    "zpad 4 y = [y1, y2, y3, y4]" "zpad 2 m = [m1, m2]" "zpad 2 d = [d1, d2]" "zpad 2 h = [h1, h2]" "zpad 2 mi = [i1, i2]" "zpad 2 s = [s1, s2]"
    "(dec_val y1 * 10 + dec_val y2) * 100 + (dec_val y3 * 10 + dec_val y4) = y" "dec_val m1 * 10 + dec_val m2 = m" "dec_val d1 * 10 + dec_val d2 = d"
    "dec_val h1 * 10 + dec_val h2 = h" "dec_val i1 * 10 + dec_val i2 = mi" "dec_val s1 * 10 + dec_val s2 = s"
proof -
  note b = date_small [OF assms(1)] assms(2-4)
  have y: "0 \<le> y" using assms(1) by (simp add: valid_date_def)
  then have q: "0 \<le> y div 100" "y div 100 \<le> 99" "0 \<le> y mod 100" "y mod 100 \<le> 99" using assms(5) by presburger+
  obtain y1 y2 where Y: "two_digits (y div 100) = [y1, y2]" "is_digit y1" "is_digit y2" "dec_val y1 * 10 + dec_val y2 = y div 100"
    using q(1,2) by (rule two_digits_facts)
  obtain y3 y4 where Z: "two_digits (y mod 100) = [y3, y4]" "is_digit y3" "is_digit y4" "dec_val y3 * 10 + dec_val y4 = y mod 100"
    using q(3,4) by (rule two_digits_facts)
  note two = zpad_digits
  obtain m1 m2 where M: "zpad 2 m = [m1, m2]" "is_digit m1" "is_digit m2" "dec_val m1 * 10 + dec_val m2 = m" using two [of m] b by auto
  obtain d1 d2 where D: "zpad 2 d = [d1, d2]" "is_digit d1" "is_digit d2" "dec_val d1 * 10 + dec_val d2 = d" using two [of d] b by auto
  obtain h1 h2 where H: "zpad 2 h = [h1, h2]" "is_digit h1" "is_digit h2" "dec_val h1 * 10 + dec_val h2 = h" using two [of h] b by auto
  obtain i1 i2 where I: "zpad 2 mi = [i1, i2]" "is_digit i1" "is_digit i2" "dec_val i1 * 10 + dec_val i2 = mi" using two [of mi] b by auto
  obtain s1 s2 where S: "zpad 2 s = [s1, s2]" "is_digit s1" "is_digit s2" "dec_val s1 * 10 + dec_val s2 = s" using two [of s] b by auto
  have "zpad 4 y = [y1, y2, y3, y4]" unfolding zpad4 [OF y assms(5)] Y(1) Z(1) by simp
  moreover have "(dec_val y1 * 10 + dec_val y2) * 100 + (dec_val y3 * 10 + dec_val y4) = y" unfolding Y(4) Z(4) by simp
  moreover have "list_all is_digit [y1, y2, y3, y4, m1, m2, d1, d2, h1, h2, i1, i2, s1, s2]"
    by (simp add: Y(2,3) Z(2,3) M(2,3) D(2,3) H(2,3) I(2,3) S(2,3))
  ultimately show thesis by (rule that [OF _ _ M(1) D(1) H(1) I(1) S(1) _ M(4) D(4) H(4) I(4) S(4), rotated])
qed

lemma parse_none:
  assumes "trimmed t = t" "strip_zone t = Some (t, None)" "blank_t t = t" "ampm t = (False, False)" "t \<noteq> []" "\<not> str_startWith t (''{ts '' @ [apostrophe])"
    "scan_plain t = None"
  shows "parseDateTimeStr lt t = None"
  unfolding parseDateTimeStr_def using assms by simp

lemma parse_ts:
  assumes "trimmed t = t" "strip_zone t = Some (t, None)" "blank_t t = t" "ampm t = (False, False)" "t \<noteq> []" "str_startWith t (''{ts '' @ [apostrophe])"
    "scan_ts t = Some ((y, m, d), h, mi, s)" "1 \<le> m \<and> m \<le> 12 \<and> 1 \<le> d \<and> d \<le> 31" "valid_time h mi s"
  shows "parseDateTimeStr lt t = Some (tmToDays (tm_of (y, m, d) h mi s))"
proof -
  have "half_day False False h = h" by (simp add: half_day_def)
  then show ?thesis unfolding parseDateTimeStr_def using assms by (simp add: valid_time_def)
qed

lemma ts_text_back:
  assumes "valid_date y m d" "valid_time h mi s" "y \<le> 9999"
  shows "\<exists>txt. date_text 0 (tmToDays (tm_of (y, m, d) h mi s)) = Inr txt \<and> parseDateTimeStr lt txt = Some (tmToDays (tm_of (y, m, d) h mi s))"
proof -
  obtain y1 y2 y3 y4 m1 m2 d1 d2 h1 h2 i1 i2 s1 s2 where F: "list_all is_digit [y1, y2, y3, y4, m1, m2, d1, d2, h1, h2, i1, i2, s1, s2]"
    "zpad 4 y = [y1, y2, y3, y4]" "zpad 2 m = [m1, m2]" "zpad 2 d = [d1, d2]" "zpad 2 h = [h1, h2]" "zpad 2 mi = [i1, i2]" "zpad 2 s = [s1, s2]"
    "(dec_val y1 * 10 + dec_val y2) * 100 + (dec_val y3 * 10 + dec_val y4) = y" "dec_val m1 * 10 + dec_val m2 = m" "dec_val d1 * 10 + dec_val d2 = d"
    "dec_val h1 * 10 + dec_val h2 = h" "dec_val i1 * 10 + dec_val i2 = mi" "dec_val s1 * 10 + dec_val s2 = s"
    using assms(1) time_small [OF assms(2)] assms(3) by (rule date_fields)
  let ?D = "tmToDays (tm_of (y, m, d) h mi s)"
  let ?T = "[CHR ''{'', CHR ''t'', CHR ''s'', CHR '' '', apostrophe, y1, y2, y3, y4, CHR ''-'', m1, m2, CHR ''-'', d1, d2,
     CHR '' '', h1, h2, CHR '':'', i1, i2, CHR '':'', s1, s2, apostrophe, CHR ''}'']"
  have "date_text 0 ?D = Inr ?T" using fields_back [OF assms(1,2) jdn_bound [OF assms(1,3)]] F(2-7) by (simp add: date_text_def Let_def)
  moreover have z: "strip_zone ?T = Some (?T, None)" unfolding strip_zone_def ts_zone [OF F(1)] by simp
  have r: "scan_ts ?T = Some ((y, m, d), h, mi, s)" using read_ts [OF F(1)] F(8-13) by (simp only:)
  have "parseDateTimeStr lt ?T = Some ?D"
    by (rule parse_ts [OF ts_blank(5) [OF F(1)] z ts_blank(1,2) [OF F(1)] _ ts_blank(3) [OF F(1)] r date_small [OF assms(1)] assms(2)]) simp
  ultimately show ?thesis by blast
qed

text \<open>A text that starts with a brace but not as a timestamp is not a date.\<close>

lemma brace_number: "scan_number (CHR ''{'' # r) = None"
proof -
  have "\<not> is_space (CHR ''{'')" "take_sign (CHR ''{'' # r) = (False, CHR ''{'' # r)" by (rule plain_marks, simp add: take_sign_def)
  then show ?thesis by (simp add: scan_number_def plain_marks case_prod_beta)
qed

lemma brace_plain: "scan_plain (CHR ''{'' # r) = None"
  by (simp add: scan_plain_def scan_fields_def scan_date_def scan_time_def date_part_def brace_number orelse_def)

lemma positions14: "rev [0 ..< 14] = [13, 12, 11, 10, 9, 8, 7, 6, 5, 4, 3, 2, 1, 0]" "[1 ..< 13] = [1, 2, 3, 4, 5, 6, 7, 8, 9, 10, 11, 12]"
    "[1 ..< 15] = [1, 2, 3, 4, 5, 6, 7, 8, 9, 10, 11, 12, 13, 14]"
  by code_simp+

lemma brace_ampm:
  assumes "drop (length t - 2) t = [apostrophe, CHR ''}'']" "2 \<le> length t"
  shows "ampm t = (False, False)"
proof -
  have "drop (length t - 2) (map to_upper t) = [apostrophe, CHR ''}'']" using assms(1) last_two(1) by (simp add: drop_map)
  moreover have "t \<noteq> []" using assms(2) by auto
  ultimately show ?thesis using last_two(1) assms(2) by (simp add: ampm_def str_endsWith_def numeral_2_eq_2)
qed

lemma d_text_refused:
  assumes "list_all is_digit [y1, y2, y3, y4, m1, m2, d1, d2]"
  shows "parseDateTimeStr lt [CHR ''{'', CHR ''d'', CHR '' '', apostrophe, y1, y2, y3, y4, CHR ''-'', m1, m2, CHR ''-'', d1, d2, apostrophe, CHR ''}''] = None"
    (is "parseDateTimeStr lt ?T = None")
proof (rule parse_none)
  show "trimmed ?T = ?T" by (rule trimmed_id) (simp_all add: plain_marks)
  show "strip_zone ?T = Some (?T, None)" using assms by (simp add: strip_zone_def digit_ne digit_ne(1-9) [THEN not_sym] apostrophe_def)
  have "find (t_at ?T) [1 ..< length ?T - 1] = None" using assms by (simp add: positions14 t_at_def digit_ne apostrophe_def)
  then show "blank_t ?T = ?T" by (simp add: blank_t_def)
  show "ampm ?T = (False, False)" by (rule brace_ampm) simp_all
  show "scan_plain ?T = None" by (rule brace_plain)
qed (simp_all add: str_startWith_def)

lemma t_text_refused:
  assumes "list_all is_digit [h1, h2, i1, i2, s1, s2]"
  shows "parseDateTimeStr lt [CHR ''{'', CHR ''t'', CHR '' '', apostrophe, h1, h2, CHR '':'', i1, i2, CHR '':'', s1, s2, apostrophe, CHR ''}''] = None"
    (is "parseDateTimeStr lt ?T = None")
proof (rule parse_none)
  show "trimmed ?T = ?T" by (rule trimmed_id) (simp_all add: plain_marks)
  have "find (\<lambda>i. ?T ! i \<in> {CHR ''+'', CHR ''-''}) (rev [0 ..< length ?T]) = None"
    using assms by (simp add: positions14 digit_ne apostrophe_def)
  then have "find_offset ?T = None" by (simp add: find_offset_def)
  then show "strip_zone ?T = Some (?T, None)" unfolding strip_zone_def by simp
  have "find (t_at ?T) [1 ..< length ?T - 1] = None" using assms by (simp add: positions14 t_at_def digit_ne apostrophe_def)
  then show "blank_t ?T = ?T" by (simp add: blank_t_def)
  show "ampm ?T = (False, False)" by (rule brace_ampm) simp_all
  show "scan_plain ?T = None" by (rule brace_plain)
qed (simp_all add: str_startWith_def)

section \<open>The form with a meridiem\<close>

lemma positions22: "rev [0 ..< 22] = [21, 20, 19, 18, 17, 16, 15, 14, 13, 12, 11, 10, 9, 8, 7, 6, 5, 4, 3, 2, 1, 0]"
    "[1 ..< 21] = [1, 2, 3, 4, 5, 6, 7, 8, 9, 10, 11, 12, 13, 14, 15, 16, 17, 18, 19, 20]"
  by code_simp+

lemma us_scan:
  assumes "list_all is_digit [y1, y2, y3, y4, m1, m2, d1, d2, h1, h2, i1, i2, s1, s2]"
    "1000 \<le> (dec_val y1 * 10 + dec_val y2) * 100 + (dec_val y3 * 10 + dec_val y4)" "1 \<le> dec_val m1 * 10 + dec_val m2" "dec_val m1 * 10 + dec_val m2 \<le> 12"
  shows "scan_plain [m1, m2, CHR ''/'', d1, d2, CHR ''/'', y1, y2, y3, y4, CHR '' '', h1, h2, CHR '':'', i1, i2, CHR '':'', s1, s2] =
    Some (((dec_val y1 * 10 + dec_val y2) * 100 + (dec_val y3 * 10 + dec_val y4), dec_val m1 * 10 + dec_val m2, dec_val d1 * 10 + dec_val d2),
      dec_val h1 * 10 + dec_val h2, dec_val i1 * 10 + dec_val i2, dec_val s1 * 10 + dec_val s2)" (is "scan_plain ?W = Some ?r")
proof -
  have 1: "scan_date (CHR ''-'') ?W = None"
    using assms(1) by (simp add: scan_date_def date_part_def scan_step scan_two plain_marks)
  have 2: "scan_date (CHR ''/'') ?W = Some \<lparr>sc_date = (dec_val m1 * 10 + dec_val m2, dec_val d1 * 10 + dec_val d2,
      (dec_val y1 * 10 + dec_val y2) * 100 + (dec_val y3 * 10 + dec_val y4)), sc_time = Some (dec_val h1 * 10 + dec_val h2, dec_val i1 * 10 + dec_val i2,
      dec_val s1 * 10 + dec_val s2), sc_seconds = True, sc_hadDate = True, sc_rest = []\<rparr>"
    using assms(1) by (simp add: scan_date_def date_part_def scan_step scan_two scan_four plain_marks digit_ne)
  show ?thesis using assms(2-4) by (simp add: scan_plain_def scan_fields_def 1 2 orelse_def year_month_day_def tail_ok_def)
qed

lemma parse_half:
  assumes "trimmed t = t" "strip_zone t = Some (t, None)" "blank_t t = t" "ampm t = (am, pm)" "am \<or> pm" "t \<noteq> []" "\<not> str_startWith t (''{ts '' @ [apostrophe])"
    "trimmed (str_left t (int (length t) - 2)) = w" "scan_plain w = Some ((y, m, d), h0, mi, s)" "half_day am pm h0 = h"
    "1 \<le> m \<and> m \<le> 12 \<and> 1 \<le> d \<and> d \<le> 31" "valid_time h mi s"
  shows "parseDateTimeStr lt t = Some (tmToDays (tm_of (y, m, d) h mi s))"
  unfolding parseDateTimeStr_def using assms by (simp add: valid_time_def)

lemma us_parse:
  assumes "list_all is_digit [y1, y2, y3, y4, m1, m2, d1, d2, h1, h2, i1, i2, s1, s2]"
    "1000 \<le> (dec_val y1 * 10 + dec_val y2) * 100 + (dec_val y3 * 10 + dec_val y4)" "1 \<le> dec_val m1 * 10 + dec_val m2" "dec_val m1 * 10 + dec_val m2 \<le> 12"
    "1 \<le> dec_val d1 * 10 + dec_val d2" "dec_val d1 * 10 + dec_val d2 \<le> 31"
    "a \<in> {CHR ''A'', CHR ''P''}" "half_day (a = CHR ''A'') (a = CHR ''P'') (dec_val h1 * 10 + dec_val h2) = h"
    "valid_time h (dec_val i1 * 10 + dec_val i2) (dec_val s1 * 10 + dec_val s2)"
  shows "parseDateTimeStr lt [m1, m2, CHR ''/'', d1, d2, CHR ''/'', y1, y2, y3, y4, CHR '' '', h1, h2, CHR '':'', i1, i2, CHR '':'', s1, s2, CHR '' '', a, CHR ''M''] =
    Some (tmToDays (tm_of ((dec_val y1 * 10 + dec_val y2) * 100 + (dec_val y3 * 10 + dec_val y4), dec_val m1 * 10 + dec_val m2, dec_val d1 * 10 + dec_val d2)
      h (dec_val i1 * 10 + dec_val i2) (dec_val s1 * 10 + dec_val s2)))" (is "parseDateTimeStr lt ?T = Some ?D")
proof -
  let ?W = "[m1, m2, CHR ''/'', d1, d2, CHR ''/'', y1, y2, y3, y4, CHR '' '', h1, h2, CHR '':'', i1, i2, CHR '':'', s1, s2]"
  have d: "\<not> is_space m1" "\<not> is_space s2" using assms(1) by (simp_all add: digit_ne)
  have m: "\<not> is_space (CHR ''M'')" by code_simp
  have t: "trimmed ?T = ?T" by (rule trimmed_id) (use d m in simp_all)
  have "find (\<lambda>i. ?T ! i \<in> {CHR ''+'', CHR ''-''}) (rev [0 ..< length ?T]) = None"
    using assms(1,7) by (auto simp: positions22 digit_ne)
  then have "find_offset ?T = None" by (simp add: find_offset_def)
  then have z: "strip_zone ?T = Some (?T, None)" unfolding strip_zone_def by simp
  have "find (t_at ?T) [1 ..< length ?T - 1] = None" using assms(1,7) by (auto simp: positions22 t_at_def digit_ne)
  then have b: "blank_t ?T = ?T" by (simp add: blank_t_def)
  have "drop (length ?T - 2) ?T = [a, CHR ''M'']" by simp
  then have u: "drop (length ?T - 2) (map to_upper ?T) = map to_upper [a, CHR ''M'']" by (simp only: drop_map)
  have c: "map to_upper ''AM'' = ''AM''" "map to_upper ''PM'' = ''PM''" by code_simp+
  have ap: "ampm ?T = (a = CHR ''A'', a = CHR ''P'')"
    using assms(7) u c last_two(2,3) by (auto simp: ampm_def str_endsWith_def)
  have l: "trimmed (str_left ?T (int (length ?T) - 2)) = ?W"
  proof -
    have sp: "dropWhile is_space (rev (?W @ '' '')) = rev ?W" using d plain_marks by simp
    have "str_left ?T (int (length ?T) - 2) = ?W @ '' ''" by (simp add: str_left_def)
    moreover have "dropWhile is_space (?W @ '' '') = ?W @ '' ''" using d by simp
    ultimately show ?thesis using sp by (simp only: trimmed_eq strip_def rev_rev_ident)
  qed
  have n: "\<not> str_startWith ?T (''{ts '' @ [apostrophe])" using assms(1) by (auto simp: str_startWith_def is_digit_def char_le_nat)
  show ?thesis
    by (rule parse_half [OF t z b ap _ _ n l us_scan [OF assms(1-4)] assms(8) _ assms(9)]) (use assms(3-7) in auto)
qed

text \<open>The hour of the clock with a meridiem.\<close>

definition hour12 :: "int \<Rightarrow> int" where
  "hour12 h = (if h smod 12 = 0 then 12 else h smod 12)"

lemma hour12:
  assumes "0 \<le> h" "h \<le> 23"
  shows "1 \<le> hour12 h \<and> hour12 h \<le> 12 \<and> half_day (h < 12) (\<not> h < 12) (hour12 h) = h"
proof (cases "h < 12")
  case True
  then have "h smod 12 = h" using assms by (simp add: smod_pos)
  with True assms show ?thesis by (auto simp: hour12_def half_day_def)
next
  case False
  have "(h - 12 + 12) mod 12 = (h - 12) mod 12" by (rule mod_add_self2)
  also have "\<dots> = h - 12" using False assms by (intro mod_pos_pos_trivial) simp_all
  finally have "h smod 12 = h - 12" using assms by (simp add: smod_pos)
  with False assms show ?thesis by (auto simp: hour12_def half_day_def)
qed

lemma us_text_back:
  assumes "valid_date y m d" "valid_time h mi s" "1000 \<le> y" "y \<le> 9999"
  shows "\<exists>txt. date_text 3 (tmToDays (tm_of (y, m, d) h mi s)) = Inr txt \<and> parseDateTimeStr lt txt = Some (tmToDays (tm_of (y, m, d) h mi s))"
proof -
  have h: "0 \<le> h" "h \<le> 23" using assms(2) by (simp_all add: valid_time_def)
  obtain y1 y2 y3 y4 m1 m2 d1 d2 h1 h2 i1 i2 s1 s2 where F: "list_all is_digit [y1, y2, y3, y4, m1, m2, d1, d2, h1, h2, i1, i2, s1, s2]"
    "zpad 4 y = [y1, y2, y3, y4]" "zpad 2 m = [m1, m2]" "zpad 2 d = [d1, d2]" "zpad 2 h = [h1, h2]" "zpad 2 mi = [i1, i2]" "zpad 2 s = [s1, s2]"
    "(dec_val y1 * 10 + dec_val y2) * 100 + (dec_val y3 * 10 + dec_val y4) = y" "dec_val m1 * 10 + dec_val m2 = m" "dec_val d1 * 10 + dec_val d2 = d"
    "dec_val h1 * 10 + dec_val h2 = h" "dec_val i1 * 10 + dec_val i2 = mi" "dec_val s1 * 10 + dec_val s2 = s"
    using assms(1) time_small [OF assms(2)] assms(4) by (rule date_fields)
  obtain k1 k2 where K: "zpad 2 (hour12 h) = [k1, k2]" "is_digit k1" "is_digit k2" "dec_val k1 * 10 + dec_val k2 = hour12 h"
    using zpad_digits [of "hour12 h"] hour12 [OF h] by auto
  define a where "a = (if h < 12 then CHR ''A'' else CHR ''P'')"
  let ?T = "[m1, m2, CHR ''/'', d1, d2, CHR ''/'', y1, y2, y3, y4, CHR '' '', k1, k2, CHR '':'', i1, i2, CHR '':'', s1, s2, CHR '' '', a, CHR ''M'']"
  have "date_text 3 (tmToDays (tm_of (y, m, d) h mi s)) = Inr ?T"
    using fields_back [OF assms(1,2) jdn_bound [OF assms(1,4)]] F(2-7) K(1) by (simp add: date_text_def Let_def hour12_def [symmetric] a_def)
  moreover have "parseDateTimeStr lt ?T = Some (tmToDays (tm_of (y, m, d) h mi s))"
  proof -
    have d: "list_all is_digit [y1, y2, y3, y4, m1, m2, d1, d2, k1, k2, i1, i2, s1, s2]" using F(1) K(2,3) by simp
    have a: "(a = CHR ''A'') = (h < 12)" "(a = CHR ''P'') = (\<not> h < 12)" "a \<in> {CHR ''A'', CHR ''P''}" by (simp_all add: a_def)
    have "half_day (a = CHR ''A'') (a = CHR ''P'') (dec_val k1 * 10 + dec_val k2) = h" using hour12 [OF h] unfolding a K(4) by blast
    note us_parse [OF d _ _ _ _ _ a(3) this, unfolded F(8-13), OF assms(3)]
    then show ?thesis using date_small [OF assms(1)] assms(2) by blast
  qed
  ultimately show ?thesis by blast
qed

end
