(* ===== verification/DateProps.thy ===== *)
theory DateProps
  imports DateParse
begin

text \<open>
  What the date functions promise: the numbering of the days is that of a calendar counted day by day, a second of the
  years 0 to 9999 survives the conversion, and the last half second of a day does not.
\<close>

section \<open>Counting days\<close>

definition next_date :: "int \<Rightarrow> int \<Rightarrow> int \<Rightarrow> int \<times> int \<times> int" where
  "next_date y m d = (if d < getDaysInMonthVal y (m - 1) then (y, m, d + 1) else if m < 12 then (y, m + 1, 1) else (y + 1, 1, 1))"

lemma div_succ: "0 < k \<Longrightarrow> (n + 1) div k = n div k + (if (n + 1) mod k = 0 then 1 else (0::int))"
proof (cases "(n + 1) mod k = 0")
  case True
  assume k: "0 < k"
  have "n = k * ((n + 1) div k - 1) + (k - 1)" using True mult_div_mod_eq [of k "n + 1"] by (simp add: algebra_simps)
  then have "n div k = (n + 1) div k - 1" using k by (intro div_is [of _ _ _ "k - 1"]) simp_all
  with True show ?thesis by simp
next
  case False
  assume k: "0 < k"
  have "n = k * ((n + 1) div k) + ((n + 1) mod k - 1)" using mult_div_mod_eq [of k "n + 1"] by linarith
  then have "n div k = (n + 1) div k" using k False pos_mod_sign [of k "n + 1"] pos_mod_bound [of k "n + 1"]
    by (intro div_is [of _ _ _ "(n + 1) mod k - 1"]) linarith+
  with False show ?thesis by simp
qed

text \<open>The day number by the month of the calendar.\<close>

definition year_base :: "int \<Rightarrow> int" where
  "year_base n = 365 * n + n div 4 - n div 100 + n div 400 - 32045"

lemma jdn_late: "3 \<le> m \<Longrightarrow> m \<le> 12 \<Longrightarrow> 0 \<le> y \<Longrightarrow> jdn_of y m d = d + (153 * (m - 3) + 2) div 5 + year_base (y + 4800)"
  by (simp add: jdn_of_def sdiv_pos year_base_def Let_def)

lemma jdn_early: "1 \<le> m \<Longrightarrow> m \<le> 2 \<Longrightarrow> 0 \<le> y \<Longrightarrow> jdn_of y m d = d + (153 * (m + 9) + 2) div 5 + year_base (y + 4799)"
proof -
  assume a: "1 \<le> m" "m \<le> 2" "0 \<le> y"
  then have "(14 - m) div 12 = 1" by (intro div_is [of _ _ _ "2 - m"]) simp_all
  with a show ?thesis by (simp add: jdn_of_def sdiv_pos year_base_def Let_def add.commute [of y])
qed

lemma year_sum: "a' = a + p \<Longrightarrow> b' = b + q \<Longrightarrow> c' = c + r \<Longrightarrow> p - q + r = w \<Longrightarrow>
    365 * (n + 1) + a' - b' + c' - k = 365 * n + a - b + c - k + 365 + (w :: int)"
  by simp

lemma leap_day: "0 \<le> y \<Longrightarrow> year_base (y + 4800) = year_base (y + 4799) + 365 + (if isLeapYear y then 1 else 0)"
proof -
  assume y: "0 \<le> y"
  have m: "(y + 4800) mod 4 = y mod 4" "(y + 4800) mod 100 = y mod 100" "(y + 4800) mod 400 = y mod 400"
    using mod_mult_self1 [of y 1200 4] mod_mult_self1 [of y 48 100] mod_mult_self1 [of y 12 400] by simp_all
  have "400 dvd y \<Longrightarrow> 100 dvd y" "100 dvd y \<Longrightarrow> 4 dvd y" by (rule dvd_trans [rotated], assumption, simp)+
  then have d: "y mod 400 = 0 \<Longrightarrow> y mod 100 = 0" "y mod 100 = 0 \<Longrightarrow> y mod 4 = 0" by (simp_all only: mod_eq_0_iff_dvd)
  have s: "(y + 4799) + 1 = y + 4800" by simp
  note 4 = div_succ [of 4 "y + 4799", OF zero_less_numeral, unfolded s m] and 100 = div_succ [of 100 "y + 4799", OF zero_less_numeral, unfolded s m] and 400 = div_succ [of 400 "y + 4799", OF zero_less_numeral, unfolded s m]
  have "(if p then 1 else 0) - (if q then 1 else 0) + (if r then 1 else 0) = (if p \<and> \<not> q \<or> r then 1 else (0::int))" if "r \<Longrightarrow> q" "q \<Longrightarrow> p" for p q r
    using that by auto
  note b = this [of "y mod 400 = 0" "y mod 100 = 0" "y mod 4 = 0", OF d]
  from year_sum [OF 4 100 400 b, of "y + 4799" 32045, unfolded s]
  show ?thesis unfolding year_base_def leap_mod [OF y] .
qed

lemma month_cases: "(1::int) \<le> m \<Longrightarrow> m \<le> 12 \<Longrightarrow> m = 1 \<or> m = 2 \<or> m = 3 \<or> m = 4 \<or> m = 5 \<or> m = 6 \<or> m = 7 \<or> m = 8 \<or> m = 9 \<or> m = 10 \<or> m = 11 \<or> m = 12"
  by presburger

lemma next_jdn:
  assumes "valid_date y m d"
  shows "case next_date y m d of (y', m', d') \<Rightarrow> valid_date y' m' d' \<and> jdn_of y' m' d' = jdn_of y m d + 1"
proof (cases "d < getDaysInMonthVal y (m - 1)")
  case True
  then show ?thesis using assms by (simp add: next_date_def valid_date_def jdn_of_def Let_def)
next
  case False
  then have d: "d = getDaysInMonthVal y (m - 1)" and v: "0 \<le> y" "1 \<le> m" "m \<le> 12" using assms by (simp_all add: valid_date_def)
  have l: "isLeapYear y \<Longrightarrow> 1 \<le> (29::int)" by simp
  have e: "y + 1 + 4799 = y + 4800" by simp
  show ?thesis using month_cases [OF v(2,3)] d v(1) leap_day [OF v(1)]
    by (elim disjE; simp add: next_date_def valid_date_def getDaysInMonthVal_def month_lengths_def jdn_late jdn_early e split: if_splits)
qed

section \<open>The last half second\<close>

lemma late_clock:
  assumes "near f q (1 / 536870912)" "1 - 1 / 200000 \<le> q" "q < 1"
  shows "clock_of f = Inr (24, 0, 0)"
proof -
  have m: "near (dmul f (Fin 86400)) (q * 86400) (1 / 2048)"
    using assms(2,3) by (intro scale_near [OF assms(1), where M = 131072]; (linarith | (simp; fail)))
  have "near (dadd (dmul f (Fin 86400)) (Fin (1 / 2))) (q * 86400 + 1 / 2) (1 / 1024)"
    using assms(2,3) by (intro add_near [OF m near_rat, where M = 131072]; (linarith | (simp; fail)))
  then obtain z where z: "dadd (dmul f (Fin 86400)) (Fin (1 / 2)) = Fin z" "\<bar>z - (q * 86400 + 1 / 2)\<bar> \<le> 1 / 1024" by (rule nearE)
  have "0 \<le> z" "86400 \<le> z" "z < 86401" using z(2) assms(2,3) by linarith+
  then have "trunc z = 86400" using trunc_between [of z 86400] by simp
  with z(1) show ?thesis by (simp add: clock_of_def to_range_def int_min_def int_max_def sdiv_pos smod_pos)
qed

lemma parse_ts_late:
  assumes "trimmed t = t" "strip_zone t = Some (t, None)" "blank_t t = t" "ampm t = (False, False)" "t \<noteq> []" "str_startWith t (''{ts '' @ [apostrophe])"
    "scan_ts t = Some ((y, m, d), 24, mi, s)"
  shows "parseDateTimeStr lt t = None"
proof -
  have "half_day False False 24 = 24" by (simp add: half_day_def)
  then show ?thesis unfolding parseDateTimeStr_def using assms by simp
qed

section \<open>Months out of range\<close>

lemma month_up_eq: "month_up t = (if tm_mon t < 0 then t\<lparr>tm_mon := tm_mon t mod 12, tm_year := tm_year t + tm_mon t div 12\<rparr> else t)"
proof (induction t rule: month_up.induct)
  case (1 t)
  show ?case
  proof (cases "tm_mon t < 0")
    case True
    let ?u = "t\<lparr>tm_mon := tm_mon t + 12, tm_year := tm_year t - 1\<rparr>"
    have u: "month_up t = month_up ?u" using True by (simp add: month_up.simps [of t])
    show ?thesis
    proof (cases "tm_mon t + 12 < 0")
      case True
      then show ?thesis unfolding u 1 [OF \<open>tm_mon t < 0\<close>] by simp
    next
      case False
      with True have "tm_mon t div 12 = - 1" by (intro div_is [of _ _ _ "tm_mon t + 12"]) simp_all
      then have "tm_mon t div 12 = - 1" "tm_mon t mod 12 = tm_mon t + 12" using mult_div_mod_eq [of 12 "tm_mon t"] by simp_all
      with False True show ?thesis unfolding u 1 [OF \<open>tm_mon t < 0\<close>] by simp
    qed
  qed (simp add: month_up.simps [of t])
qed

lemma month_down_eq: "tm_mon (month_down t) = tm_mon t mod 12 \<and> month_down t = t\<lparr>tm_mon := tm_mon t mod 12, tm_year := tm_year t + tm_mon t div 12\<rparr>"
  if "0 \<le> tm_mon t"
  using that
proof (induction t rule: month_down.induct)
  case (1 t)
  show ?case
  proof (cases "12 \<le> tm_mon t")
    case True
    let ?u = "t\<lparr>tm_mon := tm_mon t - 12, tm_year := tm_year t + 1\<rparr>"
    have u: "month_down t = month_down ?u" using True by (simp add: month_down.simps [of t])
    have e: "(tm_mon t - 12) mod 12 = tm_mon t mod 12" "(tm_mon t - 12) div 12 = tm_mon t div 12 - 1"
      using mod_add_self2 [of "tm_mon t - 12" 12] div_add_self2 [of 12 "tm_mon t - 12"] by simp_all
    have "0 \<le> tm_mon ?u" using True by simp
    from 1(1) [OF True this] show ?thesis unfolding u by (simp add: e)
  next
    case False
    then show ?thesis using 1(2) by (simp add: month_down.simps [of t])
  qed
qed

lemma month_range: "month_down (month_up t) = t\<lparr>tm_mon := tm_mon t mod 12, tm_year := tm_year t + tm_mon t div 12\<rparr>"
proof (cases "tm_mon t < 0")
  case True
  let ?u = "t\<lparr>tm_mon := tm_mon t mod 12, tm_year := tm_year t + tm_mon t div 12\<rparr>"
  have "0 \<le> tm_mon t mod 12" "tm_mon t mod 12 < 12" by simp_all
  then have "month_down ?u = ?u" by (simp add: month_down.simps [of ?u])
  with True show ?thesis by (simp add: month_up_eq [of t])
qed (simp add: month_up_eq [of t] month_down_eq)

lemma normalize_clips:
  assumes "0 \<le> Y" "Y \<le> 9999" "1 \<le> d" "valid_time h mi s" "m' = m mod 12" "Y = y + m div 12" "d' = min d (getDaysInMonthVal Y m')"
  shows "normalizeTm \<lparr>tm_year = y - 1900, tm_mon = m, tm_mday = d, tm_hour = h, tm_min = mi, tm_sec = s, tm_wday = w, tm_yday = n\<rparr>
    = daysToTm (tmToDays (tm_of (Y, m' + 1, d') h mi s)) \<and> valid_date Y (m' + 1) d'"
proof
  have m: "0 \<le> m'" "m' < 12" using assms(5) by simp_all
  have "1 \<le> getDaysInMonthVal Y m'" using m by (simp add: getDaysInMonthVal_def month_lengths_def nth_Cons')
  then show "valid_date Y (m' + 1) d'" using assms(1,3,7) m by (simp add: valid_date_def)
  have "Y - 1900 = y - 1900 + m div 12" using assms(6) by simp
  then show "normalizeTm \<lparr>tm_year = y - 1900, tm_mon = m, tm_mday = d, tm_hour = h, tm_min = mi, tm_sec = s, tm_wday = w, tm_yday = n\<rparr>
    = daysToTm (tmToDays (tm_of (Y, m' + 1, d') h mi s))"
    using assms(5-7) by (simp add: normalizeTm_def month_range Let_def min_def tmToDays_def tm_of_def)
qed

section \<open>What the dates promise\<close>

text \<open>C19: The day numbers are those of the proleptic Gregorian calendar: the date after a valid date is valid and has the
  next number, and the code's formula gives every date back from its number.\<close>

theorem days_consecutive:
  assumes "valid_date y m d" "next_date y m d = (y', m', d')"
  shows "civil_of (jdn_of y m d) = (y, m, d) \<and> valid_date y' m' d' \<and> jdn_of y' m' d' = jdn_of y m d + 1 \<and> jdn_of 1899 12 30 = day_zero"
proof -
  have "jdn_of 1899 12 30 = day_zero" by code_simp
  then show ?thesis using civil_jdn(1) [OF assms(1)] next_jdn [OF assms(1)] assms(2) by simp
qed

lemma days_consecutive_witness:
  "civil_of (jdn_of 2100 2 28) = (2100, 2, 28) \<and> valid_date 2100 3 1 \<and> jdn_of 2100 3 1 = jdn_of 2100 2 28 + 1 \<and> jdn_of 1899 12 30 = day_zero"
  by (rule days_consecutive) code_simp+

text \<open>C9: Every second of the years 0 to 9999 survives the conversion to a double and back, in spite of the rounding; the
  weekday is counted from 1899-12-30, a Saturday.\<close>

theorem date_fields_exact:
  assumes "valid_date y m d" "valid_time h mi s" "y \<le> 9999"
  shows "daysToTm (tmToDays (tm_of (y, m, d) h mi s)) = Inr \<lparr>tm_year = y - 1900, tm_mon = m - 1, tm_mday = d, tm_hour = h, tm_min = mi, tm_sec = s,
      tm_wday = (6 + (jdn_of y m d - day_zero)) mod 7, tm_yday = yday_of y (m - 1) d\<rparr>"
proof -
  have "(6 + N smod 7 + 7) smod 7 = (6 + N) mod 7" for N :: int
  proof -
    have r: "- 7 < N smod 7" "N smod 7 = N - 7 * (N sdiv 7)" using smod_int_range [where a = N and b = 7] minus_mult_sdiv_eq_smod [of N 7] by simp_all
    then have "(6 + N smod 7 + 7) smod 7 = (6 + N smod 7 + 7) mod 7" by (simp add: smod_pos)
    moreover have "x = n - 7 * q \<Longrightarrow> 6 + x + 7 = 6 + n + 7 * (1 - q)" for x n q :: int by simp
    note e = this [OF r(2)]
    have "(6 + N smod 7 + 7) mod 7 = (6 + N) mod 7" unfolding e by (rule mod_mult_self2)
    ultimately show ?thesis by (rule trans)
  qed
  then show ?thesis by (simp only: fields_back [OF assms(1,2) jdn_bound [OF assms(1,3)]])
qed

lemma date_fields_exact_witness:
  "daysToTm (tmToDays (tm_of (2024, 2, 29) 23 59 59)) = Inr \<lparr>tm_year = 124, tm_mon = 1, tm_mday = 29, tm_hour = 23, tm_min = 59, tm_sec = 59,
      tm_wday = 4, tm_yday = 59\<rparr>"
proof -
  have "valid_date 2024 2 29" "valid_time 23 59 59" "(6 + (jdn_of 2024 2 29 - day_zero)) mod 7 = 4" "yday_of 2024 1 29 = 59" by code_simp+
  then show ?thesis using date_fields_exact [of 2024 2 29 23 59 59] by simp
qed

text \<open>C37: A month out of range carries into the year, and a day past the end of the month is set back to its last day
  (\<open>DateAdd\<close> by months); the result is always a date.\<close>

theorem normalize_clips_day:
  assumes "0 \<le> Y" "Y \<le> 9999" "1 \<le> d" "valid_time h mi s" "m' = m mod 12" "Y = y + m div 12" "d' = min d (getDaysInMonthVal Y m')"
  shows "valid_date Y (m' + 1) d' \<and> (\<exists>t. normalizeTm \<lparr>tm_year = y - 1900, tm_mon = m, tm_mday = d, tm_hour = h, tm_min = mi, tm_sec = s, tm_wday = w, tm_yday = n\<rparr> = Inr t
    \<and> tm_year t = Y - 1900 \<and> tm_mon t = m' \<and> tm_mday t = d' \<and> tm_hour t = h \<and> tm_min t = mi \<and> tm_sec t = s)"
proof -
  note c = normalize_clips [OF assms, of w n]
  have v: "valid_date Y (m' + 1) d'" using c by (rule conjunct2)
  from trans [OF conjunct1 [OF c] fields_back [OF v assms(4) jdn_bound [OF v assms(2)]]] v show ?thesis by simp
qed

lemma normalize_clips_day_witness:
  "valid_date 2023 2 28 \<and> (\<exists>t. normalizeTm \<lparr>tm_year = 124, tm_mon = - 11, tm_mday = 31, tm_hour = 0, tm_min = 0, tm_sec = 0, tm_wday = 0, tm_yday = 0\<rparr> = Inr t
    \<and> tm_year t = 123 \<and> tm_mon t = 1 \<and> tm_mday t = 28 \<and> tm_hour t = 0 \<and> tm_min t = 0 \<and> tm_sec t = 0)"
proof -
  have "(0::int) \<le> 2023" "(2023::int) \<le> 9999" "(1::int) \<le> 31" "valid_time 0 0 0" "(1::int) = (- 11) mod 12" "(2023::int) = 2024 + (- 11) div 12"
    "28 = min 31 (getDaysInMonthVal 2023 1)" by code_simp+
  from normalize_clips_day [OF this, of 0 0] show ?thesis by simp
qed

text \<open>C17: For a date in the years 0 to 9999 with a time in whole seconds, the timestamp text reads back as the same
  double; so does the text with AM or PM, for which only the years 1000 to 9999 are claimed (there the reader takes a field
  of at least 1000 for the year). The texts \<open>{d '...'}\<close> and
  \<open>{t '...'}\<close> of \<open>CreateODBCDate\<close> and \<open>CreateODBCTime\<close> are not dates for \<open>parseDateTimeStr\<close>, whatever the year.\<close>

theorem date_text_read_back:
  assumes "valid_date y m d" "valid_time h mi s" "y \<le> 9999" "date = tmToDays (tm_of (y, m, d) h mi s)"
  shows "(\<exists>txt. date_text 0 date = Inr txt \<and> parseDateTimeStr lt txt = Some date)
    \<and> (\<exists>txt. date_text 3 date = Inr txt \<and> (1000 \<le> y \<longrightarrow> parseDateTimeStr lt txt = Some date))
    \<and> (\<exists>txt. date_text 1 date = Inr txt \<and> parseDateTimeStr lt txt = None) \<and> (\<exists>txt. date_text 2 date = Inr txt \<and> parseDateTimeStr lt txt = None)"
proof (intro conjI)
  obtain y1 y2 y3 y4 m1 m2 d1 d2 h1 h2 i1 i2 s1 s2 where F: "list_all is_digit [y1, y2, y3, y4, m1, m2, d1, d2, h1, h2, i1, i2, s1, s2]"
    "zpad 4 y = [y1, y2, y3, y4]" "zpad 2 m = [m1, m2]" "zpad 2 d = [d1, d2]" "zpad 2 h = [h1, h2]" "zpad 2 mi = [i1, i2]" "zpad 2 s = [s1, s2]"
    "(dec_val y1 * 10 + dec_val y2) * 100 + (dec_val y3 * 10 + dec_val y4) = y" "dec_val m1 * 10 + dec_val m2 = m" "dec_val d1 * 10 + dec_val d2 = d"
    "dec_val h1 * 10 + dec_val h2 = h" "dec_val i1 * 10 + dec_val i2 = mi" "dec_val s1 * 10 + dec_val s2 = s"
    using assms(1) time_small [OF assms(2)] assms(3) by (rule date_fields)
  note bk = fields_back [OF assms(1,2) jdn_bound [OF assms(1,3)], folded assms(4)]
  show "\<exists>txt. date_text 0 date = Inr txt \<and> parseDateTimeStr lt txt = Some date" unfolding assms(4) by (rule ts_text_back [OF assms(1-3)])
  have "date_text 1 date = Inr [CHR ''{'', CHR ''d'', CHR '' '', apostrophe, y1, y2, y3, y4, CHR ''-'', m1, m2, CHR ''-'', d1, d2, apostrophe, CHR ''}'']"
    using bk F(2-7) by (simp add: date_text_def Let_def)
  then show "\<exists>txt. date_text 1 date = Inr txt \<and> parseDateTimeStr lt txt = None" using d_text_refused F(1) by simp
  have "date_text 2 date = Inr [CHR ''{'', CHR ''t'', CHR '' '', apostrophe, h1, h2, CHR '':'', i1, i2, CHR '':'', s1, s2, apostrophe, CHR ''}'']"
    using bk F(2-7) by (simp add: date_text_def Let_def)
  then show "\<exists>txt. date_text 2 date = Inr txt \<and> parseDateTimeStr lt txt = None" using t_text_refused F(1) by simp
  show "\<exists>txt. date_text 3 date = Inr txt \<and> (1000 \<le> y \<longrightarrow> parseDateTimeStr lt txt = Some date)"
  proof (cases "1000 \<le> y")
    case True
    then show ?thesis unfolding assms(4) using us_text_back [OF assms(1,2) True assms(3)] by blast
  next
    case False
    have "\<exists>txt. date_text 3 date = Inr txt" using bk by (simp add: date_text_def Let_def)
    with False show ?thesis by blast
  qed
qed

lemma date_text_read_back_witness:
  "(\<exists>txt. date_text 0 (tmToDays (tm_of (2024, 2, 29) 0 5 9)) = Inr txt \<and> parseDateTimeStr (tm_of (1970, 1, 1) 0 0) txt = Some (tmToDays (tm_of (2024, 2, 29) 0 5 9)))
    \<and> (\<exists>txt. date_text 3 (tmToDays (tm_of (2024, 2, 29) 0 5 9)) = Inr txt \<and> parseDateTimeStr (tm_of (1970, 1, 1) 0 0) txt = Some (tmToDays (tm_of (2024, 2, 29) 0 5 9)))
    \<and> (\<exists>txt. date_text 1 (tmToDays (tm_of (2024, 2, 29) 0 5 9)) = Inr txt \<and> parseDateTimeStr (tm_of (1970, 1, 1) 0 0) txt = None)
    \<and> (\<exists>txt. date_text 2 (tmToDays (tm_of (2024, 2, 29) 0 5 9)) = Inr txt \<and> parseDateTimeStr (tm_of (1970, 1, 1) 0 0) txt = None)"
proof -
  have "valid_date 2024 2 29" "valid_time 0 5 9" "(2024::int) \<le> 9999" "(1000::int) \<le> 2024" by code_simp+
  with date_text_read_back [OF this(1-3) refl] show ?thesis by (simp only: HOL.simp_thms)
qed

text \<open>C38: In the last half second of a day the rounding of the seconds reaches 86400, which is printed as the hour 24 of
  the same day: a text that \<open>parseDateTimeStr\<close> refuses.\<close>

theorem last_half_second:
  assumes "valid_date y m d" "y \<le> 9999" "of_int (jdn_of y m d - day_zero) + 1 - 1 / 200000 \<le> z" "z < of_int (jdn_of y m d - day_zero) + 1"
  shows "\<exists>t txt. daysToTm (Fin z) = Inr t \<and> tm_hour t = 24 \<and> tm_mday t = d \<and> date_text 0 (Fin z) = Inr txt \<and> parseDateTimeStr lt txt = None"
proof -
  let ?n = "jdn_of y m d - day_zero"
  have n: "\<bar>?n\<bar> \<le> 4000000" using civil_jdn(2) [OF assms(1)] jdn_bound [OF assms(1,2)] by (simp add: day_zero_def)
  obtain f where f: "split_days (Fin z) = Inr (?n, f)" "near f (z - of_int ?n) (1 / 536870912)"
    using split_inside [OF _ _ n, of z "z - of_int ?n"] assms(3,4) by auto
  have "clock_of f = Inr (24, 0, 0)" by (rule late_clock [OF f(2)]) (use assms(3,4) in linarith)+
  then obtain t where t: "daysToTm (Fin z) = Inr t" "tm_year t = y - 1900" "tm_mon t = m - 1" "tm_mday t = d" "tm_hour t = 24" "tm_min t = 0" "tm_sec t = 0"
    using f(1) civil_jdn(1) [OF assms(1)] by (simp add: daysToTm_def)
  have b: "0 \<le> (24::int) \<and> (24::int) \<le> 99" "0 \<le> (0::int) \<and> (0::int) \<le> 59" by simp_all
  obtain y1 y2 y3 y4 m1 m2 d1 d2 h1 h2 i1 i2 s1 s2 where F: "list_all is_digit [y1, y2, y3, y4, m1, m2, d1, d2, h1, h2, i1, i2, s1, s2]"
    "zpad 4 y = [y1, y2, y3, y4]" "zpad 2 m = [m1, m2]" "zpad 2 d = [d1, d2]" "zpad 2 24 = [h1, h2]" "zpad 2 0 = [i1, i2]" "zpad 2 0 = [s1, s2]"
    "(dec_val y1 * 10 + dec_val y2) * 100 + (dec_val y3 * 10 + dec_val y4) = y" "dec_val m1 * 10 + dec_val m2 = m" "dec_val d1 * 10 + dec_val d2 = d"
    "dec_val h1 * 10 + dec_val h2 = 24" "dec_val i1 * 10 + dec_val i2 = 0" "dec_val s1 * 10 + dec_val s2 = 0"
    using assms(1) b(1) b(2) b(2) assms(2) by (rule date_fields)
  let ?T = "[CHR ''{'', CHR ''t'', CHR ''s'', CHR '' '', apostrophe, y1, y2, y3, y4, CHR ''-'', m1, m2, CHR ''-'', d1, d2,
     CHR '' '', h1, h2, CHR '':'', i1, i2, CHR '':'', s1, s2, apostrophe, CHR ''}'']"
  have "date_text 0 (Fin z) = Inr ?T" using t F(2-7) by (simp add: date_text_def Let_def)
  moreover have s: "strip_zone ?T = Some (?T, None)" unfolding strip_zone_def ts_zone [OF F(1)] by simp
  have r: "scan_ts ?T = Some ((y, m, d), 24, 0, 0)" using read_ts [OF F(1)] F(8-13) by (simp only:)
  have "parseDateTimeStr lt ?T = None"
    by (rule parse_ts_late [OF ts_blank(5) [OF F(1)] s ts_blank(1,2) [OF F(1)] _ ts_blank(3) [OF F(1)] r]) simp
  ultimately show ?thesis using t by blast
qed

lemma last_half_second_witness:
  "\<exists>t txt. daysToTm (Fin (45000 + 199999 / 200000)) = Inr t \<and> tm_hour t = 24 \<and> tm_mday t = 15 \<and> date_text 0 (Fin (45000 + 199999 / 200000)) = Inr txt
    \<and> parseDateTimeStr (tm_of (1970, 1, 1) 0 0) txt = None"
proof -
  have "valid_date 2023 3 15" "jdn_of 2023 3 15 - day_zero = 45000" by code_simp+
  then show ?thesis using last_half_second [of 2023 3 15 "45000 + 199999 / 200000" "tm_of (1970, 1, 1) 0 0"] by simp
qed

end
