(* ===== verification/Variants.thy ===== *)
theory Variants
  imports SharpLexer DateText
begin

text \<open>
  Values of the language (\<open>cfvariant\<close>, \<open>src/cfvariant.cpp\<close>) and their conversions (\<open>src/core/core_interp.cpp\<close>): to text,
  to numbers, to a truth value. A Boolean carries whether it was written as a literal, a Float its literal text, a date
  its rendering style. References to query columns and byte streams are left out, and the containers are only their
  kind: what the conversions read of them. \<open>lt\<close> is the conversion of an instant to local time.
\<close>

section \<open>Values\<close>

datatype complex_kind = KArray | KStruct | KQuery | KImage | KXml | KJSon | KFile | KComponent

datatype variant = VNotSet | VNull | VBool bool bool | VNumber int | VLong int | VFloat dbl "bytes option" | VString bytes
  | VDate dbl int | VFunction bytes | VBinary | VComplex complex_kind

text \<open>\<open>cfvariant::toString\<close>.\<close>

definition bool_text :: "bool \<Rightarrow> bool \<Rightarrow> bytes" where
  "bool_text b literal = (if literal then (if b then ''true'' else ''false'') else if b then ''YES'' else ''NO'')"

fun toString :: "variant \<Rightarrow> bytes res" where
  "toString (VString s) = Inr s"
| "toString (VFunction s) = Inr s"
| "toString (VDate d style) = date_text style d"
| "toString (VBool b literal) = Inr (bool_text b literal)"
| "toString (VNumber n) = Inr (number n 10)"
| "toString (VLong n) = Inr (number n 10)"
| "toString (VFloat d literal) = Inr (case literal of Some t \<Rightarrow> t | None \<Rightarrow> formatFloatString d)"
| "toString VBinary = Inl (Throw ''Cannot convert data of type Binary to a string'')"
| "toString _ = Inr []"

text \<open>The text form of \<open>ToString\<close> and friends prints floats in full (\<open>string::number(double)\<close> is a parameter).\<close>

definition variantToString :: "(dbl \<Rightarrow> bytes) \<Rightarrow> variant \<Rightarrow> bytes res" where
  "variantToString full v = (case v of VString _ \<Rightarrow> toString v | VFunction _ \<Rightarrow> toString v | VNumber n \<Rightarrow> Inr (number n 10) | VLong n \<Rightarrow> Inr (number n 10)
     | VFloat d (Some t) \<Rightarrow> Inr t | VFloat d None \<Rightarrow> Inr (full d) | VBool b literal \<Rightarrow> Inr (bool_text b literal) | VDate _ _ \<Rightarrow> toString v | _ \<Rightarrow> Inr [])"

section \<open>Numbers\<close>

text \<open>Reading a whole text: no number at its start, or something after it, is an error.\<close>

definition read_all :: "(bytes \<Rightarrow> 'a \<times> bytes) \<Rightarrow> bytes \<Rightarrow> 'a option" where
  "read_all rd p = (let (x, r) = rd p in if length r = length p \<or> dropWhile is_space r \<noteq> [] then None else Some x)"

definition expected :: bytes where "expected = ''Parameter validation error: Expected a numeric value but received ''"

definition convert :: "(bytes \<Rightarrow> 'a \<times> bytes) \<Rightarrow> bytes \<Rightarrow> bytes \<Rightarrow> 'a res" where
  "convert rd kind s = (if s = [] then Inl (Throw (expected @ ''empty/null.'')) else
     let p = dropWhile is_space (cstr s) in if p = [] then Inl (Throw (expected @ ''an empty string.'')) else
     case read_all rd p of Some x \<Rightarrow> Inr x
     | None \<Rightarrow> Inl (Throw (''Parameter validation error: The value '' @ [apostrophe] @ s @ [apostrophe] @ '' cannot be converted to '' @ kind @ ''.'')))"

definition getDoubleValue :: "variant \<Rightarrow> dbl res" where
  "getDoubleValue v = (case v of VNumber n \<Rightarrow> Inr (fl (of_int n)) | VLong n \<Rightarrow> Inr (fl (of_int n)) | VFloat d _ \<Rightarrow> Inr d
     | VBool b _ \<Rightarrow> Inr (Fin (if b then 1 else 0)) | _ \<Rightarrow> ebind (toString v) (convert strtod ''a number''))"

definition getIntValue :: "variant \<Rightarrow> int res" where
  "getIntValue v = (case v of VNumber n \<Rightarrow> Inr n | VLong n \<Rightarrow> Inr (low32 n) | VFloat d _ \<Rightarrow> to_int32 d | VBool b _ \<Rightarrow> Inr (if b then 1 else 0)
     | _ \<Rightarrow> ebind (ebind (toString v) (convert strtoll ''an integer'')) (\<lambda>n. Inr (low32 n)))"

definition getLongIntValue :: "variant \<Rightarrow> int res" where
  "getLongIntValue v = (case v of VNumber n \<Rightarrow> Inr n | VLong n \<Rightarrow> Inr n | VFloat d _ \<Rightarrow> to_int64 d | VBool b _ \<Rightarrow> Inr (if b then 1 else 0)
     | _ \<Rightarrow> ebind (toString v) (convert strtoll ''an integer''))"

definition getDaysFromVariant :: "(int \<Rightarrow> tm) \<Rightarrow> variant \<Rightarrow> dbl option res" where
  "getDaysFromVariant lt v = (case v of VDate d _ \<Rightarrow> Inr (Some d) | VNumber n \<Rightarrow> Inr (Some (fl (of_int n))) | VLong n \<Rightarrow> Inr (Some (fl (of_int n)))
     | VFloat d _ \<Rightarrow> Inr (Some d) | _ \<Rightarrow> ebind (toString v) (\<lambda>s. Inr (parseDateTimeStr lt s)))"

definition getDaysOrThrow :: "(int \<Rightarrow> tm) \<Rightarrow> bytes \<Rightarrow> variant \<Rightarrow> dbl res" where
  "getDaysOrThrow lt funcName v = ebind (getDaysFromVariant lt v) (\<lambda>r. case r of Some d \<Rightarrow> Inr d
     | None \<Rightarrow> Inl (Throw (funcName @ '': Invalid date/time value'')))"

section \<open>Equality of the built-ins\<close>

definition number_type :: "variant \<Rightarrow> bool" where
  "number_type v \<longleftrightarrow> (case v of VNumber _ \<Rightarrow> True | VLong _ \<Rightarrow> True | VFloat _ _ \<Rightarrow> True | _ \<Rightarrow> False)"

definition string_type :: "variant \<Rightarrow> bool" where
  "string_type v \<longleftrightarrow> (case v of VString _ \<Rightarrow> True | _ \<Rightarrow> False)"

text \<open>An exception of the conversion counts as not equal; undefined behaviour stays.\<close>

definition cfvariantsEqual :: "variant \<Rightarrow> variant \<Rightarrow> bool res" where
  "cfvariantsEqual a b = (if string_type a \<or> string_type b then ebind (toString a) (\<lambda>s. ebind (toString b) (\<lambda>t. Inr (str_equals s t)))
     else if number_type a \<or> number_type b then (case ebind (getDoubleValue a) (\<lambda>x. ebind (getDoubleValue b) (\<lambda>y. Inr (deq x y))) of
         Inl (Throw _) \<Rightarrow> Inr False | r \<Rightarrow> r)
     else Inr (case (a, b) of (VBool x _, VBool y _) \<Rightarrow> x = y | (VNull, VNull) \<Rightarrow> True | _ \<Rightarrow> False))"

definition cfvariantsEqualNoCase :: "variant \<Rightarrow> variant \<Rightarrow> bool res" where
  "cfvariantsEqualNoCase a b = (if string_type a \<or> string_type b then
     ebind (toString a) (\<lambda>s. ebind (toString b) (\<lambda>t. Inr (compareCaseInsensitive s t = 0))) else cfvariantsEqual a b)"

section \<open>Truth\<close>

definition isTrue :: "variant \<Rightarrow> bool res" where
  "isTrue v = (case v of VBool b _ \<Rightarrow> Inr b | VNumber n \<Rightarrow> Inr (n \<noteq> 0) | VLong n \<Rightarrow> Inr (n \<noteq> 0) | VFloat d _ \<Rightarrow> Inr (\<not> deq d (Fin 0))
     | _ \<Rightarrow> ebind (toString v) (\<lambda>s. Inr (map to_lower (trimmed s) \<in> {''true'', ''yes'', ''1''})))"

definition no_boolean :: err where "no_boolean = Throw ''The value cannot be converted to a boolean.''"

definition cfmlStringTruthy :: "bytes \<Rightarrow> bool res" where
  "cfmlStringTruthy s = (if s = [] then Inl no_boolean else
     if hd s \<in> {CHR ''+'', CHR ''-'', CHR ''.''} \<or> is_digit (hd s) then
       (let p = cstr s; (d, r) = strtod p in if length r \<noteq> length p \<and> r = [] then Inr (\<not> deq d (Fin 0)) else Inl no_boolean)
     else let l = map to_lower s in if l = ''false'' \<or> l = ''no'' then Inr False else if l = ''true'' \<or> l = ''yes'' then Inr True
       else Inl no_boolean)"

definition isTruthy :: "variant \<Rightarrow> bool res" where
  "isTruthy v = (case v of VBool b _ \<Rightarrow> Inr b | VNumber n \<Rightarrow> Inr (n \<noteq> 0) | VLong n \<Rightarrow> Inr (n \<noteq> 0) | VFloat d _ \<Rightarrow> Inr (\<not> deq d (Fin 0))
     | VString s \<Rightarrow> cfmlStringTruthy s | _ \<Rightarrow> Inr False)"

text \<open>The condition of \<open>?:\<close> in scripts has a rule of its own.\<close>

definition cf_is_truthy_value :: "variant \<Rightarrow> bool" where
  "cf_is_truthy_value v = (case v of VNull \<Rightarrow> False | VNotSet \<Rightarrow> False | VBool b _ \<Rightarrow> b | VNumber n \<Rightarrow> n \<noteq> 0 | VLong n \<Rightarrow> n \<noteq> 0
     | VFloat d _ \<Rightarrow> \<not> deq d (Fin 0) | VDate d _ \<Rightarrow> \<not> deq d (Fin 0)
     | VString s \<Rightarrow> s = [] \<or> (compareCaseInsensitive s ''false'' \<noteq> 0 \<and> compareCaseInsensitive s ''no'' \<noteq> 0 \<and> compareCaseInsensitive s ''0'' \<noteq> 0)
     | _ \<Rightarrow> True)"

definition cf_ternary_select :: "variant \<Rightarrow> variant \<Rightarrow> variant \<Rightarrow> variant" where
  "cf_ternary_select cond thenV elseV = (if cf_is_truthy_value cond then thenV else elseV)"

end
