(* ===== verification/Operators.thy ===== *)
theory Operators
  imports Variants
begin

text \<open>
  The operators on values (\<open>src/core/core_membermethods.cpp\<close>, \<open>src/core/core_interp.cpp\<close>): arithmetic, concatenation,
  the logical operators and the comparisons. \<open>pow\<close> of the C library is a parameter.
\<close>

section \<open>Arithmetic\<close>

definition cannot_convert :: "bytes \<Rightarrow> err" where
  "cannot_convert s = Throw (''The value '' @ s @ '' cannot be converted to a number.'')"

text \<open>Whether the operand takes the double path, and the double for a Float or a string.\<close>

definition string_operand :: "bytes \<Rightarrow> (bool \<times> dbl) res" where
  "string_operand s = (let ss = cstr s; p = dropWhile is_space ss in if p = [] then Inl (cannot_convert []) else
     case read_all strtod p of None \<Rightarrow> Inl (cannot_convert ss)
     | Some d \<Rightarrow> let (iv, r) = strtoll p;
           pureInt = (dropWhile is_space r = [] \<and> deq d (fl (of_int iv)) \<and> CHR ''.'' \<notin> set ss \<and> CHR ''e'' \<notin> set ss \<and> CHR ''E'' \<notin> set ss)
         in Inr (\<not> pureInt, d))"

definition arithOperand :: "variant \<Rightarrow> (bool \<times> dbl) res" where
  "arithOperand v = (case v of VFloat d _ \<Rightarrow> Inr (True, d) | VNumber _ \<Rightarrow> Inr (False, Fin 0) | VLong _ \<Rightarrow> Inr (False, Fin 0) | VBool _ _ \<Rightarrow> Inr (False, Fin 0)
     | VString s \<Rightarrow> string_operand s | VDate _ _ \<Rightarrow> Inr (True, Fin 0) | _ \<Rightarrow> Inr (False, Fin 0))"

definition in_int32 :: "int \<Rightarrow> bool" where "in_int32 n \<longleftrightarrow> int_min \<le> n \<and> n \<le> int_max"

definition in_int64 :: "int \<Rightarrow> bool" where "in_int64 n \<longleftrightarrow> llong_min \<le> n \<and> n \<le> llong_max"

abbreviation computed :: "dbl \<Rightarrow> variant" where "computed d \<equiv> VFloat d None"

text \<open>The integer path is exact in 128 bits; beyond 32 bits the result becomes a double.\<close>

definition promote :: "int \<Rightarrow> variant" where
  "promote n = (if in_int32 n then VNumber n else computed (fl (of_int n)))"

definition arith :: "(int \<Rightarrow> int \<Rightarrow> int) \<Rightarrow> (dbl \<Rightarrow> dbl \<Rightarrow> dbl) \<Rightarrow> variant \<Rightarrow> variant \<Rightarrow> variant res" where
  "arith int_op dbl_op a b = ebind (arithOperand a) (\<lambda>(aFloat, _). ebind (arithOperand b) (\<lambda>(bFloat, _).
     if aFloat \<or> bFloat then ebind (getDoubleValue a) (\<lambda>x. ebind (getDoubleValue b) (\<lambda>y. Inr (computed (dbl_op x y))))
     else ebind (getLongIntValue a) (\<lambda>x. ebind (getLongIntValue b) (\<lambda>y. Inr (promote (int_op x y))))))"

definition cfvariant_add :: "variant \<Rightarrow> variant \<Rightarrow> variant res" where "cfvariant_add = arith (+) dadd"

definition cfvariant_sub :: "variant \<Rightarrow> variant \<Rightarrow> variant res" where "cfvariant_sub = arith (-) dsub"

definition cfvariant_mul :: "variant \<Rightarrow> variant \<Rightarrow> variant res" where "cfvariant_mul = arith (*) dmul"

definition by_zero :: err where "by_zero = Throw ''Division by zero.''"

definition cfvariant_div :: "variant \<Rightarrow> variant \<Rightarrow> variant res" where
  "cfvariant_div a b = ebind (getDoubleValue b) (\<lambda>y. if deq y (Fin 0) then Inl by_zero
     else ebind (getDoubleValue a) (\<lambda>x. Inr (computed (ddiv x y))))"

text \<open>The remainder of two \<open>int\<close>s; \<open>INT_MIN % -1\<close> is undefined.\<close>

definition cfvariant_mod :: "variant \<Rightarrow> variant \<Rightarrow> variant res" where
  "cfvariant_mod a b = ebind (arithOperand a) (\<lambda>(aFloat, da). ebind (arithOperand b) (\<lambda>(bFloat, db).
     ebind (if aFloat then to_int32 da else getIntValue a) (\<lambda>ia. ebind (if bFloat then to_int32 db else getIntValue b) (\<lambda>ib.
       if ib = 0 then Inl by_zero else if ia = int_min \<and> ib = - 1 then Inl UB else Inr (VNumber (ia smod ib))))))"

definition cfvariant_idiv :: "variant \<Rightarrow> variant \<Rightarrow> variant res" where
  "cfvariant_idiv a b = ebind (getDoubleValue b) (\<lambda>y. if deq y (Fin 0) then Inl by_zero
     else ebind (getDoubleValue a) (\<lambda>x. ebind (to_int64 (ddiv x y)) (\<lambda>iq. Inr (if in_int32 iq then VNumber iq else VLong iq))))"

definition cfvariant_pow :: "(dbl \<Rightarrow> dbl \<Rightarrow> dbl) \<Rightarrow> variant \<Rightarrow> variant \<Rightarrow> variant res" where
  "cfvariant_pow pow a b = ebind (getDoubleValue a) (\<lambda>x. ebind (getDoubleValue b) (\<lambda>y. Inr (computed (pow x y))))"

text \<open>The negation of a Boolean, and of a value without text, goes through \<open>strtod\<close> and \<open>atoi\<close> of the text.\<close>

definition cfvariant_neg :: "variant \<Rightarrow> variant res" where
  "cfvariant_neg a = ebind (arithOperand a) (\<lambda>(aFloat, da). if aFloat then Inr (computed (dneg da)) else
     (case a of VLong n \<Rightarrow> Inr (if in_int32 (- n) then VNumber (- n) else if in_int64 (- n) then VLong (- n) else computed (fl (of_int (- n))))
     | VNumber n \<Rightarrow> if n = int_min then Inl UB else Inr (VNumber (- n))
     | _ \<Rightarrow> ebind (toString a) (\<lambda>s. if s = [] then Inl UB else let p = cstr s; (d, r) = strtod p in
         if r = [] then Inr (computed (dneg d)) else if atoi p = int_min then Inl UB else Inr (VNumber (- atoi p)))))"

section \<open>Texts and truth values\<close>

definition cfvariant_concat :: "variant \<Rightarrow> variant \<Rightarrow> variant res" where
  "cfvariant_concat a b = ebind (toString a) (\<lambda>s. ebind (toString b) (\<lambda>t. Inr (VString (s @ t))))"

definition cfvariant_and :: "variant \<Rightarrow> variant \<Rightarrow> variant res" where
  "cfvariant_and a b = ebind (isTruthy a) (\<lambda>t. Inr (if t then b else a))"

definition cfvariant_or :: "variant \<Rightarrow> variant \<Rightarrow> variant res" where
  "cfvariant_or a b = ebind (isTruthy a) (\<lambda>t. Inr (if t then a else b))"

definition cfvariant_xor :: "variant \<Rightarrow> variant \<Rightarrow> variant res" where
  "cfvariant_xor a b = ebind (isTruthy a) (\<lambda>s. ebind (isTruthy b) (\<lambda>t. Inr (VBool (s \<noteq> t) False)))"

definition cfvariant_not :: "variant \<Rightarrow> variant res" where
  "cfvariant_not a = ebind (isTruthy a) (\<lambda>t. Inr (VBool (\<not> t) False))"

section \<open>Comparison\<close>

definition isBooleanOrNumericOrDateCandidate :: "bytes \<Rightarrow> bool" where
  "isBooleanOrNumericOrDateCandidate s = (let t = trimmed s in t \<noteq> [] \<and> last t \<noteq> CHR ''.'' \<and>
     (hd t \<in> {CHR ''+'', CHR ''-'', CHR ''.''} \<or> is_digit (hd t) \<or> hd t \<in> set ''DFJMNOSTYadfjmnosty{''))"

text \<open>A text as a number: by its first character a number, a truth value or a date.\<close>

definition numeric_text :: "bytes \<Rightarrow> dbl option" where
  "numeric_text t = (if isCfmNumericLiteral t then let (d, r) = strtod t in if r = [] then Some d else None else None)"

definition text_double :: "(int \<Rightarrow> tm) \<Rightarrow> bytes \<Rightarrow> dbl option" where
  "text_double lt t = (if t = [] then None else let c = hd t; is = (\<lambda>w. compareCaseInsensitive t w = 0) in
     if c \<in> {CHR ''+'', CHR ''-'', CHR ''.''} then numeric_text t
     else if is_digit c \<and> numeric_text t \<noteq> None then numeric_text t
     else if to_lower c = CHR ''f'' \<and> is ''false'' then Some (Fin 0)
     else if to_lower c = CHR ''n'' \<and> is ''no'' then Some (Fin 0)
     else if to_lower c = CHR ''t'' then (if is ''true'' then Some (Fin 1) else None)
     else if to_lower c = CHR ''y'' then (if is ''yes'' then Some (Fin 1) else None)
     else parseDateTimeStr lt t)"

definition tryCfDouble :: "(int \<Rightarrow> tm) \<Rightarrow> variant \<Rightarrow> dbl option" where
  "tryCfDouble lt v = (case v of VNumber n \<Rightarrow> Some (fl (of_int n)) | VLong n \<Rightarrow> Some (fl (of_int n)) | VFloat d _ \<Rightarrow> Some d
     | VBool b _ \<Rightarrow> Some (Fin (if b then 1 else 0)) | VDate d _ \<Rightarrow> Some d | VString s \<Rightarrow> text_double lt (trimmed s) | _ \<Rightarrow> None)"

definition isComplex :: "variant \<Rightarrow> bool" where
  "isComplex v \<longleftrightarrow> (case v of VComplex k \<Rightarrow> k \<in> {KArray, KStruct, KQuery} | VBinary \<Rightarrow> True | VFunction _ \<Rightarrow> True | _ \<Rightarrow> False)"

definition castToDouble :: "variant \<Rightarrow> variant \<Rightarrow> bool" where
  "castToDouble a b = (case (a, b) of (VString s, VString t) \<Rightarrow> isBooleanOrNumericOrDateCandidate s \<and> isBooleanOrNumericOrDateCandidate t | _ \<Rightarrow> True)"

definition dcompare :: "dbl \<Rightarrow> dbl \<Rightarrow> int" where
  "dcompare x y = (if deq x y then 0 else if dless x y then - 1 else 1)"

definition cfCompare :: "(int \<Rightarrow> tm) \<Rightarrow> variant \<Rightarrow> variant \<Rightarrow> int res" where
  "cfCompare lt a b = (if isComplex a \<or> isComplex b then Inr 1 else
     case (if castToDouble a b then (case tryCfDouble lt a of Some x \<Rightarrow> map_option (dcompare x) (tryCfDouble lt b) | None \<Rightarrow> None) else None) of
       Some r \<Rightarrow> Inr r
     | None \<Rightarrow> ebind (toString a) (\<lambda>s. ebind (toString b) (\<lambda>t. Inr (sgn (compareCaseInsensitive s t)))))"

text \<open>Identity of \<open>===\<close>: within a category of types.\<close>

definition null_like :: "variant \<Rightarrow> bool" where "null_like v \<longleftrightarrow> v = VNull \<or> v = VNotSet"

definition is_numeric :: "variant \<Rightarrow> bool" where
  "is_numeric v \<longleftrightarrow> (case v of VNumber _ \<Rightarrow> True | VLong _ \<Rightarrow> True | VFloat _ _ \<Rightarrow> True | VDate _ _ \<Rightarrow> True | _ \<Rightarrow> False)"

definition strictly_equal :: "(int \<Rightarrow> tm) \<Rightarrow> variant \<Rightarrow> variant \<Rightarrow> bool" where
  "strictly_equal lt a b = (if null_like a \<and> null_like b then True else if null_like a \<or> null_like b then False else
     case (a, b) of (VBool x _, VBool y _) \<Rightarrow> x = y | (VString s, VString t) \<Rightarrow> compareCaseInsensitive s t = 0
     | _ \<Rightarrow> is_numeric a \<and> is_numeric b \<and> (case (tryCfDouble lt a, tryCfDouble lt b) of (Some x, Some y) \<Rightarrow> deq x y | _ \<Rightarrow> False))"

text \<open>\<open>CONTAINS\<close> of two strings; with an empty one the code passes a null pointer to \<open>strcasestr\<close>.\<close>

definition contains :: "variant \<Rightarrow> variant \<Rightarrow> bool res" where
  "contains a b = (case (a, b) of (VString s, VString t) \<Rightarrow> str_containsCaseInsensitive s t | _ \<Rightarrow> Inr False)"

definition compareVariants :: "(int \<Rightarrow> tm) \<Rightarrow> variant \<Rightarrow> variant \<Rightarrow> bytes \<Rightarrow> bool res" where
  "compareVariants lt a b op = (if op = ''==='' then Inr (strictly_equal lt a b) else if op = ''!=='' then Inr (\<not> strictly_equal lt a b) else
     ebind (cfCompare lt a b) (\<lambda>cmp.
       if op \<in> {''EQ'', ''IS'', ''EQUAL'', ''==''} then Inr (cmp = 0)
       else if op \<in> {''NEQ'', ''IS NOT'', ''NOT EQUAL'', ''!=''} then Inr (cmp \<noteq> 0)
       else if op \<in> {''GT'', ''GREATER THAN'', ''>''} then Inr (0 < cmp)
       else if op \<in> {''GTE'', ''GE'', ''GREATER THAN OR EQUAL TO'', ''>=''} then Inr (0 \<le> cmp)
       else if op \<in> {''LT'', ''LESS THAN'', ''<''} then Inr (cmp < 0)
       else if op \<in> {''LTE'', ''LE'', ''LESS THAN OR EQUAL TO'', ''<=''} then Inr (cmp \<le> 0)
       else if op = ''CONTAINS'' then contains a b
       else if op = ''DOES NOT CONTAIN'' then ebind (contains a b) (\<lambda>c. Inr (\<not> c))
       else if op = ''EQV'' then ebind (isTruthy a) (\<lambda>s. ebind (isTruthy b) (\<lambda>t. Inr (s = t)))
       else if op = ''IMP'' then ebind (isTruthy a) (\<lambda>s. if \<not> s then Inr True else isTruthy b)
       else Inr False))"

definition cfvariant_compare :: "(int \<Rightarrow> tm) \<Rightarrow> variant \<Rightarrow> variant \<Rightarrow> bytes \<Rightarrow> variant res" where
  "cfvariant_compare lt a b op = ebind (compareVariants lt a b op) (\<lambda>r. Inr (VBool r False))"

end
