(* ===== verification/OperatorSpec.thy ===== *)
theory OperatorSpec
  imports Operators
begin

text \<open>
  What the operators promise: exact integer arithmetic, also on the texts of integers; integer division with its
  remainder; comparisons that agree with each other; and where they do not.
\<close>

section \<open>Texts of integers\<close>

lemma num_of_append: "num_of b val (xs @ ys) = num_of b val xs * b ^ length ys + num_of b val ys"
proof (induction ys rule: rev_induct)
  case (snoc y ys)
  then show ?case by (simp add: num_of_def algebra_simps flip: append_assoc)
qed (simp add: num_of_def)

lemma digits_loop_value:
  "list_all is_digit ret \<Longrightarrow> list_all is_digit (digits_loop 10 v ret) \<and> num_of 10 dec_val (digits_loop 10 v ret) = int v * 10 ^ length ret + num_of 10 dec_val ret"
proof (induction "10::nat" v ret rule: digits_loop.induct)
  case (1 v ret)
  show ?case
  proof (cases "v = 0")
    case False
    have d: "is_digit (digits ! (v mod 10)) \<and> dec_val (digits ! (v mod 10)) = int (v mod 10)"
      using digit_facts [of "int (v mod 10)"] by simp
    have "num_of 10 dec_val (digits ! (v mod 10) # ret) = int (v mod 10) * 10 ^ length ret + num_of 10 dec_val ret"
      using num_of_append [of 10 dec_val "[digits ! (v mod 10)]" ret] d by (simp add: num_of_def)
    moreover have "int v = int (v div 10) * 10 + int (v mod 10)" by (metis div_mult_mod_eq of_nat_add of_nat_mult of_nat_numeral)
    ultimately show ?thesis using 1 False d by (simp add: digits_loop.simps [of 10 v] algebra_simps)
  qed (use 1 in \<open>simp add: digits_loop.simps [of 10 0]\<close>)
qed

lemma digits_loop_nonempty: "0 < v \<Longrightarrow> digits_loop 10 v ret \<noteq> []"
proof (induction "10::nat" v ret rule: digits_loop.induct)
  case (1 v ret)
  show ?case
  proof (cases "v div 10 = 0")
    case True
    then show ?thesis using 1(2) by (simp add: digits_loop.simps [of 10 v] digits_loop.simps [of 10 0])
  next
    case False
    with 1 show ?thesis by (simp add: digits_loop.simps [of 10 v])
  qed
qed

text \<open>The sign and the digits.\<close>

lemma number_shape:
  obtains ds where "number n 10 = (if n < 0 then CHR ''-'' # ds else ds)" "list_all is_digit ds" "ds \<noteq> []" "num_of 10 dec_val ds = \<bar>n\<bar>"
proof (cases "n = 0")
  case True
  have "is_digit (CHR ''0'') \<and> num_of 10 dec_val ''0'' = 0" by code_simp
  with True that [of "''0''"] show thesis by (simp add: number_def)
next
  case False
  let ?ds = "digits_loop 10 (nat \<bar>n\<bar>) []"
  have "list_all is_digit ?ds" "num_of 10 dec_val ?ds = \<bar>n\<bar>" using digits_loop_value [of "[]" "nat \<bar>n\<bar>"] by (simp_all add: num_of_def)
  moreover have "?ds \<noteq> []" using False by (intro digits_loop_nonempty) simp
  ultimately show thesis using that [of ?ds] False by (simp add: number_def)
qed

lemma number_plain: "c \<in> set (number n 10) \<Longrightarrow> is_digit c \<or> c = CHR ''-''"
  by (rule number_shape [of n]) (auto simp: list_all_iff split: if_splits)

lemma cstr_plain: "CHR 0x00 \<notin> set s \<Longrightarrow> cstr s = s"
  by (simp add: cstr_def nul_def takeWhile_eq_all_conv) blast

lemma number_cstr: "cstr (number n 10) = number n 10"
  by (rule cstr_plain) (use number_plain [of "CHR 0x00" n] digit_ne(12) in auto)

lemma number_text: "number n 10 \<noteq> []" "dropWhile is_space (number n 10) = number n 10"
proof -
  obtain ds where d: "number n 10 = (if n < 0 then CHR ''-'' # ds else ds)" "list_all is_digit ds" "ds \<noteq> []" "num_of 10 dec_val ds = \<bar>n\<bar>"
    by (rule number_shape)
  show "number n 10 \<noteq> []" using d by simp
  obtain c r where c: "ds = c # r" using d(3) by (cases ds) auto
  then have "\<not> is_space c" using d(2) by (simp add: digit_ne)
  moreover have "\<not> is_space (CHR ''-'')" by code_simp
  ultimately show "dropWhile is_space (number n 10) = number n 10" using d(1) c by simp
qed

lemma take_sign_number:
  assumes "list_all is_digit ds" "ds \<noteq> []"
  shows "take_sign (if n < 0 then CHR ''-'' # ds else ds) = (n < (0::int), ds)"
proof -
  obtain c r where "ds = c # r" "is_digit c" using assms by (cases ds) auto
  then show ?thesis by (simp add: take_sign_def digit_ne)
qed

lemma all_digits: "list_all is_digit ds \<Longrightarrow> takeWhile is_digit ds = ds" "list_all is_digit ds \<Longrightarrow> dropWhile is_digit ds = []"
  by (simp_all add: list_all_iff takeWhile_eq_all_conv dropWhile_eq_Nil_conv)

lemma read_int_number: "read_int (number n 10) = (n, [])"
proof -
  obtain ds where d: "number n 10 = (if n < 0 then CHR ''-'' # ds else ds)" "list_all is_digit ds" "ds \<noteq> []" "num_of 10 dec_val ds = \<bar>n\<bar>"
    by (rule number_shape)
  show ?thesis unfolding read_int_def number_text(2) unfolding d(1) take_sign_number [OF d(2,3)] using d(3,4) by (simp add: all_digits [OF d(2)] Let_def)
qed

lemma strtoll_number: "in_int64 n \<Longrightarrow> strtoll (number n 10) = (n, [])"
  by (simp add: strtoll_def read_int_number clamp64_def in_int64_def)

lemma digit_number:
  assumes "list_all is_digit ds" "ds \<noteq> []"
  shows "read_number ds = Some (fl (of_int (num_of 10 dec_val ds)), [])"
proof -
  obtain c r where c: "ds = c # r" "is_digit c" using assms by (cases ds) auto
  note n = digit_ne(13,14) [OF c(2)]
  have l: "to_lower c = c" using n by (simp add: to_lower_def)
  have i: "c \<noteq> CHR ''i''" "c \<noteq> CHR ''n''" using c(2) by (auto simp: is_digit_def char_le_nat)
  have x: "r = d # q \<Longrightarrow> to_lower d \<noteq> CHR ''x''" for d q
  proof -
    assume "r = d # q"
    then have d: "is_digit d" using assms(1) c(1) by simp
    then have "to_lower d = d" using digit_ne(14) by (simp add: to_lower_def)
    with d show ?thesis by (auto simp: is_digit_def char_le_nat)
  qed
  have p: "take 8 (map to_lower ds) \<noteq> ''infinity''" "take 3 (map to_lower ds) \<noteq> ''inf''" "take 3 (map to_lower ds) \<noteq> ''nan''"
    using c(1) l i by (simp_all add: take_Cons')
  have h: "take 2 (map to_lower ds) \<noteq> ''0x''" using c(1) x by (cases r) auto
  have "read_decimal ds = Some (fl (of_int (num_of 10 dec_val ds)), [])"
    using assms(2) by (simp add: read_decimal_def take_fraction_def all_digits [OF assms(1)] take_exponent_def Doubles.scale_def)
  then show ?thesis using p h by (simp add: read_number_def)
qed

lemma round_even_neg: "round_even (- x) = - round_even x"
proof (cases "x = of_int \<lfloor>x\<rfloor>")
  case True
  from arg_cong [OF this, of round_even] have r: "round_even x = \<lfloor>x\<rfloor>" by (simp only: round_even_int)
  have "- x = of_int (- \<lfloor>x\<rfloor>)" unfolding of_int_minus using True by (rule arg_cong)
  from arg_cong [OF this, of round_even] r show ?thesis by (simp only: round_even_int)
next
  case False
  let ?f = "\<lfloor>x\<rfloor>"
  have b: "of_int ?f < x" "x < of_int ?f + 1" using False floor_correct [of x] by (auto simp: less_le)
  then have n: "\<lfloor>- x\<rfloor> = - ?f - 1" by (intro floor_unique) simp_all
  show ?thesis unfolding round_even_def Let_def n using b by (auto simp: not_less)
qed

lemma mag_neg [simp]: "mag b (- x) = mag b x"
  by (simp add: mag_def)

lemma fl_neg: "fl (- x) = dneg (fl x)"
  by (simp add: fl_eq round_even_neg Let_def) (auto simp: not_less)

lemma strtod_number: "strtod (number n 10) = (fl (of_int n), [])"
proof -
  obtain ds where d: "number n 10 = (if n < 0 then CHR ''-'' # ds else ds)" "list_all is_digit ds" "ds \<noteq> []" "num_of 10 dec_val ds = \<bar>n\<bar>"
    by (rule number_shape)
  have "dneg (fl (of_int \<bar>n\<bar>)) = fl (of_int n)" if "n < 0" using that fl_neg [of "of_int (- n)"] by simp
  then show ?thesis unfolding strtod_def number_text(2) unfolding d(1) take_sign_number [OF d(2,3)] by (simp add: digit_number [OF d(2,3)] d(4))
qed

section \<open>Integer arithmetic\<close>

text \<open>Values that stand for an integer: of an integer type, a Boolean, or the text of an integer.\<close>

inductive denotes :: "variant \<Rightarrow> int \<Rightarrow> bool" where
  of_number: "in_int32 n \<Longrightarrow> denotes (VNumber n) n"
| of_long: "in_int64 n \<Longrightarrow> denotes (VLong n) n"
| of_bool: "denotes (VBool b literal) (if b then 1 else 0)"
| of_text: "in_int64 n \<Longrightarrow> denotes (VString (number n 10)) n"

lemma read_all_done: "rd p = (x, []) \<Longrightarrow> p \<noteq> [] \<Longrightarrow> read_all rd p = Some x"
  by (simp add: read_all_def)

lemma convert_number: "rd (number n 10) = (x, []) \<Longrightarrow> convert rd kind (number n 10) = Inr x"
  using number_text [of n] by (simp add: convert_def number_cstr read_all_done Let_def)

lemma string_operand_number:
  assumes "in_int64 n"
  shows "string_operand (number n 10) = Inr (False, fl (of_int n))"
proof -
  have m: "c \<notin> set (number n 10)" if "\<not> is_digit c" "c \<noteq> CHR ''-''" for c using that number_plain [of c n] by blast
  have "\<not> is_digit (CHR ''.'') \<and> \<not> is_digit (CHR ''e'') \<and> \<not> is_digit (CHR ''E'')" by code_simp
  with m have p: "CHR ''.'' \<notin> set (number n 10)" "CHR ''e'' \<notin> set (number n 10)" "CHR ''E'' \<notin> set (number n 10)" by simp_all
  have "fl (of_int n) \<noteq> NaN" by (simp add: fl_def Let_def)
  then show ?thesis unfolding string_operand_def Let_def number_cstr number_text(2) read_all_done [of strtod, OF strtod_number number_text(1)]
    using strtoll_number [OF assms] p number_text(1) by (simp add: deq_refl)
qed

lemma denotes_operand: "denotes v n \<Longrightarrow> \<exists>d. arithOperand v = Inr (False, d)"
  by (cases rule: denotes.cases, assumption) (auto simp: arithOperand_def string_operand_number)

lemma denotes_long: "denotes v n \<Longrightarrow> getLongIntValue v = Inr n"
  by (cases rule: denotes.cases, assumption) (auto simp: getLongIntValue_def convert_number strtoll_number)

lemma denotes_double:
  assumes "denotes v n"
  shows "getDoubleValue v = Inr (fl (of_int n))"
  using assms
proof cases
  case (of_bool b literal)
  have "fl 0 = Fin 0" "fl 1 = Fin 1" using fl_int [of 0] fl_int [of 1] by simp_all
  with of_bool show ?thesis by (simp add: getDoubleValue_def)
qed (auto simp: getDoubleValue_def convert_number strtod_number)

lemma denotes_int:
  assumes "denotes v n"
  shows "getIntValue v = Inr (low32 n)"
  using assms
proof cases
  case of_number
  then show ?thesis by (simp add: getIntValue_def low32_id in_int32_def)
next
  case (of_bool b literal)
  have "low32 0 = 0" "low32 1 = 1" by code_simp+
  with of_bool show ?thesis by (simp add: getIntValue_def)
qed (auto simp: getIntValue_def convert_number strtoll_number)

lemma arith_exact: "denotes a x \<Longrightarrow> denotes b y \<Longrightarrow> arith i d a b = Inr (promote (i x y))"
  using denotes_operand [of a x] denotes_operand [of b y] by (auto simp: arith_def denotes_long)

section \<open>Division\<close>

lemma trunc_neg: "trunc (- x) = - trunc x"
  by (simp add: trunc_def)

lemma quotient_floor:
  fixes a b :: int
  assumes "0 < a" "0 < b" "a < 2 ^ 53" "b < 2 ^ 53"
  shows "\<exists>y. fl (of_int a / of_int b) = Fin y \<and> trunc y = a div b"
proof -
  let ?x = "of_int a / of_int b :: rat" and ?q = "a div b" and ?r = "a mod b"
  have b: "0 < (of_int b :: rat)" using assms(2) by simp
  have x: "?x = of_int ?q + of_int ?r / of_int b"
  proof -
    have "of_int a = of_int ?q * of_int b + (of_int ?r :: rat)" by (metis div_mult_mod_eq of_int_add of_int_mult)
    then show ?thesis using b by (simp add: field_simps)
  qed
  have q: "0 \<le> ?q" "?q \<le> a" using assms(1,2) zdiv_mono2 [of a 1 b] by (simp_all add: pos_imp_zdiv_nonneg_iff)
  show ?thesis
  proof (cases "?r = 0")
    case True
    then have "fl ?x = Fin (of_int ?q)" using x q assms(3) fl_int [of ?q] by simp
    then show ?thesis by simp
  next
    case False
    then have r: "1 \<le> ?r" "?r \<le> b - 1" using assms(2) pos_mod_sign [of b a] pos_mod_bound [of b a] by linarith+
    have lo: "1 / of_int b \<le> (of_int ?r / of_int b :: rat)" using r b by (intro divide_right_mono) simp_all
    have "of_int ?r \<le> (of_int b - 1 :: rat)" using r(2) by (metis of_int_1 of_int_diff of_int_le_iff)
    then have "of_int ?r / of_int b \<le> (of_int b - 1) / (of_int b :: rat)" using b by (intro divide_right_mono) simp_all
    then have hi: "of_int ?r / of_int b \<le> 1 - 1 / (of_int b :: rat)" using b by (simp add: diff_divide_distrib)
    have pos: "0 < ?x" using assms(1,2) by simp
    have "1 / 2 ^ 53 \<le> 1 / (of_int b :: rat)"
    proof (rule divide_left_mono)
      show "of_int b \<le> (2 ^ 53 :: rat)" using assms(4) by (metis less_imp_le of_int_le_iff of_int_numeral of_int_power)
    qed (use b in simp_all)
    also have "\<dots> \<le> ?x" using assms(1) b by (intro divide_right_mono) simp_all
    also have "\<dots> \<le> \<bar>?x\<bar>" by (rule abs_ge_self)
    finally have "(1 / 2 ^ 53 :: rat) \<le> \<bar>?x\<bar>" .
    moreover have "(2::rat) powi (- 1022) \<le> 2 powi (- 53)" by (rule power_int_increasing) simp_all
    moreover have "(2::rat) powi (- 53) = 1 / 2 ^ 53" by (simp only: power_int_minus power_int_numeral divide_inverse mult_1)
    ultimately have n: "2 powi (- 1022) \<le> \<bar>?x\<bar>" by (simp only:)
    have ax: "(of_int a :: rat) < 2 ^ 53" using assms(3) by (metis of_int_less_iff of_int_numeral of_int_power)
    have "?x \<le> of_int a" using assms(1,2) by (simp add: divide_le_eq)
    then have "\<bar>?x\<bar> < 2 ^ 53" using ax pos by simp
    also have "(2::rat) ^ 53 < 2 ^ 1023" by (rule power_strict_increasing) simp_all
    finally have u: "\<bar>?x\<bar> < 2 ^ 1023" .
    from fl_near [OF n u] obtain y where y: "fl ?x = Fin y" "\<bar>y - ?x\<bar> \<le> \<bar>?x\<bar> / 2 ^ 53" by blast
    have "\<bar>?x\<bar> / 2 ^ 53 = (of_int a / 2 ^ 53) / of_int b" unfolding abs_of_pos [OF pos] by simp
    also have "\<dots> < 1 / of_int b" using ax b by (intro divide_strict_right_mono) simp_all
    finally have "\<bar>y - ?x\<bar> < 1 / of_int b" using y(2) by linarith
    then have "of_int ?q < y" "y < of_int (?q + 1)" using x lo hi unfolding of_int_add of_int_1 by linarith+
    moreover from this(1) q(1) have "0 \<le> y" by (meson of_int_0_le_iff less_imp_le order_trans)
    ultimately show ?thesis using y(1) trunc_between [of y ?q] by simp
  qed
qed

lemma sdiv_signs: "a sdiv b = sgn a * sgn b * (\<bar>a\<bar> div \<bar>b\<bar>)" for a b :: int
  by (simp add: signed_divide_int_def)

lemma quotient_trunc:
  assumes "b \<noteq> 0" "\<bar>a\<bar> < 2 ^ 53" "\<bar>b\<bar> < 2 ^ 53"
  shows "\<exists>y. fl (of_int a / of_int b) = Fin y \<and> trunc y = a sdiv b"
proof (cases "a = 0")
  case True
  then show ?thesis by (simp add: fl_def trunc_def)
next
  case False
  obtain y where y: "fl (of_int \<bar>a\<bar> / of_int \<bar>b\<bar>) = Fin y" "trunc y = \<bar>a\<bar> div \<bar>b\<bar>"
    using quotient_floor [of "\<bar>a\<bar>" "\<bar>b\<bar>"] False assms by auto
  show ?thesis
  proof (cases "(a < 0) = (b < 0)")
    case True
    then have "of_int a / of_int b = (of_int \<bar>a\<bar> / of_int \<bar>b\<bar> :: rat)" by (cases "a < 0") (simp_all add: minus_divide_left [symmetric])
    moreover have "a sdiv b = \<bar>a\<bar> div \<bar>b\<bar>" using True False assms(1) by (auto simp: sdiv_signs sgn_if)
    ultimately show ?thesis using y by simp
  next
    case n: False
    then have "of_int a / of_int b = - (of_int \<bar>a\<bar> / of_int \<bar>b\<bar> :: rat)" by (cases "a < 0") auto
    moreover have "a sdiv b = - (\<bar>a\<bar> div \<bar>b\<bar>)" using n False assms(1) by (auto simp: sdiv_signs sgn_if)
    ultimately show ?thesis using y fl_neg [of "of_int \<bar>a\<bar> / of_int \<bar>b\<bar>"] trunc_neg [of y] by simp
  qed
qed

text \<open>Quotient and remainder of two 32-bit integers.\<close>

lemma idiv_exact:
  assumes "denotes a x" "denotes b y" "in_int32 x" "in_int32 y" "y \<noteq> 0"
  shows "cfvariant_idiv a b = Inr (if in_int32 (x sdiv y) then VNumber (x sdiv y) else VLong (x sdiv y))"
proof -
  have "\<bar>x\<bar> \<le> 2 ^ 31" "\<bar>y\<bar> \<le> 2 ^ 31" using assms(3,4) by (auto simp: in_int32_def int_min_def int_max_def)
  then have b: "\<bar>x\<bar> < 2 ^ 53" "\<bar>y\<bar> < 2 ^ 53" by simp_all
  then have f: "fl (of_int x) = Fin (of_int x)" "fl (of_int y) = Fin (of_int y)" by (simp_all add: fl_int)
  obtain z where z: "fl (of_int x / of_int y) = Fin z" "trunc z = x sdiv y" using quotient_trunc [OF assms(5) b] by blast
  have "0 \<le> \<bar>x\<bar> div \<bar>y\<bar>" using assms(5) by (simp add: pos_imp_zdiv_nonneg_iff)
  then have "\<bar>x sdiv y\<bar> \<le> \<bar>x\<bar> div \<bar>y\<bar>" unfolding sdiv_signs by (cases "x = 0"; cases "y = 0") (simp_all add: abs_mult)
  moreover have "\<bar>x\<bar> div \<bar>y\<bar> \<le> \<bar>x\<bar>" using zdiv_mono2 [of "\<bar>x\<bar>" 1 "\<bar>y\<bar>"] assms(5) by simp
  ultimately have "\<bar>x sdiv y\<bar> \<le> 2 ^ 31" using \<open>\<bar>x\<bar> \<le> 2 ^ 31\<close> by auto
  then have "to_int64 (Fin z) = Inr (x sdiv y)" using z(2) by (simp add: to_range_def llong_min_def llong_max_def abs_le_iff)
  then show ?thesis using z(1) assms(5) by (simp add: cfvariant_idiv_def denotes_double [OF assms(1)] denotes_double [OF assms(2)] f)
qed

lemma mod_exact:
  assumes "denotes a x" "denotes b y" "in_int32 x" "in_int32 y"
  shows "cfvariant_mod a b = (if y = 0 then Inl by_zero else if x = int_min \<and> y = - 1 then Inl UB else Inr (VNumber (x smod y)))"
proof -
  have "low32 x = x" "low32 y = y" using assms(3,4) by (simp_all add: low32_id in_int32_def)
  then show ?thesis using denotes_operand [OF assms(1)] denotes_operand [OF assms(2)] denotes_int [OF assms(1)] denotes_int [OF assms(2)]
    by (auto simp: cfvariant_mod_def)
qed

section \<open>Comparisons\<close>

text \<open>Values that are compared: not a container, no NaN, and with a text.\<close>

definition comparable :: "(int \<Rightarrow> tm) \<Rightarrow> variant \<Rightarrow> bool" where
  "comparable lt v \<longleftrightarrow> \<not> isComplex v \<and> tryCfDouble lt v \<noteq> Some NaN \<and> isl (toString v) = False"

lemma dcompare_sym: "x \<noteq> NaN \<Longrightarrow> y \<noteq> NaN \<Longrightarrow> dcompare y x = - dcompare x y"
  using dless_linear [of x y] dless_antisym [of x y] dless_antisym [of y x] by (auto simp: dcompare_def deq_iff)

lemma strcasecmp_sym: "strcasecmp ys xs = - strcasecmp xs ys"
  by (induction xs ys rule: strcasecmp.induct) auto

lemma compareCaseInsensitive_sym: "compareCaseInsensitive t s = - compareCaseInsensitive s t"
  using strcasecmp_sym [of "cstr t" "cstr s"] by (simp add: compareCaseInsensitive_def)

lemma strcasecmp_refl: "strcasecmp xs xs = 0"
  by (induction xs) auto

lemma castToDouble_sym: "castToDouble b a = castToDouble a b"
  by (cases a; cases b) (auto simp: castToDouble_def)

lemma cfCompare_total:
  assumes "comparable lt a" "comparable lt b"
  shows "\<exists>r. cfCompare lt a b = Inr r \<and> cfCompare lt b a = Inr (- r)"
proof -
  obtain s t where st: "toString a = Inr s" "toString b = Inr t" using assms unfolding comparable_def by (cases "toString a"; cases "toString b") auto
  have c: "\<not> isComplex a" "\<not> isComplex b" using assms by (simp_all add: comparable_def)
  have conv: "ebind (toString a) (\<lambda>s. ebind (toString b) (\<lambda>t. Inr (sgn (compareCaseInsensitive s t)))) = Inr (sgn (compareCaseInsensitive s t))"
    "ebind (toString b) (\<lambda>s. ebind (toString a) (\<lambda>t. Inr (sgn (compareCaseInsensitive s t)))) = Inr (- sgn (compareCaseInsensitive s t))"
    using st compareCaseInsensitive_sym [of t s] by (simp_all add: sgn_minus)
  show ?thesis
  proof (cases "castToDouble a b \<and> tryCfDouble lt a \<noteq> None \<and> tryCfDouble lt b \<noteq> None")
    case True
    then obtain x y where xy: "tryCfDouble lt a = Some x" "tryCfDouble lt b = Some y" by auto
    then have "x \<noteq> NaN" "y \<noteq> NaN" using assms by (simp_all add: comparable_def)
    then show ?thesis using True xy c castToDouble_sym [of b a] dcompare_sym [of x y] by (simp add: cfCompare_def)
  next
    case False
    then have "(if castToDouble a b then (case tryCfDouble lt a of Some x \<Rightarrow> map_option (dcompare x) (tryCfDouble lt b) | None \<Rightarrow> None) else None) = None"
      "(if castToDouble b a then (case tryCfDouble lt b of Some x \<Rightarrow> map_option (dcompare x) (tryCfDouble lt a) | None \<Rightarrow> None) else None) = None"
      using castToDouble_sym [of b a] by (auto split: option.splits)
    then show ?thesis unfolding cfCompare_def conv using c by simp
  qed
qed

lemma cfCompare_refl:
  assumes "comparable lt a"
  shows "cfCompare lt a a = Inr 0"
  using cfCompare_total [OF assms assms] by auto

section \<open>What the operators promise\<close>

text \<open>C18: Addition, subtraction and multiplication of integers, Booleans and the texts of integers are exact: the result is
  the \<open>int\<close> when it fits in 32 bits and the nearest double otherwise; nothing overflows on the way.\<close>

theorem integer_arithmetic_exact:
  assumes "denotes a x" "denotes b y"
  shows "cfvariant_add a b = Inr (promote (x + y)) \<and> cfvariant_sub a b = Inr (promote (x - y)) \<and> cfvariant_mul a b = Inr (promote (x * y))"
  using arith_exact [OF assms] by (simp add: cfvariant_add_def cfvariant_sub_def cfvariant_mul_def)

lemma text_of_int: "in_int64 n \<Longrightarrow> number n 10 = s \<Longrightarrow> denotes (VString s) n"
  using of_text by blast

lemma integer_arithmetic_exact_witness:
  "cfvariant_add (VString ''-12'') (VLong 2147483660) = Inr (promote 2147483648) \<and> cfvariant_sub (VString ''-12'') (VLong 2147483660) = Inr (promote (- 2147483672))
    \<and> cfvariant_mul (VString ''-12'') (VLong 2147483660) = Inr (promote (- 25769803920))"
proof -
  have "in_int64 (- 12)" "number (- 12) 10 = ''-12''" "in_int64 2147483660" by code_simp+
  then have "denotes (VString ''-12'') (- 12)" "denotes (VLong 2147483660) 2147483660" by (auto intro: text_of_int of_long)
  from integer_arithmetic_exact [OF this] show ?thesis by simp
qed

text \<open>C16: On 32-bit integers \<open>\\<close> and \<open>MOD\<close> are the quotient and the remainder of the truncated division, although the
  quotient is computed in floating point. The one exception is \<open>-2147483648 MOD -1\<close>, which is undefined behaviour.\<close>

theorem division_identity:
  assumes "denotes a x" "denotes b y" "in_int32 x" "in_int32 y" "y \<noteq> 0"
  shows "if x = int_min \<and> y = - 1 then cfvariant_idiv a b = Inr (VLong (2 ^ 31)) \<and> cfvariant_mod a b = Inl UB
    else \<exists>q r. cfvariant_idiv a b = Inr (VNumber q) \<and> cfvariant_mod a b = Inr (VNumber r) \<and> x = q * y + r \<and> \<bar>r\<bar> < \<bar>y\<bar> \<and> (r = 0 \<or> sgn r = sgn x)"
proof (cases "x = int_min \<and> y = - 1")
  case True
  have "int_min sdiv - 1 = 2 ^ 31 \<and> \<not> in_int32 (2 ^ 31)" by code_simp
  with True show ?thesis using idiv_exact [OF assms] mod_exact [OF assms(1-4)] by simp
next
  case False
  let ?q = "\<bar>x\<bar> div \<bar>y\<bar>"
  have x: "\<bar>x\<bar> \<le> 2 ^ 31" "x = - (2 ^ 31) \<or> \<bar>x\<bar> < 2 ^ 31" using assms(3) by (auto simp: in_int32_def int_min_def int_max_def)
  have q: "0 \<le> ?q" "?q \<le> \<bar>x\<bar>" "2 \<le> \<bar>y\<bar> \<Longrightarrow> ?q \<le> \<bar>x\<bar> div 2"
    using assms(5) zdiv_mono2 [of "\<bar>x\<bar>" 1 "\<bar>y\<bar>"] zdiv_mono2 [of "\<bar>x\<bar>" 2 "\<bar>y\<bar>"] by (simp_all add: pos_imp_zdiv_nonneg_iff)
  have "\<bar>x sdiv y\<bar> \<le> ?q" unfolding sdiv_signs using q(1) by (cases "x = 0"; cases "y = 0") (simp_all add: abs_mult)
  moreover have "x sdiv y = - (2 ^ 31) \<or> \<bar>x sdiv y\<bar> < 2 ^ 31"
  proof (cases "2 \<le> \<bar>y\<bar>")
    case True
    have "\<bar>x\<bar> div 2 \<le> 2 ^ 31 div 2" using x(1) by (rule zdiv_mono1) simp
    with True q(3) calculation show ?thesis by simp
  next
    case y: False
    then have "y = 1 \<or> y = - 1" using assms(5) by linarith
    moreover have "x sdiv 1 = x" "x sdiv - 1 = - x" by (simp_all add: sdiv_signs mult_sgn_abs)
    ultimately show ?thesis using x(2) False by (auto simp: int_min_def)
  qed
  ultimately have "in_int32 (x sdiv y)" using q x by (auto simp: in_int32_def int_min_def int_max_def)
  moreover have "x = x sdiv y * y + x smod y" by (simp add: sdiv_mult_smod_eq)
  moreover have "\<bar>x smod y\<bar> < \<bar>y\<bar>" using smod_int_range [where a = x and b = y] assms(5) by auto
  moreover have "0 \<le> \<bar>x\<bar> mod \<bar>y\<bar>" using assms(5) by simp
  then have "\<bar>x\<bar> mod \<bar>y\<bar> = 0 \<or> sgn (\<bar>x\<bar> mod \<bar>y\<bar>) = 1" by (auto simp only: less_le sgn_1_pos)
  then have "x smod y = 0 \<or> sgn (x smod y) = sgn x" by (elim disjE) (simp_all only: smod_int_alt_def sgn_mult sgn_sgn mult_zero_right mult_1_right simp_thms)
  ultimately show ?thesis using False idiv_exact [OF assms] mod_exact [OF assms(1-4)] assms(5) by auto
qed

lemma division_identity_witness:
  "\<exists>q r. cfvariant_idiv (VNumber (- 7)) (VNumber 2) = Inr (VNumber q) \<and> cfvariant_mod (VNumber (- 7)) (VNumber 2) = Inr (VNumber r) \<and> - 7 = q * 2 + r
    \<and> \<bar>r\<bar> < 2 \<and> (r = 0 \<or> sgn r = - 1)"
proof -
  have i: "in_int32 (- 7)" "in_int32 2" by code_simp+
  from division_identity [OF of_number [OF i(1)] of_number [OF i(2)] i] show ?thesis by (simp add: int_min_def)
qed

text \<open>C10: The comparison operators agree with each other on the values they are meant for: neither side an
  array, a struct, a query, binary data or a function (arrays, structs and queries are C40), neither a NaN, and both with a defined text. For any two such values exactly one of \<open>LT\<close>, \<open>EQ\<close>,
  \<open>GT\<close> holds, \<open>GTE\<close>, \<open>LTE\<close> and \<open>NEQ\<close> are their complements, \<open>GT\<close> is \<open>LT\<close> with the sides exchanged, and every such
  value equals itself.\<close>

theorem comparisons_agree:
  assumes "comparable lt a" "comparable lt b"
  shows "\<exists>l e g. compareVariants lt a b ''LT'' = Inr l \<and> compareVariants lt a b ''EQ'' = Inr e \<and> compareVariants lt a b ''GT'' = Inr g
    \<and> (if l then \<not> e \<and> \<not> g else e \<noteq> g) \<and> compareVariants lt a b ''GTE'' = Inr (\<not> l) \<and> compareVariants lt a b ''LTE'' = Inr (\<not> g)
    \<and> compareVariants lt a b ''NEQ'' = Inr (\<not> e) \<and> compareVariants lt b a ''LT'' = Inr g \<and> compareVariants lt b a ''EQ'' = Inr e
    \<and> compareVariants lt a a ''EQ'' = Inr True"
proof -
  obtain r where "cfCompare lt a b = Inr r" "cfCompare lt b a = Inr (- r)" using cfCompare_total [OF assms] by blast
  then show ?thesis using cfCompare_refl [OF assms(1)]
    by (intro exI [of _ "r < 0"] exI [of _ "r = 0"] exI [of _ "0 < r"]) (auto simp: compareVariants_def)
qed

lemma comparisons_agree_witness:
  "\<exists>l e g. compareVariants (tm_of (1970, 1, 1) 0 0) (VString ''9'') (VLong 10) ''LT'' = Inr l \<and> compareVariants (tm_of (1970, 1, 1) 0 0) (VString ''9'') (VLong 10) ''EQ'' = Inr e
    \<and> compareVariants (tm_of (1970, 1, 1) 0 0) (VString ''9'') (VLong 10) ''GT'' = Inr g \<and> (if l then \<not> e \<and> \<not> g else e \<noteq> g)
    \<and> compareVariants (tm_of (1970, 1, 1) 0 0) (VString ''9'') (VLong 10) ''GTE'' = Inr (\<not> l) \<and> compareVariants (tm_of (1970, 1, 1) 0 0) (VString ''9'') (VLong 10) ''LTE'' = Inr (\<not> g)
    \<and> compareVariants (tm_of (1970, 1, 1) 0 0) (VString ''9'') (VLong 10) ''NEQ'' = Inr (\<not> e) \<and> compareVariants (tm_of (1970, 1, 1) 0 0) (VLong 10) (VString ''9'') ''LT'' = Inr g
    \<and> compareVariants (tm_of (1970, 1, 1) 0 0) (VLong 10) (VString ''9'') ''EQ'' = Inr e \<and> compareVariants (tm_of (1970, 1, 1) 0 0) (VString ''9'') (VString ''9'') ''EQ'' = Inr True"
proof (rule comparisons_agree)
  show "comparable (tm_of (1970, 1, 1) 0 0) (VString ''9'')" unfolding comparable_def by code_simp
  show "comparable (tm_of (1970, 1, 1) 0 0) (VLong 10)" unfolding comparable_def by code_simp
qed

text \<open>C39: \<open>LT\<close> and \<open>EQ\<close> are not transitive: texts are compared as numbers when both look like one, and otherwise as text, so
  \<open>9 < 10 < 1a < 9\<close>, and \<open>1.\<close> equals the number 1, which equals the text \<open>1\<close>, which is not equal to \<open>1.\<close>.\<close>

theorem comparison_cycle:
  "compareVariants lt (VString ''9'') (VString ''10'') ''LT'' = Inr True \<and> compareVariants lt (VString ''10'') (VString ''1a'') ''LT'' = Inr True
    \<and> compareVariants lt (VString ''1a'') (VString ''9'') ''LT'' = Inr True
    \<and> compareVariants lt (VString ''1.'') (VNumber 1) ''EQ'' = Inr True \<and> compareVariants lt (VNumber 1) (VString ''1'') ''EQ'' = Inr True
    \<and> compareVariants lt (VString ''1.'') (VString ''1'') ''EQ'' = Inr False"
proof -
  have t: "tryCfDouble lt (VString ''9'') = Some (Fin 9)" "tryCfDouble lt (VString ''10'') = Some (Fin 10)" "tryCfDouble lt (VString ''1'') = Some (Fin 1)"
    "tryCfDouble lt (VString ''1.'') = Some (Fin 1)" "tryCfDouble lt (VNumber 1) = Some (Fin 1)" by code_simp+
  have a: "tryCfDouble lt (VString ''1a'') = None" by code_simp
  have d: "dcompare (Fin 9) (Fin 10) = - 1" "dcompare (Fin 1) (Fin 1) = 0" by code_simp+
  have c: "castToDouble (VString ''9'') (VString ''10'')" "\<not> castToDouble (VString ''1.'') (VString ''1'')" "castToDouble (VString ''1.'') (VNumber 1)"
    "castToDouble (VNumber 1) (VString ''1'')" by code_simp+
  have s: "compareCaseInsensitive ''10'' ''1a'' = - 1" "compareCaseInsensitive ''1a'' ''9'' = - 1" "compareCaseInsensitive ''1.'' ''1'' = 1" by code_simp+
  have n: "\<not> isComplex (VString x)" "\<not> isComplex (VNumber k)" for x k by (simp_all add: isComplex_def)
  have "cfCompare lt (VString ''9'') (VString ''10'') = Inr (- 1)" by (simp add: cfCompare_def n t c d)
  moreover have "cfCompare lt (VString ''10'') (VString ''1a'') = Inr (- 1)" by (simp add: cfCompare_def n t a s)
  moreover have "cfCompare lt (VString ''1a'') (VString ''9'') = Inr (- 1)" by (simp add: cfCompare_def n a s)
  moreover have "cfCompare lt (VString ''1.'') (VNumber 1) = Inr 0" by (simp add: cfCompare_def n t c d)
  moreover have "cfCompare lt (VNumber 1) (VString ''1'') = Inr 0" by (simp add: cfCompare_def n t c d)
  moreover have "cfCompare lt (VString ''1.'') (VString ''1'') = Inr 1" by (simp add: cfCompare_def n c s)
  ultimately show ?thesis by (simp add: compareVariants_def)
qed

text \<open>C40: Of two arrays, structs or queries each is greater than the other; components, images, XML documents and files, which
  the code does not count as complex, all equal each other and the empty text.\<close>

theorem containers_compare:
  assumes "k \<in> {KArray, KStruct, KQuery}" "c \<in> {KComponent, KImage, KXml, KFile, KJSon}" "d \<in> {KComponent, KImage, KXml, KFile, KJSon}"
  shows "compareVariants lt (VComplex k) v ''GT'' = Inr True \<and> compareVariants lt v (VComplex k) ''GT'' = Inr True
    \<and> compareVariants lt (VComplex c) (VComplex d) ''EQ'' = Inr True \<and> compareVariants lt (VComplex c) (VString []) ''EQ'' = Inr True"
proof -
  have k: "cfCompare lt (VComplex k) v = Inr 1" "cfCompare lt v (VComplex k) = Inr 1" using assms(1) by (auto simp: cfCompare_def isComplex_def)
  have n: "\<not> isComplex (VComplex c)" "\<not> isComplex (VComplex d)" "\<not> isComplex (VString [])" using assms(2,3) by (auto simp: isComplex_def)
  have t: "tryCfDouble lt (VComplex c) = None" by (simp add: tryCfDouble_def)
  have z: "compareCaseInsensitive [] [] = 0" by (simp add: compareCaseInsensitive_def)
  have "cfCompare lt (VComplex c) (VComplex d) = Inr 0" "cfCompare lt (VComplex c) (VString []) = Inr 0" using n t z by (simp_all add: cfCompare_def)
  with k show ?thesis by (simp add: compareVariants_def)
qed

lemma containers_compare_witness:
  "compareVariants (tm_of (1970, 1, 1) 0 0) (VComplex KStruct) (VComplex KArray) ''GT'' = Inr True
    \<and> compareVariants (tm_of (1970, 1, 1) 0 0) (VComplex KArray) (VComplex KStruct) ''GT'' = Inr True
    \<and> compareVariants (tm_of (1970, 1, 1) 0 0) (VComplex KComponent) (VComplex KImage) ''EQ'' = Inr True
    \<and> compareVariants (tm_of (1970, 1, 1) 0 0) (VComplex KComponent) (VString []) ''EQ'' = Inr True"
  by (rule containers_compare) simp_all

text \<open>Negation: \<open>-2147483648\<close> overflows, \<open>-true\<close> is 0 where \<open>0 - true\<close> is \<open>-1\<close>, and the text of an integer gives a double.\<close>

lemma negation_facts:
  "cfvariant_neg (VNumber int_min) = Inl UB" "cfvariant_neg (VBool True True) = Inr (VNumber 0)" "cfvariant_sub (VNumber 0) (VBool True True) = Inr (VNumber (- 1))"
  "cfvariant_neg (VString ''5'') = Inr (computed (Fin (- 5)))" "cfvariant_neg (VString ''5 '') = Inr (VNumber (- 5))" "cfvariant_neg VNull = Inl UB"
  by code_simp+

end
