(* ===== verification/Evaluate.thy ===== *)
theory Evaluate
  imports OperatorSpec SharpPrecedence SharpText
begin

text \<open>
  \<open>evaluateExpr\<close> of \<open>src/core/core_interp.cpp\<close> on values: the expression parser with the real operators, literals, string
  literals with interpolation, and the text of a value in the output. Member chains, calls, indexing and variables run the
  rest of the runtime: they are functions of the record \<open>environment\<close>. Nested expressions are bounded by a fuel; running
  out of it, like not returning, is \<open>UB\<close>, and the theorems show the results.
\<close>

section \<open>Literals\<close>

text \<open>A number: an \<open>int\<close>, a \<open>long\<close>, or a double; a double written without a minus sign keeps its text.\<close>

definition literal_number :: "bytes \<Rightarrow> variant option" where
  "literal_number e = (let (n, r) = read_int e in
     if r = [] \<and> in_int64 n then Some (if in_int32 n then VNumber n else if hd e \<noteq> CHR ''-'' then VLong n else computed (fl (of_int n)))
     else let (d, r) = strtod e in if r \<noteq> [] then None
       else Some (VFloat d (if hd e = CHR ''-'' then None else Some (if hd e = CHR ''+'' then tl e else e))))"

definition literal_value :: "bytes \<Rightarrow> variant option" where
  "literal_value e = (if compareCaseInsensitive e ''true'' = 0 \<or> compareCaseInsensitive e ''yes'' = 0 then Some (VBool True True)
     else if compareCaseInsensitive e ''false'' = 0 \<or> compareCaseInsensitive e ''no'' = 0 then Some (VBool False True)
     else if isCfmNumericLiteral e then literal_number e else None)"

section \<open>Operators\<close>

definition applySharpBinaryOp :: "(dbl \<Rightarrow> dbl \<Rightarrow> dbl) \<Rightarrow> (int \<Rightarrow> tm) \<Rightarrow> bytes \<Rightarrow> variant \<Rightarrow> variant \<Rightarrow> variant res" where
  "applySharpBinaryOp pow lt op lv rv = (if op = ''+'' then cfvariant_add lv rv else if op = ''-'' then cfvariant_sub lv rv
     else if op = ''*'' then cfvariant_mul lv rv else if op = ''/'' then cfvariant_div lv rv else if op = backslash then cfvariant_idiv lv rv
     else if op = ''^'' then cfvariant_pow pow lv rv else if op = ''MOD'' \<or> op = ''%'' then cfvariant_mod lv rv
     else if op = ''&'' then cfvariant_concat lv rv else if op = ''AND'' \<or> op = ''&&'' then cfvariant_and lv rv
     else if op = ''OR'' \<or> op = ''||'' then cfvariant_or lv rv else if op = ''XOR'' then cfvariant_xor lv rv
     else cfvariant_compare lt lv rv op)"

text \<open>\<open>appendExprValueAsString\<close>: the text of a value in the output; the name is that of the variable written.\<close>

definition unsupported :: "bytes option \<Rightarrow> err" where
  "unsupported name = (case name of None \<Rightarrow> Throw ''Cannot output value of unsupported type''
     | Some n \<Rightarrow> Throw (''Cannot output variable '' @ [apostrophe] @ n @ [apostrophe] @ '' of unsupported type''))"

definition appendExprValueAsString :: "bytes option \<Rightarrow> variant \<Rightarrow> bytes res" where
  "appendExprValueAsString name v = (case v of VBinary \<Rightarrow> Inl (unsupported name) | VComplex _ \<Rightarrow> Inl (unsupported name) | VNotSet \<Rightarrow> Inl (unsupported name)
     | _ \<Rightarrow> toString v)"

section \<open>Expressions\<close>

record 's environment =
  env_rt :: "(variant, 's) runtime"
  env_pow :: "dbl \<Rightarrow> dbl \<Rightarrow> dbl"
  env_lt :: "int \<Rightarrow> tm"
  env_chain :: "bytes \<Rightarrow> 's \<Rightarrow> (variant \<times> 's) res"
  env_call :: "bytes \<Rightarrow> bytes list \<Rightarrow> 's \<Rightarrow> (variant \<times> 's) res"
  env_index :: "bytes \<Rightarrow> 's \<Rightarrow> (variant \<times> 's) res option"
  env_variable :: "bytes \<Rightarrow> 's \<Rightarrow> (variant \<times> 's) res"

text \<open>The runtime of the parser: its recursive calls, and the operators on values.\<close>

definition value_runtime :: "'s environment \<Rightarrow> (bool \<Rightarrow> bytes \<Rightarrow> 's \<Rightarrow> (variant \<times> 's) res) \<Rightarrow> (variant, 's) runtime" where
  "value_runtime env ev = (env_rt env)\<lparr>ev_expr := ev, rt_binary := applySharpBinaryOp (env_pow env) (env_lt env), rt_not := cfvariant_not, rt_neg := cfvariant_neg,
     rt_truthy := isTruthy, rt_ternary := \<lambda>c t e. Inr (cf_ternary_select c t e)\<rparr>"

text \<open>An index, \<open>name[...]\<close>, and a text in quotes.\<close>

definition has_index :: "bytes \<Rightarrow> bool" where
  "has_index e \<longleftrightarrow> 0 < str_indexOf_char e (CHR ''['') 0 \<and> str_indexOf_char e (CHR ''['') 0 < str_indexOf_char e (CHR '']'') 0"

definition quoted_by :: "char \<Rightarrow> bytes \<Rightarrow> bool" where
  "quoted_by q e \<longleftrightarrow> hd e = q \<and> last e = q"

definition string_literal :: "(bool \<Rightarrow> bytes \<Rightarrow> 's \<Rightarrow> (variant \<times> 's) res) \<Rightarrow> bytes \<Rightarrow> char \<Rightarrow> 's \<Rightarrow> (variant \<times> 's) res" where
  "string_literal ev e q st = (let hole = (\<lambda>x st. ebind (ev True x st) (\<lambda>(v, st1). ebind (appendExprValueAsString None v) (\<lambda>t. Inr (t, st1))))
     in ebind (evaluateStringLiteral hole e q st) (\<lambda>(t, st1). Inr (VString t, st1)))"

text \<open>An index of something that is neither a container nor a scalar variable is tried as the cases after it.\<close>

definition evaluateAtom :: "'s environment \<Rightarrow> (bool \<Rightarrow> bytes \<Rightarrow> 's \<Rightarrow> (variant \<times> 's) res) \<Rightarrow> bytes \<Rightarrow> 's \<Rightarrow> (variant \<times> 's) res" where
  "evaluateAtom env ev e st = (if 0 < findChainStart e then env_chain env e st else
     case parseFuncCall e of Some (name, args) \<Rightarrow> env_call env name args st | None \<Rightarrow>
     (case (if has_index e then env_index env e st else None) of Some r \<Rightarrow> r | None \<Rightarrow>
       if quoted_by (CHR 0x22) e then string_literal ev e (CHR 0x22) st
       else if quoted_by (CHR 0x27) e then string_literal ev e (CHR 0x27) st
       else case literal_value e of Some v \<Rightarrow> Inr (v, st) | None \<Rightarrow> env_variable env e st))"

text \<open>When the parser stops before the end, the whole text is taken as an atom.\<close>

fun evaluateExpr :: "nat \<Rightarrow> 's environment \<Rightarrow> bool \<Rightarrow> bytes \<Rightarrow> 's \<Rightarrow> (variant \<times> 's) res" where
  "evaluateExpr 0 env parseBinary expr st = Inl UB"
| "evaluateExpr (Suc n) env parseBinary expr st = (let e = trimmed expr in
     if e = [] then Inr (VNull, st) else if \<not> parseBinary then evaluateAtom env (evaluateExpr n env) e st else
     case sharpParseExpr (Suc (length e)) (value_runtime env (evaluateExpr n env)) e 0 0 st of None \<Rightarrow> Inl UB
     | Some (Inl err) \<Rightarrow> Inl err
     | Some (Inr (v, pos, st1)) \<Rightarrow> if skip_while sp_tab e pos = length e then Inr (v, st1) else evaluateAtom env (evaluateExpr n env) e st1)"

text \<open>The text written so far is the first part of the state; a binary response ignores other output.\<close>

definition cfoutputexpr :: "bool \<Rightarrow> nat \<Rightarrow> (bytes \<times> 's) environment \<Rightarrow> bytes \<Rightarrow> bytes \<times> 's \<Rightarrow> (bytes \<times> 's) res" where
  "cfoutputexpr binary_response n env varName st = (if binary_response then Inr st else
     ebind (evaluateExpr n env True varName st) (\<lambda>(v, out, st1). ebind (appendExprValueAsString (Some varName) v) (\<lambda>t. Inr (out @ t, st1))))"

end
