(* ===== verification/EvaluateSpec.thy ===== *)
theory EvaluateSpec
  imports Evaluate DateParse
begin

text \<open>
  Integer arithmetic in a template: the text of an expression, with the parentheses the precedences ask for and no
  others, evaluates to the integer it denotes.
\<close>

section \<open>Arithmetic expressions\<close>

datatype arith_op = Add | Sub | Mul | Quot | Rem

datatype aexp = Num nat | Neg aexp | Arith aexp arith_op aexp

fun op_text :: "arith_op \<Rightarrow> bytes" where
  "op_text Add = ''+''"
| "op_text Sub = ''-''"
| "op_text Mul = ''*''"
| "op_text Quot = backslash"
| "op_text Rem = ''MOD''"

fun arith_value :: "arith_op \<Rightarrow> int \<Rightarrow> int \<Rightarrow> int" where
  "arith_value Add x y = x + y"
| "arith_value Sub x y = x - y"
| "arith_value Mul x y = x * y"
| "arith_value Quot x y = x sdiv y"
| "arith_value Rem x y = x smod y"

fun aval :: "aexp \<Rightarrow> int" where
  "aval (Num n) = int n"
| "aval (Neg a) = - aval a"
| "aval (Arith a f b) = arith_value f (aval a) (aval b)"

text \<open>Every intermediate result is an \<open>int\<close>, no divisor is 0, and \<open>MOD\<close> does not overflow.\<close>

fun in_range :: "aexp \<Rightarrow> bool" where
  "in_range (Num n) = in_int32 (int n)"
| "in_range (Neg a) = (in_range a \<and> in_int32 (- aval a))"
| "in_range (Arith a f b) = (in_range a \<and> in_range b \<and> in_int32 (arith_value f (aval a) (aval b))
     \<and> (f \<in> {Quot, Rem} \<longrightarrow> aval b \<noteq> 0) \<and> (f = Rem \<longrightarrow> \<not> (aval a = int_min \<and> aval b = - 1)))"

fun nodes :: "aexp \<Rightarrow> nat" where
  "nodes (Num n) = 1"
| "nodes (Neg a) = Suc (nodes a)"
| "nodes (Arith a f b) = Suc (nodes a + nodes b)"

text \<open>The tree at a precedence level: parentheses around an operator of a lower one.\<close>

fun minimal :: "int \<Rightarrow> aexp \<Rightarrow> etree" where
  "minimal m (Num n) = Atom (number (int n) 10)"
| "minimal m (Neg a) = Pre ''-'' (minimal 13 a)"
| "minimal m (Arith a f b) = (let p = sharpBinOpPrec (op_text f); t = Bin (minimal p a) (op_text f) (minimal (p + 1) b)
     in if m \<le> p then t else Atom (''('' @ print t @ '')''))"

definition source :: "aexp \<Rightarrow> bytes" where
  "source a = print (minimal 0 a)"

section \<open>The text fits the grammar\<close>

lemma op_level: "sharpBinOpPrec (op_text f) = (if f \<in> {Add, Sub} then 10 else 11)" "op_text f \<in> set binops" "op_text f \<noteq> ''IS''"
  "\<not> is_and (op_text f)" "\<not> is_or (op_text f)"
  by (induction f, code_simp+)+

lemma minus_level: "sharpUnaryOpPrec ''-'' = 13" "''-'' \<in> set unops"
  by code_simp+

lemma number_nat: "list_all is_digit (number (int n) 10)"
  by (rule number_shape [of "int n"]) simp

lemma edge_minimal: "m \<le> 13 \<Longrightarrow> m \<le> edge (minimal m a) \<and> (m < 13 \<longrightarrow> m < edge (minimal m a))"
proof (induction a arbitrary: m)
  case (Neg a)
  from Neg.IH [of 13] Neg.prems show ?case by (simp add: minus_level)
next
  case (Arith a f b)
  let ?p = "sharpBinOpPrec (op_text f)"
  have "?p + 1 \<le> edge (minimal (?p + 1) b)" by (rule conjunct1, rule Arith.IH(2)) (simp add: op_level)
  with Arith.prems show ?case by (auto simp: Let_def)
qed simp

lemma close_loop_text:
  assumes "1 \<le> d"
  shows "close_loop (CHR ''('') (CHR '')'') d False False i (print (minimal m a) @ r)
    = close_loop (CHR ''('') (CHR '')'') d False False (i + length (print (minimal m a))) r"
  using assms
proof (induction a arbitrary: m d i r)
  case (Num n)
  have "list_all is_digit ds \<Longrightarrow> close_loop (CHR ''('') (CHR '')'') d False False i (ds @ r)
      = close_loop (CHR ''('') (CHR '')'') d False False (i + length ds) r" for ds i
  proof (induction ds arbitrary: i)
    case (Cons c ds)
    have "c \<noteq> CHR ''(''" "c \<noteq> CHR '')''" "c \<noteq> CHR 0x22" "c \<noteq> CHR 0x27" using Cons.prems by (auto simp: is_digit_def char_le_nat)
    with Cons show ?case by simp
  qed simp
  from this [OF number_nat] show ?case by simp
next
  case (Arith a f b)
  have "close_loop (CHR ''('') (CHR '')'') d False False i (op_text f @ r) = close_loop (CHR ''('') (CHR '')'') d False False (i + length (op_text f)) r" for d i r
    by (cases f) (simp_all add: backslash_def)
  then show ?case using Arith by (simp add: Let_def add.assoc)
qed simp

lemma paren_atom: "is_atom (''('' @ print (minimal m a) @ '')'')"
  using close_loop_text [of 1 1 m a "'')''"] by (simp add: is_atom_def is_paren_def findMatchingClose_def closer_def)

lemma fits_mono: "fits m t \<Longrightarrow> k \<le> m \<Longrightarrow> fits k t"
  by (induction t) auto

lemma fits_minimal: "m \<le> 13 \<Longrightarrow> fits m (minimal m a)"
proof (induction a arbitrary: m)
  case (Num n)
  then show ?case using number_nat [of n] number_text(1) [of "int n"] by (simp add: is_atom_def is_number_def)
next
  case (Neg a)
  then show ?case by (simp add: minus_level)
next
  case (Arith a f b)
  let ?p = "sharpBinOpPrec (op_text f)"
  have p: "?p \<le> 13" "?p < 13" "?p + 1 \<le> 13" by (simp_all add: op_level)
  show ?case
  proof (cases "m \<le> ?p")
    case True
    then show ?thesis using Arith.IH(1) [OF p(1)] Arith.IH(2) [OF p(3)] edge_minimal [OF p(1), of a] p(2)
      by (simp add: Let_def op_level(2,3) fits_mono [of ?p _ m])
  qed (use paren_atom [of ?p "Arith a f b"] in \<open>simp add: Let_def\<close>)
qed

section \<open>The value\<close>

lemma minimal_arith: "minimal m (Arith a f b) = (if m \<le> sharpBinOpPrec (op_text f) then minimal 0 (Arith a f b)
     else Atom (''('' @ source (Arith a f b) @ '')''))"
  using op_level(1) [of f] by (simp add: Let_def source_def)

lemma minimal_bin: "minimal 0 (Arith a f b) = Bin (minimal (sharpBinOpPrec (op_text f)) a) (op_text f) (minimal (sharpBinOpPrec (op_text f) + 1) b)"
  using op_level(1) [of f] by (simp add: Let_def)

lemma text_ends: "print (minimal m a) \<noteq> [] \<and> \<not> is_space (hd (print (minimal m a))) \<and> \<not> is_space (last (print (minimal m a)))"
proof (induction a arbitrary: m)
  case (Num n)
  have "number (int n) 10 \<noteq> []" "list_all is_digit (number (int n) 10)" by (simp_all add: number_text number_nat)
  then have "is_digit (hd (number (int n) 10))" "is_digit (last (number (int n) 10))" by (simp_all add: list_all_iff)
  then show ?case using digit_ne(10) number_text(1) [of "int n"] by simp
next
  case (Neg a)
  have "\<not> is_space (CHR ''-'')" by code_simp
  with Neg [of 13] show ?case by simp
next
  case (Arith a f b)
  have "\<not> is_space (CHR ''('')" "\<not> is_space (CHR '')'')" by code_simp+
  with Arith show ?case by (simp add: Let_def)
qed

lemma trimmed_print: "trimmed (print (minimal m a)) = print (minimal m a)"
  using text_ends [of m a] by (simp add: trimmed_id)

text \<open>A number is read as itself.\<close>

lemma evaluate_number:
  assumes "in_int32 (int n)"
  shows "evaluateAtom env ev (number (int n) 10) st = Inr (VNumber (int n), st)"
proof -
  obtain c r where c: "number (int n) 10 = c # r" using number_text(1) [of "int n"] by (cases "number (int n) 10") auto
  have ds: "list_all is_digit (c # r)" using number_nat [of n] c by simp
  then have all: "d \<in> set (c # r) \<Longrightarrow> is_digit d" for d by (simp only: list_all_iff)
  then have d: "is_digit c" "is_digit (last (c # r))" using last_in_set [of "c # r"] by simp_all
  have no: "\<not> is_digit x" if "x \<in> set ''()[]tynf.'' \<union> {CHR 0x22, CHR 0x27}" for x using that by (auto simp: is_digit_def char_le_nat)
  have ne: "x \<in> set ''()[]tynf.'' \<union> {CHR 0x22, CHR 0x27} \<Longrightarrow> is_digit y \<Longrightarrow> y \<noteq> x" for x y using no by blast
  have out: "x \<in> set ''(['' \<Longrightarrow> str_indexOf_char (c # r) x 0 = - 1" for x
    using all no [of x] indexOf_char_drop [of 0 "c # r" x] by auto
  have t: "trimmed (c # r) = c # r" using d digit_ne(10) by (intro trimmed_id) simp_all
  have "(c # r) ! (length (c # r) - 1) \<noteq> CHR '')''" using ne [of "CHR '')''", OF _ d(2)] last_conv_nth [of "c # r"] by (simp del: last.simps nth_Cons_Suc)
  then have access: "\<not> 0 < findChainStart (c # r)" "parseFuncCall (c # r) = None" "\<not> has_index (c # r)"
    using out t by (simp_all add: has_index_def findChainStart_def parseFuncCall_def)
  have q: "\<not> quoted_by (CHR 0x22) (c # r)" "\<not> quoted_by (CHR 0x27) (c # r)" using ne [OF _ d(1)] by (simp_all add: quoted_by_def)
  have l: "to_lower c = c" "c \<noteq> CHR ''t''" "c \<noteq> CHR ''y''" "c \<noteq> CHR ''f''" "c \<noteq> CHR ''n''"
    using ne [OF _ d(1)] digit_ne(14) [OF d(1)] by (simp_all add: to_lower_def)
  have lows: "to_lower (CHR ''t'') = CHR ''t''" "to_lower (CHR ''y'') = CHR ''y''" "to_lower (CHR ''f'') = CHR ''f''" "to_lower (CHR ''n'') = CHR ''n''" by code_simp+
  have words: "cstr ''true'' = ''true''" "cstr ''yes'' = ''yes''" "cstr ''false'' = ''false''" "cstr ''no'' = ''no''" by code_simp+
  have "compareCaseInsensitive (c # r) w \<noteq> 0" if "w \<in> {''true'', ''yes'', ''false'', ''no''}" for w
    using that l lows number_cstr [of "int n"] unfolding c by (auto simp: compareCaseInsensitive_def words split: if_splits)
  moreover have "isCfmNumericLiteral (c # r)"
    using ne [OF _ d(1)] digit_ne [OF d(1)] all_digits(1) [OF ds] by (simp add: isCfmNumericLiteral_def skip_while_def)
  moreover have "literal_number (c # r) = Some (VNumber (int n))"
    using read_int_number [of "int n"] assms unfolding c by (simp add: literal_number_def in_int32_def in_int64_def int_min_def int_max_def llong_min_def llong_max_def)
  ultimately have "literal_value (c # r) = Some (VNumber (int n))" by (simp add: literal_value_def)
  then show ?thesis unfolding c evaluateAtom_def using access q by simp
qed

lemma apply_arith:
  assumes "in_int32 x" "in_int32 y" "in_int32 (arith_value f x y)" "f \<in> {Quot, Rem} \<longrightarrow> y \<noteq> 0" "f = Rem \<longrightarrow> \<not> (x = int_min \<and> y = - 1)"
  shows "applySharpBinaryOp pow lt (op_text f) (VNumber x) (VNumber y) = Inr (VNumber (arith_value f x y))"
proof -
  note d = of_number [OF assms(1)] of_number [OF assms(2)]
  show ?thesis using assms arith_exact [OF d] idiv_exact [OF d] mod_exact [OF d]
    by (cases f) (auto simp: applySharpBinaryOp_def cfvariant_add_def cfvariant_sub_def cfvariant_mul_def promote_def backslash_def)
qed

lemma negate: "in_int32 (- x) \<Longrightarrow> cfvariant_neg (VNumber x) = Inr (VNumber (- x))"
  by (auto simp: cfvariant_neg_def arithOperand_def in_int32_def int_min_def int_max_def)

lemma in_range_value: "in_range a \<Longrightarrow> in_int32 (aval a)"
  by (cases a) auto

lemma evaluate_source:
  assumes "eval (value_runtime env (evaluateExpr n env)) (minimal 0 a) st = Inr (v, st1)"
  shows "evaluateExpr (Suc n) env True (source a) st = Inr (v, st1)"
  using assms parse_printed [OF fits_minimal [of 0 a], of "value_runtime env (evaluateExpr n env)" st] text_ends [of 0 a]
  by (simp add: source_def trimmed_print skip_while_def Let_def del: sharpParseExpr.simps)

lemma eval_minimal:
  "in_range a \<Longrightarrow> nodes a \<le> n \<Longrightarrow> eval (value_runtime env (evaluateExpr n env)) (minimal m a) st = Inr (VNumber (aval a), st)"
proof (induction a arbitrary: m n st)
  case (Num k)
  then obtain j where n: "n = Suc j" by (cases n) auto
  have t: "trimmed (number (int k) 10) = number (int k) 10" using trimmed_print [of 0 "Num k"] by simp
  have "is_digit (hd (number (int k) 10))" using number_nat [of k] number_text(1) [of "int k"] by (cases "number (int k) 10") auto
  then have "hd (number (int k) 10) \<noteq> CHR ''(''" by (auto simp: is_digit_def char_le_nat)
  then show ?case using Num evaluate_number [of k] by (simp add: eval_atom_def value_runtime_def n t number_text(1))
next
  case (Neg a)
  then show ?case by (simp add: apply_unary_def value_runtime_def negate)
next
  case (Arith a f b)
  have bin: "eval (value_runtime env (evaluateExpr k env)) (minimal 0 (Arith a f b)) st = Inr (VNumber (aval (Arith a f b)), st)"
    if "nodes a + nodes b \<le> k" for k st
  proof -
    let ?rt = "value_runtime env (evaluateExpr k env)"
    have "eval ?rt (minimal l a) st = Inr (VNumber (aval a), st)" "eval ?rt (minimal l b) st = Inr (VNumber (aval b), st)" for l
      using Arith.IH(1) [of k l st] Arith.IH(2) [of k l st] Arith.prems(1) that by simp_all
    moreover have "rt_binary ?rt (op_text f) (VNumber (aval a)) (VNumber (aval b)) = Inr (VNumber (aval (Arith a f b)))"
      using apply_arith [of "aval a" "aval b" f] Arith.prems(1) in_range_value by (simp add: value_runtime_def)
    ultimately show ?thesis unfolding minimal_bin by (simp add: op_level(4,5))
  qed
  show ?case
  proof (cases "m \<le> sharpBinOpPrec (op_text f)")
    case True
    then show ?thesis using bin [of n st] Arith.prems(2) by (subst minimal_arith) simp
  next
    case False
    obtain k where n: "n = Suc k" "nodes a + nodes b \<le> k" using Arith.prems(2) by (cases n) auto
    have "trimmed (str_mid (''('' @ source (Arith a f b) @ '')'') 1 (int (length (''('' @ source (Arith a f b) @ '')'')) - 2)) = source (Arith a f b)"
      using text_ends [of 0 "Arith a f b"] trimmed_print [of 0 "Arith a f b"] by (simp add: str_mid_def source_def)
    then have "eval (value_runtime env (evaluateExpr n env)) (Atom (''('' @ source (Arith a f b) @ '')'')) st
        = evaluateExpr n env True (source (Arith a f b)) st"
      by (simp add: eval_atom_def value_runtime_def)
    then show ?thesis using evaluate_source [OF bin [OF n(2)]] False unfolding n(1) by (subst minimal_arith) simp
  qed
qed

section \<open>In a template\<close>

text \<open>C15: An arithmetic expression over integers, written with the parentheses the precedences ask for and no others,
  puts its value behind the output, as long as every intermediate result is an \<open>int\<close>: the integer division and \<open>MOD\<close> truncate, operators
  of one level associate to the left. It changes no state, whatever the runtime behind variables and calls.\<close>

theorem arithmetic_in_templates:
  assumes "in_range a" "nodes a < n"
  shows "cfoutputexpr False n env (source a) (out, st) = Inr (out @ number (aval a) 10, st)"
proof -
  obtain k where "n = Suc k" "nodes a \<le> k" using assms(2) by (cases n) auto
  then show ?thesis using evaluate_source [OF eval_minimal [OF assms(1)], of k env "(out, st)"] by (simp add: cfoutputexpr_def appendExprValueAsString_def del: evaluateExpr.simps)
qed

text \<open>\<open>(7 - 2 * - (3 + 4)) MOD 5\<close>.\<close>

definition sample_sum :: aexp where
  "sample_sum = Arith (Arith (Num 7) Sub (Arith (Num 2) Mul (Neg (Arith (Num 3) Add (Num 4))))) Rem (Num 5)"

lemma arithmetic_in_templates_witness:
  "source sample_sum = ''(7 - 2 * - (3 + 4)) MOD 5'' \<and> (\<forall>env (st :: nat). cfoutputexpr False 12 env ''(7 - 2 * - (3 + 4)) MOD 5'' (''= '', st) = Inr (''= 1'', st))"
proof -
  have s: "source sample_sum = ''(7 - 2 * - (3 + 4)) MOD 5''" "in_range sample_sum" "nodes sample_sum < 12" "number (aval sample_sum) 10 = ''1''" by code_simp+
  from arithmetic_in_templates [OF s(2,3), unfolded s(1,4), of _ "''= ''"] have "cfoutputexpr False 12 env ''(7 - 2 * - (3 + 4)) MOD 5'' (''= '', st) = Inr (''= 1'', st)"
    for env and st :: nat by simp
  with s(1) show ?thesis by blast
qed

end
