(* ===== verification/Spec2Isabelle.thy ===== *)
theory Spec2Isabelle
  imports Prelude HttpResponse HttpHeaders HttpClean CowString CowValues CowSafety StringOps ListFuns Codecs Charsets TemplateReader TemplateCache
    Decimal DecimalArith DecimalSpec DecimalText Tables ScopeStore ScopeSpec
    Reaper CacheStore StructMap StructHeap CycleCollector StructPrograms
    SharpLexer SharpParser SharpFuel SharpExtent SharpGrammar SharpPrecedence SharpScan SharpText
    Doubles Dates Calendar DateTimes DateText DateParse DateProps Variants Operators OperatorSpec Evaluate EvaluateSpec
begin

text \<open>
  \<^bold>\<open>WebStrada: a verification library.\<close>

  WebStrada is a CFML application server. A request runs a CFML template that is read and decoded
  (\<open>src/template_reader.cpp\<close>), tokenised, compiled through LLVM (\<open>src/codegen\<close>), kept in a cache of the worker
  (\<open>src/template_cache.cpp\<close>) and executed against a runtime library (\<open>src/core\<close>, \<open>src/cffunctions\<close>, \<open>src/cftags\<close>).
  The runtime works on values of the class \<open>cfvariant\<close> (\<open>src/cfvariant.cpp\<close>) over a copy-on-write string class
  (\<open>src/string.cpp\<close>), and writes a response (\<open>src/cftags/common.cpp\<close>, \<open>src/core/core_response.cpp\<close>). The scopes that
  outlive a request live in SQLite databases the worker processes share (\<open>src/scope_store.cpp\<close>,
  \<open>src/cache_store.cpp\<close>), and a process of its own ends the expired ones (\<open>src/reaper.cpp\<close>). All paths are relative to
  the \<open>src/\<close> directory of the repository.

  \<^bold>\<open>Conventions.\<close>
  A text is a list of bytes (\<open>Prelude\<close>). A routine that can throw or run into undefined behaviour returns a sum:
  \<open>Inl (Throw m)\<close> for an exception with its message, \<open>Inl UB\<close> for undefined behaviour, \<open>Inr x\<close> for a result.
  State is passed explicitly. Third-party code (SQLite statements, ICU, libm, the tokenizer, the time zone database) is
  an argument of the definitions that use it. Each theory opens with what it models and what it leaves out.

  \<^bold>\<open>Theories, by component.\<close>
  \<^item> Strings: \<open>CowString\<close> is \<open>src/string.cpp\<close> as a heap of reference-counted blocks, with every operation that changes a
    string; \<open>CowValues\<close> gives its meaning on values; \<open>CowSafety\<close> proves the heap invariant (exact counts, bounds, no
    leak) and that programs over shared strings compute the values of the machine without sharing. \<open>StringOps\<close> holds
    the const member functions: comparison, searching, cutting, splitting, numbers, escaping.
  \<^item> Lists: \<open>ListFuns\<close>, the list built-ins (\<open>src/cffunctions/fn_list*.cpp\<close>) with \<open>parseList\<close>, \<open>splitList\<close>, \<open>joinList\<close>.
  \<^item> Codecs: \<open>Codecs\<close>, hex, base64, base64url, UU and URL encoding, with their round trips; \<open>Charsets\<close>, the character
    encodings and the normalisation of their names.
  \<^item> Decimals: \<open>Decimal\<close> (digit strings, \<open>src/codegen/fn_precisionevaluate.cpp\<close>), \<open>DecimalArith\<close> and \<open>DecimalSpec\<close>
    (the operations against the rationals), \<open>DecimalText\<close> (parsing and printing).
  \<^item> Stores: \<open>Tables\<close> gives the SQL statements their documented meaning on a list of rows, with their outcome a
    parameter; \<open>ScopeStore\<close> and \<open>ScopeSpec\<close> model \<open>src/scope_store.cpp\<close> and refine it to a map with expiry;
    \<open>CacheStore\<close> does so for \<open>src/cache_store.cpp\<close>, with two expiry intervals; \<open>Reaper\<close> models the reaping round and the
    timer of \<open>src/reaper.cpp\<close> over the scope store.
  \<^item> Structs: \<open>StructMap\<close>, one struct as an ordered case-insensitive map with insertion order
    (\<open>StructData\<close> of \<open>src/include/webstrada/cfvariant.h\<close>) and the \<open>Struct*\<close> built-ins; \<open>StructHeap\<close>, the heap of shared structs with
    \<open>struct_data_retain\<close>, \<open>struct_data_release\<close> and \<open>tryCollectCycles\<close> (\<open>src/cfvariant.cpp\<close>); \<open>CycleCollector\<close>, what the
    collector frees; \<open>StructPrograms\<close>, programs over struct variables against a memory that is never freed.
  \<^item> Expressions: \<open>SharpLexer\<close>, \<open>SharpParser\<close>, \<open>SharpText\<close> model the interpreter of \<open>#...#\<close> expressions in
    \<open>src/core/core_interp.cpp\<close>: scanners, precedence climbing, skipping of short-circuited operands, string literals.
    \<open>SharpFuel\<close> shows progress and termination, \<open>SharpExtent\<close> that skipping covers what evaluating covers,
    \<open>SharpGrammar\<close> and \<open>SharpPrecedence\<close> the evaluator against the precedence grammar, \<open>SharpScan\<close> brackets, splitting,
    calls and the two operator tables.
  \<^item> Templates: \<open>TemplateReader\<close>, byte order marks, \<open>pageEncoding\<close> directives and the choice of the encoding;
    \<open>TemplateCache\<close>, lookup by modification time, in whole seconds of the times the files have, and the lifetime of
    compiled definitions, their parents and interfaces included, over a changing file system.
  \<^item> Responses: \<open>HttpResponse\<close> (the response, the tags that write output, headers and cookies, and the discard buffers);
    \<open>HttpHeaders\<close>, when headers are sent and what body is sent; \<open>HttpClean\<close>, when a header line can be forged.
  \<^item> Numbers and dates: \<open>Doubles\<close>, doubles as rationals rounded to 53 bits, with \<open>strtod\<close>, \<open>strtoll\<close> and \<open>%.12g\<close>;
    \<open>Dates\<close>, calendar conversion, rendering and parsing (\<open>src/cffunctions/common.cpp\<close>); \<open>Calendar\<close> (day numbers),
    \<open>DateTimes\<close> (rounding of the conversions), \<open>DateText\<close> and \<open>DateParse\<close> (scanning), \<open>DateProps\<close> (the results).
  \<^item> Values: \<open>Variants\<close>, the conversions of a value to text, numbers and truth; \<open>Operators\<close>, arithmetic, logic,
    concatenation and comparison (\<open>src/core/core_membermethods.cpp\<close>, \<open>src/core/core_interp.cpp\<close>); \<open>OperatorSpec\<close>, their laws.
  \<^item> Output: \<open>Evaluate\<close> puts the expression parser, the literals and the operators together as \<open>evaluateExpr\<close> and
    \<open>cfoutputexpr\<close>; \<open>EvaluateSpec\<close> shows what arithmetic in a template writes.

  \<^bold>\<open>Interfaces.\<close> Locales state what one component relies on of another, and are interpreted on the model's own
  definitions in the theory that provides them; properties use the facts of the interpretations.

  \<^bold>\<open>Bounds and fuel.\<close>
  \<^item> The expression evaluator and the skipper run with fuel; \<open>2 * (length s - pos) + 2\<close> is enough from position
    \<open>pos\<close>, and any larger fuel gives the same result (\<open>SharpFuel\<close>). A number whose exponent letter has no digits makes
    the scanner loop for ever; the scan is a partial function, and termination is proved for texts without such a number.
  \<^item> The walks of the cycle collector use the number of blocks plus one; releasing references uses the number of
    references of the heap (\<open>CycleCollector\<close>).
  \<^item> Reference counts, lengths of texts and calendar fields are integers without bound, where the code has \<open>int\<close> or
    \<open>size_t\<close>: a count that overflows needs more than 2^31 references. Arithmetic on numbers that come from a program is
    bounded as in the code: sums of 32-bit positions of a string, the 32-bit scales of decimals and the 64-bit times of
    the cache are undefined behaviour when they overflow (\<open>signed_op\<close> of \<open>Prelude\<close>), and conversions to 32 or 64
    bits are done where the code does them (promotion to a double beyond 32 bits, \<open>INT_MIN\<close> divided by -1).
  \<^item> Releasing a component definition recurses through the definitions it holds; its depth is bounded by the number of
    definitions made so far, since links close no cycle (\<open>TemplateCache\<close>).
  \<^item> A double is a rational rounded to 53 bits, half to even, subnormal numbers and overflow included; the two zeros
    are identified. The results on dates are for the years 0 to 9999.

  \<^bold>\<open>Not modelled.\<close> The LLVM code generation and the tokenizer, the component and function runtime, member methods,
  queries and database drivers, XML, JSON values, images, regular expressions, encryption, files, mail, FTP and HTTP
  clients, the FastCGI workers, configuration, the profiler and the administration pages: they are calls to libraries
  and to the operating system, or not reached yet. What is left out inside a component is said in its theory.
\<close>

end
